(* ===== verification/Prelude.thy ===== *)
theory Prelude
  imports Main "HOL-Library.Word"
begin

text \<open>
  Shared vocabulary of the development: the ways a Rust operation can fail to return
  (a panic, or undefined behaviour in an \<open>unsafe\<close> block), results that carry
  them, machine integers with their overflow checks, the borrow flag of
  \<open>core::cell::RefCell\<close>, \<open>core::task::Poll\<close>, and the collections of
  rules the component theories share.
\<close>

text \<open>The equations that evaluate the model on concrete inputs.\<close>

named_theorems evals

section \<open>Faults and outcomes\<close>

text \<open>
  The panics the crate can raise, one constructor per kind, and the two ways control is
  lost without a panic: undefined behaviour (dereferencing a pointer to memory that holds
  no live entry) and a loop that does not stop within the fuel of its model.
\<close>

datatype panic =
    Arith_overflow
  | Unwrap_none
  | Unwrap_err
  | Expect_failed
  | Borrow_failed
  | Negative_count
  | Resumed_after_completion

datatype fault = Panic panic | UB | Out_of_fuel

type_synonym 'a outcome = "fault + 'a"

text \<open>Sequencing: the rest runs only if the first part returned a value.\<close>

fun andThen :: "'a outcome \<Rightarrow> ('a \<Rightarrow> 'b outcome) \<Rightarrow> 'b outcome" where
  "andThen (Inl e) k = Inl e"
| "andThen (Inr x) k = k x"

lemma andThen_Inr_iff:
  "andThen m k = Inr y \<longleftrightarrow> (\<exists>x. m = Inr x \<and> k x = Inr y)"
  by (cases m) auto

lemma andThen_Inl_iff:
  "andThen m k = Inl e \<longleftrightarrow> m = Inl e \<or> (\<exists>x. m = Inr x \<and> k x = Inl e)"
  by (cases m) auto

lemma andThen_assoc: "andThen (andThen m k) l = andThen m (\<lambda>x. andThen (k x) l)"
  by (cases m) auto

text \<open>\<open>Option::unwrap\<close> and \<open>Option::expect\<close>.\<close>

definition unwrap :: "'a option \<Rightarrow> 'a outcome" where
  "unwrap x = (case x of None \<Rightarrow> Inl (Panic Unwrap_none) | Some v \<Rightarrow> Inr v)"

definition expect :: "'a option \<Rightarrow> 'a outcome" where
  "expect x = (case x of None \<Rightarrow> Inl (Panic Expect_failed) | Some v \<Rightarrow> Inr v)"

lemma unwrap_simps [simp]:
  "unwrap None = Inl (Panic Unwrap_none)" "unwrap (Some v) = Inr v"
  by (simp_all add: unwrap_def)

lemma expect_simps [simp]:
  "expect None = Inl (Panic Expect_failed)" "expect (Some v) = Inr v"
  by (simp_all add: expect_def)

section \<open>Machine integers\<close>

text \<open>
  A \<open>usize\<close> (64 bits) is a natural number that never exceeds \<open>usize_max\<close>.
  The plain operators \<open>+\<close> and \<open>-\<close> are modelled with overflow checks on
  (the development profile): they panic where the release profile would wrap, so an
  operation proved to return a value behaves the same in both profiles.
\<close>

type_synonym usize = nat
type_synonym u64 = nat

definition usize_max :: usize where
  "usize_max = 2 ^ 64 - 1"

definition isize_max :: usize where
  "isize_max = 2 ^ 63 - 1"

definition usize_add :: "usize \<Rightarrow> usize \<Rightarrow> usize outcome" where
  "usize_add x y = (if x + y \<le> usize_max then Inr (x + y) else Inl (Panic Arith_overflow))"

definition usize_sub :: "usize \<Rightarrow> usize \<Rightarrow> usize outcome" where
  "usize_sub x y = (if y \<le> x then Inr (x - y) else Inl (Panic Arith_overflow))"

definition u64_max :: u64 where
  "u64_max = 2 ^ 64 - 1"

definition u64_add :: "u64 \<Rightarrow> u64 \<Rightarrow> u64 outcome" where
  "u64_add x y = (if x + y \<le> u64_max then Inr (x + y) else Inl (Panic Arith_overflow))"

definition checked_add :: "usize \<Rightarrow> usize \<Rightarrow> usize option" where
  "checked_add x y = (if x + y \<le> usize_max then Some (x + y) else None)"

definition checked_sub :: "usize \<Rightarrow> usize \<Rightarrow> usize option" where
  "checked_sub x y = (if y \<le> x then Some (x - y) else None)"

lemma usize_add_Inr [simp]: "x + y \<le> usize_max \<Longrightarrow> usize_add x y = Inr (x + y)"
  by (simp add: usize_add_def)

lemma usize_sub_Inr [simp]: "y \<le> x \<Longrightarrow> usize_sub x y = Inr (x - y)"
  by (simp add: usize_sub_def)

lemma usize_add_range: "usize_add x y = Inr z \<Longrightarrow> z \<le> usize_max \<and> z = x + y"
  by (auto simp: usize_add_def split: if_splits)

lemma usize_max_pos [simp]: "0 < usize_max" "Suc 0 \<le> usize_max"
  by (simp_all add: usize_max_def)

lemma unat_usize: "unat (p :: 64 word) \<le> usize_max"
  using unsigned_less [of p, where ?'a = nat] by (simp add: usize_max_def)

lemma isize_max_less: "isize_max < usize_max"
  by (simp add: isize_max_def usize_max_def)

lemma u64_add_Inr [simp]: "x + y \<le> u64_max \<Longrightarrow> u64_add x y = Inr (x + y)"
  by (simp add: u64_add_def)

declare u64_max_def [evals] u64_add_def [evals] usize_max_def [evals] isize_max_def [evals] usize_add_def [evals] usize_sub_def [evals]
  checked_add_def [evals] checked_sub_def [evals] Let_def [evals]

section \<open>Memory addresses\<close>

text \<open>
  Addresses are 64-bit words; \<open>NonNull\<close> pointers are the non-zero ones. There are
  \<open>usize_max\<close> of those, which is why a \<open>usize\<close> can count any set of
  objects that live at distinct addresses.
\<close>

type_synonym addr = "64 word"

lemma card_addr: "card (UNIV - {0 :: addr}) = usize_max"
  by (simp add: usize_max_def card_word)

lemma length_distinct_addrs:
  assumes "distinct (as :: addr list)" and "0 \<notin> set as"
  shows "length as \<le> usize_max"
proof -
  have "set as \<subseteq> UNIV - {0}" using assms(2) by auto
  then have "card (set as) \<le> card (UNIV - {0 :: addr})"
    by (intro card_mono) auto
  with assms(1) show ?thesis by (simp add: card_addr distinct_card)
qed

section \<open>Standard library types\<close>

datatype 'a poll = Ready 'a | Pending

text \<open>
  The borrow flag of a \<open>RefCell\<close>. \<open>try_borrow\<close> fails while the cell is
  mutably borrowed, and when the reader count would pass \<open>isize::MAX\<close>;
  \<open>try_borrow_mut\<close> fails unless the cell is unused.
\<close>

datatype borrow = Unused | Reading nat | Writing

fun try_borrow :: "borrow \<Rightarrow> borrow option" where
  "try_borrow Unused = Some (Reading 1)"
| "try_borrow (Reading n) = (if n < isize_max then Some (Reading (Suc n)) else None)"
| "try_borrow Writing = None"

fun try_borrow_mut :: "borrow \<Rightarrow> borrow option" where
  "try_borrow_mut Unused = Some Writing"
| "try_borrow_mut (Reading n) = None"
| "try_borrow_mut Writing = None"

text \<open>Dropping a \<open>Ref\<close> and a \<open>RefMut\<close>.\<close>

fun drop_ref :: "borrow \<Rightarrow> borrow" where
  "drop_ref (Reading n) = (if n \<le> 1 then Unused else Reading (n - 1))"
| "drop_ref b = b"

fun drop_ref_mut :: "borrow \<Rightarrow> borrow" where
  "drop_ref_mut Writing = Unused"
| "drop_ref_mut b = b"

end
