(* ===== verification/Notification.thy ===== *)
theory Notification
  imports Prelude
begin

text \<open>
  The notification types of \<open>src/event.rs\<close>: the sealed trait
  \<open>NotificationSealed\<close> as a record of operations (its dictionary), one such record
  per implementing type, the integer conversions of \<open>notify_int!\<close>, and the
  contract of the trait as a locale, which every implementation is shown to satisfy.
\<close>

section \<open>The trait\<close>

text \<open>\<open>trait NotificationSealed\<close>; \<open>next_tag\<close> takes \<open>&mut self\<close> and
  may panic.\<close>

record ('n, 't) NotificationSealed =
  nt_count :: "'n \<Rightarrow> usize"
  nt_is_additional :: "'n \<Rightarrow> bool"
  nt_next_tag :: "'n \<Rightarrow> ('t \<times> 'n) outcome"

section \<open>The implementations\<close>

text \<open>\<open>SingleNotify\<close>: one tag, which can be taken once.\<close>

record 't SingleNotify =
  sn_additional :: bool
  sn_tag :: "'t option"

definition SingleNotify_impl :: "('t SingleNotify, 't) NotificationSealed" where
  "SingleNotify_impl =
     \<lparr>nt_count = (\<lambda>_. 1),
      nt_is_additional = sn_additional,
      nt_next_tag = (\<lambda>n. andThen (unwrap (sn_tag n)) (\<lambda>t. Inr (t, n\<lparr>sn_tag := None\<rparr>)))\<rparr>"

text \<open>\<open>Notify(usize)\<close>.\<close>

datatype Notify = Notify usize

fun Notify_0 :: "Notify \<Rightarrow> usize" where
  "Notify_0 (Notify n) = n"

definition Notify_impl :: "(Notify, unit) NotificationSealed" where
  "Notify_impl =
     \<lparr>nt_count = Notify_0,
      nt_is_additional = (\<lambda>_. False),
      nt_next_tag = (\<lambda>n. Inr ((), n))\<rparr>"

text \<open>\<open>Additional<N>(N)\<close>.\<close>

datatype 'n Additional = Additional 'n

fun Additional_0 :: "'n Additional \<Rightarrow> 'n" where
  "Additional_0 (Additional n) = n"

definition Additional_impl ::
  "('n, 't) NotificationSealed \<Rightarrow> ('n Additional, 't) NotificationSealed" where
  "Additional_impl N =
     \<lparr>nt_count = (\<lambda>n. nt_count N (Additional_0 n)),
      nt_is_additional = (\<lambda>_. True),
      nt_next_tag = (\<lambda>n. andThen (nt_next_tag N (Additional_0 n))
                             (\<lambda>(t, n'). Inr (t, Additional n')))\<rparr>"

text \<open>\<open>Tag<N, T>\<close>: the tag is cloned for each entry.\<close>

record ('n, 't) Tag =
  tag_inner :: 'n
  tag_tag :: 't

definition Tag_impl ::
  "('n, 'u) NotificationSealed \<Rightarrow> (('n, 't) Tag, 't) NotificationSealed" where
  "Tag_impl N =
     \<lparr>nt_count = (\<lambda>n. nt_count N (tag_inner n)),
      nt_is_additional = (\<lambda>n. nt_is_additional N (tag_inner n)),
      nt_next_tag = (\<lambda>n. Inr (tag_tag n, n))\<rparr>"

text \<open>
  \<open>TagWith<N, F>\<close> with \<open>F: FnMut() -> T\<close>: a closure is its captured
  environment and a function that returns the tag and the environment afterwards.
\<close>

record ('n, 'env, 't) TagWith =
  tw_inner :: 'n
  tw_fn :: "'env \<Rightarrow> 't \<times> 'env"
  tw_env :: 'env

definition TagWith_impl ::
  "('n, 'u) NotificationSealed \<Rightarrow> (('n, 'env, 't) TagWith, 't) NotificationSealed" where
  "TagWith_impl N =
     \<lparr>nt_count = (\<lambda>n. nt_count N (tw_inner n)),
      nt_is_additional = (\<lambda>n. nt_is_additional N (tw_inner n)),
      nt_next_tag = (\<lambda>n. case tw_fn n (tw_env n) of (t, e) \<Rightarrow> Inr (t, n\<lparr>tw_env := e\<rparr>))\<rparr>"

text \<open>The operations of each implementation, as simplification rules.\<close>

lemma SingleNotify_sel [simp]:
  "nt_count SingleNotify_impl n = 1"
  "nt_is_additional SingleNotify_impl n = sn_additional n"
  "nt_next_tag SingleNotify_impl n =
     andThen (unwrap (sn_tag n)) (\<lambda>t. Inr (t, n\<lparr>sn_tag := None\<rparr>))"
  by (simp_all add: SingleNotify_impl_def)

lemma Notify_sel [simp]:
  "nt_count Notify_impl n = Notify_0 n"
  "nt_is_additional Notify_impl n = False"
  "nt_next_tag Notify_impl n = Inr ((), n)"
  by (simp_all add: Notify_impl_def)

lemma Additional_sel [simp]:
  "nt_count (Additional_impl N) a = nt_count N (Additional_0 a)"
  "nt_is_additional (Additional_impl N) a = True"
  "nt_next_tag (Additional_impl N) a =
     andThen (nt_next_tag N (Additional_0 a)) (\<lambda>(t, n'). Inr (t, Additional n'))"
  by (simp_all add: Additional_impl_def)

lemma Tag_sel [simp]:
  "nt_count (Tag_impl N) a = nt_count N (tag_inner a)"
  "nt_is_additional (Tag_impl N) a = nt_is_additional N (tag_inner a)"
  "nt_next_tag (Tag_impl N) a = Inr (tag_tag a, a)"
  by (simp_all add: Tag_impl_def)

lemma TagWith_sel [simp]:
  "nt_count (TagWith_impl N) a = nt_count N (tw_inner a)"
  "nt_is_additional (TagWith_impl N) a = nt_is_additional N (tw_inner a)"
  "nt_next_tag (TagWith_impl N) a =
     (case tw_fn a (tw_env a) of (t, e) \<Rightarrow> Inr (t, a\<lparr>tw_env := e\<rparr>))"
  by (simp_all add: TagWith_impl_def)

section \<open>IntoNotification\<close>

text \<open>
  \<open>notify_int!\<close>: the value \<open>i\<close> of any of the integer types is checked to be
  non-negative and cast with \<open>as usize\<close>, which keeps its low 64 bits.
\<close>

definition as_usize :: "int \<Rightarrow> usize" where
  "as_usize i = unat (word_of_int i :: 64 word)"

definition into_notification :: "int \<Rightarrow> Notify outcome" where
  "into_notification i =
     (if i < 0 then Inl (Panic Negative_count) else Inr (Notify (as_usize i)))"

text \<open>The provided methods \<open>additional\<close>, \<open>tag\<close> and \<open>tag_with\<close> on a
  value already converted (for notification types \<open>into_notification\<close> is the
  identity).\<close>

definition additional :: "'n \<Rightarrow> 'n Additional" where
  "additional n = Additional n"

definition tag :: "'n \<Rightarrow> 't \<Rightarrow> ('n, 't) Tag" where
  "tag n t = \<lparr>tag_inner = n, tag_tag = t\<rparr>"

definition tag_with :: "'n \<Rightarrow> ('env \<Rightarrow> 't \<times> 'env) \<Rightarrow> 'env \<Rightarrow> ('n, 'env, 't) TagWith" where
  "tag_with n f e = \<lparr>tw_inner = n, tw_fn = f, tw_env = e\<rparr>"

declare as_usize_def [evals] into_notification_def [evals] additional_def [evals]
  tag_def [evals] tag_with_def [evals]

section \<open>The contract of the trait\<close>

text \<open>Draw \<open>k\<close> tags in a row: the tags in order and what is left.\<close>

fun draw :: "('n, 't) NotificationSealed \<Rightarrow> nat \<Rightarrow> 'n \<Rightarrow> ('t list \<times> 'n) outcome" where
  "draw N 0 n = Inr ([], n)"
| "draw N (Suc k) n =
     andThen (nt_next_tag N n) (\<lambda>(t, n').
     andThen (draw N k n') (\<lambda>(ts, n''). Inr (t # ts, n'')))"

lemma draw_length: "draw N k n = Inr (ts, n') \<Longrightarrow> length ts = k"
  by (induction k arbitrary: n ts) (auto simp: andThen_Inr_iff)

lemma draw_snoc:
  "draw N (Suc k) n = andThen (draw N k n) (\<lambda>(ts, n').
     andThen (nt_next_tag N n') (\<lambda>(t, n''). Inr (ts @ [t], n'')))"
proof (induction k arbitrary: n)
  case 0
  show ?case by (cases "nt_next_tag N n") auto
next
  case (Suc k)
  show ?case
  proof (cases "nt_next_tag N n")
    case (Inr p)
    obtain t n1 where [simp]: "p = (t, n1)" by (cases p)
    have "draw N (Suc (Suc k)) n =
        andThen (draw N (Suc k) n1) (\<lambda>(ts, n''). Inr (t # ts, n''))"
      using Inr by simp
    also have "\<dots> = andThen (andThen (draw N k n1) (\<lambda>(ts, n').
        andThen (nt_next_tag N n') (\<lambda>(u, n''). Inr (ts @ [u], n'')))) (\<lambda>(ts, n''). Inr (t # ts, n''))"
      by (simp only: Suc.IH)
    also have "\<dots> = andThen (draw N (Suc k) n) (\<lambda>(ts, n').
        andThen (nt_next_tag N n') (\<lambda>(u, n''). Inr (ts @ [u], n'')))"
      using Inr by (cases "draw N k n1")
        (auto simp: andThen_assoc split: prod.splits intro!: arg_cong2 [where f = andThen])
    finally show ?thesis .
  qed simp
qed

text \<open>
  What \<open>Inner::notify\<close> relies on: a notification in a usable state announces
  \<open>count\<close> entries, and that many calls of \<open>next_tag\<close> (or fewer) succeed.
\<close>

locale notification =
  fixes N :: "('n, 't) NotificationSealed"
    and usable :: "'n \<Rightarrow> bool"
  assumes draw_ok: "usable n \<Longrightarrow> k \<le> nt_count N n \<Longrightarrow> \<exists>r. draw N k n = Inr r"
    and count_range: "usable n \<Longrightarrow> nt_count N n \<le> usize_max"
begin

lemma draw_total:
  assumes "usable n" and "k \<le> nt_count N n"
  obtains ts n' where "draw N k n = Inr (ts, n')" and "length ts = k"
  using draw_ok [OF assms] draw_length by (metis surj_pair)

lemma first_tag_ok:
  assumes "usable n" and "0 < nt_count N n"
  shows "\<exists>t n'. nt_next_tag N n = Inr (t, n')"
  using draw_ok [OF assms(1), of 1] assms(2) by (auto simp: andThen_Inr_iff)

end

lemma draw_SingleNotify:
  "draw SingleNotify_impl (Suc 0) n = andThen (unwrap (sn_tag n)) (\<lambda>t. Inr ([t], n\<lparr>sn_tag := None\<rparr>))"
  by (cases "sn_tag n") auto

lemma draw_Notify: "draw Notify_impl k n = Inr (replicate k (), n)"
  by (induction k arbitrary: n) auto

lemma draw_Additional:
  "draw (Additional_impl N) k (Additional n) =
     andThen (draw N k n) (\<lambda>(ts, n'). Inr (ts, Additional n'))"
proof (induction k arbitrary: n)
  case (Suc k)
  show ?case
  proof (cases "nt_next_tag N n")
    case (Inr p)
    then show ?thesis
      using Suc.IH [of "snd p"]
      by (cases "draw N k (snd p)") (auto split: prod.splits)
  qed simp
qed simp

lemma draw_Tag: "draw (Tag_impl N) k n = Inr (replicate k (tag_tag n), n)"
  by (induction k arbitrary: n) auto

text \<open>A closure called \<open>k\<close> times.\<close>

fun call_times :: "('env \<Rightarrow> 't \<times> 'env) \<Rightarrow> nat \<Rightarrow> 'env \<Rightarrow> 't list \<times> 'env" where
  "call_times f 0 e = ([], e)"
| "call_times f (Suc k) e =
     (case f e of (t, e1) \<Rightarrow> (case call_times f k e1 of (ts, e2) \<Rightarrow> (t # ts, e2)))"

lemma draw_TagWith:
  "draw (TagWith_impl N) k n =
     (case call_times (tw_fn n) k (tw_env n) of (ts, e) \<Rightarrow> Inr (ts, n\<lparr>tw_env := e\<rparr>))"
  by (induction k arbitrary: n) (auto split: prod.splits)

interpretation single: notification SingleNotify_impl "\<lambda>n. sn_tag n \<noteq> None"
proof
  fix n :: "'a SingleNotify" and k
  assume n: "sn_tag n \<noteq> None" and "k \<le> nt_count SingleNotify_impl n"
  then consider "k = 0" | "k = Suc 0"
    by (auto simp: le_Suc_eq)
  then show "\<exists>r. draw SingleNotify_impl k n = Inr r"
    using n by cases (auto simp: draw_SingleNotify simp del: draw.simps(2))
qed simp

interpretation counted: notification Notify_impl "\<lambda>n. Notify_0 n \<le> usize_max"
  by unfold_locales (auto simp: draw_Notify)

lemma notification_Additional:
  assumes "notification N usable"
  shows "notification (Additional_impl N) (\<lambda>n. usable (Additional_0 n))"
proof -
  from assms have ok: "\<And>n k. usable n \<Longrightarrow> k \<le> nt_count N n \<Longrightarrow> \<exists>r. draw N k n = Inr r"
    and rng: "\<And>n. usable n \<Longrightarrow> nt_count N n \<le> usize_max"
    by (auto simp: notification_def)
  show ?thesis
  proof
    fix n k
    assume u: "usable (Additional_0 n)" and k: "k \<le> nt_count (Additional_impl N) n"
    obtain m where n: "n = Additional m" by (cases n)
    from u k n ok [of m k] obtain ts m' where "draw N k m = Inr (ts, m')"
      by auto
    with n show "\<exists>r. draw (Additional_impl N) k n = Inr r"
      by (simp add: draw_Additional)
  qed (use rng in simp)
qed

lemma notification_Tag:
  assumes "notification N usable"
  shows "notification (Tag_impl N) (\<lambda>n. usable (tag_inner n))"
proof -
  from assms have rng: "\<And>n. usable n \<Longrightarrow> nt_count N n \<le> usize_max"
    by (auto simp: notification_def)
  then show ?thesis
    by unfold_locales (auto simp: draw_Tag)
qed

lemma notification_TagWith:
  assumes "notification N usable"
  shows "notification (TagWith_impl N) (\<lambda>n. usable (tw_inner n))"
proof -
  from assms have rng: "\<And>n. usable n \<Longrightarrow> nt_count N n \<le> usize_max"
    by (auto simp: notification_def)
  then show ?thesis
    by unfold_locales (auto simp: draw_TagWith split: prod.splits)
qed

text \<open>The shapes the crate itself builds.\<close>

interpretation counted_additional:
  notification "Additional_impl Notify_impl" "\<lambda>n. Notify_0 (Additional_0 n) \<le> usize_max"
  by (rule notification_Additional [OF counted.notification_axioms])

interpretation counted_tag_with:
  notification "TagWith_impl Notify_impl" "\<lambda>n. Notify_0 (tw_inner n) \<le> usize_max"
  by (rule notification_TagWith [OF counted.notification_axioms])

interpretation counted_tag:
  notification "Tag_impl Notify_impl" "\<lambda>n. Notify_0 (tag_inner n) \<le> usize_max"
  by (rule notification_Tag [OF counted.notification_axioms])

text \<open>Every notification that an integer converts to is usable.\<close>

lemma into_notification_usable:
  assumes "into_notification i = Inr n"
  shows "Notify_0 n \<le> usize_max"
proof -
  have "unat (word_of_int i :: 64 word) < 2 ^ LENGTH(64)" by (rule unsigned_less)
  with assms show ?thesis
    by (auto simp: into_notification_def as_usize_def usize_max_def split: if_splits)
qed

end
