(* ===== verification/Event.thy ===== *)
theory Event
  imports Notification
begin

text \<open>
  \<open>src/event.rs\<close>: an \<open>Event<T>\<close> is a doubly linked list threaded through the
  entries of its pinned listeners. The model keeps the pointers: the state of an event is
  its \<open>Inner\<close> together with the memory of the listeners that borrow it, a partial
  map from addresses. Reading or writing an entry through a \<open>NonNull\<close> pointer at an
  address with no listener is undefined behaviour (\<open>UB\<close>), every overflow check and
  \<open>unwrap\<close> is a panic, so a theorem that an operation returns a value is a memory
  safety and panic freedom result.

  A waker is an opaque identity \<open>'w\<close>: \<open>clone\<close> keeps it, \<open>will_wake\<close>
  compares it, and \<open>wake\<close> is recorded in the list of wakers woken by an operation, in
  order. Listeners over \<open>&Event\<close> (\<open>EventListener\<close>) and over
  \<open>Rc<Event>\<close> (\<open>EventListenerRc\<close>) share the generic \<open>Listener\<close>
  modelled here.
\<close>

section \<open>State\<close>

text \<open>\<open>enum State<T>\<close>.\<close>

datatype ('t, 'w) State = Created | Waiting 'w | Notified 't bool

text \<open>\<open>struct Entry<T>\<close>.\<close>

record ('t, 'w) Entry =
  e_next :: "addr option"
  e_prev :: "addr option"
  e_state :: "('t, 'w) State"

text \<open>\<open>struct Listener<T, B>\<close>; the field \<open>event\<close> is the event in whose memory
  the listener is kept.\<close>

record ('t, 'w) Listener =
  in_list :: bool
  l_entry :: "('t, 'w) Entry"

text \<open>\<open>struct Inner<T>\<close> and the memory of the listeners.\<close>

record ('t, 'w) Event =
  ev_head :: "addr option"
  ev_tail :: "addr option"
  ev_first :: "addr option"
  ev_notified :: usize
  ev_len :: usize
  ev_heap :: "addr \<rightharpoonup> ('t, 'w) Listener"

text \<open>\<open>enum RegisterResult<T>\<close>.\<close>

datatype 't RegisterResult = Registered | RNotified 't

section \<open>Memory accesses\<close>

definition deref :: "(addr \<rightharpoonup> ('t, 'w) Listener) \<Rightarrow> addr \<Rightarrow> ('t, 'w) Listener outcome" where
  "deref h p = (case h p of None \<Rightarrow> Inl UB | Some l \<Rightarrow> Inr l)"

definition upd_entry ::
  "(addr \<rightharpoonup> ('t, 'w) Listener) \<Rightarrow> addr \<Rightarrow> (('t, 'w) Entry \<Rightarrow> ('t, 'w) Entry)
     \<Rightarrow> (addr \<rightharpoonup> ('t, 'w) Listener) outcome" where
  "upd_entry h p f = andThen (deref h p) (\<lambda>l. Inr (h(p \<mapsto> l\<lparr>l_entry := f (l_entry l)\<rparr>)))"

section \<open>Creation\<close>

text \<open>\<open>Event::new\<close>.\<close>

definition Event_new :: "('t, 'w) Event" where
  "Event_new = \<lparr>ev_head = None, ev_tail = None, ev_first = None, ev_notified = 0, ev_len = 0,
     ev_heap = Map.empty\<rparr>"

text \<open>\<open>Listener::new\<close>, placed at the address \<open>a\<close> where it is pinned.\<close>

definition fresh_Entry :: "('t, 'w) Entry" where
  "fresh_Entry = \<lparr>e_next = None, e_prev = None, e_state = Created\<rparr>"

definition fresh_Listener :: "('t, 'w) Listener" where
  "fresh_Listener = \<lparr>in_list = False, l_entry = fresh_Entry\<rparr>"

definition Listener_new :: "addr \<Rightarrow> ('t, 'w) Event \<Rightarrow> ('t, 'w) Event" where
  "Listener_new a ev = ev\<lparr>ev_heap := (ev_heap ev)(a \<mapsto> fresh_Listener)\<rparr>"

section \<open>Insertion\<close>

text \<open>\<open>Listener::insert\<close>.\<close>

definition Listener_insert :: "addr \<Rightarrow> ('t, 'w) Event \<Rightarrow> ('t, 'w) Event outcome" where
  "Listener_insert a ev =
     andThen (upd_entry (ev_heap ev) a
       (\<lambda>_. \<lparr>e_next = None, e_prev = ev_tail ev, e_state = Created\<rparr>)) (\<lambda>h.
     \<comment> \<open>Set the next pointer of the previous entry.\<close>
     let ev1 = ev\<lparr>ev_heap := h, ev_tail := Some a\<rparr> in
     andThen
       (case ev_tail ev of
          None \<Rightarrow> Inr (ev1\<lparr>ev_head := Some a\<rparr>)
        | Some t \<Rightarrow> andThen (upd_entry h t (\<lambda>e. e\<lparr>e_next := Some a\<rparr>)) (\<lambda>h'.
            Inr (ev1\<lparr>ev_heap := h'\<rparr>))) (\<lambda>ev2.
     \<comment> \<open>If there are no unnotified entries, this is the first one.\<close>
     let ev3 = (if ev_first ev2 = None then ev2\<lparr>ev_first := ev_tail ev2\<rparr> else ev2) in
     \<comment> \<open>Increment the number of entries.\<close>
     andThen (usize_add (ev_len ev3) 1) (\<lambda>n.
     andThen (deref (ev_heap ev3) a) (\<lambda>l.
     Inr (ev3\<lparr>ev_len := n, ev_heap := (ev_heap ev3)(a \<mapsto> l\<lparr>in_list := True\<rparr>)\<rparr>)))))"

text \<open>\<open>EventListener::listen\<close>.\<close>

definition EventListener_listen :: "addr \<Rightarrow> ('t, 'w) Event \<Rightarrow> ('t, 'w) Event outcome" where
  "EventListener_listen a ev =
     andThen (deref (ev_heap ev) a) (\<lambda>l.
     if \<not> in_list l then Listener_insert a ev else Inr ev)"

section \<open>Notification\<close>

text \<open>
  The loop of \<open>Inner::notify\<close>. The result is the number of entries notified, the
  wakers woken, the notification afterwards (its tags are drawn with \<open>&mut self\<close>)
  and the event.
\<close>

fun notify_loop ::
  "('n, 't) NotificationSealed \<Rightarrow> bool \<Rightarrow> usize \<Rightarrow> usize \<Rightarrow> 'w list \<Rightarrow> 'n \<Rightarrow> ('t, 'w) Event
     \<Rightarrow> (usize \<times> 'w list \<times> 'n \<times> ('t, 'w) Event) outcome" where
  "notify_loop N is_additional count notified woken n ev =
     (if count = 0 then Inr (notified, woken, n, ev)
      else case ev_first ev of
        None \<Rightarrow> Inr (notified, woken, n, ev)
      | Some e \<Rightarrow>
          andThen (deref (ev_heap ev) e) (\<lambda>l.
          andThen (usize_add notified 1) (\<lambda>notified'.
          andThen (nt_next_tag N n) (\<lambda>(t, n').
          andThen (upd_entry (ev_heap ev) e (\<lambda>x. x\<lparr>e_state := Notified t is_additional\<rparr>)) (\<lambda>h.
          andThen (usize_add (ev_notified ev) 1) (\<lambda>k.
          notify_loop N is_additional (count - 1) notified'
            (case e_state (l_entry l) of Waiting w \<Rightarrow> woken @ [w] | _ \<Rightarrow> woken) n'
            (ev\<lparr>ev_first := e_next (l_entry l), ev_heap := h, ev_notified := k\<rparr>)))))))"

declare notify_loop.simps [simp del]

text \<open>\<open>Inner::notify\<close>.\<close>

definition Inner_notify ::
  "('n, 't) NotificationSealed \<Rightarrow> 'n \<Rightarrow> ('t, 'w) Event
     \<Rightarrow> (usize \<times> 'w list \<times> 'n \<times> ('t, 'w) Event) outcome" where
  "Inner_notify N n ev =
     (let is_additional = nt_is_additional N n; count = nt_count N n in
      if \<not> is_additional then
        if count \<le> ev_notified ev then Inr (0, [], n, ev)
        else andThen (usize_sub count (ev_notified ev)) (\<lambda>count'.
          notify_loop N is_additional count' 0 [] n ev)
      else notify_loop N is_additional count 0 [] n ev)"

text \<open>\<open>Event::notify\<close>.\<close>

definition Event_notify ::
  "('n, 't) NotificationSealed \<Rightarrow> 'n \<Rightarrow> ('t, 'w) Event
     \<Rightarrow> (usize \<times> 'w list \<times> 'n \<times> ('t, 'w) Event) outcome" where
  "Event_notify N n ev =
     (if nt_is_additional N n then
        if ev_len ev = 0 then Inr (0, [], n, ev) else Inner_notify N n ev
      else
        if ev_notified ev > nt_count N n then Inr (0, [], n, ev) else Inner_notify N n ev)"

text \<open>
  The calls \<open>event.notify(n)\<close> and \<open>event.notify(n.additional())\<close> with an integer:
  convert, then notify. The notification is dropped afterwards.
\<close>

definition notify_int :: "int \<Rightarrow> (unit, 'w) Event \<Rightarrow> (usize \<times> 'w list \<times> (unit, 'w) Event) outcome" where
  "notify_int i ev =
     andThen (into_notification i) (\<lambda>n.
     andThen (Event_notify Notify_impl n ev) (\<lambda>(k, woken, _, ev'). Inr (k, woken, ev')))"

definition notify_int_additional ::
  "int \<Rightarrow> (unit, 'w) Event \<Rightarrow> (usize \<times> 'w list \<times> (unit, 'w) Event) outcome" where
  "notify_int_additional i ev =
     andThen (into_notification i) (\<lambda>n.
     andThen (Event_notify (Additional_impl Notify_impl) (additional n) ev)
       (\<lambda>(k, woken, _, ev'). Inr (k, woken, ev')))"

text \<open>
  The call \<open>event.notify(n.tag_with(f))\<close> with a closure \<open>f\<close>: the environment of the
  closure afterwards, the wakers and the event.
\<close>

definition notify_int_with ::
  "int \<Rightarrow> ('env \<Rightarrow> 't \<times> 'env) \<Rightarrow> 'env \<Rightarrow> ('t, 'w) Event \<Rightarrow> ('env \<times> 'w list \<times> ('t, 'w) Event) outcome" where
  "notify_int_with i f env ev =
     andThen (into_notification i) (\<lambda>n.
     andThen (Event_notify (TagWith_impl Notify_impl) (tag_with n f env) ev)
       (\<lambda>(_, woken, n', ev'). Inr (tw_env n', woken, ev')))"

section \<open>Removal\<close>

text \<open>The two unlinking steps of \<open>Listener::remove\<close>: from the previous entry, then from
  the next.\<close>

definition unlink_prev ::
  "addr option \<Rightarrow> addr option \<Rightarrow> ('t, 'w) Event \<Rightarrow> ('t, 'w) Event outcome" where
  "unlink_prev prev next ev =
     (case prev of
        None \<Rightarrow> Inr (ev\<lparr>ev_head := next\<rparr>)
      | Some p \<Rightarrow> andThen (upd_entry (ev_heap ev) p (\<lambda>e. e\<lparr>e_next := next\<rparr>)) (\<lambda>h.
          Inr (ev\<lparr>ev_heap := h\<rparr>)))"

definition unlink_next ::
  "addr option \<Rightarrow> addr option \<Rightarrow> ('t, 'w) Event \<Rightarrow> ('t, 'w) Event outcome" where
  "unlink_next prev next ev =
     (case next of
        None \<Rightarrow> Inr (ev\<lparr>ev_tail := prev\<rparr>)
      | Some n \<Rightarrow> andThen (upd_entry (ev_heap ev) n (\<lambda>e. e\<lparr>e_prev := prev\<rparr>)) (\<lambda>h.
          Inr (ev\<lparr>ev_heap := h\<rparr>)))"

text \<open>\<open>Listener::remove\<close>: the tag returned (if any), the wakers woken by a propagated
  notification, and the event.\<close>

definition Listener_remove ::
  "addr \<Rightarrow> bool \<Rightarrow> ('t, 'w) Event \<Rightarrow> ('t option \<times> 'w list \<times> ('t, 'w) Event) outcome" where
  "Listener_remove a propagate ev =
     andThen (deref (ev_heap ev) a) (\<lambda>l.
     let prev = e_prev (l_entry l); next = e_next (l_entry l) in
     andThen (unlink_prev prev next ev) (\<lambda>ev1.
     andThen (unlink_next prev next ev1) (\<lambda>ev2.
     \<comment> \<open>If this was the first unnotified entry, update the next pointer.\<close>
     let ev3 = (if ev_first ev2 = Some a then ev2\<lparr>ev_first := next\<rparr> else ev2) in
     \<comment> \<open>Entry is now unlinked, so we can now take it out.\<close>
     andThen (deref (ev_heap ev3) a) (\<lambda>l3.
     let state = e_state (l_entry l3) in
     andThen (usize_sub (ev_len ev3) 1) (\<lambda>len.
     let ev4 = ev3\<lparr>ev_len := len, ev_heap := (ev_heap ev3)(a \<mapsto> \<lparr>in_list = False, l_entry = fresh_Entry\<rparr>)\<rparr> in
     case state of
       Notified t addl \<Rightarrow>
         andThen (usize_sub (ev_notified ev4) 1) (\<lambda>k.
         let ev5 = ev4\<lparr>ev_notified := k\<rparr> in
         if propagate then
           andThen (Inner_notify SingleNotify_impl \<lparr>sn_additional = addl, sn_tag = Some t\<rparr> ev5)
             (\<lambda>(_, woken, _, ev6). Inr (None, woken, ev6))
         else Inr (Some t, [], ev5))
     | _ \<Rightarrow> Inr (None, [], ev4))))))"

text \<open>\<open>Drop for Listener\<close>; afterwards the memory of the listener is gone.\<close>

definition Listener_drop :: "addr \<Rightarrow> ('t, 'w) Event \<Rightarrow> ('w list \<times> ('t, 'w) Event) outcome" where
  "Listener_drop a ev =
     andThen (deref (ev_heap ev) a) (\<lambda>l.
     andThen (if in_list l
              then andThen (Listener_remove a True ev) (\<lambda>(_, woken, ev'). Inr (woken, ev'))
              else Inr ([], ev)) (\<lambda>(woken, ev').
     Inr (woken, ev'\<lparr>ev_heap := (ev_heap ev')(a := None)\<rparr>)))"

section \<open>Polling\<close>

text \<open>\<open>Listener::register\<close>.\<close>

definition Listener_register ::
  "addr \<Rightarrow> 'w \<Rightarrow> ('t, 'w) Event \<Rightarrow> ('t RegisterResult \<times> ('t, 'w) Event) outcome" where
  "Listener_register a waker ev =
     andThen (deref (ev_heap ev) a) (\<lambda>l.
     case e_state (l_entry l) of
       Notified t addl \<Rightarrow>
         \<comment> \<open>The state is taken out and put back before the entry is removed.\<close>
         andThen (upd_entry (ev_heap ev) a (\<lambda>e. e\<lparr>e_state := Notified t addl\<rparr>)) (\<lambda>h.
         andThen (Listener_remove a False (ev\<lparr>ev_heap := h\<rparr>)) (\<lambda>(tag, _, ev').
         andThen (unwrap tag) (\<lambda>tag'. Inr (RNotified tag', ev'))))
     | Waiting task \<Rightarrow>
         andThen (upd_entry (ev_heap ev) a
           (\<lambda>e. e\<lparr>e_state := Waiting (if task \<noteq> waker then waker else task)\<rparr>)) (\<lambda>h.
         Inr (Registered, ev\<lparr>ev_heap := h\<rparr>))
     | Created \<Rightarrow>
         andThen (upd_entry (ev_heap ev) a (\<lambda>e. e\<lparr>e_state := Waiting waker\<rparr>)) (\<lambda>h.
         Inr (Registered, ev\<lparr>ev_heap := h\<rparr>)))"

text \<open>\<open>Listener::poll\<close>, which \<open>EventListener\<close> and \<open>EventListenerRc\<close>
  forward to.\<close>

definition Listener_poll ::
  "addr \<Rightarrow> 'w \<Rightarrow> ('t, 'w) Event \<Rightarrow> ('t poll \<times> ('t, 'w) Event) outcome" where
  "Listener_poll a waker ev =
     andThen (deref (ev_heap ev) a) (\<lambda>l.
     andThen (if \<not> in_list l then Listener_insert a ev else Inr ev) (\<lambda>ev'.
     andThen (Listener_register a waker ev') (\<lambda>(r, ev'').
     case r of
       RNotified t \<Rightarrow> Inr (Ready t, ev'')
     | Registered \<Rightarrow> Inr (Pending, ev''))))"

text \<open>
  The methods of \<open>EventListener\<close> and \<open>EventListenerRc\<close> forward to the listener in them;
  \<open>Event::listen\<close> allocates the former.
\<close>

definition EventListener_new :: "addr \<Rightarrow> ('t, 'w) Event \<Rightarrow> ('t, 'w) Event" where
  "EventListener_new a ev = Listener_new a ev"

definition EventListener_poll :: "addr \<Rightarrow> 'w \<Rightarrow> ('t, 'w) Event \<Rightarrow> ('t poll \<times> ('t, 'w) Event) outcome" where
  "EventListener_poll a waker ev = Listener_poll a waker ev"

definition Event_listen :: "addr \<Rightarrow> ('t, 'w) Event \<Rightarrow> ('t, 'w) Event" where
  "Event_listen a ev = EventListener_new a ev"

definition EventListenerRc_new :: "addr \<Rightarrow> ('t, 'w) Event \<Rightarrow> ('t, 'w) Event" where
  "EventListenerRc_new a ev = Listener_new a ev"

definition EventListenerRc_listen :: "addr \<Rightarrow> ('t, 'w) Event \<Rightarrow> ('t, 'w) Event outcome" where
  "EventListenerRc_listen a ev =
     andThen (deref (ev_heap ev) a) (\<lambda>l.
     if \<not> in_list l then Listener_insert a ev else Inr ev)"

definition EventListenerRc_poll :: "addr \<Rightarrow> 'w \<Rightarrow> ('t, 'w) Event \<Rightarrow> ('t poll \<times> ('t, 'w) Event) outcome" where
  "EventListenerRc_poll a waker ev = Listener_poll a waker ev"

text \<open>Whether the listener at an address has been notified, and its waker if it waits.\<close>

definition is_notified :: "('t, 'w) Event \<Rightarrow> addr \<Rightarrow> bool" where
  "is_notified ev a =
     (case ev_heap ev a of
        None \<Rightarrow> False
      | Some l \<Rightarrow> (case e_state (l_entry l) of Notified t addl \<Rightarrow> True | _ \<Rightarrow> False))"

definition waits :: "('t, 'w) Event \<Rightarrow> addr \<Rightarrow> bool" where
  "waits ev a =
     (case ev_heap ev a of
        None \<Rightarrow> False
      | Some l \<Rightarrow> in_list l \<and> (case e_state (l_entry l) of Notified t addl \<Rightarrow> False | _ \<Rightarrow> True))"

text \<open>The list as it is read from its head, following the next pointers.\<close>

fun walk :: "nat \<Rightarrow> (addr \<rightharpoonup> ('t, 'w) Listener) \<Rightarrow> addr option \<Rightarrow> (addr \<times> ('t, 'w) State) list" where
  "walk (Suc n) h (Some a) =
     (case h a of
        None \<Rightarrow> []
      | Some l \<Rightarrow> (a, e_state (l_entry l)) # walk n h (e_next (l_entry l)))"
| "walk 0 h p = []"
| "walk (Suc n) h None = []"

definition Event_list :: "('t, 'w) Event \<Rightarrow> (addr \<times> ('t, 'w) State) list" where
  "Event_list ev = walk (ev_len ev) (ev_heap ev) (ev_head ev)"

fun entry_tag :: "addr \<times> ('t, 'w) State \<Rightarrow> 't list" where
  "entry_tag (a, Notified t addl) = [t]"
| "entry_tag (a, Waiting w) = []"
| "entry_tag (a, Created) = []"

definition Event_tags :: "('t, 'w) Event \<Rightarrow> 't list" where
  "Event_tags ev = concat (map entry_tag (Event_list ev))"

declare notify_int_with_def [evals] Event_list_def [evals] Event_tags_def [evals]

declare Event_new_def [evals] Listener_new_def [evals] fresh_Listener_def [evals]
  fresh_Entry_def [evals] deref_def [evals] upd_entry_def [evals] Listener_insert_def [evals]
  EventListener_listen_def [evals] notify_loop.simps [evals] Inner_notify_def [evals]
  Event_notify_def [evals] notify_int_def [evals] notify_int_additional_def [evals]
  unlink_prev_def [evals] unlink_next_def [evals] Listener_remove_def [evals]
  Listener_drop_def [evals] Listener_register_def [evals] Listener_poll_def [evals]
  is_notified_def [evals] waits_def [evals] EventListener_new_def [evals] EventListener_poll_def [evals]
  Event_listen_def [evals] EventListenerRc_new_def [evals] EventListenerRc_listen_def [evals]
  EventListenerRc_poll_def [evals]

end
