(* ===== verification/EventQueue.thy ===== *)
theory EventQueue
  imports Event
begin

text \<open>
  The abstract specification of an event and the relation between it and the pointer
  structure of theory \<open>Event\<close>. An event promises a FIFO queue of listeners, the
  notified ones first: \<open>queue\<close> holds the two parts and the set of listeners that
  exist but are not in the list, and \<open>refines\<close> says that the doubly linked list, the
  three list pointers and the two counters represent it.
\<close>

section \<open>The abstract queue\<close>

record ('t, 'w) queue =
  q_notified :: "(addr \<times> 't \<times> bool) list"
  q_waiting :: "(addr \<times> 'w option) list"
  q_idle :: "addr set"

definition q_empty :: "('t, 'w) queue" where
  "q_empty = \<lparr>q_notified = [], q_waiting = [], q_idle = {}\<rparr>"

fun waiting_state :: "'w option \<Rightarrow> ('t, 'w) State" where
  "waiting_state None = Created"
| "waiting_state (Some w) = Waiting w"

text \<open>The entries of the linked list in order.\<close>

definition notified_entries :: "(addr \<times> 't \<times> bool) list \<Rightarrow> (addr \<times> ('t, 'w) State) list" where
  "notified_entries ns = map (\<lambda>(a, t, b). (a, Notified t b)) ns"

definition waiting_entries :: "(addr \<times> 'w option) list \<Rightarrow> (addr \<times> ('t, 'w) State) list" where
  "waiting_entries ws = map (\<lambda>(a, w). (a, waiting_state w)) ws"

definition entries :: "('t, 'w) queue \<Rightarrow> (addr \<times> ('t, 'w) State) list" where
  "entries q = notified_entries (q_notified q) @ waiting_entries (q_waiting q)"

definition q_addrs :: "('t, 'w) queue \<Rightarrow> addr list" where
  "q_addrs q = map fst (q_notified q) @ map fst (q_waiting q)"

definition q_listeners :: "('t, 'w) queue \<Rightarrow> addr set" where
  "q_listeners q = set (q_addrs q) \<union> q_idle q"

lemma notified_entries_simps [simp]:
  "notified_entries [] = []"
  "notified_entries ((a, t, b) # ns) = (a, Notified t b) # notified_entries ns"
  "notified_entries (ns @ ms) = notified_entries ns @ notified_entries ms"
  "map fst (notified_entries ns) = map fst ns"
  "length (notified_entries ns) = length ns"
  "notified_entries ns = [] \<longleftrightarrow> ns = []"
  by (auto simp: notified_entries_def)

lemma waiting_entries_simps [simp]:
  "waiting_entries [] = []"
  "waiting_entries ((a, w) # ws) = (a, waiting_state w) # waiting_entries ws"
  "waiting_entries (ws @ vs) = waiting_entries ws @ waiting_entries vs"
  "map fst (waiting_entries ws) = map fst ws"
  "length (waiting_entries ws) = length ws"
  "waiting_entries ws = [] \<longleftrightarrow> ws = []"
  by (auto simp: waiting_entries_def)

lemma map_fst_entries [simp]: "map fst (entries q) = q_addrs q"
  by (simp add: entries_def q_addrs_def)

lemma length_entries: "length (entries q) = length (q_notified q) + length (q_waiting q)"
  by (simp add: entries_def)

lemma entries_idle [simp]:
  "entries (q\<lparr>q_idle := I\<rparr>) = entries q"
  "q_addrs (q\<lparr>q_idle := I\<rparr>) = q_addrs q"
  by (simp_all add: entries_def q_addrs_def)

lemma set_entries [simp]:
  "fst ` set (notified_entries ns) = fst ` set ns"
  "fst ` set (waiting_entries ws) = fst ` set ws"
  "fst ` set (entries q) = set (q_addrs q)"
  by (simp_all only: list.set_map [symmetric] notified_entries_simps waiting_entries_simps
      map_fst_entries)

section \<open>Abstract operations\<close>

text \<open>A new listener, and one inserted at the tail.\<close>

definition q_new :: "addr \<Rightarrow> ('t, 'w) queue \<Rightarrow> ('t, 'w) queue" where
  "q_new a q = q\<lparr>q_idle := insert a (q_idle q)\<rparr>"

definition q_insert :: "addr \<Rightarrow> 'w option \<Rightarrow> ('t, 'w) queue \<Rightarrow> ('t, 'w) queue" where
  "q_insert a w q = q\<lparr>q_waiting := q_waiting q @ [(a, w)], q_idle := q_idle q - {a}\<rparr>"

text \<open>\<open>listen\<close> inserts only a listener that is not in the list yet.\<close>

definition q_listen :: "addr \<Rightarrow> ('t, 'w) queue \<Rightarrow> ('t, 'w) queue" where
  "q_listen a q = (if a \<in> q_idle q then q_insert a None q else q)"

text \<open>
  Hand the tags \<open>ts\<close> to the first waiting listeners, one each, and the wakers this
  wakes: those of the listeners that had been polled.
\<close>

definition q_mark :: "'t list \<Rightarrow> bool \<Rightarrow> ('t, 'w) queue \<Rightarrow> ('t, 'w) queue" where
  "q_mark ts b q = q\<lparr>
     q_notified := q_notified q @ map2 (\<lambda>(a, _) t. (a, t, b)) (q_waiting q) ts,
     q_waiting := drop (length ts) (q_waiting q)\<rparr>"

definition wakers_of :: "(addr \<times> 'w option) list \<Rightarrow> 'w list" where
  "wakers_of ws = List.map_filter snd ws"

text \<open>
  How many listeners a notification reaches: all that wait, up to the count; a notification
  that is not additional counts the listeners already notified.
\<close>

definition notify_amount :: "usize \<Rightarrow> bool \<Rightarrow> ('t, 'w) queue \<Rightarrow> nat" where
  "notify_amount count is_additional q =
     min (if is_additional then count else count - length (q_notified q)) (length (q_waiting q))"

text \<open>Unlinking a listener.\<close>

definition q_del :: "addr \<Rightarrow> ('t, 'w) queue \<Rightarrow> ('t, 'w) queue" where
  "q_del a q = q\<lparr>
     q_notified := filter (\<lambda>x. fst x \<noteq> a) (q_notified q),
     q_waiting := filter (\<lambda>x. fst x \<noteq> a) (q_waiting q),
     q_idle := insert a (q_idle q)\<rparr>"

text \<open>
  Dropping a listener: a notified one passes its notification (same tag, same kind) on to
  the first waiting listener; a notification that is not additional is passed on only if no
  other listener is notified.
\<close>

definition q_forward :: "'t \<Rightarrow> bool \<Rightarrow> ('t, 'w) queue \<Rightarrow> 'w list \<times> ('t, 'w) queue" where
  "q_forward t b q =
     (let k = notify_amount 1 b q
      in (wakers_of (take k (q_waiting q)), q_mark (replicate k t) b q))"

definition q_drop :: "addr \<Rightarrow> ('t, 'w) queue \<Rightarrow> 'w list \<times> ('t, 'w) queue" where
  "q_drop a q =
     (case map_of (q_notified q) a of
        None \<Rightarrow> ([], (q_del a q)\<lparr>q_idle := q_idle q - {a}\<rparr>)
      | Some (t, b) \<Rightarrow>
          (case q_forward t b (q_del a q) of
             (woken, q') \<Rightarrow> (woken, q'\<lparr>q_idle := q_idle q - {a}\<rparr>)))"

text \<open>
  Polling a listener: a notified one is unlinked and returns its tag; a waiting one replaces
  its waker; one that is not in the list is inserted at the tail.
\<close>

definition q_set_waker :: "addr \<Rightarrow> 'w \<Rightarrow> ('t, 'w) queue \<Rightarrow> ('t, 'w) queue" where
  "q_set_waker a w q = q\<lparr>q_waiting := map (\<lambda>(x, v). (x, if x = a then Some w else v)) (q_waiting q)\<rparr>"

definition q_poll :: "addr \<Rightarrow> 'w \<Rightarrow> ('t, 'w) queue \<Rightarrow> 't poll \<times> ('t, 'w) queue" where
  "q_poll a w q =
     (case map_of (q_notified q) a of
        Some (t, b) \<Rightarrow> (Ready t, q_del a q)
      | None \<Rightarrow> (Pending, if a \<in> q_idle q then q_insert a (Some w) q else q_set_waker a w q))"

section \<open>Doubly linked segments\<close>

definition node :: "('t, 'w) State \<Rightarrow> addr option \<Rightarrow> addr option \<Rightarrow> ('t, 'w) Listener" where
  "node s p n = \<lparr>in_list = True, l_entry = \<lparr>e_next = n, e_prev = p, e_state = s\<rparr>\<rparr>"

lemma node_sel [simp]:
  "in_list (node s p n) = True"
  "e_next (l_entry (node s p n)) = n"
  "e_prev (l_entry (node s p n)) = p"
  "e_state (l_entry (node s p n)) = s"
  "(node s p n)\<lparr>l_entry := (l_entry (node s p n))\<lparr>e_next := n'\<rparr>\<rparr> = node s p n'"
  "(node s p n)\<lparr>l_entry := (l_entry (node s p n))\<lparr>e_prev := p'\<rparr>\<rparr> = node s p' n"
  "(node s p n)\<lparr>l_entry := (l_entry (node s p n))\<lparr>e_state := s'\<rparr>\<rparr> = node s' p n"
  by (simp_all add: node_def)

fun first_of :: "(addr \<times> 's) list \<Rightarrow> addr option \<Rightarrow> addr option" where
  "first_of [] n = n"
| "first_of (x # xs) n = Some (fst x)"

fun last_of :: "addr option \<Rightarrow> (addr \<times> 's) list \<Rightarrow> addr option" where
  "last_of p [] = p"
| "last_of p (x # xs) = last_of (Some (fst x)) xs"

lemma first_of_append [simp]: "first_of (xs @ ys) n = first_of xs (first_of ys n)"
  by (cases xs) auto

lemma last_of_append [simp]: "last_of p (xs @ ys) = last_of (last_of p xs) ys"
  by (induction p xs rule: last_of.induct) auto

lemma first_of_entries [simp]:
  "first_of (notified_entries ns) n = first_of ns n"
  "first_of (waiting_entries ws) n = first_of ws n"
  by (cases ns; auto simp: notified_entries_def) (cases ws; auto simp: waiting_entries_def)

lemma last_of_entries [simp]:
  "last_of p (notified_entries ns) = last_of p ns"
  "last_of p (waiting_entries ws) = last_of p ws"
  by (induction p ns rule: last_of.induct; auto simp: notified_entries_def)
    (induction p ws rule: last_of.induct; auto simp: waiting_entries_def)

fun dll :: "(addr \<rightharpoonup> ('t, 'w) Listener) \<Rightarrow> addr option \<Rightarrow> (addr \<times> ('t, 'w) State) list
    \<Rightarrow> addr option \<Rightarrow> bool" where
  "dll h p [] n = True"
| "dll h p ((a, s) # xs) n = (h a = Some (node s p (first_of xs n)) \<and> dll h (Some a) xs n)"

lemma dll_append [simp]:
  "dll h p (xs @ ys) n = (dll h p xs (first_of ys n) \<and> dll h (last_of p xs) ys n)"
  by (induction p xs rule: last_of.induct) auto

lemma dll_other [simp]:
  "a \<notin> fst ` set xs \<Longrightarrow> dll (h(a := v)) p xs n = dll h p xs n"
  by (induction h p xs n rule: dll.induct) auto

lemma dll_dom: "dll h p xs n \<Longrightarrow> x \<in> set xs \<Longrightarrow> \<exists>l. h (fst x) = Some l \<and> in_list l"
  by (induction h p xs n rule: dll.induct) auto

text \<open>Redirecting the last next pointer and the first prev pointer of a segment.\<close>

lemma dll_set_next:
  assumes "dll h p (xs @ [(t, s)]) n" and "t \<notin> fst ` set xs"
  shows "dll (h(t \<mapsto> node s (last_of p xs) m)) p (xs @ [(t, s)]) m"
  using assms by simp

lemma dll_set_prev:
  assumes "dll h p ((t, s) # xs) n" and "t \<notin> fst ` set xs"
  shows "dll (h(t \<mapsto> node s q (first_of xs n))) q ((t, s) # xs) n"
  using assms by simp

section \<open>The refinement relation\<close>

definition refines :: "('t, 'w) Event \<Rightarrow> ('t, 'w) queue \<Rightarrow> bool" where
  "refines ev q \<longleftrightarrow>
     dll (ev_heap ev) None (entries q) None \<and>
     ev_head ev = first_of (entries q) None \<and>
     ev_tail ev = last_of None (entries q) \<and>
     ev_first ev = first_of (q_waiting q) None \<and>
     ev_notified ev = length (q_notified q) \<and>
     ev_len ev = length (entries q) \<and>
     distinct (q_addrs q) \<and>
     (\<forall>a \<in> q_idle q. ev_heap ev a = Some fresh_Listener) \<and>
     q_idle q \<inter> set (q_addrs q) = {} \<and>
     dom (ev_heap ev) = q_listeners q \<and>
     0 \<notin> q_listeners q"

lemma deref_Some [simp]: "h a = Some l \<Longrightarrow> deref h a = Inr l"
  by (simp add: deref_def)

lemma upd_entry_Some [simp]:
  "h a = Some l \<Longrightarrow> upd_entry h a f = Inr (h(a \<mapsto> l\<lparr>l_entry := f (l_entry l)\<rparr>))"
  by (simp add: upd_entry_def)

lemma refines_len_bound:
  assumes "refines ev q"
  shows "length (q_notified q) + length (q_waiting q) \<le> usize_max"
proof -
  from assms have "distinct (q_addrs q)" "0 \<notin> set (q_addrs q)"
    by (auto simp: refines_def q_listeners_def)
  then have "length (q_addrs q) \<le> usize_max" by (rule length_distinct_addrs)
  then show ?thesis by (simp add: q_addrs_def)
qed

lemma refines_room:
  assumes "refines ev q" and "a \<in> q_idle q"
  shows "Suc (length (q_notified q) + length (q_waiting q)) \<le> usize_max"
proof -
  from assms have "distinct (a # q_addrs q)" "0 \<notin> set (a # q_addrs q)"
    by (auto simp: refines_def q_listeners_def)
  then have "length (a # q_addrs q) \<le> usize_max" by (rule length_distinct_addrs)
  then show ?thesis by (simp add: q_addrs_def)
qed

lemma refines_empty: "refines Event_new q_empty"
  by (simp add: refines_def Event_new_def q_empty_def entries_def q_addrs_def q_listeners_def)

lemma refines_new:
  assumes "refines ev q" and "a \<notin> q_listeners q" and "a \<noteq> 0"
  shows "refines (Listener_new a ev) (q_new a q)"
proof -
  have "a \<notin> fst ` set (entries q)"
    using assms(2) map_fst_entries [of q] by (metis UnCI list.set_map q_listeners_def)
  then show ?thesis
    using assms by (auto simp: refines_def Listener_new_def q_new_def q_listeners_def)
qed

text \<open>The value of \<open>insert\<close> on an empty and on a non-empty list.\<close>

lemma Listener_insert_empty:
  assumes "ev_tail ev = None" and "ev_heap ev a = Some l" and "ev_len ev + 1 \<le> usize_max"
  shows "Listener_insert a ev = Inr (ev\<lparr>ev_head := Some a, ev_tail := Some a,
     ev_first := (if ev_first ev = None then Some a else ev_first ev), ev_len := ev_len ev + 1,
     ev_heap := (ev_heap ev)(a \<mapsto> node Created None None)\<rparr>)"
  using assms by (cases l; cases ev) (simp add: Listener_insert_def node_def Let_def)

lemma Listener_insert_tail:
  assumes "ev_tail ev = Some t" and "ev_heap ev a = Some l" and "ev_len ev + 1 \<le> usize_max"
    and "ev_heap ev t = Some (node s p None)" and "a \<noteq> t"
  shows "Listener_insert a ev = Inr (ev\<lparr>ev_tail := Some a,
     ev_first := (if ev_first ev = None then Some a else ev_first ev), ev_len := ev_len ev + 1,
     ev_heap := (ev_heap ev)(t \<mapsto> node s p (Some a), a \<mapsto> node Created (Some t) None)\<rparr>)"
  using assms
  by (cases l) (simp add: Listener_insert_def node_def Let_def fun_upd_twist [where a = a and c = t])

lemma refines_insert:
  assumes r: "refines ev q" and a: "a \<in> q_idle q"
  shows "\<exists>ev'. Listener_insert a ev = Inr ev' \<and> refines ev' (q_insert a None q)"
proof -
  let ?h = "ev_heap ev" and ?xs = "entries q"
  from r have dll: "dll ?h None ?xs None" and tl: "ev_tail ev = last_of None ?xs"
    and dist: "distinct (map fst ?xs)" and idle: "?h a = Some fresh_Listener"
    and nin: "a \<notin> fst ` set ?xs" and evlen: "ev_len ev = length ?xs"
    using a by (auto simp: refines_def)
  have e: "entries (q_insert a None q) = ?xs @ [(a, Created)]"
    "q_addrs (q_insert a None q) = q_addrs q @ [a]"
    by (simp_all add: entries_def q_addrs_def q_insert_def)
  have len: "ev_len ev + 1 \<le> usize_max"
    using refines_room [OF r a] by (simp add: length_entries evlen)
  have first: "first_of (q_waiting (q_insert a None q)) None =
      (if ev_first ev = None then Some a else ev_first ev)"
    using r by (cases "q_waiting q") (auto simp: refines_def q_insert_def)
  have addrs: "set (q_addrs (q_insert a None q)) = insert a (set (q_addrs q))"
    "q_listeners (q_insert a None q) = q_listeners q"
    "distinct (q_addrs (q_insert a None q))"
    using r a by (auto simp: refines_def q_addrs_def q_listeners_def q_insert_def)
  have dom: "dom (?h(a \<mapsto> v)) = q_listeners q" for v
    using r a by (auto simp: refines_def q_listeners_def)
  have idle': "\<forall>x \<in> q_idle (q_insert a None q). x \<noteq> a \<and> ?h x = Some fresh_Listener"
      "q_idle (q_insert a None q) \<inter> set (q_addrs (q_insert a None q)) = {}"
    using r a by (auto simp: refines_def q_insert_def q_addrs_def)
  have counts: "ev_notified ev = length (q_notified (q_insert a None q))"
      "0 \<notin> q_listeners q" "first_of ?xs None = ev_head ev"
    using r by (simp_all add: refines_def q_insert_def)
  show ?thesis
  proof (cases ?xs rule: rev_cases)
    case Nil
    then have tail: "ev_tail ev = None" by (simp add: tl)
    show ?thesis
      unfolding Listener_insert_empty [OF tail idle len]
      using Nil e first addrs dom idle' counts evlen by (simp add: refines_def)
  next
    case (snoc ys y)
    obtain t s where y: "y = (t, s)" by (cases y)
    have ht: "?h t = Some (node s (last_of None ys) None)" using dll snoc y by simp
    have tail: "ev_tail ev = Some t" using snoc y tl by simp
    have at: "a \<noteq> t" "a \<notin> fst ` set ys" using nin snoc y by auto
    have tys: "t \<notin> fst ` set ys" using dist by (auto simp: snoc y simp del: map_fst_entries)
    have "t \<in> set (map fst ?xs)" by (simp add: snoc y del: map_fst_entries set_entries)
    then have t: "t \<in> set (q_addrs q)" by simp
    then have t_idle: "t \<notin> q_idle (q_insert a None q)" "t \<in> q_listeners q"
      using idle' addrs by (auto simp: q_listeners_def)
    let ?h' = "?h(t \<mapsto> node s (last_of None ys) (Some a), a \<mapsto> node Created (Some t) None)"
    have dll': "dll ?h' None (entries (q_insert a None q)) None"
      using dll tys at unfolding e by (simp add: snoc y)
    have "first_of (?xs @ [(a, Created)]) None = ev_head ev"
      using counts(3) by (simp add: snoc)
    moreover have "dom ?h' = q_listeners q" using dom t_idle by auto
    moreover have "\<forall>x \<in> q_idle (q_insert a None q). ?h' x = Some fresh_Listener"
      using idle' t_idle by auto
    ultimately show ?thesis
      unfolding Listener_insert_tail [OF tail idle len ht at(1)]
      using dll' e first addrs idle' counts evlen by (simp add: refines_def)
  qed
qed

section \<open>Notification\<close>

lemma dll_set_state:
  assumes "dll h p (xs @ (e, s) # ys) n" and "e \<notin> fst ` set xs" and "e \<notin> fst ` set ys"
  shows "dll (h(e \<mapsto> node s' (last_of p xs) (first_of ys n))) p (xs @ (e, s') # ys) n"
  using assms by simp

lemma dll_lookup:
  assumes "dll h p (xs @ (e, s) # ys) n"
  shows "h e = Some (node s (last_of p xs) (first_of ys n))"
  using assms by simp

lemma q_mark_Nil [simp]: "q_mark [] b q = q"
  by (simp add: q_mark_def)

lemma q_mark_Cons:
  assumes "q_waiting q = (e, w) # ws"
  shows "q_mark (t # ts) b q = q_mark ts b (q_mark [t] b q)"
  using assms by (simp add: q_mark_def)

lemma wakers_of_Cons [simp]:
  "wakers_of [] = []"
  "wakers_of ((a, None) # ws) = wakers_of ws"
  "wakers_of ((a, Some w) # ws) = w # wakers_of ws"
  by (simp_all add: wakers_of_def List.map_filter_def)

lemma wakers_of_append [simp]: "wakers_of (ws @ vs) = wakers_of ws @ wakers_of vs"
  by (simp add: wakers_of_def List.map_filter_def)

text \<open>One turn of the loop: the first waiting listener becomes notified.\<close>

lemma refines_first:
  assumes "refines ev q" and "q_waiting q = (e, w) # ws"
  shows "ev_first ev = Some e"
    and "ev_heap ev e = Some (node (waiting_state w) (last_of None (q_notified q))
           (first_of ws None))"
proof -
  show "ev_first ev = Some e" using assms by (simp add: refines_def)
  show "ev_heap ev e = Some (node (waiting_state w)
      (last_of None (q_notified q)) (first_of ws None))"
    using assms dll_lookup [of "ev_heap ev" None "notified_entries (q_notified q)" e
        "waiting_state w" "waiting_entries ws" None]
    by (simp add: refines_def entries_def)
qed

lemma refines_mark_one:
  assumes r: "refines ev q" and w: "q_waiting q = (e, w) # ws"
  shows "refines (ev\<lparr>ev_first := first_of ws None,
      ev_heap := (ev_heap ev)(e \<mapsto> node (Notified t b)
        (last_of None (q_notified q)) (first_of ws None)),
      ev_notified := ev_notified ev + 1\<rparr>) (q_mark [t] b q)"
    (is "refines ?ev' ?q'")
proof -
  let ?ns = "notified_entries (q_notified q)" and ?ws = "waiting_entries ws"
  have q': "q_notified ?q' = q_notified q @ [(e, t, b)]" "q_waiting ?q' = ws"
      "q_idle ?q' = q_idle q"
    by (simp_all add: q_mark_def w)
  have ent: "entries q = ?ns @ (e, waiting_state w) # ?ws"
      "entries ?q' = ?ns @ (e, Notified t b) # ?ws"
    by (simp_all add: entries_def w q')
  have addrs: "q_addrs ?q' = q_addrs q"
    by (simp add: q_addrs_def q' w)
  from r have "distinct (map fst (entries q))" by (simp add: refines_def)
  then have e: "e \<notin> fst ` set ?ns" "e \<notin> fst ` set ?ws"
    by (simp_all add: ent del: map_fst_entries)
  have "dll (ev_heap ?ev') None (entries ?q') None"
    using dll_set_state [of "ev_heap ev" None ?ns e "waiting_state w" ?ws None "Notified t b"] r e
    by (simp add: refines_def ent)
  moreover have "e \<notin> q_idle q" "e \<in> q_listeners q"
    using r w by (auto simp: refines_def q_addrs_def q_listeners_def)
  ultimately show ?thesis
    using r by (auto simp: refines_def ent addrs q' q_listeners_def)
qed

lemma refines_notify_loop:
  assumes "refines ev q"
    and "draw N (min c (length (q_waiting q))) n = Inr (ts, n')"
    and "notified + min c (length (q_waiting q)) \<le> usize_max"
  shows "\<exists>ev'. notify_loop N b c notified woken n ev =
      Inr (notified + min c (length (q_waiting q)),
           woken @ wakers_of (take c (q_waiting q)), n', ev')
    \<and> refines ev' (q_mark ts b q)"
  using assms
proof (induction c arbitrary: ev q n notified woken ts)
  case 0
  then show ?case by (simp add: notify_loop.simps)
next
  case (Suc c)
  show ?case
  proof (cases "q_waiting q")
    case Nil
    with Suc.prems show ?thesis by (simp add: notify_loop.simps refines_def)
  next
    case (Cons x ws)
    obtain e w where x: "x = (e, w)" by (cases x)
    note w = Cons [unfolded x]
    note first = refines_first [OF Suc.prems(1) w]
    from Suc.prems(2) w obtain t n1 ts1 where n1: "nt_next_tag N n = Inr (t, n1)"
      and d: "draw N (min c (length ws)) n1 = Inr (ts1, n')" and ts: "ts = t # ts1"
      by (auto simp: andThen_Inr_iff)
    let ?l = "node (waiting_state w) (last_of None (q_notified q)) (first_of ws None)"
    let ?ev1 = "ev\<lparr>ev_first := first_of ws None,
      ev_heap := (ev_heap ev)(e \<mapsto> node (Notified t b)
        (last_of None (q_notified q)) (first_of ws None)),
      ev_notified := ev_notified ev + 1\<rparr>"
    let ?woken1 = "woken @ wakers_of [(e, w)]"
    have q1: "q_waiting (q_mark [t] b q) = ws" by (simp add: q_mark_def w)
    have room: "ev_notified ev + 1 \<le> usize_max"
      using refines_len_bound [OF Suc.prems(1)] Suc.prems(1) w by (simp add: refines_def)
    have room': "notified + 1 \<le> usize_max" using Suc.prems(3) w by simp
    have "notify_loop N b (Suc c) notified woken n ev =
        notify_loop N b c (notified + 1) ?woken1 n1 ?ev1"
      using first n1 room room'
      by (subst notify_loop.simps) (cases w; simp)
    moreover have "\<exists>ev'. notify_loop N b c (notified + 1) ?woken1 n1 ?ev1 =
        Inr (notified + 1 + min c (length ws), ?woken1 @ wakers_of (take c ws), n', ev')
      \<and> refines ev' (q_mark ts1 b (q_mark [t] b q))"
      using Suc.IH [OF refines_mark_one [OF Suc.prems(1) w, of t b], where notified = "notified + 1"
          and woken = ?woken1 and n = n1 and ts = ts1] d Suc.prems(3) w q1
      by auto
    ultimately show ?thesis
      using w ts q_mark_Cons [OF w, of t ts1 b] by (cases w) auto
  qed
qed

text \<open>
  \<open>Inner::notify\<close> and \<open>Event::notify\<close> implement \<open>q_mark\<close> on as many waiting
  listeners as \<open>notify_amount\<close> says; the early returns of \<open>Event::notify\<close> do not
  change that.
\<close>

lemma notify_amount_le: "notify_amount c b q \<le> length (q_waiting q)"
  by (simp add: notify_amount_def)

lemma take_min: "take (min c (length xs)) xs = take c xs"
  by (simp add: min_def)

lemma refines_Inner_notify:
  assumes r: "refines ev q"
    and d: "draw N (notify_amount (nt_count N n) (nt_is_additional N n) q) n = Inr (ts, n')"
  shows "\<exists>ev'. Inner_notify N n ev =
      Inr (length ts, wakers_of (take (length ts) (q_waiting q)), n', ev')
    \<and> refines ev' (q_mark ts (nt_is_additional N n) q)"
proof -
  let ?b = "nt_is_additional N n" and ?c = "nt_count N n"
  let ?c' = "if ?b then ?c else ?c - length (q_notified q)"
  have lts: "length ts = min ?c' (length (q_waiting q))"
    using draw_length [OF d] by (simp add: notify_amount_def)
  have bound: "0 + min ?c' (length (q_waiting q)) \<le> usize_max"
    using refines_len_bound [OF r] by simp
  have loop: "\<exists>ev'. notify_loop N ?b ?c' 0 [] n ev =
      Inr (length ts, wakers_of (take (length ts) (q_waiting q)), n', ev')
    \<and> refines ev' (q_mark ts ?b q)"
    using refines_notify_loop [OF r _ bound, of N n ts n' ?b "[]"] d
    by (simp only: lts notify_amount_def take_min add_0 append_Nil)
  show ?thesis
  proof (cases "\<not> ?b \<and> ?c \<le> ev_notified ev")
    case True
    then have k: "notify_amount ?c ?b q = 0" using r by (simp add: notify_amount_def refines_def)
    with d have "ts = []" "n' = n" by simp_all
    then show ?thesis using True r by (simp add: Inner_notify_def)
  next
    case False
    then have "Inner_notify N n ev = notify_loop N ?b ?c' 0 [] n ev"
      using r by (auto simp: Inner_notify_def Let_def refines_def)
    with loop show ?thesis by simp
  qed
qed

lemma refines_Event_notify_Inner:
  assumes r: "refines ev q"
  shows "Event_notify N n ev = Inner_notify N n ev"
proof -
  have "Inner_notify N n ev = Inr (0, [], n, ev)" if "ev_len ev = 0" "nt_is_additional N n"
  proof -
    have "ev_first ev = None" using that r by (simp add: refines_def length_entries)
    then show ?thesis using that by (simp add: Inner_notify_def notify_loop.simps Let_def)
  qed
  moreover have "Inner_notify N n ev = Inr (0, [], n, ev)"
    if "nt_count N n < ev_notified ev" "\<not> nt_is_additional N n"
    using that by (simp add: Inner_notify_def)
  ultimately show ?thesis by (simp add: Event_notify_def)
qed

lemma refines_Event_notify:
  assumes r: "refines ev q"
    and d: "draw N (notify_amount (nt_count N n) (nt_is_additional N n) q) n = Inr (ts, n')"
  shows "\<exists>ev'. Event_notify N n ev =
      Inr (length ts, wakers_of (take (length ts) (q_waiting q)), n', ev')
    \<and> refines ev' (q_mark ts (nt_is_additional N n) q)"
  using refines_Inner_notify [OF assms] by (simp add: refines_Event_notify_Inner [OF r])

text \<open>The integer forms.\<close>

lemma as_usize_eq: "as_usize i = nat (i mod 2 ^ 64)"
  unfolding as_usize_def unat_eq_nat_uint uint_word_of_int by simp

lemma as_usize_small:
  assumes "0 \<le> i" and "i \<le> int usize_max"
  shows "as_usize i = nat i"
proof -
  have "i mod 2 ^ 64 = i" using assms by (intro mod_pos_pos_trivial) (simp_all add: usize_max_def)
  then show ?thesis unfolding as_usize_eq by simp
qed

lemma refines_notify_int:
  assumes r: "refines ev q" and i: "0 \<le> i" "i \<le> int usize_max"
  defines "k \<equiv> notify_amount (nat i) False q"
  shows "\<exists>ev'. notify_int i ev = Inr (k, wakers_of (take k (q_waiting q)), ev')
    \<and> refines ev' (q_mark (replicate k ()) False q)"
proof -
  have n: "into_notification i = Inr (Notify (nat i))"
    using i as_usize_small by (simp add: into_notification_def)
  have "draw Notify_impl k (Notify (nat i)) = Inr (replicate k (), Notify (nat i))"
    by (rule draw_Notify)
  then show ?thesis
    using refines_Event_notify [OF r, of Notify_impl "Notify (nat i)"]
    by (auto simp: notify_int_def n k_def)
qed

lemma refines_notify_int_additional:
  assumes r: "refines ev q" and i: "0 \<le> i" "i \<le> int usize_max"
  defines "k \<equiv> notify_amount (nat i) True q"
  shows "\<exists>ev'. notify_int_additional i ev = Inr (k, wakers_of (take k (q_waiting q)), ev')
    \<and> refines ev' (q_mark (replicate k ()) True q)"
proof -
  have n: "into_notification i = Inr (Notify (nat i))"
    using i as_usize_small by (simp add: into_notification_def)
  have "draw (Additional_impl Notify_impl) k (Additional (Notify (nat i))) =
      Inr (replicate k (), Additional (Notify (nat i)))"
    by (simp add: draw_Additional draw_Notify)
  then show ?thesis
    using refines_Event_notify [OF r, of "Additional_impl Notify_impl" "Additional (Notify (nat i))"]
    by (auto simp: notify_int_additional_def additional_def n k_def)
qed

section \<open>Removal\<close>

text \<open>The two pointer updates that unlink an entry, as functions on the memory.\<close>

definition set_next :: "(addr \<rightharpoonup> ('t, 'w) Listener) \<Rightarrow> addr option \<Rightarrow> addr option
    \<Rightarrow> (addr \<rightharpoonup> ('t, 'w) Listener)" where
  "set_next h x n = (case x of None \<Rightarrow> h | Some p \<Rightarrow>
     (case h p of None \<Rightarrow> h | Some l \<Rightarrow> h(p \<mapsto> l\<lparr>l_entry := (l_entry l)\<lparr>e_next := n\<rparr>\<rparr>)))"

definition set_prev :: "(addr \<rightharpoonup> ('t, 'w) Listener) \<Rightarrow> addr option \<Rightarrow> addr option
    \<Rightarrow> (addr \<rightharpoonup> ('t, 'w) Listener)" where
  "set_prev h x n = (case x of None \<Rightarrow> h | Some p \<Rightarrow>
     (case h p of None \<Rightarrow> h | Some l \<Rightarrow> h(p \<mapsto> l\<lparr>l_entry := (l_entry l)\<lparr>e_prev := n\<rparr>\<rparr>)))"

lemma set_next_prev_dom [simp]:
  "dom (set_next h x n) = dom h" "dom (set_prev h x n) = dom h"
  by (auto simp: set_next_def set_prev_def split: option.splits)

lemma set_next_prev_other:
  "x \<noteq> Some y \<Longrightarrow> set_next h x n y = h y" "x \<noteq> Some y \<Longrightarrow> set_prev h x n y = h y"
  by (auto simp: set_next_def set_prev_def split: option.splits)

lemma dll_cong:
  "(\<And>x. x \<in> fst ` set xs \<Longrightarrow> h x = h' x) \<Longrightarrow> dll h p xs n = dll h' p xs n"
  by (induction h p xs n rule: dll.induct) auto

lemma last_of_notin: "x \<notin> fst ` set xs \<Longrightarrow> last_of None xs \<noteq> Some x"
  by (cases xs rule: rev_cases) auto

lemma first_of_notin: "x \<notin> fst ` set xs \<Longrightarrow> first_of xs None \<noteq> Some x"
  by (cases xs) auto

lemma dll_relink_next:
  assumes "dll h None xs m" and "distinct (map fst xs)"
  shows "dll (set_next h (last_of None xs) n) None xs n"
  using assms by (cases xs rule: rev_cases) (auto simp: set_next_def)

lemma dll_relink_prev:
  assumes "dll h p xs None" and "distinct (map fst xs)"
  shows "dll (set_prev h (first_of xs None) q) q xs None"
  using assms by (cases xs) (auto simp: set_prev_def)

lemma dll_unlink:
  assumes d: "dll h None (pre @ (a, s) # post) None"
    and dist: "distinct (map fst (pre @ (a, s) # post))"
  shows "dll ((set_prev (set_next h (last_of None pre) (first_of post None))
      (first_of post None) (last_of None pre))(a := v)) None (pre @ post) None"
proof -
  let ?h1 = "set_next h (last_of None pre) (first_of post None)"
  let ?h2 = "set_prev ?h1 (first_of post None) (last_of None pre)"
  have disj: "x \<notin> fst ` set post" "x \<noteq> a" if "x \<in> fst ` set pre" for x
    using dist that by auto
  have a: "a \<notin> fst ` set pre" "a \<notin> fst ` set post"
    using dist by auto
  have "dll ?h1 None pre (first_of post None)"
    using d dist by (intro dll_relink_next [where m = "Some a"]) auto
  moreover have "first_of post None \<noteq> Some x" if "x \<in> fst ` set pre" for x
    using disj [OF that] by (intro first_of_notin) auto
  ultimately have pre: "dll ?h2 None pre (first_of post None)"
    by (subst dll_cong [where h' = ?h1]) (auto simp: set_next_prev_other)
  have "last_of None pre \<noteq> Some x" if "x \<in> fst ` set post" for x
    using disj(1) [of x] that by (intro last_of_notin) blast
  then have "dll ?h1 (Some a) post None"
    using d by (subst dll_cong [where h' = h]) (auto simp: set_next_prev_other)
  then have "dll ?h2 (last_of None pre) post None"
    using dist by (intro dll_relink_prev) auto
  with pre a show ?thesis by simp
qed

text \<open>The event once the entry between \<open>pre\<close> and \<open>post\<close> is unlinked.\<close>

definition unlinked :: "addr \<Rightarrow> (addr \<times> ('t, 'w) State) list \<Rightarrow> (addr \<times> ('t, 'w) State) list
    \<Rightarrow> ('t, 'w) Event \<Rightarrow> ('t, 'w) Event" where
  "unlinked a pre post ev = ev\<lparr>
     ev_head := first_of pre (first_of post None),
     ev_tail := last_of (last_of None pre) post,
     ev_first := (if ev_first ev = Some a then first_of post None else ev_first ev),
     ev_len := ev_len ev - 1,
     ev_heap := (set_prev (set_next (ev_heap ev) (last_of None pre) (first_of post None))
        (first_of post None) (last_of None pre))(a \<mapsto> fresh_Listener)\<rparr>"

lemma unlink_prev_eval:
  assumes "dll (ev_heap ev) None pre (Some a)" and "ev_head ev = first_of pre (Some a)"
  shows "unlink_prev (last_of None pre) n ev =
    Inr (ev\<lparr>ev_head := first_of pre n, ev_heap := set_next (ev_heap ev) (last_of None pre) n\<rparr>)"
proof (cases pre rule: rev_cases)
  case Nil
  then show ?thesis by (simp add: set_next_def unlink_prev_def)
next
  case (snoc ys y)
  then show ?thesis using assms
    by (cases y; cases ev; cases ys) (auto simp: set_next_def unlink_prev_def)
qed

lemma unlink_next_eval:
  assumes "dll (ev_heap ev) p post None" and "ev_tail ev = last_of p post"
  shows "unlink_next q (first_of post None) ev =
    Inr (ev\<lparr>ev_tail := last_of q post, ev_heap := set_prev (ev_heap ev) (first_of post None) q\<rparr>)"
  using assms by (cases post; cases ev) (auto simp: set_prev_def unlink_next_def)

lemma Listener_remove_eval:
  assumes r: "refines ev q" and ent: "entries q = pre @ (a, s) # post"
  shows "Listener_remove a propagate ev =
    (case s of
       Notified t addl \<Rightarrow>
         andThen (usize_sub (ev_notified ev) 1) (\<lambda>k.
         let ev5 = (unlinked a pre post ev)\<lparr>ev_notified := k\<rparr> in
         if propagate then
           andThen (Inner_notify SingleNotify_impl \<lparr>sn_additional = addl, sn_tag = Some t\<rparr> ev5)
             (\<lambda>(_, woken, _, ev6). Inr (None, woken, ev6))
         else Inr (Some t, [], ev5))
     | _ \<Rightarrow> Inr (None, [], unlinked a pre post ev))"
proof -
  let ?n = "first_of post None" and ?p = "last_of None pre"
  let ?h1 = "set_next (ev_heap ev) ?p ?n"
  let ?h2 = "set_prev ?h1 ?n ?p"
  let ?ev1 = "ev\<lparr>ev_head := first_of pre ?n, ev_heap := ?h1\<rparr>"
  from r have d: "dll (ev_heap ev) None (pre @ (a, s) # post) None"
    and dist: "distinct (map fst (pre @ (a, s) # post))"
    and hd: "ev_head ev = first_of pre (Some a)"
    and tl: "ev_tail ev = last_of (Some a) post" and len: "1 \<le> ev_len ev"
    by (simp_all add: refines_def flip: ent) (simp_all add: ent)
  have ha: "ev_heap ev a = Some (node s ?p ?n)" using dll_lookup [OF d] .
  have pa: "?p \<noteq> Some a" "?n \<noteq> Some a"
    using dist by (auto intro!: last_of_notin first_of_notin)
  have post_h1: "dll ?h1 (Some a) post None"
  proof -
    have "?p \<noteq> Some x" if "x \<in> fst ` set post" for x
      using dist that by (intro last_of_notin) auto
    then show ?thesis using d by (subst dll_cong [where h' = "ev_heap ev"])
        (auto simp: set_next_prev_other)
  qed
  have h2a: "?h2 a = Some (node s ?p ?n)" using ha pa by (simp add: set_next_prev_other)
  have step1: "unlink_prev ?p ?n ev = Inr ?ev1"
    using unlink_prev_eval [OF _ hd] d by simp
  have step2: "unlink_next ?p ?n ?ev1 =
    Inr (?ev1\<lparr>ev_tail := last_of ?p post, ev_heap := ?h2\<rparr>)"
    using unlink_next_eval [of ?ev1 "Some a" post ?p] post_h1 tl by simp
  have unl: "unlinked a pre post ev = ?ev1\<lparr>ev_tail := last_of ?p post,
      ev_first := (if ev_first ev = Some a then ?n else ev_first ev),
      ev_len := ev_len ev - 1, ev_heap := ?h2(a \<mapsto> fresh_Listener)\<rparr>"
    by (cases ev) (simp add: unlinked_def)
  show ?thesis
    unfolding Listener_remove_def
    using ha step1 step2 h2a len unl
    by (simp add: Let_def fresh_Listener_def [symmetric] split: State.split)
qed

lemma filter_out: "a \<notin> fst ` set xs \<Longrightarrow> filter (\<lambda>x. fst x \<noteq> a) xs = xs"
  by (induction xs) auto

lemma refines_unlinked:
  assumes r: "refines ev q" and ent: "entries q = pre @ (a, s) # post"
    and ent': "entries q' = pre @ post" and idle': "q_idle q' = insert a (q_idle q)"
    and first: "(if ev_first ev = Some a then first_of post None else ev_first ev) =
      first_of (q_waiting q') None"
  shows "refines ((unlinked a pre post ev)\<lparr>ev_notified := length (q_notified q')\<rparr>) q'"
proof -
  let ?h = "(set_prev (set_next (ev_heap ev) (last_of None pre) (first_of post None))
      (first_of post None) (last_of None pre))"
  from r have d: "dll (ev_heap ev) None (pre @ (a, s) # post) None"
    and dist: "distinct (map fst (pre @ (a, s) # post))"
    and dom: "dom (ev_heap ev) = q_listeners q"
    and len: "ev_len ev = length (pre @ (a, s) # post)"
    by (simp_all add: refines_def flip: ent)
  have addrs: "q_addrs q = map fst (pre @ (a, s) # post)" "q_addrs q' = map fst (pre @ post)"
    by (simp_all only: ent [symmetric] ent' [symmetric] map_fst_entries)
  have idle: "?h x = Some fresh_Listener" if "x \<in> q_idle q" for x
  proof -
    have "x \<notin> fst ` set pre" "x \<notin> fst ` set post" "ev_heap ev x = Some fresh_Listener"
      using r that by (auto simp: refines_def addrs)
    then show ?thesis
      by (simp add: set_next_prev_other first_of_notin last_of_notin)
  qed
  have "dll (?h(a \<mapsto> fresh_Listener)) None (entries q') None"
    unfolding ent' by (rule dll_unlink [OF d dist])
  moreover have "dom (?h(a \<mapsto> fresh_Listener)) = q_listeners q'" "q_listeners q' = q_listeners q"
    using dom by (auto simp: q_listeners_def addrs idle')
  moreover have "distinct (q_addrs q')" "q_idle q' \<inter> set (q_addrs q') = {}"
    using dist r by (auto simp: addrs idle' refines_def)
  moreover have "length (entries q') = ev_len ev - 1" using len by (simp add: ent')
  moreover have "0 \<notin> q_listeners q" using r by (simp add: refines_def)
  ultimately show ?thesis
    using idle first by (auto simp: refines_def unlinked_def ent' idle')
qed

lemma split_notified:
  assumes "refines ev q" and "(a, t, b) \<in> set (q_notified q)"
  obtains ns1 ns2 where "q_notified q = ns1 @ (a, t, b) # ns2"
    and "a \<notin> fst ` set ns1" and "a \<notin> fst ` set ns2" and "a \<notin> fst ` set (q_waiting q)"
proof -
  from split_list [OF assms(2)] obtain ns1 ns2 where "q_notified q = ns1 @ (a, t, b) # ns2"
    by blast
  moreover from this assms(1) have "a \<notin> fst ` set ns1" "a \<notin> fst ` set ns2"
      "a \<notin> fst ` set (q_waiting q)"
    by (auto simp: refines_def q_addrs_def)
  ultimately show ?thesis using that by blast
qed

lemma split_waiting:
  assumes "refines ev q" and "(a, w) \<in> set (q_waiting q)"
  obtains ws1 ws2 where "q_waiting q = ws1 @ (a, w) # ws2"
    and "a \<notin> fst ` set ws1" and "a \<notin> fst ` set ws2" and "a \<notin> fst ` set (q_notified q)"
proof -
  from split_list [OF assms(2)] obtain ws1 ws2 where "q_waiting q = ws1 @ (a, w) # ws2"
    by blast
  moreover from this assms(1) have "a \<notin> fst ` set ws1" "a \<notin> fst ` set ws2"
      "a \<notin> fst ` set (q_notified q)"
    by (auto simp: refines_def q_addrs_def)
  ultimately show ?thesis using that by blast
qed

text \<open>\<open>remove\<close> on a notified listener: without propagation the tag is returned, with it
  the notification is passed on.\<close>

lemma refines_remove_notified:
  assumes r: "refines ev q" and a: "(a, t, b) \<in> set (q_notified q)"
  shows "\<exists>ev'. Listener_remove a False ev = Inr (Some t, [], ev') \<and> refines ev' (q_del a q)"
    and "\<exists>ev'. Listener_remove a True ev = Inr (None, fst (q_forward t b (q_del a q)), ev')
      \<and> refines ev' (snd (q_forward t b (q_del a q)))"
proof -
  obtain ns1 ns2 where ns: "q_notified q = ns1 @ (a, t, b) # ns2"
    and nin: "a \<notin> fst ` set ns1" "a \<notin> fst ` set ns2" "a \<notin> fst ` set (q_waiting q)"
    using split_notified [OF r a] by blast
  let ?pre = "notified_entries ns1" and ?post = "notified_entries ns2 @ waiting_entries (q_waiting q)"
  have ent: "entries q = ?pre @ (a, Notified t b) # ?post" by (simp add: entries_def ns)
  have q': "q_notified (q_del a q) = ns1 @ ns2" "q_waiting (q_del a q) = q_waiting q"
    "q_idle (q_del a q) = insert a (q_idle q)"
    using nin by (simp_all add: q_del_def ns filter_out)
  let ?ev = "(unlinked a ?pre ?post ev)\<lparr>ev_notified := length (q_notified (q_del a q))\<rparr>"
  have "ev_first ev = first_of (q_waiting q) None" using r by (simp add: refines_def)
  then have first: "(if ev_first ev = Some a then first_of ?post None else ev_first ev) =
      first_of (q_waiting (q_del a q)) None"
    using first_of_notin [OF nin(3)] by (simp add: q' del: not_None_eq)
  have del: "refines ?ev (q_del a q)"
    by (rule refines_unlinked [OF r ent _ _ first]) (simp_all add: entries_def q')
  have cnt: "ev_notified ev = Suc (length (q_notified (q_del a q)))"
    using r by (simp add: refines_def ns q')
  show "\<exists>ev'. Listener_remove a False ev = Inr (Some t, [], ev') \<and> refines ev' (q_del a q)"
    using del cnt by (simp add: Listener_remove_eval [OF r ent] Let_def)
  let ?n = "\<lparr>sn_additional = b, sn_tag = Some t\<rparr>"
  let ?k = "notify_amount 1 b (q_del a q)"
  have "?k \<le> 1" by (auto simp: notify_amount_def)
  then have "?k = 0 \<or> ?k = Suc 0" by linarith
  then have "draw SingleNotify_impl ?k ?n =
      Inr (replicate ?k t, if ?k = 0 then ?n else ?n\<lparr>sn_tag := None\<rparr>)"
    by (auto simp: draw_SingleNotify simp del: draw.simps(2))
  then obtain ev' where "Inner_notify SingleNotify_impl ?n ?ev =
      Inr (?k, wakers_of (take ?k (q_waiting (q_del a q))),
        if ?k = 0 then ?n else ?n\<lparr>sn_tag := None\<rparr>, ev')"
    and "refines ev' (q_mark (replicate ?k t) b (q_del a q))"
    using refines_Inner_notify [OF del, where N = SingleNotify_impl and n = ?n] by force
  then show "\<exists>ev'. Listener_remove a True ev = Inr (None, fst (q_forward t b (q_del a q)), ev')
      \<and> refines ev' (snd (q_forward t b (q_del a q)))"
    using cnt by (simp add: Listener_remove_eval [OF r ent] Let_def q_forward_def)
qed

lemma refines_remove_waiting:
  assumes r: "refines ev q" and a: "(a, w) \<in> set (q_waiting q)"
  shows "\<exists>ev'. Listener_remove a propagate ev = Inr (None, [], ev') \<and> refines ev' (q_del a q)"
proof -
  obtain ws1 ws2 where ws: "q_waiting q = ws1 @ (a, w) # ws2"
    and nin: "a \<notin> fst ` set ws1" "a \<notin> fst ` set ws2" "a \<notin> fst ` set (q_notified q)"
    using split_waiting [OF r a] by blast
  let ?pre = "notified_entries (q_notified q) @ waiting_entries ws1" and ?post = "waiting_entries ws2"
  have ent: "entries q = ?pre @ (a, waiting_state w) # ?post" by (simp add: entries_def ws)
  have q': "q_notified (q_del a q) = q_notified q" "q_waiting (q_del a q) = ws1 @ ws2"
    "q_idle (q_del a q) = insert a (q_idle q)"
    using nin by (simp_all add: q_del_def ws filter_out)
  have "ev_first ev = first_of ws1 (Some a)" using r by (simp add: refines_def ws)
  then have first: "(if ev_first ev = Some a then first_of ?post None else ev_first ev) =
      first_of (q_waiting (q_del a q)) None"
    using nin(1) by (cases ws1) (auto simp: q')
  have del: "refines ((unlinked a ?pre ?post ev)\<lparr>ev_notified := length (q_notified (q_del a q))\<rparr>)
      (q_del a q)"
    by (rule refines_unlinked [OF r ent _ _ first]) (simp_all add: entries_def q')
  have "(unlinked a ?pre ?post ev)\<lparr>ev_notified := length (q_notified (q_del a q))\<rparr> =
      unlinked a ?pre ?post ev"
    using r by (cases ev) (simp add: refines_def unlinked_def q')
  with del show ?thesis
    by (cases w) (simp_all add: Listener_remove_eval [OF r ent])
qed

section \<open>Listening, polling, dropping\<close>

lemma listener_cases:
  assumes "refines ev q" and "a \<in> q_listeners q"
  obtains (idle) "a \<in> q_idle q" "a \<notin> set (q_addrs q)"
  | (notified) t b where "(a, t, b) \<in> set (q_notified q)" "a \<notin> q_idle q"
  | (waiting) w where "(a, w) \<in> set (q_waiting q)" "a \<notin> q_idle q"
proof (cases "a \<in> q_idle q")
  case True
  then show ?thesis using assms(1) idle by (auto simp: refines_def)
next
  case False
  then consider x where "x \<in> set (q_notified q)" "fst x = a"
    | y where "y \<in> set (q_waiting q)" "fst y = a"
    using assms(2) by (auto simp: q_listeners_def q_addrs_def)
  then show ?thesis using False notified waiting by cases (metis prod.collapse)+
qed

lemma refines_in_list:
  assumes "refines ev q" and "a \<in> q_listeners q"
  shows "\<exists>l. ev_heap ev a = Some l \<and> (in_list l \<longleftrightarrow> a \<notin> q_idle q)"
proof (cases "a \<in> q_idle q")
  case True
  with assms(1) show ?thesis by (simp add: refines_def fresh_Listener_def)
next
  case False
  with assms(2) have "a \<in> fst ` set (entries q)" by (simp add: q_listeners_def)
  then obtain x where "x \<in> set (entries q)" "fst x = a" by (metis imageE)
  with dll_dom [of "ev_heap ev" None "entries q" None x] assms(1) False show ?thesis
    by (auto simp: refines_def)
qed

lemma refines_listen:
  assumes r: "refines ev q" and a: "a \<in> q_listeners q"
  shows "\<exists>ev'. EventListener_listen a ev = Inr ev' \<and> refines ev' (q_listen a q)"
  using refines_in_list [OF assms] refines_insert [OF r] r
  by (auto simp: EventListener_listen_def q_listen_def)

lemma set_waker_out:
  "a \<notin> fst ` set xs \<Longrightarrow> map (\<lambda>(x, u). (x, if x = a then Some w else u)) xs = xs"
  by (induction xs) auto

text \<open>Setting the state of a waiting entry to a new waker.\<close>

lemma refines_set_waker:
  assumes r: "refines ev q" and a: "(a, v) \<in> set (q_waiting q)"
  shows "\<exists>h. upd_entry (ev_heap ev) a (\<lambda>e. e\<lparr>e_state := Waiting w\<rparr>) = Inr h
    \<and> e_state (l_entry (the (ev_heap ev a))) = waiting_state v
    \<and> refines (ev\<lparr>ev_heap := h\<rparr>) (q_set_waker a w q)"
proof -
  obtain ws1 ws2 where ws: "q_waiting q = ws1 @ (a, v) # ws2"
    and nin: "a \<notin> fst ` set ws1" "a \<notin> fst ` set ws2" "a \<notin> fst ` set (q_notified q)"
    using split_waiting [OF r a] by blast
  let ?pre = "notified_entries (q_notified q) @ waiting_entries ws1" and ?post = "waiting_entries ws2"
  have ent: "entries q = ?pre @ (a, waiting_state v) # ?post" by (simp add: entries_def ws)
  have q': "q_notified (q_set_waker a w q) = q_notified q" "q_idle (q_set_waker a w q) = q_idle q"
    "q_waiting (q_set_waker a w q) = ws1 @ (a, Some w) # ws2"
    using nin by (simp_all add: q_set_waker_def ws set_waker_out)
  have ent': "entries (q_set_waker a w q) = ?pre @ (a, Waiting w) # ?post"
    by (simp add: entries_def q')
  have addrs: "q_addrs (q_set_waker a w q) = q_addrs q" by (simp add: q_addrs_def q' ws)
  from r have d: "dll (ev_heap ev) None (?pre @ (a, waiting_state v) # ?post) None"
    by (simp add: refines_def ent)
  note ha = dll_lookup [OF d]
  let ?h = "(ev_heap ev)(a \<mapsto> node (Waiting w) (last_of (last_of None (q_notified q)) ws1)
      (first_of ws2 None))"
  have "dll ?h None (entries (q_set_waker a w q)) None"
    unfolding ent' using d nin by simp
  moreover have "a \<in> set (q_addrs q)" using ws by (simp add: q_addrs_def)
  then have "a \<notin> q_idle q" "a \<in> q_listeners q"
    using r by (auto simp: refines_def q_listeners_def)
  moreover have "first_of (q_waiting (q_set_waker a w q)) None = first_of (q_waiting q) None"
    by (cases ws1) (auto simp: q' ws)
  ultimately have "refines (ev\<lparr>ev_heap := ?h\<rparr>) (q_set_waker a w q)"
    using r by (auto simp: refines_def addrs q' q_listeners_def ent ent')
  then show ?thesis using ha by simp
qed

lemma set_waker_insert:
  assumes "refines ev q" and "a \<in> q_idle q"
  shows "q_set_waker a w (q_insert a None q) = q_insert a (Some w) q"
proof -
  have "a \<notin> fst ` set (q_waiting q)" using assms by (auto simp: refines_def q_addrs_def)
  then show ?thesis by (simp add: q_set_waker_def q_insert_def set_waker_out)
qed

lemma refines_register_waiting:
  assumes r: "refines ev q" and a: "(a, v) \<in> set (q_waiting q)"
  shows "\<exists>ev'. Listener_register a w ev = Inr (Registered, ev') \<and> refines ev' (q_set_waker a w q)"
proof -
  from refines_set_waker [OF assms, of w] obtain h where
    u: "upd_entry (ev_heap ev) a (\<lambda>e. e\<lparr>e_state := Waiting w\<rparr>) = Inr h"
    and s: "e_state (l_entry (the (ev_heap ev a))) = waiting_state v"
    and r': "refines (ev\<lparr>ev_heap := h\<rparr>) (q_set_waker a w q)" by blast
  from u obtain l where l: "ev_heap ev a = Some l"
    by (auto simp: upd_entry_def deref_def split: option.splits)
  have e: "(if task \<noteq> w then w else task) = w" for task by simp
  have "Listener_register a w ev = Inr (Registered, ev\<lparr>ev_heap := h\<rparr>)"
    using u s l by (cases v) (simp_all add: Listener_register_def e)
  with r' show ?thesis by blast
qed

lemma refines_register_notified:
  assumes r: "refines ev q" and a: "(a, t, b) \<in> set (q_notified q)"
  shows "\<exists>ev'. Listener_register a w ev = Inr (RNotified t, ev') \<and> refines ev' (q_del a q)"
proof -
  obtain ns1 ns2 where ns: "q_notified q = ns1 @ (a, t, b) # ns2"
    using split_list [OF a] by blast
  have "dll (ev_heap ev) None (notified_entries ns1 @ (a, Notified t b) #
      (notified_entries ns2 @ waiting_entries (q_waiting q))) None"
    using r by (simp add: refines_def entries_def ns)
  note ha = dll_lookup [OF this]
  then have same: "ev\<lparr>ev_heap := (ev_heap ev)(a \<mapsto> node (Notified t b) (last_of None ns1)
      (first_of ns2 (first_of (q_waiting q) None)))\<rparr> = ev"
    by (cases ev) (auto simp: fun_upd_idem)
  show ?thesis
    using refines_remove_notified(1) [OF assms] ha same by (auto simp: Listener_register_def)
qed

lemma map_of_notified:
  assumes "refines ev q"
  shows "map_of (q_notified q) a = Some (t, b) \<longleftrightarrow> (a, t, b) \<in> set (q_notified q)"
    and "map_of (q_notified q) a = None \<longleftrightarrow> a \<notin> fst ` set (q_notified q)"
  using assms by (auto simp: refines_def q_addrs_def map_of_eq_None_iff)

lemma refines_poll:
  assumes r: "refines ev q" and a: "a \<in> q_listeners q"
  shows "\<exists>ev'. Listener_poll a w ev = Inr (fst (q_poll a w q), ev') \<and> refines ev' (snd (q_poll a w q))"
  using r a
proof (cases rule: listener_cases)
  case idle
  then have m: "map_of (q_notified q) a = None"
    by (auto simp: map_of_eq_None_iff q_addrs_def)
  obtain ev1 where ev1: "Listener_insert a ev = Inr ev1" "refines ev1 (q_insert a None q)"
    using refines_insert [OF r idle(1)] by blast
  moreover have "(a, None) \<in> set (q_waiting (q_insert a None q))" by (simp add: q_insert_def)
  ultimately obtain ev2 where "Listener_register a w ev1 = Inr (Registered, ev2)"
      "refines ev2 (q_insert a (Some w) q)"
    using refines_register_waiting set_waker_insert [OF r idle(1)] by metis
  with ev1 idle m refines_in_list [OF r a] show ?thesis
    by (auto simp: Listener_poll_def q_poll_def)
next
  case (notified t b)
  then have "map_of (q_notified q) a = Some (t, b)" using map_of_notified [OF r] by simp
  with notified refines_register_notified [OF r notified(1), of w] refines_in_list [OF r a]
  show ?thesis by (auto simp: Listener_poll_def q_poll_def)
next
  case (waiting v)
  then have "a \<notin> fst ` set (q_notified q)" using split_waiting [OF r waiting(1)] by metis
  then have "map_of (q_notified q) a = None" by (simp add: map_of_eq_None_iff)
  with waiting refines_register_waiting [OF r waiting(1), of w] refines_in_list [OF r a]
  show ?thesis by (auto simp: Listener_poll_def q_poll_def)
qed

text \<open>Freeing the memory of a listener that is not in the list.\<close>

lemma refines_free:
  assumes r: "refines ev q" and a: "a \<in> q_idle q"
  shows "refines (ev\<lparr>ev_heap := (ev_heap ev)(a := None)\<rparr>) (q\<lparr>q_idle := q_idle q - {a}\<rparr>)"
proof -
  have "a \<notin> fst ` set (entries q)" "a \<notin> set (q_addrs q)" using r a by (auto simp: refines_def)
  then show ?thesis using r by (auto simp: refines_def q_listeners_def simp del: set_entries)
qed

lemma q_forward_sel:
  "q_idle (snd (q_forward t b q)) = q_idle q"
  by (simp add: q_forward_def q_mark_def Let_def)

lemma refines_drop:
  assumes r: "refines ev q" and a: "a \<in> q_listeners q"
  shows "\<exists>ev'. Listener_drop a ev = Inr (fst (q_drop a q), ev') \<and> refines ev' (snd (q_drop a q))"
  using r a
proof (cases rule: listener_cases)
  case idle
  then have m: "map_of (q_notified q) a = None" "a \<notin> fst ` set (q_waiting q)"
      "a \<notin> fst ` set (q_notified q)"
    by (auto simp: map_of_eq_None_iff q_addrs_def)
  then have "(q_del a q)\<lparr>q_idle := q_idle q - {a}\<rparr> = q\<lparr>q_idle := q_idle q - {a}\<rparr>"
    by (simp add: q_del_def filter_out)
  with m refines_free [OF r idle(1)] refines_in_list [OF r a] idle show ?thesis
    by (auto simp: Listener_drop_def q_drop_def)
next
  case (notified t b)
  then have m: "map_of (q_notified q) a = Some (t, b)" using map_of_notified [OF r] by simp
  obtain ev1 where ev1: "Listener_remove a True ev = Inr (None, fst (q_forward t b (q_del a q)), ev1)"
    and r1: "refines ev1 (snd (q_forward t b (q_del a q)))"
    using refines_remove_notified(2) [OF r notified(1)] by blast
  have "q_idle (snd (q_forward t b (q_del a q))) - {a} = q_idle q - {a}"
    by (simp add: q_forward_sel q_del_def)
  moreover have "a \<in> q_idle (snd (q_forward t b (q_del a q)))"
    by (simp add: q_forward_sel q_del_def)
  ultimately show ?thesis
    using ev1 m refines_free [OF r1, of a] notified(2) refines_in_list [OF r a]
    by (auto simp: Listener_drop_def q_drop_def split: prod.split)
next
  case (waiting v)
  then have "a \<notin> fst ` set (q_notified q)" using split_waiting [OF r waiting(1)] by metis
  then have m: "map_of (q_notified q) a = None" by (simp add: map_of_eq_None_iff)
  obtain ev1 where ev1: "Listener_remove a True ev = Inr (None, [], ev1)" "refines ev1 (q_del a q)"
    using refines_remove_waiting [OF r waiting(1)] by blast
  have "a \<in> q_idle (q_del a q)" "q_idle (q_del a q) - {a} = q_idle q - {a}"
    by (simp_all add: q_del_def)
  then show ?thesis
    using ev1 m refines_free [OF ev1(2), of a] waiting(2) refines_in_list [OF r a]
    by (auto simp: Listener_drop_def q_drop_def)
qed

section \<open>Reading the state of a listener\<close>

lemma refines_entry:
  assumes "refines ev q" and "(a, s) \<in> set (entries q)"
  shows "\<exists>l. ev_heap ev a = Some l \<and> in_list l \<and> e_state (l_entry l) = s"
proof -
  from split_list [OF assms(2)] obtain xs ys where "entries q = xs @ (a, s) # ys" by blast
  then have "dll (ev_heap ev) None (xs @ (a, s) # ys) None" using assms(1) by (simp add: refines_def)
  from dll_lookup [OF this] show ?thesis by simp
qed

lemma refines_is_notified:
  assumes r: "refines ev q"
  shows "is_notified ev a \<longleftrightarrow> a \<in> fst ` set (q_notified q)"
proof (cases "a \<in> q_listeners q")
  case False
  then show ?thesis using r by (auto simp: is_notified_def refines_def q_listeners_def q_addrs_def
      split: option.split)
next
  case True
  from r True show ?thesis
  proof (cases rule: listener_cases)
    case idle
    then show ?thesis using r by (auto simp: is_notified_def refines_def fresh_Listener_def
          fresh_Entry_def q_addrs_def)
  next
    case (notified t b)
    then have "(a, Notified t b) \<in> set (entries q)"
      by (force simp: entries_def notified_entries_def)
    from refines_entry [OF r this] notified show ?thesis by (force simp: is_notified_def)
  next
    case (waiting w)
    then have "(a, waiting_state w) \<in> set (entries q)"
      by (force simp: entries_def waiting_entries_def)
    from refines_entry [OF r this] split_waiting [OF r waiting(1)] show ?thesis
      by (cases w) (auto simp: is_notified_def)
  qed
qed

lemma refines_waits:
  assumes r: "refines ev q"
  shows "waits ev a \<longleftrightarrow> a \<in> fst ` set (q_waiting q)"
proof (cases "a \<in> q_listeners q")
  case False
  then show ?thesis using r by (auto simp: waits_def refines_def q_listeners_def q_addrs_def
      split: option.split)
next
  case True
  from r True show ?thesis
  proof (cases rule: listener_cases)
    case idle
    then show ?thesis using r by (auto simp: waits_def refines_def fresh_Listener_def q_addrs_def)
  next
    case (notified t b)
    then have "(a, Notified t b) \<in> set (entries q)"
      by (force simp: entries_def notified_entries_def)
    from refines_entry [OF r this] split_notified [OF r notified(1)] show ?thesis
      by (auto simp: waits_def)
  next
    case (waiting w)
    then have "(a, waiting_state w) \<in> set (entries q)"
      by (force simp: entries_def waiting_entries_def)
    from refines_entry [OF r this] waiting show ?thesis
      by (cases w) (force simp: waits_def)+
  qed
qed

section \<open>Reading the list\<close>

lemma walk_dll: "dll h p xs None \<Longrightarrow> walk (length xs) h (first_of xs None) = xs"
proof (induction xs arbitrary: p)
  case (Cons x xs)
  then show ?case by (cases x) auto
qed simp

text \<open>What is read from the head is the notified entries, then the waiting ones.\<close>

lemma refines_list: "refines ev q \<Longrightarrow> Event_list ev = entries q"
  using walk_dll by (fastforce simp: refines_def Event_list_def)

text \<open>An event refines one queue.\<close>

lemma notified_entries_inj: "notified_entries ns = notified_entries ms \<Longrightarrow> ns = ms"
  unfolding notified_entries_def by (erule map_injective) (auto simp: inj_def)

lemma waiting_entries_inj: "waiting_entries ws = waiting_entries vs \<Longrightarrow> ws = vs"
  unfolding waiting_entries_def
  by (erule map_injective) (auto simp: inj_def elim!: waiting_state.elims)

lemma refines_unique:
  fixes ev :: "('t, 'w) Event"
  assumes "refines ev q" and "refines ev q'"
  shows "q = q'"
proof -
  have e: "entries q = entries q'" using refines_list assms by metis
  have n: "length (q_notified q) = length (q_notified q')" using assms by (simp add: refines_def)
  have "notified_entries (q_notified q) = (notified_entries (q_notified q') :: (addr \<times> ('t, 'w) State) list)"
    "waiting_entries (q_waiting q) = (waiting_entries (q_waiting q') :: (addr \<times> ('t, 'w) State) list)"
    using e n by (simp_all add: entries_def)
  then have same: "q_notified q = q_notified q'" "q_waiting q = q_waiting q'"
    using notified_entries_inj waiting_entries_inj by blast+
  then have "q_addrs q = q_addrs q'" by (simp add: q_addrs_def)
  moreover have "q_idle q = dom (ev_heap ev) - set (q_addrs q)" if "refines ev q" for q
    using that unfolding refines_def q_listeners_def by blast
  ultimately have "q_idle q = q_idle q'" using assms by metis
  with same show ?thesis by simp
qed

lemma waiting_tags: "concat (map entry_tag (waiting_entries ws)) = []"
proof (induction ws)
  case (Cons x ws)
  obtain a w where "x = (a, w)" by fastforce
  with Cons show ?case by (cases w) auto
qed simp

lemma notified_tags: "concat (map entry_tag (notified_entries ns)) = map (\<lambda>x. fst (snd x)) ns"
  by (induction ns) auto

lemma refines_tags: "refines ev q \<Longrightarrow> Event_tags ev = map (\<lambda>x. fst (snd x)) (q_notified q)"
  unfolding Event_tags_def by (simp only: refines_list entries_def map_append concat_append waiting_tags notified_tags append_Nil2)

lemma refines_notify_with:
  assumes r: "refines ev q" and i: "0 \<le> i" "i \<le> int usize_max"
    and c: "call_times f (notify_amount (nat i) False q) env = (ts, env')"
  shows "\<exists>ev'. notify_int_with i f env ev =
      Inr (env', wakers_of (take (notify_amount (nat i) False q) (q_waiting q)), ev')
    \<and> refines ev' (q_mark ts False q)"
proof -
  have n: "into_notification i = Inr (Notify (nat i))"
    using i by (simp add: into_notification_def as_usize_small)
  let ?n = "tag_with (Notify (nat i)) f env"
  have "draw (TagWith_impl Notify_impl) (notify_amount (nat i) False q) ?n = Inr (ts, ?n\<lparr>tw_env := env'\<rparr>)"
    using c by (simp add: draw_TagWith tag_with_def)
  then have d: "draw (TagWith_impl Notify_impl) (notify_amount (nt_count (TagWith_impl Notify_impl) ?n)
      (nt_is_additional (TagWith_impl Notify_impl) ?n) q) ?n = Inr (ts, ?n\<lparr>tw_env := env'\<rparr>)"
    by (simp add: tag_with_def)
  have "length ts = notify_amount (nat i) False q"
    using draw_length [OF d] by (simp add: tag_with_def)
  with refines_Event_notify [OF r d] n show ?thesis
    by (auto simp: notify_int_with_def tag_with_def)
qed

end
