(* ===== verification/Async.thy ===== *)
theory Async
  imports EventQueue
begin

text \<open>
  The asynchronous functions of the crate. Most of them are one loop with one suspension
  point: try to finish, otherwise await an \<open>EventListener\<close> that lives in the future
  itself, and try again. This theory models the state machine the compiler makes of such a
  function (\<open>wait_poll\<close>, \<open>wait_drop\<close>), states what a loop body must provide as
  the locale \<open>wait_loop\<close>, and derives from it what every poll does. The extension
  \<open>handoff\<close> adds a resource that at most one caller can take, and shows that its
  notifications are never lost.
\<close>

section \<open>The state machine of an async loop\<close>

text \<open>A future that was never polled, one suspended at its await, one that has returned.\<close>

datatype fut = Unresumed | Suspended | Returned

text \<open>
  The parts of a loop \<open>loop { if let Some(r) = try { return r } match listener.await
  { t => if let Some(r) = got(t) { return r } } }\<close> over a shared state \<open>'s\<close>:
  the attempt, what is returned at once for a received tag, and where in the state the event
  of the listener is.
\<close>

record ('s, 't, 'w, 'r) wait_fn =
  wf_try :: "'s \<Rightarrow> ('r option \<times> 's) outcome"
  wf_got :: "'t \<Rightarrow> 'r option"
  wf_event :: "'s \<Rightarrow> ('t, 'w) Event"
  wf_put :: "('t, 'w) Event \<Rightarrow> 's \<Rightarrow> 's"

text \<open>
  One poll runs the loop until it returns or the listener is pending. The loop is bounded by
  fuel; \<open>poll_fuel\<close> turns are more than any poll takes (a listener polled right after
  it was inserted is pending), which the locale \<open>wait_loop\<close> proves.
\<close>

definition poll_fuel :: nat where
  "poll_fuel = Suc (Suc 0)"

fun loop_head :: "nat \<Rightarrow> ('s, 't, 'w, 'r) wait_fn \<Rightarrow> addr \<Rightarrow> 'w \<Rightarrow> 's \<Rightarrow> ('r poll \<times> 's) outcome" where
  "loop_head 0 F a w s = Inl Out_of_fuel"
| "loop_head (Suc k) F a w s =
     andThen (wf_try F s) (\<lambda>(r, s1).
     case r of
       Some v \<Rightarrow> Inr (Ready v, s1)
     | None \<Rightarrow>
         andThen (Listener_poll a w (wf_event F s1)) (\<lambda>(p, e).
         case p of
           Pending \<Rightarrow> Inr (Pending, wf_put F e s1)
         | Ready t \<Rightarrow>
             (case wf_got F t of
                Some v \<Rightarrow> Inr (Ready v, wf_put F e s1)
              | None \<Rightarrow> loop_head k F a w (wf_put F e s1))))"

definition loop_resume :: "('s, 't, 'w, 'r) wait_fn \<Rightarrow> addr \<Rightarrow> 'w \<Rightarrow> 's \<Rightarrow> ('r poll \<times> 's) outcome" where
  "loop_resume F a w s =
     andThen (Listener_poll a w (wf_event F s)) (\<lambda>(p, e).
     case p of
       Pending \<Rightarrow> Inr (Pending, wf_put F e s)
     | Ready t \<Rightarrow>
         (case wf_got F t of
            Some v \<Rightarrow> Inr (Ready v, wf_put F e s)
          | None \<Rightarrow> loop_head poll_fuel F a w (wf_put F e s)))"

text \<open>
  Poll the future whose listener lives at \<open>a\<close>: its result, its next state, the wakers
  woken and the shared state. The listener is created by the first poll and dropped when the
  function returns; the guard or value it returns is made before.
\<close>

definition wait_finish ::
  "('s, 't, 'w, 'r) wait_fn \<Rightarrow> addr \<Rightarrow> 'r poll \<times> 's \<Rightarrow> ('r poll \<times> fut \<times> 'w list \<times> 's) outcome" where
  "wait_finish F a ps =
     (case ps of
        (Pending, s) \<Rightarrow> Inr (Pending, Suspended, [], s)
      | (Ready v, s) \<Rightarrow>
          andThen (Listener_drop a (wf_event F s)) (\<lambda>(woken, e).
          Inr (Ready v, Returned, woken, wf_put F e s)))"

definition wait_poll ::
  "('s, 't, 'w, 'r) wait_fn \<Rightarrow> fut \<Rightarrow> addr \<Rightarrow> 'w \<Rightarrow> 's
     \<Rightarrow> ('r poll \<times> fut \<times> 'w list \<times> 's) outcome" where
  "wait_poll F st a w s =
     (case st of
        Unresumed \<Rightarrow>
          andThen (loop_head poll_fuel F a w (wf_put F (Listener_new a (wf_event F s)) s))
            (wait_finish F a)
      | Suspended \<Rightarrow> andThen (loop_resume F a w s) (wait_finish F a)
      | Returned \<Rightarrow> Inl (Panic Resumed_after_completion))"

text \<open>Dropping the future drops its listener if there is one.\<close>

definition wait_drop ::
  "('s, 't, 'w, 'r) wait_fn \<Rightarrow> fut \<Rightarrow> addr \<Rightarrow> 's \<Rightarrow> ('w list \<times> 's) outcome" where
  "wait_drop F st a s =
     (case st of
        Suspended \<Rightarrow>
          andThen (Listener_drop a (wf_event F s)) (\<lambda>(woken, e). Inr (woken, wf_put F e s))
      | _ \<Rightarrow> Inr ([], s))"

declare poll_fuel_def [evals] loop_resume_def [evals] wait_finish_def [evals]
  wait_poll_def [evals] wait_drop_def [evals]

section \<open>The queue seen by a waiting future\<close>

text \<open>The future at \<open>a\<close> is waiting, or it has been notified with tag \<open>t\<close>.\<close>

definition is_waiting :: "addr \<Rightarrow> ('t, 'w) queue \<Rightarrow> bool" where
  "is_waiting a q \<longleftrightarrow> a \<in> fst ` set (q_waiting q)"

definition notified_tag :: "addr \<Rightarrow> ('t, 'w) queue \<Rightarrow> 't option" where
  "notified_tag a q = map_option fst (map_of (q_notified q) a)"

text \<open>The queue without the listener at \<open>a\<close>.\<close>

definition q_remove :: "addr \<Rightarrow> ('t, 'w) queue \<Rightarrow> ('t, 'w) queue" where
  "q_remove a q = (q_del a q)\<lparr>q_idle := q_idle q - {a}\<rparr>"

lemma q_remove_sel [simp]:
  "q_notified (q_remove a q) = filter (\<lambda>x. fst x \<noteq> a) (q_notified q)"
  "q_waiting (q_remove a q) = filter (\<lambda>x. fst x \<noteq> a) (q_waiting q)"
  "q_idle (q_remove a q) = q_idle q - {a}"
  by (simp_all add: q_remove_def q_del_def)

lemma q_sel [simp]:
  "q_notified (q_new a q) = q_notified q" "q_waiting (q_new a q) = q_waiting q"
  "q_idle (q_new a q) = insert a (q_idle q)"
  "q_notified (q_insert a v q) = q_notified q" "q_waiting (q_insert a v q) = q_waiting q @ [(a, v)]"
  "q_idle (q_insert a v q) = q_idle q - {a}"
  "q_notified (q_set_waker a w q) = q_notified q"
  "q_idle (q_set_waker a w q) = q_idle q"
  "q_notified (q_del a q) = filter (\<lambda>x. fst x \<noteq> a) (q_notified q)"
  "q_waiting (q_del a q) = filter (\<lambda>x. fst x \<noteq> a) (q_waiting q)"
  "q_idle (q_del a q) = insert a (q_idle q)"
  "q_waiting (q_mark ts b q) = drop (length ts) (q_waiting q)"
  "q_idle (q_mark ts b q) = q_idle q"
  by (simp_all add: q_new_def q_insert_def q_set_waker_def q_del_def q_mark_def)

lemma q_set_waker_waiting [simp]:
  "map fst (q_waiting (q_set_waker a w q)) = map fst (q_waiting q)"
  "q_waiting (q_set_waker a w q) = [] \<longleftrightarrow> q_waiting q = []"
  "fst ` set (q_waiting (q_set_waker a w q)) = fst ` set (q_waiting q)"
proof -
  show m: "map fst (q_waiting (q_set_waker a w q)) = map fst (q_waiting q)"
    by (simp add: q_set_waker_def case_prod_beta comp_def)
  show "q_waiting (q_set_waker a w q) = [] \<longleftrightarrow> q_waiting q = []"
    by (simp add: q_set_waker_def)
  show "fst ` set (q_waiting (q_set_waker a w q)) = fst ` set (q_waiting q)"
    using m by (metis list.set_map)
qed

lemma refines_wf:
  assumes "refines ev q"
  shows "distinct (q_addrs q)" and "q_idle q \<inter> set (q_addrs q) = {}" and "0 \<notin> q_listeners q"
    and "ev_heap ev a = None \<longleftrightarrow> a \<notin> q_listeners q"
  using assms by (auto simp: refines_def)

lemma refines_waiting:
  assumes "refines ev q" and "is_waiting a q"
  shows "a \<in> q_listeners q" "a \<notin> q_idle q" "map_of (q_notified q) a = None"
proof -
  from assms(2) obtain w where w: "(a, w) \<in> set (q_waiting q)" by (auto simp: is_waiting_def)
  have addr: "a \<in> set (q_addrs q)" using w by (force simp: q_addrs_def)
  then show "a \<in> q_listeners q" "a \<notin> q_idle q"
    using refines_wf(2) [OF assms(1)] by (auto simp: q_listeners_def)
  show "map_of (q_notified q) a = None"
    using split_waiting [OF assms(1) w] by (metis map_of_eq_None_iff)
qed

lemma refines_notified:
  assumes "refines ev q" and "notified_tag a q = Some t"
  shows "a \<in> q_listeners q" "a \<notin> q_idle q" "\<exists>b. map_of (q_notified q) a = Some (t, b)"
    "a \<notin> fst ` set (q_waiting q)"
proof -
  from assms(2) obtain b where b: "map_of (q_notified q) a = Some (t, b)"
    by (auto simp: notified_tag_def)
  then show "\<exists>b. map_of (q_notified q) a = Some (t, b)" by blast
  from b have m: "(a, t, b) \<in> set (q_notified q)" by (rule map_of_SomeD)
  have addr: "a \<in> set (q_addrs q)" using m by (force simp: q_addrs_def)
  then show "a \<in> q_listeners q" "a \<notin> q_idle q"
    using refines_wf(2) [OF assms(1)] by (auto simp: q_listeners_def)
  show "a \<notin> fst ` set (q_waiting q)" using split_notified [OF assms(1) m] by metis
qed

lemma Listener_drop_new:
  assumes "ev_heap ev a = None"
  shows "Listener_drop a (Listener_new a ev) = Inr ([], ev)"
  using assms by (cases ev) (simp add: Listener_drop_def Listener_new_def fresh_Listener_def fun_upd_idem)

lemma refines_drop_idle:
  assumes "refines ev q" and "a \<in> q_idle q"
  shows "\<exists>e. Listener_drop a ev = Inr ([], e) \<and> refines e (q_remove a q)"
proof -
  have "a \<in> q_listeners q" using assms(2) by (simp add: q_listeners_def)
  moreover have "q_drop a q = ([], q_remove a q)"
    using refines_wf(2) [OF assms(1)] assms(2) map_of_notified(2) [OF assms(1), of a]
    by (auto simp: q_drop_def q_remove_def q_addrs_def)
  ultimately show ?thesis using refines_drop [OF assms(1)] by (metis fst_conv snd_conv)
qed

lemma q_remove_del [simp]: "q_remove a (q_del a q) = q_remove a q"
  by (simp add: q_remove_def q_del_def)

lemma q_insert_del: "q_insert a v (q_del a q) = q_insert a v (q_remove a q)"
  by (simp add: q_remove_def q_del_def q_insert_def)

section \<open>The specification of a poll\<close>

text \<open>
  What a poll does, over the abstract queue: the result, the next state of the future, the
  shared state (its event excepted) and the queue.
\<close>

definition wait_attempt ::
  "('s, 't, 'w, 'r) wait_fn \<Rightarrow> addr \<Rightarrow> 'w \<Rightarrow> 's \<Rightarrow> ('t, 'w) queue
     \<Rightarrow> 'r poll \<times> fut \<times> 's \<times> ('t, 'w) queue" where
  "wait_attempt F a w s q =
     (case wf_try F s of
        Inr (Some v, s1) \<Rightarrow> (Ready v, Returned, s1, q)
      | _ \<Rightarrow> (Pending, Suspended, s, q_insert a (Some w) q))"

definition wait_spec ::
  "('s, 't, 'w, 'r) wait_fn \<Rightarrow> fut \<Rightarrow> addr \<Rightarrow> 'w \<Rightarrow> 's \<Rightarrow> ('t, 'w) queue
     \<Rightarrow> 'r poll \<times> fut \<times> 's \<times> ('t, 'w) queue" where
  "wait_spec F st a w s q =
     (if st = Unresumed then wait_attempt F a w s q
      else case notified_tag a q of
        None \<Rightarrow> (Pending, Suspended, s, q_set_waker a w q)
      | Some t \<Rightarrow>
          (case wf_got F t of
             Some v \<Rightarrow> (Ready v, Returned, s, q_remove a q)
           | None \<Rightarrow> wait_attempt F a w s (q_remove a q)))"

text \<open>A future that may be polled: never polled at an unused address, or suspended with its
  listener in the list.\<close>

definition pollable :: "fut \<Rightarrow> addr \<Rightarrow> ('t, 'w) queue \<Rightarrow> bool" where
  "pollable st a q \<longleftrightarrow>
     (case st of
        Unresumed \<Rightarrow> a \<notin> q_listeners q \<and> a \<noteq> 0
      | Suspended \<Rightarrow> a \<in> set (q_addrs q)
      | Returned \<Rightarrow> False)"

lemma pollable_suspended:
  assumes "refines ev q" and "pollable Suspended a q"
  obtains "is_waiting a q" "notified_tag a q = None" | t where "notified_tag a q = Some t"
proof (cases "notified_tag a q")
  case None
  then have "a \<notin> fst ` set (q_notified q)" by (simp add: notified_tag_def map_of_eq_None_iff)
  with assms(2) have "is_waiting a q" by (auto simp: pollable_def is_waiting_def q_addrs_def)
  with None that(1) show ?thesis by blast
qed (use that(2) in blast)

section \<open>What every poll of such a loop does\<close>

text \<open>
  The interface between an async loop and its poll: \<open>inv\<close> is what the attempt needs of
  the state (it does not look at the event), the attempt leaves the event alone, and a failed
  attempt changes nothing.
\<close>

locale wait_loop =
  fixes F :: "('s, 't, 'w, 'r) wait_fn"
    and inv :: "'s \<Rightarrow> bool"
  assumes event_put: "wf_event F (wf_put F e s) = e"
    and put_put: "wf_put F e (wf_put F e' s) = wf_put F e s"
    and put_event: "wf_put F (wf_event F s) s = s"
    and inv_put: "inv (wf_put F e s) = inv s"
    and try_ok: "inv s \<Longrightarrow> \<exists>r s1. wf_try F s = Inr (r, s1)"
    and try_put: "wf_try F s = Inr (r, s1) \<Longrightarrow> wf_try F (wf_put F e s) = Inr (r, wf_put F e s1)"
    and try_event: "wf_try F s = Inr (r, s1) \<Longrightarrow> wf_event F s1 = wf_event F s"
    and try_none: "wf_try F s = Inr (None, s1) \<Longrightarrow> s1 = s"
begin

lemmas lens = event_put put_put put_event inv_put

lemma first_poll_ready:
  assumes r: "refines (wf_event F s) q" and a: "a \<notin> q_listeners q"
    and t: "wf_try F s = Inr (Some v, s1)"
  shows "wait_poll F Unresumed a w s = Inr (Ready v, Returned, [], s1)"
proof -
  have "ev_heap (wf_event F s) a = None" using refines_wf(4) [OF r] a by simp
  then have "Listener_drop a (Listener_new a (wf_event F s)) = Inr ([], wf_event F s)"
    by (rule Listener_drop_new)
  moreover have "wf_put F (wf_event F s) s1 = s1"
    using try_event [OF t] put_event [of s1] by simp
  ultimately show ?thesis
    using try_put [OF t] by (simp add: lens wait_poll_def poll_fuel_def wait_finish_def)
qed

lemma first_poll_pending:
  assumes r: "refines (wf_event F s) q" and a: "a \<notin> q_listeners q" "a \<noteq> 0"
    and t: "wf_try F s = Inr (None, s1)"
  shows "\<exists>e. wait_poll F Unresumed a w s = Inr (Pending, Suspended, [], wf_put F e s)
    \<and> refines e (q_insert a (Some w) q)"
proof -
  have t': "wf_try F s = Inr (None, s)" using t try_none [OF t] by simp
  have r1: "refines (Listener_new a (wf_event F s)) (q_new a q)"
    using refines_new [OF r a] .
  have notif: "map_of (q_notified q) a = None"
    using a(1) map_of_notified(2) [OF r, of a] by (auto simp: q_listeners_def q_addrs_def)
  have q: "q_poll a w (q_new a q) = (Pending, q_insert a (Some w) (q_new a q))"
    using notif by (simp add: q_poll_def)
  have q': "q_insert a (Some w) (q_new a q) = q_insert a (Some w) q"
    using a(1) by (auto simp: q_insert_def q_new_def q_listeners_def)
  from refines_poll [OF r1, of a w] obtain e where
    "Listener_poll a w (Listener_new a (wf_event F s)) = Inr (Pending, e)"
    "refines e (q_insert a (Some w) q)"
    unfolding q q' by (auto simp: q_listeners_def)
  then show ?thesis
    using try_put [OF t'] by (auto simp: lens wait_poll_def poll_fuel_def wait_finish_def)
qed

lemma resume_waiting:
  assumes r: "refines (wf_event F s) q" and a: "is_waiting a q"
  shows "\<exists>e. wait_poll F Suspended a w s = Inr (Pending, Suspended, [], wf_put F e s)
    \<and> refines e (q_set_waker a w q)"
proof -
  note wt = refines_waiting [OF r a]
  have q: "q_poll a w q = (Pending, q_set_waker a w q)" using wt by (simp add: q_poll_def)
  from refines_poll [OF r wt(1), of w] obtain e where
    "Listener_poll a w (wf_event F s) = Inr (Pending, e)" "refines e (q_set_waker a w q)"
    unfolding q by auto
  then show ?thesis by (auto simp: lens wait_poll_def loop_resume_def wait_finish_def)
qed

lemma poll_notified:
  assumes r: "refines (wf_event F s) q" and a: "notified_tag a q = Some t"
  obtains e where "Listener_poll a w (wf_event F s) = Inr (Ready t, e)" "refines e (q_del a q)"
proof -
  from refines_notified [OF r a] obtain b where wt: "a \<in> q_listeners q"
      "map_of (q_notified q) a = Some (t, b)" by blast
  then have q: "q_poll a w q = (Ready t, q_del a q)" by (simp add: q_poll_def)
  from refines_poll [OF r wt(1), of w] that show ?thesis unfolding q by auto
qed

lemma resume_got:
  assumes r: "refines (wf_event F s) q" and a: "notified_tag a q = Some t"
    and g: "wf_got F t = Some v"
  shows "\<exists>e. wait_poll F Suspended a w s = Inr (Ready v, Returned, [], wf_put F e s)
    \<and> refines e (q_remove a q)"
proof -
  obtain e where e: "Listener_poll a w (wf_event F s) = Inr (Ready t, e)" "refines e (q_del a q)"
    using poll_notified [OF r a] by blast
  obtain e' where "Listener_drop a e = Inr ([], e')" "refines e' (q_remove a q)"
    using refines_drop_idle [OF e(2), of a] by auto
  with e g show ?thesis by (auto simp: lens wait_poll_def loop_resume_def wait_finish_def)
qed

lemma resume_ready:
  assumes r: "refines (wf_event F s) q" and a: "notified_tag a q = Some t"
    and g: "wf_got F t = None" and t: "wf_try F s = Inr (Some v, s1)"
  shows "\<exists>e. wait_poll F Suspended a w s = Inr (Ready v, Returned, [], wf_put F e s1)
    \<and> refines e (q_remove a q)"
proof -
  obtain e where e: "Listener_poll a w (wf_event F s) = Inr (Ready t, e)" "refines e (q_del a q)"
    using poll_notified [OF r a] by blast
  obtain e' where "Listener_drop a e = Inr ([], e')" "refines e' (q_remove a q)"
    using refines_drop_idle [OF e(2), of a] by auto
  with e g try_put [OF t] show ?thesis
    by (auto simp: lens wait_poll_def loop_resume_def wait_finish_def poll_fuel_def)
qed

lemma resume_pending:
  assumes r: "refines (wf_event F s) q" and a: "notified_tag a q = Some t"
    and g: "wf_got F t = None" and t: "wf_try F s = Inr (None, s1)"
  shows "\<exists>e. wait_poll F Suspended a w s = Inr (Pending, Suspended, [], wf_put F e s)
    \<and> refines e (q_insert a (Some w) (q_remove a q))"
proof -
  have t': "wf_try F s = Inr (None, s)" using t try_none [OF t] by simp
  obtain e where e: "Listener_poll a w (wf_event F s) = Inr (Ready t, e)" "refines e (q_del a q)"
    using poll_notified [OF r a] by blast
  have "map_of (q_notified (q_del a q)) a = None"
    by (auto simp: map_of_eq_None_iff)
  then have q: "q_poll a w (q_del a q) = (Pending, q_insert a (Some w) (q_remove a q))"
    by (simp add: q_poll_def q_insert_del)
  from refines_poll [OF e(2), of a w] obtain e2 where
    "Listener_poll a w e = Inr (Pending, e2)" "refines e2 (q_insert a (Some w) (q_remove a q))"
    unfolding q by (auto simp: q_listeners_def)
  with e g try_put [OF t'] show ?thesis
    by (auto simp: lens wait_poll_def loop_resume_def wait_finish_def poll_fuel_def)
qed

lemma drop_suspended:
  assumes r: "refines (wf_event F s) q" and a: "a \<in> q_listeners q"
  shows "\<exists>e. wait_drop F Suspended a s = Inr (fst (q_drop a q), wf_put F e s)
    \<and> refines e (snd (q_drop a q))"
  using refines_drop [OF r a] by (auto simp: lens wait_drop_def)

text \<open>
  The loop itself, for functions that go on after it: the listener at \<open>a\<close> is idle when the
  loop is entered, and idle again when it is left.
\<close>

lemma loop_head_ready:
  "wf_try F s = Inr (Some v, s1) \<Longrightarrow> loop_head poll_fuel F a w s = Inr (Ready v, s1)"
  by (simp add: poll_fuel_def)

lemma loop_head_pending:
  assumes r: "refines (wf_event F s) q" and a: "a \<in> q_idle q" and t: "wf_try F s = Inr (None, s1)"
  shows "\<exists>e. loop_head poll_fuel F a w s = Inr (Pending, wf_put F e s)
    \<and> refines e (q_insert a (Some w) q)"
proof -
  have t': "wf_try F s = Inr (None, s)" using t try_none [OF t] by simp
  have "map_of (q_notified q) a = None"
    using refines_wf(2) [OF r] a map_of_notified(2) [OF r, of a] by (auto simp: q_addrs_def)
  then have q: "q_poll a w q = (Pending, q_insert a (Some w) q)" using a by (simp add: q_poll_def)
  have "a \<in> q_listeners q" using a by (simp add: q_listeners_def)
  from refines_poll [OF r this, of w] obtain e where
    "Listener_poll a w (wf_event F s) = Inr (Pending, e)" "refines e (q_insert a (Some w) q)"
    unfolding q by auto
  with t' show ?thesis by (auto simp: poll_fuel_def)
qed

lemma loop_resume_waiting:
  assumes r: "refines (wf_event F s) q" and a: "is_waiting a q"
  shows "\<exists>e. loop_resume F a w s = Inr (Pending, wf_put F e s) \<and> refines e (q_set_waker a w q)"
proof -
  note wt = refines_waiting [OF r a]
  have q: "q_poll a w q = (Pending, q_set_waker a w q)" using wt by (simp add: q_poll_def)
  from refines_poll [OF r wt(1), of w] show ?thesis
    unfolding q by (auto simp: loop_resume_def)
qed

lemma loop_resume_notified:
  assumes r: "refines (wf_event F s) q" and a: "notified_tag a q = Some t"
  shows "\<exists>e. refines e (q_del a q) \<and> loop_resume F a w s =
    (case wf_got F t of
       Some v \<Rightarrow> Inr (Ready v, wf_put F e s)
     | None \<Rightarrow> loop_head poll_fuel F a w (wf_put F e s))"
proof -
  obtain e where "Listener_poll a w (wf_event F s) = Inr (Ready t, e)" "refines e (q_del a q)"
    using poll_notified [OF r a] by blast
  then show ?thesis by (auto simp: loop_resume_def)
qed

text \<open>
  All cases in one statement: a poll of a pollable future does not fault, wakes nobody and
  does what the specification says.
\<close>

lemma poll_refines:
  assumes i: "inv s" and r: "refines (wf_event F s) q" and p: "pollable st a q"
    and spec: "wait_spec F st a w s q = (res, st', s', q')"
  shows "\<exists>e. wait_poll F st a w s = Inr (res, st', [], wf_put F e s') \<and> refines e q'"
proof -
  obtain v s1 where t: "wf_try F s = Inr (v, s1)" using try_ok [OF i] by blast
  show ?thesis
  proof (cases st)
    case Unresumed
    with p have a: "a \<notin> q_listeners q" "a \<noteq> 0" by (simp_all add: pollable_def)
    show ?thesis
    proof (cases v)
      case None
      with Unresumed t spec first_poll_pending [OF r a] show ?thesis
        by (auto simp: lens wait_spec_def wait_attempt_def)
    next
      case (Some u)
      with t have t': "wf_try F s = Inr (Some u, s1)" by simp
      have "wf_put F (wf_event F s) s1 = s1"
        using try_event [OF t] put_event [of s1] by simp
      with Unresumed t' spec r first_poll_ready [OF r a(1) t', of w] show ?thesis
        by (auto simp: lens wait_spec_def wait_attempt_def intro!: exI [of _ "wf_event F s"])
    qed
  next
    case Suspended
    note p = p [unfolded Suspended]
    from r p show ?thesis
    proof (cases rule: pollable_suspended)
      case 1
      with Suspended spec resume_waiting [OF r 1(1), of w] show ?thesis
        by (auto simp: wait_spec_def)
    next
      case (2 u)
      with Suspended t spec resume_got [OF r 2] resume_ready [OF r 2] resume_pending [OF r 2]
      show ?thesis
        by (cases "wf_got F u"; cases v) (auto simp: lens wait_spec_def wait_attempt_def)
    qed
  qed (use p in \<open>simp add: pollable_def\<close>)
qed

end

section \<open>Which listeners are in the list after a poll or a drop\<close>

lemma addrs_remove [simp]: "set (q_addrs (q_remove a q)) = set (q_addrs q) - {a}"
  by (auto simp: q_addrs_def)

lemma addrs_insert [simp]: "set (q_addrs (q_insert a v q)) = insert a (set (q_addrs q))"
  by (auto simp: q_addrs_def)

lemma addrs_set_waker [simp]: "q_addrs (q_set_waker a w q) = q_addrs q"
  by (simp add: q_addrs_def)

lemma map2_fst:
  "map fst (map2 (\<lambda>(a, _) t. (a, t, b)) ws ts) = map fst (take (length ts) ws)"
  by (induction ws ts rule: list_induct2') auto

lemma addrs_mark [simp]: "q_addrs (q_mark ts b q) = q_addrs q"
proof -
  have "map fst (q_waiting q) = map fst (take (length ts) (q_waiting q)) @
      map fst (drop (length ts) (q_waiting q))"
    by (metis append_take_drop_id map_append)
  then show ?thesis using map2_fst [of b "q_waiting q" ts] by (simp add: q_addrs_def q_mark_def)
qed

lemma q_forward_addrs: "q_addrs (snd (q_forward t b q)) = q_addrs q"
  by (simp add: q_forward_def Let_def)

lemma q_drop_eq:
  "snd (q_drop a q) =
     (case map_of (q_notified q) a of
        None \<Rightarrow> q_remove a q
      | Some (t, b) \<Rightarrow> (snd (q_forward t b (q_del a q)))\<lparr>q_idle := q_idle q - {a}\<rparr>)"
  by (simp add: q_drop_def q_remove_def split: option.split prod.split)

lemma q_drop_addrs: "set (q_addrs (snd (q_drop a q))) = set (q_addrs q) - {a}"
proof -
  have "set (q_addrs (q_del a q)) = set (q_addrs q) - {a}" by (auto simp: q_addrs_def)
  then show ?thesis
    by (auto simp: q_drop_eq q_forward_addrs split: option.split)
qed

lemma q_drop_idle: "q_idle (snd (q_drop a q)) = q_idle q - {a}"
  by (simp add: q_drop_eq split: option.split prod.split)

lemma wait_spec_addrs:
  assumes "wait_spec F st a w s q = (res, st', s', q')" and "pollable st a q"
    and "q_idle q \<inter> set (q_addrs q) = {}"
  shows "set (q_addrs q') =
      (if st' = Suspended then insert a (set (q_addrs q)) else set (q_addrs q) - {a})"
    and "q_idle q' = q_idle q - {a}" and "st' = Suspended \<longleftrightarrow> res = Pending" and "st' \<noteq> Unresumed"
  using assms
  by (auto simp: wait_spec_def wait_attempt_def pollable_def q_listeners_def
      split: if_splits option.splits sum.splits fut.splits prod.splits)

text \<open>
  The live futures of one async function: \<open>futs\<close> maps the address of each future's
  listener to its state. The list of the event holds exactly the listeners of the suspended
  ones, and no listener is left idle between two operations.
\<close>

definition live_ok :: "(addr \<rightharpoonup> fut) \<Rightarrow> ('t, 'w) queue \<Rightarrow> bool" where
  "live_ok futs q \<longleftrightarrow>
     0 \<notin> dom futs \<and> set (q_addrs q) = {a. futs a = Some Suspended} \<and> q_idle q = {}"

lemma live_ok_empty: "live_ok Map.empty q_empty"
  by (simp add: live_ok_def q_empty_def q_addrs_def)

lemma live_ok_create:
  "live_ok futs q \<Longrightarrow> futs a = None \<Longrightarrow> a \<noteq> 0 \<Longrightarrow> live_ok (futs(a \<mapsto> Unresumed)) q"
  by (auto simp: live_ok_def)

lemma live_ok_pollable:
  "live_ok futs q \<Longrightarrow> futs a = Some st \<Longrightarrow> st \<noteq> Returned \<Longrightarrow> pollable st a q"
  by (cases st) (auto simp: live_ok_def pollable_def q_listeners_def)

lemma live_ok_poll:
  assumes "live_ok futs q" and "futs a = Some st" and "st \<noteq> Returned"
    and "wait_spec F st a w s q = (res, st', s', q')"
  shows "live_ok (futs(a \<mapsto> st')) q'"
proof -
  have "q_idle q \<inter> set (q_addrs q) = {}" using assms(1) by (simp add: live_ok_def)
  from wait_spec_addrs [OF assms(4) live_ok_pollable [OF assms(1-3)] this] assms(1,2)
  show ?thesis by (auto simp: live_ok_def)
qed

lemma live_ok_drop:
  assumes "live_ok futs q"
  shows "futs a = Some Suspended \<Longrightarrow> live_ok (futs(a := None)) (snd (q_drop a q))"
    and "futs a \<noteq> Some Suspended \<Longrightarrow> live_ok (futs(a := None)) q"
  using assms by (auto simp: live_ok_def q_drop_addrs q_drop_idle)

lemma live_ok_mark: "live_ok futs (q_mark ts b q) = live_ok futs q"
  by (simp add: live_ok_def)

lemma live_ok_same:
  "q_addrs q' = q_addrs q \<Longrightarrow> q_idle q' = q_idle q \<Longrightarrow> live_ok futs q' = live_ok futs q"
  by (simp add: live_ok_def)

lemma live_ok_suspended:
  assumes "live_ok futs q" and "futs a = Some Suspended"
  shows "is_waiting a q \<or> notified_tag a q \<noteq> None"
  using assms
  by (auto simp: live_ok_def q_addrs_def is_waiting_def notified_tag_def map_of_eq_None_iff)

section \<open>Notifications that are not lost\<close>

text \<open>
  While the awaited resource is there and somebody waits, somebody has been notified: the
  notified future will be polled, and it takes the resource or passes the notification on.
\<close>

definition nothing_lost :: "bool \<Rightarrow> ('t, 'w) queue \<Rightarrow> bool" where
  "nothing_lost there q \<longleftrightarrow> (there \<and> q_waiting q \<noteq> [] \<longrightarrow> q_notified q \<noteq> [])"

lemma nothing_lost_False [simp]: "nothing_lost False q"
  by (simp add: nothing_lost_def)

lemma nothing_lost_empty [simp]: "nothing_lost there q_empty"
  by (simp add: nothing_lost_def q_empty_def)

lemma map2_eq_Nil: "map2 f xs ys = [] \<longleftrightarrow> xs = [] \<or> ys = []"
  by (cases xs; cases ys) auto

lemma nothing_lost_mark:
  assumes "length ts = notify_amount c b q" and "1 \<le> c"
  shows "nothing_lost there (q_mark ts b q)"
proof (cases "q_notified q = [] \<and> q_waiting q \<noteq> []")
  case True
  then have "ts \<noteq> []" using assms by (auto simp: notify_amount_def min_def split: if_splits)
  with True show ?thesis by (auto simp: nothing_lost_def q_mark_def map2_eq_Nil)
next
  case False
  then show ?thesis by (auto simp: nothing_lost_def q_mark_def)
qed

lemma nothing_lost_set_waker: "nothing_lost there q \<Longrightarrow> nothing_lost there (q_set_waker a w q)"
  by (simp add: nothing_lost_def)

lemma nothing_lost_drop:
  assumes "nothing_lost there q"
  shows "nothing_lost there (snd (q_drop a q))"
proof (cases "map_of (q_notified q) a")
  case None
  then have "filter (\<lambda>x. fst x \<noteq> a) (q_notified q) = q_notified q"
    by (intro filter_out) (simp add: map_of_eq_None_iff)
  with None assms show ?thesis by (auto simp: q_drop_eq nothing_lost_def)
next
  case (Some x)
  then obtain t b where x: "map_of (q_notified q) a = Some (t, b)" by (cases x) auto
  have "nothing_lost there (snd (q_forward t b (q_del a q)))"
    unfolding q_forward_def Let_def snd_conv
    by (rule nothing_lost_mark [where c = 1]) simp_all
  with x show ?thesis by (simp add: q_drop_eq nothing_lost_def)
qed

text \<open>
  What operations do to the wakers. A notification: who is notified now was before, or waited
  and its waker has been woken. A poll of the future at \<open>a\<close>: it is not notified after it, and if it waits it
  has left the waker of the poll.
\<close>

definition wakes :: "'w list \<Rightarrow> ('t, 'w) queue \<Rightarrow> ('t, 'w) queue \<Rightarrow> bool" where
  "wakes woken q q' \<longleftrightarrow> set (q_waiting q') \<subseteq> set (q_waiting q) \<and>
     (\<forall>b \<in> fst ` set (q_notified q'). b \<in> fst ` set (q_notified q) \<or>
       (\<exists>v. (b, v) \<in> set (q_waiting q) \<and> (\<forall>w. v = Some w \<longrightarrow> w \<in> set woken)))"

definition polled_by :: "addr \<Rightarrow> 'w \<Rightarrow> ('t, 'w) queue \<Rightarrow> ('t, 'w) queue \<Rightarrow> bool" where
  "polled_by a w q q' \<longleftrightarrow> fst ` set (q_notified q') \<subseteq> fst ` set (q_notified q) - {a} \<and>
     set (q_waiting q') \<subseteq> {x \<in> set (q_waiting q). fst x \<noteq> a} \<union> {(a, Some w)}"

lemma wait_spec_polls:
  assumes "wait_spec F st a w s q = (res, st', s', q')" and "refines e q" and "pollable st a q"
  shows "polled_by a w q q'"
proof -
  have n: "notified_tag a q = None \<Longrightarrow> a \<notin> fst ` set (q_notified q)" by (simp add: notified_tag_def map_of_eq_None_iff)
  have "a \<notin> q_listeners q \<Longrightarrow> a \<notin> fst ` set (q_notified q) \<and> a \<notin> fst ` set (q_waiting q)"
    by (auto simp: q_listeners_def q_addrs_def)
  then show ?thesis using assms(1,3) n
    by (cases st) (auto simp: wait_spec_def wait_attempt_def polled_by_def pollable_def q_set_waker_def
      split: option.splits sum.splits prod.splits if_splits)
qed

lemma wakers_of_set: "(b, Some w) \<in> set xs \<Longrightarrow> w \<in> set (wakers_of xs)"
  by (induction xs) (auto simp: wakers_of_def List.map_filter_def)

lemma wakes_refl: "wakes [] q q"
  by (auto simp: wakes_def)

lemma wakes_marks:
  assumes "length ts \<le> length (q_waiting q)"
  shows "wakes (wakers_of (take (length ts) (q_waiting q))) q (q_mark ts b q)"
proof -
  let ?k = "length ts"
  have "fst ` set (map2 (\<lambda>(a, _) t. (a, t, b)) (q_waiting q) ts) = fst ` set (take ?k (q_waiting q))"
    using map2_fst [of b "q_waiting q" ts] by (metis list.set_map)
  then have n: "fst ` set (q_notified (q_mark ts b q)) =
      fst ` set (q_notified q) \<union> fst ` set (take ?k (q_waiting q))"
    by (simp add: q_mark_def image_Un)
  have "\<exists>v. (c, v) \<in> set (q_waiting q) \<and> (\<forall>w. v = Some w \<longrightarrow> w \<in> set (wakers_of (take ?k (q_waiting q))))"
    if "c \<in> fst ` set (take ?k (q_waiting q))" for c
    using that wakers_of_set by (fastforce dest: in_set_takeD)
  then show ?thesis unfolding wakes_def n by (auto dest: in_set_dropD)
qed

lemma wakes_mark:
  "k \<le> length (q_waiting q) \<Longrightarrow> wakes (wakers_of (take k (q_waiting q))) q (q_mark (replicate k t) b q)"
  using wakes_marks [of "replicate k t" q b] by simp

lemma wakes_del:
  assumes "wakes ws (q_del a q) q'"
  shows "wakes ws q (q'\<lparr>q_idle := i\<rparr>)"
proof -
  have "fst ` set (q_notified (q_del a q)) \<subseteq> fst ` set (q_notified q)"
    "set (q_waiting (q_del a q)) \<subseteq> set (q_waiting q)" by auto
  with assms show ?thesis unfolding wakes_def by (simp del: q_sel) blast
qed

lemma wakes_drop: "wakes (fst (q_drop a q)) q (snd (q_drop a q))"
proof (cases "map_of (q_notified q) a")
  case None
  then show ?thesis by (auto simp: wakes_def q_drop_def q_del_def)
next
  case (Some x)
  then obtain t b where x: "map_of (q_notified q) a = Some (t, b)" by (cases x) auto
  have "wakes (fst (q_forward t b (q_del a q))) (q_del a q) (snd (q_forward t b (q_del a q)))"
    unfolding q_forward_def Let_def fst_conv snd_conv
    by (rule wakes_mark) (rule notify_amount_le)
  from wakes_del [OF this] x show ?thesis
    by (cases "q_forward t b (q_del a q)") (simp add: q_drop_def)
qed

text \<open>What an operation of an object with an event does with futures.\<close>

datatype 'w access = Creates addr | Polls addr 'w | Drops addr | Uses

text \<open>
  What matters of the events of an object: who waits, with which waker, and who has been notified. An operation
  first changes the entry of the future it polls, then those notified have had their wakers woken.
\<close>

record 'w pool =
  po_waiting :: "(addr \<times> 'w option) set"
  po_notified :: "addr set"

definition pool :: "('t, 'w) queue \<Rightarrow> 'w pool" where
  "pool q = \<lparr>po_waiting = set (q_waiting q), po_notified = fst ` set (q_notified q)\<rparr>"

definition accessed :: "'w access \<Rightarrow> 'w pool \<Rightarrow> 'w pool" where
  "accessed acc P =
     (case acc of
        Polls a w \<Rightarrow>
          \<lparr>po_waiting = insert (a, Some w) {x \<in> po_waiting P. fst x \<noteq> a}, po_notified = po_notified P - {a}\<rparr>
      | _ \<Rightarrow> P)"

definition pool_wakes :: "'w list \<Rightarrow> 'w pool \<Rightarrow> 'w pool \<Rightarrow> bool" where
  "pool_wakes ws P P' \<longleftrightarrow> po_waiting P' \<subseteq> po_waiting P \<and>
     (\<forall>b \<in> po_notified P'. b \<in> po_notified P \<or> (\<exists>v. (b, v) \<in> po_waiting P \<and> (\<forall>w. v = Some w \<longrightarrow> w \<in> set ws)))"

definition moves :: "'w access \<Rightarrow> 'w list \<Rightarrow> 'w pool \<Rightarrow> 'w pool \<Rightarrow> bool" where
  "moves acc ws P P' \<longleftrightarrow> pool_wakes ws (accessed acc P) P'"

lemma wakes_pool: "wakes ws q q' \<longleftrightarrow> pool_wakes ws (pool q) (pool q')"
  by (simp add: wakes_def pool_wakes_def pool_def)

lemma accessed_simps [simp]:
  "accessed (Creates a) P = P" "accessed (Drops a) P = P" "accessed Uses P = P"
  by (simp_all add: accessed_def)

lemma pool_wakes_refl: "pool_wakes ws P P"
  by (simp add: pool_wakes_def)

lemma pool_wakes_trans:
  assumes "pool_wakes ws1 P P1" and "pool_wakes ws2 P1 P2"
  shows "pool_wakes (ws1 @ ws2) P P2"
  unfolding pool_wakes_def
proof (intro conjI ballI)
  show "po_waiting P2 \<subseteq> po_waiting P" using assms unfolding pool_wakes_def by blast
  fix b assume "b \<in> po_notified P2"
  with assms(2) consider "b \<in> po_notified P1" | v where "(b, v) \<in> po_waiting P1" "\<forall>w. v = Some w \<longrightarrow> w \<in> set ws2"
    unfolding pool_wakes_def by blast
  then show "b \<in> po_notified P \<or> (\<exists>v. (b, v) \<in> po_waiting P \<and> (\<forall>w. v = Some w \<longrightarrow> w \<in> set (ws1 @ ws2)))"
    using assms(1) unfolding pool_wakes_def set_append by cases blast+
qed

lemma moves_poll_wakes:
  assumes "polled_by a w q q1" and "wakes ws q1 q'"
  shows "moves (Polls a w) ws (pool q) (pool q')"
proof -
  have "pool_wakes [] (accessed (Polls a w) (pool q)) (pool q1)"
    using assms(1) by (auto simp: polled_by_def pool_wakes_def accessed_def pool_def)
  from pool_wakes_trans [OF this assms(2) [unfolded wakes_pool]] show ?thesis by (simp add: moves_def)
qed

lemma moves_poll: "polled_by a w q q' \<Longrightarrow> moves (Polls a w) [] (pool q) (pool q')"
  by (rule moves_poll_wakes [OF _ wakes_refl])

lemma moves_other:
  "wakes ws q q' \<Longrightarrow> moves (Creates a) ws (pool q) (pool q')"
  "wakes ws q q' \<Longrightarrow> moves (Drops a) ws (pool q) (pool q')"
  "wakes ws q q' \<Longrightarrow> moves Uses ws (pool q) (pool q')"
  by (simp_all add: moves_def wakes_pool)

lemma pool_wakes_fresh:
  "a \<notin> fst ` po_waiting P \<union> po_notified P \<Longrightarrow> pool_wakes [] (accessed (Polls a w) P) P"
  by (auto simp: pool_wakes_def accessed_def image_iff)

text \<open>An object with two events.\<close>

definition joint :: "'w pool \<Rightarrow> 'w pool \<Rightarrow> 'w pool" where
  "joint P Q = \<lparr>po_waiting = po_waiting P \<union> po_waiting Q, po_notified = po_notified P \<union> po_notified Q\<rparr>"

lemma joint_commute: "joint P Q = joint Q P"
  by (simp add: joint_def Un_commute)

lemma joint_sel [simp]:
  "po_waiting (joint P Q) = po_waiting P \<union> po_waiting Q" "po_notified (joint P Q) = po_notified P \<union> po_notified Q"
  by (simp_all add: joint_def)

lemma pool_sel [simp]: "po_waiting (pool q) = set (q_waiting q)" "po_notified (pool q) = fst ` set (q_notified q)"
  by (simp_all add: pool_def)

lemma pool_addrs: "fst ` po_waiting (pool q) \<union> po_notified (pool q) = set (q_addrs q)"
  by (auto simp: q_addrs_def)

lemma pool_wakes_joint: "pool_wakes ws P P' \<Longrightarrow> pool_wakes ws (joint P Q) (joint P' Q)"
  unfolding pool_wakes_def joint_sel by blast

lemma moves_joint:
  assumes "moves acc ws P P'" and "\<And>a w. acc = Polls a w \<Longrightarrow> a \<notin> fst ` po_waiting Q \<union> po_notified Q"
  shows "moves acc ws (joint P Q) (joint P' Q)" "moves acc ws (joint Q P) (joint Q P')"
proof -
  have Q: "{x \<in> po_waiting Q. fst x \<noteq> a} = po_waiting Q" "po_notified Q - {a} = po_notified Q"
    if "acc = Polls a w" for a w
    using assms(2) [OF that] by auto
  have "accessed acc (joint P Q) = joint (accessed acc P) Q"
  proof (cases acc)
    case (Polls a w)
    with Q [OF this] show ?thesis by (auto simp: accessed_def joint_def)
  qed simp_all
  then show "moves acc ws (joint P Q) (joint P' Q)"
    using pool_wakes_joint assms(1) by (simp add: moves_def)
  then show "moves acc ws (joint Q P) (joint Q P')" by (simp only: joint_commute [of Q])
qed

text \<open>The two calls the crate makes most: notify one, and notify all.\<close>

lemma notify_one:
  assumes "refines e q"
  obtains k woken e' q' where "notify_int 1 e = Inr (k, woken, e')" and "refines e' q'"
    and "q_addrs q' = q_addrs q" and "q_idle q' = q_idle q" and "\<And>b. nothing_lost b q'"
    and "q_waiting q = [] \<Longrightarrow> q_waiting q' = []" and "wakes woken q q'"
proof -
  let ?q = "q_mark (replicate (notify_amount 1 False q) ()) False q"
  have n: "nothing_lost b ?q" for b by (rule nothing_lost_mark [where c = 1]) simp_all
  from refines_notify_int [OF assms, of 1] obtain k woken e' where
    k: "notify_int 1 e = Inr (k, woken, e')" "refines e' ?q"
    and w: "woken = wakers_of (take (notify_amount 1 False q) (q_waiting q))"
    by (auto simp: usize_max_def)
  have "wakes woken q ?q" unfolding w by (rule wakes_mark) (rule notify_amount_le)
  then show ?thesis by (intro that [OF k addrs_mark]) (use n in simp_all)
qed

text \<open>
  Notifying one listener, which nothing additional is about: one that waits is notified if none is already, and
  otherwise nothing happens at all.
\<close>

lemma notify_int_one:
  assumes r: "refines ev q"
  obtains (hands) a woken ev' where "notify_int 1 ev = Inr (1, woken, ev')" and "waits ev a"
      and "\<forall>b. \<not> is_notified ev b" and "is_notified ev' a" and "\<forall>b. waits ev' b \<longleftrightarrow> waits ev b \<and> b \<noteq> a"
  | (idle) "notify_int 1 ev = Inr (0, [], ev)" and "(\<forall>a. \<not> waits ev a) \<or> (\<exists>a. is_notified ev a)"
proof (cases "q_notified q = [] \<and> q_waiting q \<noteq> []")
  case True
  then obtain a w ws where q: "q_notified q = []" "q_waiting q = (a, w) # ws" by (cases "q_waiting q") auto
  then have k: "notify_amount 1 False q = 1" by (simp add: notify_amount_def)
  from refines_notify_int [OF r, of 1] obtain woken ev' where
    n: "notify_int 1 ev = Inr (1, woken, ev')" "refines ev' (q_mark [()] False q)"
    by (auto simp: usize_max_def k [simplified])
  have "distinct (q_addrs q)" by (rule refines_wf(1) [OF r])
  then have "a \<notin> fst ` set ws" using q by (simp add: q_addrs_def)
  then show ?thesis
    using n(1) q by (intro hands [of woken ev' a]) (auto simp: refines_waits [OF r] refines_is_notified [OF r]
      refines_waits [OF n(2)] refines_is_notified [OF n(2)] q_mark_def)
next
  case False
  then have f: "1 \<le> ev_notified ev \<or> ev_first ev = None"
    using r by (cases "q_notified q"; cases "q_waiting q") (auto simp: refines_def)
  then have "Event_notify Notify_impl (Notify 1) ev = Inr (0, [], Notify 1, ev)"
    by (auto simp: Event_notify_def Inner_notify_def Let_def notify_loop.simps [of Notify_impl False "Suc 0 - ev_notified ev"])
  then have "notify_int 1 ev = Inr (0, [], ev)"
    by (simp add: notify_int_def into_notification_def as_usize_def usize_max_def)
  moreover have "(\<forall>a. \<not> waits ev a) \<or> (\<exists>a. is_notified ev a)"
    using False by (cases "q_notified q") (auto simp: refines_waits [OF r] refines_is_notified [OF r])
  ultimately show ?thesis by (rule idle)
qed


lemma notify_all:
  assumes "refines e q"
  obtains k woken e' q' where "notify_int (int usize_max) e = Inr (k, woken, e')" and "refines e' q'"
    and "q_addrs q' = q_addrs q" and "q_idle q' = q_idle q" and "q_waiting q' = []" and "wakes woken q q'"
proof -
  let ?n = "notify_amount usize_max False q"
  have n: "?n = length (q_waiting q)"
    using refines_len_bound [OF assms] by (simp add: notify_amount_def)
  from refines_notify_int [OF assms, of "int usize_max"] obtain k woken e' where
    k: "notify_int (int usize_max) e = Inr (k, woken, e')" "refines e' (q_mark (replicate ?n ()) False q)"
    and w: "woken = wakers_of (take ?n (q_waiting q))"
    by auto
  have "wakes woken q (q_mark (replicate ?n ()) False q)" unfolding w by (rule wakes_mark) (rule notify_amount_le)
  then show ?thesis by (intro that [OF k addrs_mark]) (simp_all add: n)
qed

lemma notify_all_additional:
  assumes "refines e q"
  obtains k woken e' q' where "notify_int_additional (int usize_max) e = Inr (k, woken, e')"
    and "refines e' q'" and "q_addrs q' = q_addrs q" and "q_idle q' = q_idle q" and "q_waiting q' = []" and "wakes woken q q'"
proof -
  let ?n = "notify_amount usize_max True q"
  have n: "?n = length (q_waiting q)"
    using refines_len_bound [OF assms] by (simp add: notify_amount_def)
  from refines_notify_int_additional [OF assms, of "int usize_max"] obtain k woken e' where
    k: "notify_int_additional (int usize_max) e = Inr (k, woken, e')"
      "refines e' (q_mark (replicate ?n ()) True q)"
    and w: "woken = wakers_of (take ?n (q_waiting q))"
    by auto
  have "wakes woken q (q_mark (replicate ?n ()) True q)" unfolding w by (rule wakes_mark) (rule notify_amount_le)
  then show ?thesis by (intro that [OF k addrs_mark]) (simp_all add: n)
qed

text \<open>
  The same facts from the outside: what is known after an operation on a live future has
  returned. These are the steps the systems of the component theories are built from.
\<close>

context wait_loop begin

lemma spec_state:
  assumes "wait_spec F st a w s q = (res, st', s', q')"
  shows "res = Pending \<Longrightarrow> s' = s"
    and "res = Ready v \<Longrightarrow> (s' = s \<and> (\<exists>t. notified_tag a q = Some t \<and> wf_got F t = Some v))
      \<or> wf_try F s = Inr (Some v, s')"
  using assms
  by (auto simp: wait_spec_def wait_attempt_def split: if_splits option.splits sum.splits prod.splits)

text \<open>
  A pending poll loses no notification when the attempt succeeds whenever the resource is
  there: the future keeps waiting unnotified, or its attempt has just failed.
\<close>

lemma pending_keeps:
  assumes spec: "wait_spec F st a w s q = (Pending, st', s', q')" and n: "nothing_lost there q"
    and t: "there \<Longrightarrow> \<exists>v s1. wf_try F s = Inr (Some v, s1)"
  shows "nothing_lost there q'"
proof (cases "\<exists>v s1. wf_try F s = Inr (Some v, s1)")
  case True
  then have "q' = q_set_waker a w q"
    using spec by (auto simp: wait_spec_def wait_attempt_def split: if_splits option.splits)
  then show ?thesis using n by (simp add: nothing_lost_set_waker)
next
  case False
  with t have "\<not> there" by blast
  then show ?thesis by simp
qed

text \<open>
  Progress: somebody waits and a resource that nothing has lost is there, so some suspended
  future has been notified; its next poll runs the attempt.
\<close>

lemma somebody_notified:
  assumes r: "refines (wf_event F s) q" and l: "live_ok futs q" and n: "nothing_lost True q"
    and a: "futs a = Some Suspended"
  obtains b t where "futs b = Some Suspended" "is_notified (wf_event F s) b" "notified_tag b q = Some t"
proof -
  have "q_notified q \<noteq> []"
    using live_ok_suspended [OF l a] n
    by (auto simp: nothing_lost_def is_waiting_def notified_tag_def)
  then obtain b where b: "b \<in> fst ` set (q_notified q)" by (cases "q_notified q") auto
  then have "b \<in> set (q_addrs q)" by (auto simp: q_addrs_def)
  then have "futs b = Some Suspended" using l by (auto simp: live_ok_def)
  moreover have "is_notified (wf_event F s) b" using refines_is_notified [OF r] b by simp
  moreover have "map_of (q_notified q) b \<noteq> None" using b by (simp add: map_of_eq_None_iff)
  then obtain t where "notified_tag b q = Some t" by (auto simp: notified_tag_def)
  ultimately show ?thesis using that by blast
qed

lemma notified_attempt:
  assumes i: "inv s" and r: "refines (wf_event F s) q" and b: "notified_tag b q = Some t"
    and g: "wf_got F t = None" and t: "wf_try F s = Inr (Some v, s')"
  shows "\<exists>e. wait_poll F Suspended b w s = Inr (Ready v, Returned, [], wf_put F e s')"
  using resume_ready [OF r b g t, of w] by blast

lemma poll_ok:
  assumes i: "inv s" and r: "refines (wf_event F s) q" and l: "live_ok futs q" "futs a = Some st"
    and st: "st \<noteq> Returned"
  obtains res st' s' e q' where "wait_poll F st a w s = Inr (res, st', [], wf_put F e s')"
    and "wait_spec F st a w s q = (res, st', s', q')"
    and "refines e q'" and "live_ok (futs(a \<mapsto> st')) q'"
proof -
  obtain res st' s' q' where spec: "wait_spec F st a w s q = (res, st', s', q')"
    by (metis prod_cases4)
  from poll_refines [OF i r live_ok_pollable [OF l st] spec] live_ok_poll [OF l st spec] spec
  show ?thesis using that by blast
qed

lemma drop_ok:
  assumes r: "refines (wf_event F s) q" and l: "live_ok futs q" "futs a = Some st"
  obtains woken e q' where "wait_drop F st a s = Inr (woken, wf_put F e s)" and "refines e q'"
    and "live_ok (futs(a := None)) q'" and "\<And>b. nothing_lost b q \<Longrightarrow> nothing_lost b q'"
    and "wakes woken q q'"
proof (cases "st = Suspended")
  case True
  then have a: "a \<in> q_listeners q" using l by (auto simp: live_ok_def q_listeners_def)
  from drop_suspended [OF r a] True obtain e where
    "wait_drop F st a s = Inr (fst (q_drop a q), wf_put F e s)" "refines e (snd (q_drop a q))" by auto
  with live_ok_drop(1) [OF l(1)] l(2) True nothing_lost_drop wakes_drop that show ?thesis by blast
next
  case False
  then have "wait_drop F st a s = Inr ([], wf_put F (wf_event F s) s)"
    by (cases st) (simp_all add: wait_drop_def lens)
  moreover have "live_ok (futs(a := None)) q" using live_ok_drop(2) [OF l(1)] l(2) False by simp
  ultimately show ?thesis using r wakes_refl that by blast
qed

end

text \<open>
  A loop over an exclusive resource: the attempt succeeds exactly when the resource is
  there, and takes it; a received tag only means "try again".
\<close>

locale handoff = wait_loop F inv
  for F :: "('s, 't, 'w, 'r) wait_fn" and inv :: "'s \<Rightarrow> bool" +
  fixes avail :: "'s \<Rightarrow> bool"
  assumes got_none: "wf_got F t = None"
    and avail_put: "avail (wf_put F e s) = avail s"
    and avail_try: "inv s \<Longrightarrow> avail s \<longleftrightarrow> (\<exists>v s1. wf_try F s = Inr (Some v, s1))"
    and exclusive: "inv s \<Longrightarrow> wf_try F s = Inr (Some v, s1) \<Longrightarrow> \<not> avail s1"
begin

lemma there: "inv s \<Longrightarrow> avail s \<Longrightarrow> \<exists>v s1. wf_try F s = Inr (Some v, s1)"
  using avail_try by blast

lemma poll_keeps:
  assumes i: "inv s" and n: "nothing_lost (avail s) q" and spec: "wait_spec F st a w s q = (res, st', s', q')"
  shows "nothing_lost (avail s') q'"
proof (cases res)
  case (Ready v)
  then have "wf_try F s = Inr (Some v, s')" using spec_state(2) [OF spec] by (simp add: got_none)
  then show ?thesis using exclusive [OF i] by simp
next
  case Pending
  then show ?thesis
    using spec_state(1) [OF spec] pending_keeps [OF _ n there [OF i]] spec by simp
qed

lemma poll_ok_keeps:
  assumes i: "inv s" and r: "refines (wf_event F s) q" and l: "live_ok futs q" "futs a = Some st"
    and st: "st \<noteq> Returned" and n: "nothing_lost (avail s) q"
  obtains (ready) v st' s' e q' where
      "wait_poll F st a w s = Inr (Ready v, st', [], wf_put F e s')"
      "wf_try F s = Inr (Some v, s')" "avail s" "\<not> avail s'"
      "refines e q'" "live_ok (futs(a \<mapsto> st')) q'" "polled_by a w q q'"
  | (pending) st' e q' where
      "wait_poll F st a w s = Inr (Pending, st', [], wf_put F e s)"
      "refines e q'" "live_ok (futs(a \<mapsto> st')) q'" "nothing_lost (avail s) q'" "polled_by a w q q'"
proof -
  obtain res st' s' e q' where poll: "wait_poll F st a w s = Inr (res, st', [], wf_put F e s')"
    and spec: "wait_spec F st a w s q = (res, st', s', q')"
    and q': "refines e q'" "live_ok (futs(a \<mapsto> st')) q'"
    by (rule poll_ok [OF i r l st])
  have p: "polled_by a w q q'" by (rule wait_spec_polls [OF spec r live_ok_pollable [OF l st]])
  show ?thesis
  proof (cases res)
    case (Ready v)
    then have t: "wf_try F s = Inr (Some v, s')" using spec_state(2) [OF spec] by (simp add: got_none)
    then have "avail s" "\<not> avail s'" using avail_try [OF i] exclusive [OF i] by blast+
    with Ready poll t q' p show ?thesis using ready by blast
  next
    case Pending
    then have "s' = s" using spec_state(1) [OF spec] by simp
    with Pending poll q' p poll_keeps [OF i n spec] show ?thesis using pending by blast
  qed
qed

text \<open>
  If somebody waits while the resource is there, some waiting future has been notified, and
  whichever waker it is polled with, it takes the resource.
\<close>

lemma progress:
  assumes i: "inv s" and r: "refines (wf_event F s) q" and l: "live_ok futs q"
    and n: "nothing_lost (avail s) q" and av: "avail s" and a: "futs a = Some Suspended"
  obtains b where "futs b = Some Suspended" "is_notified (wf_event F s) b"
    "\<And>w. \<exists>v e s'. wait_poll F Suspended b w s = Inr (Ready v, Returned, [], wf_put F e s')
       \<and> wf_try F s = Inr (Some v, s')"
proof -
  have "nothing_lost True q" using n av by simp
  from somebody_notified [OF r l this a] obtain b t where
    b: "futs b = Some Suspended" "is_notified (wf_event F s) b" "notified_tag b q = Some t" .
  from there [OF i av] obtain v s' where t: "wf_try F s = Inr (Some v, s')" by blast
  show ?thesis
  proof (rule that [OF b(1,2)])
    fix w
    from notified_attempt [OF i r b(3) got_none t, of w] t
    show "\<exists>v e s'. wait_poll F Suspended b w s = Inr (Ready v, Returned, [], wf_put F e s')
       \<and> wf_try F s = Inr (Some v, s')" by blast
  qed
qed

end

end
