(* ===== verification/Machine.thy ===== *)
theory Machine
  imports Prelude
begin

text \<open>
  Components and their clients as machines: a state, the operations a client may call in it
  (what Rust's types and the pinning contract guarantee, \<open>enabled\<close>) and what each
  does (\<open>exec\<close>, which may fault). \<open>reach\<close> are the states reachable by enabled
  operations in any order, \<open>run\<close> evaluates one sequence of operations. The locale
  \<open>machine\<close> is the contract between a component and its environment: an invariant
  under which every enabled operation returns and keeps the invariant.
\<close>

inductive reach ::
  "('op \<Rightarrow> 's \<Rightarrow> bool) \<Rightarrow> ('op \<Rightarrow> 's \<Rightarrow> 's outcome) \<Rightarrow> 's \<Rightarrow> 's \<Rightarrow> bool"
  for enabled exec s0 where
  start: "reach enabled exec s0 s0"
| step: "reach enabled exec s0 s \<Longrightarrow> enabled op s \<Longrightarrow> exec op s = Inr s' \<Longrightarrow> reach enabled exec s0 s'"

text \<open>\<open>None\<close>: some operation was not enabled.\<close>

fun run :: "('op \<Rightarrow> 's \<Rightarrow> bool) \<Rightarrow> ('op \<Rightarrow> 's \<Rightarrow> 's outcome) \<Rightarrow> 'op list \<Rightarrow> 's
    \<Rightarrow> 's outcome option" where
  "run enabled exec [] s = Some (Inr s)"
| "run enabled exec (op # ops) s =
     (if enabled op s
      then case exec op s of Inl f \<Rightarrow> Some (Inl f) | Inr s' \<Rightarrow> run enabled exec ops s'
      else None)"

lemma reach_run:
  "run enabled exec ops s = Some (Inr s') \<Longrightarrow> reach enabled exec s0 s \<Longrightarrow> reach enabled exec s0 s'"
proof (induction ops arbitrary: s)
  case (Cons op ops)
  then show ?case by (auto split: if_splits sum.splits intro: reach.step)
qed simp

lemma run_reach: "run enabled exec ops s0 = Some (Inr s) \<Longrightarrow> reach enabled exec s0 s"
  using reach_run reach.start by metis

lemma run_append:
  "run enabled exec (ops @ ops') s =
     (case run enabled exec ops s of Some (Inr s') \<Rightarrow> run enabled exec ops' s' | r \<Rightarrow> r)"
  by (induction ops arbitrary: s) (auto split: sum.splits)

text \<open>
  Concrete runs: \<open>after\<close> evaluates a run and a predicate of its final state, which is
  reachable.
\<close>

definition after ::
  "('op \<Rightarrow> 's \<Rightarrow> bool) \<Rightarrow> ('op \<Rightarrow> 's \<Rightarrow> 's outcome) \<Rightarrow> 'op list \<Rightarrow> 's
     \<Rightarrow> ('s \<Rightarrow> bool) \<Rightarrow> bool" where
  "after enabled exec ops s P =
     (case run enabled exec ops s of Some (Inr s') \<Rightarrow> P s' | _ \<Rightarrow> False)"

declare after_def [evals]

lemma afterE:
  assumes "after enabled exec ops s P"
  obtains s' where "run enabled exec ops s = Some (Inr s')" and "P s'"
  using assms by (auto simp: after_def split: option.splits sum.splits)

text \<open>Scripts: operations that must be enabled and return, and checks of the state between them.\<close>

datatype ('op, 's) action = Do 'op | Check "'s \<Rightarrow> bool"

fun script :: "('op \<Rightarrow> 's \<Rightarrow> bool) \<Rightarrow> ('op \<Rightarrow> 's \<Rightarrow> 's outcome) \<Rightarrow> ('op, 's) action list
    \<Rightarrow> 's \<Rightarrow> bool" where
  "script enabled exec [] s = True"
| "script enabled exec (Do op # as) s =
     (enabled op s \<and> (case exec op s of Inl f \<Rightarrow> False | Inr s' \<Rightarrow> script enabled exec as s'))"
| "script enabled exec (Check P # as) s = (P s \<and> script enabled exec as s)"

lemma after_reach:
  assumes "after enabled exec ops s0 P"
    and "\<And>s. reach enabled exec s0 s \<Longrightarrow> P s \<Longrightarrow> Q s"
  shows "\<exists>s. run enabled exec ops s0 = Some (Inr s) \<and> Q s"
  using assms run_reach by (fastforce simp: after_def split: option.splits sum.splits)

locale machine =
  fixes enabled :: "'op \<Rightarrow> 's \<Rightarrow> bool"
    and exec :: "'op \<Rightarrow> 's \<Rightarrow> 's outcome"
    and s0 :: 's
    and inv :: "'s \<Rightarrow> bool"
  assumes inv_start: "inv s0"
    and exec_ok: "inv s \<Longrightarrow> enabled op s \<Longrightarrow> \<exists>s'. exec op s = Inr s' \<and> inv s'"
begin

lemma reach_inv: "reach enabled exec s0 s \<Longrightarrow> inv s"
proof (induction rule: reach.induct)
  case (step s op s')
  then show ?case using exec_ok by fastforce
qed (rule inv_start)

lemma no_fault:
  assumes "reach enabled exec s0 s" and "enabled op s"
  shows "\<exists>s'. exec op s = Inr s' \<and> reach enabled exec s0 s'"
  using exec_ok [OF reach_inv [OF assms(1)] assms(2)] reach.step [OF assms] by blast

lemma run_inv:
  assumes "run enabled exec ops s0 = Some r"
  shows "\<exists>s. r = Inr s \<and> inv s"
proof -
  have "inv s \<Longrightarrow> run enabled exec ops s = Some r \<Longrightarrow> \<exists>s'. r = Inr s' \<and> inv s'" for s
  proof (induction ops arbitrary: s)
    case (Cons op ops)
    then show ?case using exec_ok [of s op] by (auto split: if_splits)
  qed auto
  then show ?thesis using assms inv_start by blast
qed

end

end
