(* ===== verification/MutexLock.thy ===== *)
theory MutexLock
  imports Async Machine
begin

text \<open>
  \<open>src/lock/mutex.rs\<close>: the asynchronous mutex. The state of a \<open>Mutex<T>\<close> is
  its event, the borrow flag of its \<open>RefCell\<close> and the data. A guard is a token for the
  \<open>RefMut\<close> it holds. The system \<open>mutex_step\<close> is one mutex, the lock futures that
  exist (by the address of their listener) and the number of live guards, under any
  interleaving of the operations of the API.
\<close>

section \<open>The code\<close>

record ('d, 'w) Mutex =
  mx_unlocked :: "(unit, 'w) Event"
  mx_borrow :: borrow
  mx_data :: 'd

datatype MutexGuard = MutexGuard

definition Mutex_new :: "'d \<Rightarrow> ('d, 'w) Mutex" where
  "Mutex_new data = \<lparr>mx_unlocked = Event_new, mx_borrow = Unused, mx_data = data\<rparr>"

definition Mutex_into_inner :: "('d, 'w) Mutex \<Rightarrow> 'd" where
  "Mutex_into_inner m = mx_data m"

text \<open>\<open>get_mut\<close> gives exclusive access: the caller applies some \<open>f\<close> to the data.\<close>

definition Mutex_get_mut :: "('d \<Rightarrow> 'd) \<Rightarrow> ('d, 'w) Mutex \<Rightarrow> ('d, 'w) Mutex" where
  "Mutex_get_mut f m = m\<lparr>mx_data := f (mx_data m)\<rparr>"

definition Mutex_try_lock :: "('d, 'w) Mutex \<Rightarrow> MutexGuard option \<times> ('d, 'w) Mutex" where
  "Mutex_try_lock m =
     (case try_borrow_mut (mx_borrow m) of
        None \<Rightarrow> (None, m)
      | Some b \<Rightarrow> (Some MutexGuard, m\<lparr>mx_borrow := b\<rparr>))"

text \<open>\<open>lock\<close>: try, otherwise await the event \<open>unlocked\<close> and try again.\<close>

definition Mutex_lock :: "(('d, 'w) Mutex, unit, 'w, MutexGuard) wait_fn" where
  "Mutex_lock =
     \<lparr>wf_try = (\<lambda>m. Inr (Mutex_try_lock m)),
      wf_got = (\<lambda>_. None),
      wf_event = mx_unlocked,
      wf_put = (\<lambda>e m. m\<lparr>mx_unlocked := e\<rparr>)\<rparr>"

text \<open>\<open>Deref\<close> and \<open>DerefMut\<close> of a guard.\<close>

definition MutexGuard_deref :: "MutexGuard \<Rightarrow> ('d, 'w) Mutex \<Rightarrow> 'd" where
  "MutexGuard_deref g m = mx_data m"

definition MutexGuard_deref_mut :: "MutexGuard \<Rightarrow> ('d \<Rightarrow> 'd) \<Rightarrow> ('d, 'w) Mutex \<Rightarrow> ('d, 'w) Mutex" where
  "MutexGuard_deref_mut g f m = m\<lparr>mx_data := f (mx_data m)\<rparr>"

text \<open>\<open>Drop\<close> of a guard: notify, then the field \<open>data: RefMut\<close> is dropped.\<close>

definition MutexGuard_drop :: "MutexGuard \<Rightarrow> ('d, 'w) Mutex \<Rightarrow> ('w list \<times> ('d, 'w) Mutex) outcome" where
  "MutexGuard_drop g m =
     andThen (notify_int 1 (mx_unlocked m)) (\<lambda>(_, woken, e).
     Inr (woken, m\<lparr>mx_unlocked := e, mx_borrow := drop_ref_mut (mx_borrow m)\<rparr>))"

section \<open>The loop contract\<close>

lemma Mutex_lock_sel [simp]:
  "wf_try Mutex_lock m = Inr (Mutex_try_lock m)"
  "wf_got Mutex_lock t = None"
  "wf_event Mutex_lock m = mx_unlocked m"
  "wf_put Mutex_lock e m = m\<lparr>mx_unlocked := e\<rparr>"
  by (simp_all add: Mutex_lock_def)

lemma Mutex_try_lock_free:
  "mx_borrow m = Unused \<Longrightarrow> Mutex_try_lock m = (Some MutexGuard, m\<lparr>mx_borrow := Writing\<rparr>)"
  "mx_borrow m \<noteq> Unused \<Longrightarrow> Mutex_try_lock m = (None, m)"
  by (simp_all add: Mutex_try_lock_def) (cases "mx_borrow m"; simp)

interpretation mutex: handoff Mutex_lock "\<lambda>_. True" "\<lambda>m. mx_borrow m = Unused"
proof unfold_locales
  fix m :: "('a, 'b) Mutex" and v m'
  show "(mx_borrow m = Unused) = (\<exists>v m'. wf_try Mutex_lock m = Inr (Some v, m'))"
    by (cases "mx_borrow m = Unused") (simp_all add: Mutex_try_lock_free)
  show "wf_try Mutex_lock m = Inr (Some v, m') \<Longrightarrow> mx_borrow m' \<noteq> Unused"
    by (cases "mx_borrow m = Unused") (auto simp: Mutex_try_lock_free)
qed (auto simp: Mutex_try_lock_def split: option.splits)

declare Mutex_new_def [evals] Mutex_try_lock_def [evals] MutexGuard_deref_def [evals]
  MutexGuard_deref_mut_def [evals] MutexGuard_drop_def [evals] Mutex_into_inner_def [evals]
  Mutex_get_mut_def [evals]

section \<open>A mutex and its clients\<close>

record ('d, 'w) mutex_sys =
  ms_mutex :: "('d, 'w) Mutex"
  ms_guards :: nat
  ms_futs :: "addr \<rightharpoonup> fut"
  ms_woken :: "'w list"

datatype ('d, 'w) mutex_op =
    MLock addr
  | MPoll addr 'w
  | MCancel addr
  | MTry_lock
  | MWrite "'d \<Rightarrow> 'd"
  | MUnlock

definition mutex_init :: "'d \<Rightarrow> ('d, 'w) mutex_sys" where
  "mutex_init data = \<lparr>ms_mutex = Mutex_new data, ms_guards = 0, ms_futs = Map.empty, ms_woken = []\<rparr>"

fun mutex_enabled :: "('d, 'w) mutex_op \<Rightarrow> ('d, 'w) mutex_sys \<Rightarrow> bool" where
  "mutex_enabled (MLock a) s \<longleftrightarrow> ms_futs s a = None \<and> a \<noteq> 0"
| "mutex_enabled (MPoll a w) s \<longleftrightarrow> ms_futs s a \<noteq> None \<and> ms_futs s a \<noteq> Some Returned"
| "mutex_enabled (MCancel a) s \<longleftrightarrow> ms_futs s a \<noteq> None"
| "mutex_enabled MTry_lock s \<longleftrightarrow> True"
| "mutex_enabled (MWrite f) s \<longleftrightarrow> 0 < ms_guards s"
| "mutex_enabled MUnlock s \<longleftrightarrow> 0 < ms_guards s"

fun mutex_exec :: "('d, 'w) mutex_op \<Rightarrow> ('d, 'w) mutex_sys \<Rightarrow> ('d, 'w) mutex_sys outcome" where
  "mutex_exec (MLock a) s = Inr (s\<lparr>ms_futs := (ms_futs s)(a \<mapsto> Unresumed)\<rparr>)"
| "mutex_exec (MPoll a w) s =
     andThen (wait_poll Mutex_lock (the (ms_futs s a)) a w (ms_mutex s)) (\<lambda>(res, st, woken, m).
     Inr (s\<lparr>ms_mutex := m, ms_futs := (ms_futs s)(a \<mapsto> st), ms_woken := ms_woken s @ woken,
       ms_guards := (case res of Ready g \<Rightarrow> ms_guards s + 1 | Pending \<Rightarrow> ms_guards s)\<rparr>))"
| "mutex_exec (MCancel a) s =
     andThen (wait_drop Mutex_lock (the (ms_futs s a)) a (ms_mutex s)) (\<lambda>(woken, m).
     Inr (s\<lparr>ms_mutex := m, ms_futs := (ms_futs s)(a := None), ms_woken := ms_woken s @ woken\<rparr>))"
| "mutex_exec MTry_lock s =
     (case Mutex_try_lock (ms_mutex s) of
        (None, m) \<Rightarrow> Inr (s\<lparr>ms_mutex := m\<rparr>)
      | (Some g, m) \<Rightarrow> Inr (s\<lparr>ms_mutex := m, ms_guards := ms_guards s + 1\<rparr>))"
| "mutex_exec (MWrite f) s = Inr (s\<lparr>ms_mutex := MutexGuard_deref_mut MutexGuard f (ms_mutex s)\<rparr>)"
| "mutex_exec MUnlock s =
     andThen (MutexGuard_drop MutexGuard (ms_mutex s)) (\<lambda>(woken, m).
     Inr (s\<lparr>ms_mutex := m, ms_guards := ms_guards s - 1, ms_woken := ms_woken s @ woken\<rparr>))"

text \<open>The states of a mutex created with \<open>data\<close>.\<close>

definition mutex_reach :: "'d \<Rightarrow> ('d, 'w) mutex_sys \<Rightarrow> bool" where
  "mutex_reach data = reach mutex_enabled mutex_exec (mutex_init data)"

text \<open>
  The invariant: the event is a queue of the suspended lock futures, the borrow flag and the
  number of guards agree, and no notification is lost.
\<close>

definition mutex_inv :: "('d, 'w) mutex_sys \<Rightarrow> (unit, 'w) queue \<Rightarrow> bool" where
  "mutex_inv s q \<longleftrightarrow>
     refines (mx_unlocked (ms_mutex s)) q \<and> live_ok (ms_futs s) q \<and>
     nothing_lost (ms_guards s = 0) q \<and>
     mx_borrow (ms_mutex s) = (if ms_guards s = 0 then Unused else Writing) \<and>
     ms_guards s \<le> 1"

lemma mutex_invD:
  assumes "mutex_inv s q"
  shows "refines (wf_event Mutex_lock (ms_mutex s)) q" and "live_ok (ms_futs s) q"
    and "nothing_lost (mx_borrow (ms_mutex s) = Unused) q"
proof -
  have "(mx_borrow (ms_mutex s) = Unused) = (ms_guards s = 0)"
    using assms by (simp add: mutex_inv_def)
  then show "refines (wf_event Mutex_lock (ms_mutex s)) q" "live_ok (ms_futs s) q"
      "nothing_lost (mx_borrow (ms_mutex s) = Unused) q"
    using assms by (simp_all only: mutex_inv_def Mutex_lock_sel)
qed

lemma mutex_poll_ok:
  assumes inv: "mutex_inv s q" and en: "mutex_enabled (MPoll a w) s"
  shows "\<exists>s' q'. mutex_exec (MPoll a w) s = Inr s' \<and> mutex_inv s' q' \<and>
    ms_woken s' = ms_woken s \<and> polled_by a w q q'"
proof -
  from en obtain st where st: "ms_futs s a = Some st" "st \<noteq> Returned" by auto
  note i = mutex_invD [OF inv]
  show ?thesis
  proof (rule mutex.poll_ok_keeps [OF TrueI i(1) i(2) st(1) st(2) i(3), of w], goal_cases)
    case ready: (1 v st' m' e q')
    then have "mx_borrow (ms_mutex s) = Unused" "mx_borrow m' = Writing"
      by (auto simp: Mutex_try_lock_free)
    moreover from this have "ms_guards s = 0" using inv by (auto simp: mutex_inv_def split: if_splits)
    ultimately show ?thesis using ready st by (auto simp: mutex_inv_def)
  next
    case pending: (2 st' e q')
    then have "nothing_lost (ms_guards s = 0) q'"
      using inv by (auto simp: mutex_inv_def split: if_splits)
    with pending st inv show ?thesis by (auto simp: mutex_inv_def)
  qed
qed

lemma mutex_cancel_ok:
  assumes inv: "mutex_inv s q" and en: "mutex_enabled (MCancel a) s"
  shows "\<exists>s' q' ws. mutex_exec (MCancel a) s = Inr s' \<and> mutex_inv s' q' \<and>
    ms_woken s' = ms_woken s @ ws \<and> wakes ws q q'"
proof -
  from en obtain st where st: "ms_futs s a = Some st" by auto
  note i = mutex_invD [OF inv]
  from mutex.drop_ok [OF i(1,2) st] obtain woken e q' where
    d: "wait_drop Mutex_lock st a (ms_mutex s) = Inr (woken, (ms_mutex s)\<lparr>mx_unlocked := e\<rparr>)"
    and q': "refines e q'" "live_ok ((ms_futs s)(a := None)) q'"
      "\<And>b. nothing_lost b q \<Longrightarrow> nothing_lost b q'" "wakes woken q q'"
    by (metis Mutex_lock_sel(4))
  then show ?thesis using inv st by (auto simp: mutex_inv_def)
qed

lemma mutex_unlock_ok:
  assumes inv: "mutex_inv s q" and en: "mutex_enabled MUnlock s"
  shows "\<exists>s' q' ws. mutex_exec MUnlock s = Inr s' \<and> mutex_inv s' q' \<and>
    ms_woken s' = ms_woken s @ ws \<and> wakes ws q q'"
proof -
  from inv have "refines (mx_unlocked (ms_mutex s)) q" by (simp add: mutex_inv_def)
  from notify_one [OF this] obtain k woken e q' where
    "notify_int 1 (mx_unlocked (ms_mutex s)) = Inr (k, woken, e)" "refines e q'"
    "live_ok (ms_futs s) q' = live_ok (ms_futs s) q" "\<And>b. nothing_lost b q'" "wakes woken q q'"
    by (metis live_ok_same)
  then show ?thesis using inv en by (auto simp: mutex_inv_def MutexGuard_drop_def)
qed

text \<open>Every operation, with what it does to the waiting futures and their wakers.\<close>

lemma mutex_step_ok:
  assumes inv: "mutex_inv s q" and en: "mutex_enabled op s"
  shows "\<exists>s' q' ws. mutex_exec op s = Inr s' \<and> mutex_inv s' q' \<and> ms_woken s' = ms_woken s @ ws \<and>
    (case op of MPoll a w \<Rightarrow> ws = [] \<and> polled_by a w q q' | _ \<Rightarrow> wakes ws q q')"
proof (cases op)
  case (MLock a)
  with inv en have "mutex_inv (s\<lparr>ms_futs := (ms_futs s)(a \<mapsto> Unresumed)\<rparr>) q"
    by (auto simp: mutex_inv_def live_ok_create split: if_splits)
  with MLock wakes_refl show ?thesis by fastforce
next
  case (MPoll a w)
  with mutex_poll_ok [OF inv] en show ?thesis by fastforce
next
  case (MCancel a)
  with mutex_cancel_ok [OF inv] en show ?thesis by fastforce
next
  case MTry_lock
  show ?thesis
  proof (cases "ms_guards s = 0")
    case True
    with inv have "mutex_inv (s\<lparr>ms_mutex := (ms_mutex s)\<lparr>mx_borrow := Writing\<rparr>, ms_guards := 1\<rparr>) q"
      by (simp add: mutex_inv_def)
    with MTry_lock True inv wakes_refl show ?thesis by (fastforce simp: mutex_inv_def Mutex_try_lock_free)
  next
    case False
    with MTry_lock inv wakes_refl show ?thesis by (fastforce simp: mutex_inv_def Mutex_try_lock_free)
  qed
next
  case (MWrite f)
  have "mutex_inv (s\<lparr>ms_mutex := MutexGuard_deref_mut MutexGuard f (ms_mutex s)\<rparr>) q"
    using inv by (simp add: mutex_inv_def MutexGuard_deref_mut_def)
  with MWrite wakes_refl show ?thesis by fastforce
next
  case MUnlock
  with mutex_unlock_ok [OF inv] en show ?thesis by fastforce
qed

lemma mutex_exec_ok:
  assumes "\<exists>q. mutex_inv s q" and "mutex_enabled op s"
  shows "\<exists>s'. mutex_exec op s = Inr s' \<and> (\<exists>q. mutex_inv s' q)"
  using assms mutex_step_ok by blast

interpretation mutex_machine: machine mutex_enabled mutex_exec "mutex_init data" "\<lambda>s. \<exists>q. mutex_inv s q"
  for data :: 'd
proof
  have "mutex_inv (mutex_init data) q_empty"
    by (simp add: mutex_inv_def mutex_init_def Mutex_new_def refines_empty live_ok_empty)
  then show "\<exists>q. mutex_inv (mutex_init data) q" by blast
qed (rule mutex_exec_ok)

text \<open>While the mutex is free, a suspended lock future that was notified takes the lock when it is polled.\<close>

lemma mutex_progress:
  assumes inv: "mutex_inv s q" and g: "ms_guards s = 0" and a: "ms_futs s a = Some Suspended"
  obtains b where "ms_futs s b = Some Suspended" and "is_notified (mx_unlocked (ms_mutex s)) b"
    and "\<forall>w. \<exists>s'. mutex_exec (MPoll b w) s = Inr s' \<and> ms_futs s' b = Some Returned \<and> ms_guards s' = 1"
proof -
  note i = mutex_invD [OF inv]
  from inv g have free: "mx_borrow (ms_mutex s) = Unused" by (simp add: mutex_inv_def)
  from mutex.progress [OF TrueI i(1,2,3) free a] obtain b where
    b: "ms_futs s b = Some Suspended" "is_notified (wf_event Mutex_lock (ms_mutex s)) b"
      "\<And>w. \<exists>v e m. wait_poll Mutex_lock Suspended b w (ms_mutex s) =
         Inr (Ready v, Returned, [], wf_put Mutex_lock e m)" by metis
  have "\<exists>s'. mutex_exec (MPoll b w) s = Inr s' \<and> ms_futs s' b = Some Returned \<and> ms_guards s' = 1" for w
    using b(1) b(3) [of w] g by auto
  with b that show ?thesis by simp
qed

section \<open>Properties\<close>

lemma mutex_reach_inv:
  assumes "mutex_reach data s"
  obtains q where "mutex_inv s q"
  using mutex_machine.reach_inv [OF assms [unfolded mutex_reach_def]] that by blast

text \<open>
  C5: Mutual exclusion. Under every interleaving of locking, polling, cancelling, trying,
  writing and unlocking there is at most one guard, and the \<open>RefCell\<close> is mutably
  borrowed exactly while there is one.
\<close>

theorem mutex_exclusion:
  assumes "mutex_reach data s"
  shows "ms_guards s \<le> 1 \<and>
    mx_borrow (ms_mutex s) = (if ms_guards s = 0 then Unused else Writing)"
  using mutex_reach_inv [OF assms] by (metis mutex_inv_def)

theorem mutex_exclusion_witness:
  "\<exists>s. run mutex_enabled mutex_exec [MTry_lock, MLock 8, MPoll 8 (1::nat)] (mutex_init (0::nat)) = Some (Inr s) \<and>
     ms_futs s 8 = Some Suspended \<and> ms_guards s \<le> 1 \<and>
     mx_borrow (ms_mutex s) = (if ms_guards s = 0 then Unused else Writing)"
proof (rule after_reach)
  show "after mutex_enabled mutex_exec [MTry_lock, MLock 8, MPoll 8 (1::nat)] (mutex_init (0::nat))
      (\<lambda>s. ms_futs s 8 = Some Suspended)"
    by (simp add: evals mutex_init_def)
qed (use mutex_exclusion mutex_reach_def in metis)

text \<open>
  No operation of a client on a mutex panics, touches freed memory or loops: in every
  reachable state each enabled operation returns.
\<close>

lemma mutex_no_fault:
  assumes "mutex_reach data s" and "mutex_enabled op s"
  shows "\<exists>s'. mutex_exec op s = Inr s' \<and> mutex_reach data s'"
  using mutex_machine.no_fault [OF assms(1) [unfolded mutex_reach_def] assms(2)]
  unfolding mutex_reach_def .

text \<open>
  C6: No lost wakeup. Whenever the mutex is free and a lock future is suspended, some suspended
  lock future has been notified, and polling that future (with any waker) gives it the lock.
\<close>

theorem mutex_no_lost_wakeup:
  assumes "mutex_reach data s" and "ms_guards s = 0" and "ms_futs s a = Some Suspended"
  shows "\<exists>b. ms_futs s b = Some Suspended \<and> is_notified (mx_unlocked (ms_mutex s)) b \<and>
    (\<forall>w. \<exists>s'. mutex_exec (MPoll b w) s = Inr s' \<and> ms_futs s' b = Some Returned \<and> ms_guards s' = 1)"
proof -
  from mutex_reach_inv [OF assms(1)] obtain q where "mutex_inv s q" .
  from mutex_progress [OF this assms(2,3)] show ?thesis by metis
qed

theorem mutex_no_lost_wakeup_witness:
  "\<exists>s. run mutex_enabled mutex_exec [MTry_lock, MLock 8, MPoll 8 (1::nat), MLock 16, MPoll 16 2, MWrite Suc,
       MUnlock] (mutex_init (0::nat)) = Some (Inr s) \<and>
     ms_woken s = [1] \<and> (\<exists>b. ms_futs s b = Some Suspended \<and> is_notified (mx_unlocked (ms_mutex s)) b)"
proof (rule after_reach)
  show "after mutex_enabled mutex_exec [MTry_lock, MLock 8, MPoll 8 (1::nat), MLock 16, MPoll 16 2, MWrite Suc,
       MUnlock] (mutex_init (0::nat))
      (\<lambda>s. ms_woken s = [1] \<and> ms_guards s = 0 \<and> ms_futs s 16 = Some Suspended)"
    by (simp add: evals mutex_init_def)
qed (use mutex_no_lost_wakeup mutex_reach_def in metis)

end
