(* ===== verification/SemaphoreLock.thy ===== *)
theory SemaphoreLock
  imports Async Machine
begin

text \<open>
  \<open>src/lock/semaphore.rs\<close>: the counting semaphore, with guards that borrow it
  (\<open>acquire\<close>) and guards that share it through an \<open>Rc\<close> (\<open>acquire_rc\<close>).
  The reference count of the \<open>Rc\<close> is not modelled: it keeps the semaphore alive, which the
  model's semaphore always is. The system is one semaphore, its acquire futures of both kinds
  and the number of live guards.
\<close>

section \<open>The code\<close>

record 'w Semaphore =
  sem_event :: "(unit, 'w) Event"
  sem_permits :: usize

datatype SemaphoreGuard = SemaphoreGuard
datatype SemaphoreGuardRc = SemaphoreGuardRc

definition Semaphore_new :: "usize \<Rightarrow> 'w Semaphore" where
  "Semaphore_new permits = \<lparr>sem_event = Event_new, sem_permits = permits\<rparr>"

definition Semaphore_try_acquire :: "'w Semaphore \<Rightarrow> SemaphoreGuard option \<times> 'w Semaphore" where
  "Semaphore_try_acquire s =
     (let permits = sem_permits s in
      if 0 < permits then (Some SemaphoreGuard, s\<lparr>sem_permits := permits - 1\<rparr>) else (None, s))"

definition Semaphore_try_acquire_rc :: "'w Semaphore \<Rightarrow> SemaphoreGuardRc option \<times> 'w Semaphore" where
  "Semaphore_try_acquire_rc s =
     (let permits = sem_permits s in
      if 0 < permits then (Some SemaphoreGuardRc, s\<lparr>sem_permits := permits - 1\<rparr>) else (None, s))"

text \<open>\<open>acquire\<close> and \<open>acquire_rc\<close>: try, otherwise await the event and try again.\<close>

definition Semaphore_acquire :: "('w Semaphore, unit, 'w, SemaphoreGuard) wait_fn" where
  "Semaphore_acquire =
     \<lparr>wf_try = (\<lambda>s. Inr (Semaphore_try_acquire s)),
      wf_got = (\<lambda>_. None),
      wf_event = sem_event,
      wf_put = (\<lambda>e s. s\<lparr>sem_event := e\<rparr>)\<rparr>"

definition Semaphore_acquire_rc :: "('w Semaphore, unit, 'w, SemaphoreGuardRc) wait_fn" where
  "Semaphore_acquire_rc =
     \<lparr>wf_try = (\<lambda>s. Inr (Semaphore_try_acquire_rc s)),
      wf_got = (\<lambda>_. None),
      wf_event = sem_event,
      wf_put = (\<lambda>e s. s\<lparr>sem_event := e\<rparr>)\<rparr>"

text \<open>\<open>Drop\<close> of the guards.\<close>

definition SemaphoreGuard_drop :: "SemaphoreGuard \<Rightarrow> 'w Semaphore \<Rightarrow> ('w list \<times> 'w Semaphore) outcome" where
  "SemaphoreGuard_drop g s =
     andThen (usize_add (sem_permits s) 1) (\<lambda>permits.
     andThen (notify_int 1 (sem_event s)) (\<lambda>(_, woken, e).
     Inr (woken, s\<lparr>sem_permits := permits, sem_event := e\<rparr>)))"

definition SemaphoreGuardRc_drop :: "SemaphoreGuardRc \<Rightarrow> 'w Semaphore \<Rightarrow> ('w list \<times> 'w Semaphore) outcome" where
  "SemaphoreGuardRc_drop g s =
     andThen (usize_add (sem_permits s) 1) (\<lambda>permits.
     andThen (notify_int 1 (sem_event s)) (\<lambda>(_, woken, e).
     Inr (woken, s\<lparr>sem_permits := permits, sem_event := e\<rparr>)))"

declare Semaphore_new_def [evals] Semaphore_try_acquire_def [evals]
  Semaphore_try_acquire_rc_def [evals] SemaphoreGuard_drop_def [evals]
  SemaphoreGuardRc_drop_def [evals]

section \<open>The loop contract\<close>

lemma Semaphore_acquire_sel [simp]:
  "wf_try Semaphore_acquire s = Inr (Semaphore_try_acquire s)"
  "wf_got Semaphore_acquire t = None"
  "wf_event Semaphore_acquire s = sem_event s"
  "wf_put Semaphore_acquire e s = s\<lparr>sem_event := e\<rparr>"
  "wf_try Semaphore_acquire_rc s = Inr (Semaphore_try_acquire_rc s)"
  "wf_got Semaphore_acquire_rc t = None"
  "wf_event Semaphore_acquire_rc s = sem_event s"
  "wf_put Semaphore_acquire_rc e s = s\<lparr>sem_event := e\<rparr>"
  by (simp_all add: Semaphore_acquire_def Semaphore_acquire_rc_def)

lemma Semaphore_try_cases:
  "sem_permits s = 0 \<Longrightarrow> Semaphore_try_acquire s = (None, s)"
  "0 < sem_permits s \<Longrightarrow>
     Semaphore_try_acquire s = (Some SemaphoreGuard, s\<lparr>sem_permits := sem_permits s - 1\<rparr>)"
  "sem_permits s = 0 \<Longrightarrow> Semaphore_try_acquire_rc s = (None, s)"
  "0 < sem_permits s \<Longrightarrow>
     Semaphore_try_acquire_rc s = (Some SemaphoreGuardRc, s\<lparr>sem_permits := sem_permits s - 1\<rparr>)"
  by (simp_all add: Semaphore_try_acquire_def Semaphore_try_acquire_rc_def)

interpretation sem: wait_loop Semaphore_acquire "\<lambda>_. True"
  by unfold_locales (auto simp: Semaphore_try_acquire_def Let_def split: if_splits)

interpretation sem_rc: wait_loop Semaphore_acquire_rc "\<lambda>_. True"
  by unfold_locales (auto simp: Semaphore_try_acquire_rc_def Let_def split: if_splits)

text \<open>A binary semaphore hands over one permit.\<close>

interpretation sem_binary: handoff Semaphore_acquire "\<lambda>s. sem_permits s \<le> 1" "\<lambda>s. 0 < sem_permits s"
  by unfold_locales (auto simp: Semaphore_try_acquire_def Let_def split: if_splits)

interpretation sem_binary_rc: handoff Semaphore_acquire_rc "\<lambda>s. sem_permits s \<le> 1" "\<lambda>s. 0 < sem_permits s"
  by unfold_locales (auto simp: Semaphore_try_acquire_rc_def Let_def split: if_splits)

section \<open>A semaphore and its clients\<close>

text \<open>\<open>ss_rc\<close> tells which futures are of \<open>acquire_rc\<close>.\<close>

record 'w sem_sys =
  ss_sem :: "'w Semaphore"
  ss_guards :: nat
  ss_futs :: "addr \<rightharpoonup> fut"
  ss_rc :: "addr \<Rightarrow> bool"
  ss_woken :: "'w list"

datatype 'w sem_op =
    SAcquire addr bool
  | SPoll addr 'w
  | SCancel addr
  | STry bool
  | SRelease bool

definition sem_init :: "64 word \<Rightarrow> 'w sem_sys" where
  "sem_init permits =
     \<lparr>ss_sem = Semaphore_new (unat permits), ss_guards = 0, ss_futs = Map.empty, ss_rc = (\<lambda>_. False), ss_woken = []\<rparr>"

fun sem_enabled :: "'w sem_op \<Rightarrow> 'w sem_sys \<Rightarrow> bool" where
  "sem_enabled (SAcquire a rc) s \<longleftrightarrow> ss_futs s a = None \<and> a \<noteq> 0"
| "sem_enabled (SPoll a w) s \<longleftrightarrow> ss_futs s a \<noteq> None \<and> ss_futs s a \<noteq> Some Returned"
| "sem_enabled (SCancel a) s \<longleftrightarrow> ss_futs s a \<noteq> None"
| "sem_enabled (STry rc) s \<longleftrightarrow> True"
| "sem_enabled (SRelease rc) s \<longleftrightarrow> 0 < ss_guards s"

text \<open>The state after a poll.\<close>

definition sem_polled :: "addr \<Rightarrow> 'w sem_sys \<Rightarrow> 'g poll \<times> fut \<times> 'w list \<times> 'w Semaphore \<Rightarrow> 'w sem_sys" where
  "sem_polled a s r =
     (case r of (res, st, woken, m) \<Rightarrow>
        s\<lparr>ss_sem := m, ss_futs := (ss_futs s)(a \<mapsto> st), ss_woken := ss_woken s @ woken,
          ss_guards := (case res of Ready g \<Rightarrow> ss_guards s + 1 | Pending \<Rightarrow> ss_guards s)\<rparr>)"

fun sem_exec :: "'w sem_op \<Rightarrow> 'w sem_sys \<Rightarrow> 'w sem_sys outcome" where
  "sem_exec (SAcquire a rc) s =
     Inr (s\<lparr>ss_futs := (ss_futs s)(a \<mapsto> Unresumed), ss_rc := (ss_rc s)(a := rc)\<rparr>)"
| "sem_exec (SPoll a w) s =
     (if ss_rc s a
      then andThen (wait_poll Semaphore_acquire_rc (the (ss_futs s a)) a w (ss_sem s)) (\<lambda>r. Inr (sem_polled a s r))
      else andThen (wait_poll Semaphore_acquire (the (ss_futs s a)) a w (ss_sem s)) (\<lambda>r. Inr (sem_polled a s r)))"
| "sem_exec (SCancel a) s =
     andThen (if ss_rc s a then wait_drop Semaphore_acquire_rc (the (ss_futs s a)) a (ss_sem s)
              else wait_drop Semaphore_acquire (the (ss_futs s a)) a (ss_sem s)) (\<lambda>(woken, m).
     Inr (s\<lparr>ss_sem := m, ss_futs := (ss_futs s)(a := None), ss_woken := ss_woken s @ woken\<rparr>))"
| "sem_exec (STry rc) s =
     (let (got, m) = (if rc then map_prod (\<lambda>g. g \<noteq> None) id (Semaphore_try_acquire_rc (ss_sem s))
                      else map_prod (\<lambda>g. g \<noteq> None) id (Semaphore_try_acquire (ss_sem s))) in
      Inr (s\<lparr>ss_sem := m, ss_guards := (if got then ss_guards s + 1 else ss_guards s)\<rparr>))"
| "sem_exec (SRelease rc) s =
     andThen (if rc then SemaphoreGuardRc_drop SemaphoreGuardRc (ss_sem s)
              else SemaphoreGuard_drop SemaphoreGuard (ss_sem s)) (\<lambda>(woken, m).
     Inr (s\<lparr>ss_sem := m, ss_guards := ss_guards s - 1, ss_woken := ss_woken s @ woken\<rparr>))"

definition sem_reach :: "64 word \<Rightarrow> 'w sem_sys \<Rightarrow> bool" where
  "sem_reach permits = reach sem_enabled sem_exec (sem_init permits)"

declare sem_init_def [evals] sem_polled_def [evals]

text \<open>
  The invariant for \<open>n\<close> permits: permits and guards add up, and no wakeup is lost in
  the weak sense that suspended futures are served once all guards are gone; in the strong
  sense (as soon as a permit is free) only when there is one permit in n.
\<close>

definition sem_inv :: "usize \<Rightarrow> 'w sem_sys \<Rightarrow> (unit, 'w) queue \<Rightarrow> bool" where
  "sem_inv n s q \<longleftrightarrow>
     refines (sem_event (ss_sem s)) q \<and> live_ok (ss_futs s) q \<and>
     sem_permits (ss_sem s) + ss_guards s = n \<and>
     nothing_lost (0 < n \<and> ss_guards s = 0) q"

text \<open>A poll of either kind of future.\<close>

lemma sem_poll_ok:
  assumes F: "wait_loop F (\<lambda>_. True)"
    and ev: "wf_event F = sem_event" and put: "\<And>e m. wf_put F e m = m\<lparr>sem_event := e\<rparr>"
    and got: "\<And>t. wf_got F t = None"
    and free: "\<And>m. 0 < sem_permits m \<Longrightarrow> wf_try F m = Inr (Some g, m\<lparr>sem_permits := sem_permits m - 1\<rparr>)"
    and full: "\<And>m. sem_permits m = 0 \<Longrightarrow> wf_try F m = Inr (None, m)"
    and inv: "sem_inv n s q" and st: "ss_futs s a = Some st" "st \<noteq> Returned"
  shows "\<exists>r q'. wait_poll F st a w (ss_sem s) = Inr r \<and> sem_inv n (sem_polled a s r) q' \<and>
    ss_woken (sem_polled a s r) = ss_woken s \<and> polled_by a w q q'"
proof -
  from inv have i: "refines (wf_event F (ss_sem s)) q" "live_ok (ss_futs s) q"
      "nothing_lost (0 < n \<and> ss_guards s = 0) q" "sem_permits (ss_sem s) + ss_guards s = n"
    by (simp_all add: sem_inv_def ev)
  obtain res st' m' e q' where
    p: "wait_poll F st a w (ss_sem s) = Inr (res, st', [], wf_put F e m')"
    and spec: "wait_spec F st a w (ss_sem s) q = (res, st', m', q')"
    and q': "refines e q'" "live_ok ((ss_futs s)(a \<mapsto> st')) q'"
    by (rule wait_loop.poll_ok [OF F TrueI i(1,2) st])
  have pb: "polled_by a w q q'" by (rule wait_spec_polls [OF spec i(1) live_ok_pollable [OF i(2) st]])
  show ?thesis
  proof (cases res)
    case (Ready v)
    have "wf_try F (ss_sem s) = Inr (Some v, m')"
      using wait_loop.spec_state(2) [OF F spec] Ready by (simp add: got)
    then have "0 < sem_permits (ss_sem s)" "m' = (ss_sem s)\<lparr>sem_permits := sem_permits (ss_sem s) - 1\<rparr>"
      using free [of "ss_sem s"] full [of "ss_sem s"] by (cases "sem_permits (ss_sem s)"; auto)+
    then have "sem_inv n (sem_polled a s (res, st', [], wf_put F e m')) q'"
      using q' i(4) Ready by (simp add: sem_inv_def sem_polled_def put)
    with p pb show ?thesis by (auto simp: sem_polled_def)
  next
    case Pending
    have m': "m' = ss_sem s" using wait_loop.spec_state(1) [OF F spec] Pending by simp
    have "\<exists>v s1. wf_try F (ss_sem s) = Inr (Some v, s1)" if "0 < n \<and> ss_guards s = 0"
      using free [of "ss_sem s"] i(4) that by auto
    from wait_loop.pending_keeps [OF F spec [unfolded Pending] i(3) this]
    have "nothing_lost (0 < n \<and> ss_guards s = 0) q'" .
    then have "sem_inv n (sem_polled a s (res, st', [], wf_put F e m')) q'"
      using q' i(4) Pending m' by (simp add: sem_inv_def sem_polled_def put)
    with p pb show ?thesis by (auto simp: sem_polled_def)
  qed
qed

lemmas sem_poll_ok_acquire = sem_poll_ok [OF sem.wait_loop_axioms, where g = SemaphoreGuard]
lemmas sem_poll_ok_acquire_rc = sem_poll_ok [OF sem_rc.wait_loop_axioms, where g = SemaphoreGuardRc]

lemma sem_drop_ok:
  assumes inv: "sem_inv n s q" and st: "ss_futs s a = Some st"
  shows "\<exists>woken m q'. wait_drop Semaphore_acquire st a (ss_sem s) = Inr (woken, m) \<and>
    wait_drop Semaphore_acquire_rc st a (ss_sem s) = Inr (woken, m) \<and> wakes woken q q' \<and>
    (\<forall>ws. sem_inv n (s\<lparr>ss_sem := m, ss_futs := (ss_futs s)(a := None), ss_woken := ws\<rparr>) q')"
proof -
  have same: "wait_drop Semaphore_acquire_rc st a (ss_sem s) = wait_drop Semaphore_acquire st a (ss_sem s)"
    by (cases st) (simp_all add: wait_drop_def)
  from inv have i: "refines (wf_event Semaphore_acquire (ss_sem s)) q" "live_ok (ss_futs s) q"
    by (simp_all add: sem_inv_def)
  from sem.drop_ok [OF i st] obtain woken e q' where
    "wait_drop Semaphore_acquire st a (ss_sem s) = Inr (woken, (ss_sem s)\<lparr>sem_event := e\<rparr>)"
    "refines e q'" "live_ok ((ss_futs s)(a := None)) q'" "\<And>b. nothing_lost b q \<Longrightarrow> nothing_lost b q'"
    "wakes woken q q'"
    by (metis Semaphore_acquire_sel(4))
  with inv show ?thesis unfolding same by (fastforce simp: sem_inv_def)
qed

lemma sem_release_ok:
  assumes inv: "sem_inv n s q" and g: "0 < ss_guards s" and t: "n \<le> usize_max"
  shows "\<exists>woken m q'. SemaphoreGuard_drop SemaphoreGuard (ss_sem s) = Inr (woken, m) \<and>
    SemaphoreGuardRc_drop SemaphoreGuardRc (ss_sem s) = Inr (woken, m) \<and> wakes woken q q' \<and>
    (\<forall>ws. sem_inv n (s\<lparr>ss_sem := m, ss_guards := ss_guards s - 1, ss_woken := ws\<rparr>) q')"
proof -
  from inv have "refines (sem_event (ss_sem s)) q" by (simp add: sem_inv_def)
  from notify_one [OF this] obtain k woken e q' where
    "notify_int 1 (sem_event (ss_sem s)) = Inr (k, woken, e)" "refines e q'"
    "live_ok (ss_futs s) q' = live_ok (ss_futs s) q" "\<And>b. nothing_lost b q'"
    "wakes woken q q'"
    by (metis live_ok_same)
  moreover have "sem_permits (ss_sem s) + 1 \<le> usize_max" using inv g t by (simp add: sem_inv_def)
  ultimately show ?thesis
    using inv g by (auto simp: sem_inv_def SemaphoreGuard_drop_def SemaphoreGuardRc_drop_def)
qed

text \<open>Every operation, with what it does to the waiting futures and their wakers.\<close>

lemma sem_step_ok:
  assumes inv: "sem_inv n s q" and en: "sem_enabled op s" and t: "n \<le> usize_max"
  shows "\<exists>s' q' ws. sem_exec op s = Inr s' \<and> sem_inv n s' q' \<and> ss_woken s' = ss_woken s @ ws \<and>
    (case op of SPoll a w \<Rightarrow> ws = [] \<and> polled_by a w q q' | _ \<Rightarrow> wakes ws q q')"
proof (cases op)
  case (SAcquire a rc)
  with inv en have
    "sem_inv n (s\<lparr>ss_futs := (ss_futs s)(a \<mapsto> Unresumed), ss_rc := (ss_rc s)(a := rc)\<rparr>) q"
    by (auto simp: sem_inv_def live_ok_create)
  with SAcquire wakes_refl show ?thesis by fastforce
next
  case (SPoll a w)
  then obtain st where st: "ss_futs s a = Some st" "st \<noteq> Returned" using en by auto
  with sem_poll_ok_acquire [OF _ _ _ _ _ inv this, of w]
    sem_poll_ok_acquire_rc [OF _ _ _ _ _ inv this, of w]
  have "\<exists>s' q'. sem_exec (SPoll a w) s = Inr s' \<and> sem_inv n s' q' \<and> ss_woken s' = ss_woken s \<and> polled_by a w q q'"
    by (fastforce simp: Semaphore_try_cases)
  with SPoll show ?thesis by fastforce
next
  case (SCancel a)
  then obtain st where "ss_futs s a = Some st" using en by auto
  with sem_drop_ok [OF inv this] SCancel show ?thesis by fastforce
next
  case (STry rc)
  have "sem_inv n (s\<lparr>ss_sem := (ss_sem s)\<lparr>sem_permits := sem_permits (ss_sem s) - 1\<rparr>,
      ss_guards := Suc (ss_guards s)\<rparr>) q" if "0 < sem_permits (ss_sem s)"
    using inv that by (simp add: sem_inv_def)
  with STry inv wakes_refl show ?thesis
    by (cases "sem_permits (ss_sem s) = 0") (fastforce simp: Semaphore_try_cases)+
next
  case (SRelease rc)
  then have "0 < ss_guards s" using en by simp
  from sem_release_ok [OF inv this t] SRelease show ?thesis by (cases rc) fastforce+
qed

lemma sem_exec_ok:
  assumes "\<exists>q. sem_inv n s q" and "sem_enabled op s" and "n \<le> usize_max"
  shows "\<exists>s'. sem_exec op s = Inr s' \<and> (\<exists>q. sem_inv n s' q)"
  using assms sem_step_ok by blast

interpretation sem_machine: machine sem_enabled sem_exec "sem_init p" "\<lambda>s. \<exists>q. sem_inv (unat p) s q"
  for p :: "64 word"
proof
  have "sem_inv (unat p) (sem_init p) q_empty"
    by (simp add: sem_inv_def sem_init_def Semaphore_new_def refines_empty live_ok_empty)
  then show "\<exists>q. sem_inv (unat p) (sem_init p) q" by blast
qed (rule sem_exec_ok [OF _ _ unat_usize])

text \<open>With all guards gone, a suspended future that was notified gets a permit when it is polled.\<close>

lemma sem_progress:
  assumes inv: "sem_inv n s q" and n: "0 < n" and g: "ss_guards s = 0" and a: "ss_futs s a = Some Suspended"
  shows "\<exists>b. ss_futs s b = Some Suspended \<and> is_notified (sem_event (ss_sem s)) b \<and>
    (\<forall>w. \<exists>s'. sem_exec (SPoll b w) s = Inr s' \<and> ss_futs s' b = Some Returned \<and> ss_guards s' = 1)"
proof -
  have i: "refines (sem_event (ss_sem s)) q" "live_ok (ss_futs s) q" "nothing_lost True q"
    "0 < sem_permits (ss_sem s)" using inv n g by (simp_all add: sem_inv_def)
  from sem.somebody_notified [of "ss_sem s", simplified, OF i(1,2,3) a] obtain b t where
    b: "ss_futs s b = Some Suspended" "is_notified (sem_event (ss_sem s)) b" "notified_tag b q = Some t" .
  have p: "\<exists>m. wait_poll Semaphore_acquire Suspended b w (ss_sem s) = Inr (Ready SemaphoreGuard, Returned, [], m)" for w
    using sem.resume_ready [of "ss_sem s" q b t SemaphoreGuard _ w] i(1,4) b(3)
    by (auto simp: Semaphore_try_cases)
  have p_rc: "\<exists>m. wait_poll Semaphore_acquire_rc Suspended b w (ss_sem s) = Inr (Ready SemaphoreGuardRc, Returned, [], m)" for w
    using sem_rc.resume_ready [of "ss_sem s" q b t SemaphoreGuardRc _ w] i(1,4) b(3)
    by (auto simp: Semaphore_try_cases)
  have "\<exists>s'. sem_exec (SPoll b w) s = Inr s' \<and> ss_futs s' b = Some Returned \<and> ss_guards s' = 1" for w
    using p [of w] p_rc [of w] b(1) g by (auto simp: sem_polled_def)
  with b show ?thesis by blast
qed

section \<open>Properties\<close>

lemma sem_reach_inv:
  assumes "sem_reach p s"
  obtains q where "sem_inv (unat p) s q"
  using sem_machine.reach_inv [OF assms [unfolded sem_reach_def]] that by blast

text \<open>
  C23: Permits are conserved. Under every interleaving, the free permits and the live guards
  (of both kinds) add up to the number the semaphore was created with; in particular there are
  never more guards than permits.
\<close>

theorem sem_conservation:
  assumes "sem_reach p s"
  shows "sem_permits (ss_sem s) + ss_guards s = unat p"
  using sem_reach_inv [OF assms] by (metis sem_inv_def)

theorem sem_conservation_witness:
  "\<exists>s. run sem_enabled sem_exec [SAcquire 8 True, SPoll 8 (1::nat), STry False, SAcquire 16 False,
        SPoll 16 1, SRelease True] (sem_init 2) = Some (Inr s) \<and>
     ss_guards s = 1 \<and> sem_permits (ss_sem s) + ss_guards s = unat (2 :: 64 word)"
proof (rule after_reach)
  show "after sem_enabled sem_exec [SAcquire 8 True, SPoll 8 (1::nat), STry False, SAcquire 16 False,
        SPoll 16 1, SRelease True] (sem_init 2) (\<lambda>s. ss_guards s = 1)"
    by (simp add: evals)
qed (use sem_conservation sem_reach_def in metis)

text \<open>
  No operation of a client on a semaphore panics (the permit count cannot overflow), touches
  freed memory or loops.
\<close>

lemma sem_no_fault:
  assumes "sem_reach p s" and "sem_enabled op s"
  shows "\<exists>s'. sem_exec op s = Inr s' \<and> sem_reach p s'"
  using sem_machine.no_fault [OF assms(1) [unfolded sem_reach_def] assms(2)]
  unfolding sem_reach_def .

text \<open>
  A semaphore does not deadlock. When all guards are gone and an acquire future is
  suspended, some suspended future has been notified, and polling it returns a guard. (For a
  semaphore with one permit this says that no wakeup is lost.)
\<close>

theorem sem_no_deadlock:
  assumes "sem_reach p s" and "0 < p" and "ss_guards s = 0" and "ss_futs s a = Some Suspended"
  shows "\<exists>b. ss_futs s b = Some Suspended \<and> is_notified (sem_event (ss_sem s)) b \<and>
    (\<forall>w. \<exists>s'. sem_exec (SPoll b w) s = Inr s' \<and> ss_futs s' b = Some Returned \<and> ss_guards s' = 1)"
proof -
  from sem_reach_inv [OF assms(1)] obtain q where inv: "sem_inv (unat p) s q" .
  have "0 < unat p" using assms(2) by (simp add: word_less_nat_alt)
  from sem_progress [OF inv this assms(3,4)] show ?thesis by blast
qed

theorem sem_no_deadlock_witness:
  "\<exists>s. run sem_enabled sem_exec [STry False, SAcquire 8 True, SPoll 8 (1::nat), SRelease False]
       (sem_init 1) = Some (Inr s) \<and>
     ss_woken s = [1] \<and> (\<exists>b. ss_futs s b = Some Suspended \<and> is_notified (sem_event (ss_sem s)) b)"
proof (rule after_reach)
  show "after sem_enabled sem_exec [STry False, SAcquire 8 True, SPoll 8 (1::nat), SRelease False]
      (sem_init 1) (\<lambda>s. ss_woken s = [1] \<and> ss_guards s = 0 \<and> ss_futs s 8 = Some Suspended)"
    by (simp add: evals)
next
  fix s :: "nat sem_sys"
  assume "reach sem_enabled sem_exec (sem_init 1) s"
    and *: "ss_woken s = [1] \<and> ss_guards s = 0 \<and> ss_futs s 8 = Some Suspended"
  then have "sem_reach 1 s" by (simp add: sem_reach_def)
  from sem_no_deadlock [OF this] * show "ss_woken s = [1] \<and>
      (\<exists>b. ss_futs s b = Some Suspended \<and> is_notified (sem_event (ss_sem s)) b)"
    by (auto simp del: sem_exec.simps)
qed

text \<open>
  C37: What the drop of a guard does. The permit comes back. If some future waits and none has been notified
  without having been polled since, one that waits is notified; in every other case nobody is, and no waker is
  called: of two permits that come back in a row only the first one wakes a future, although two may wait.
\<close>

theorem sem_release:
  assumes "sem_reach p s" and "0 < ss_guards s"
  defines "ev \<equiv> sem_event (ss_sem s)"
  shows "\<exists>s'. sem_exec (SRelease rc) s = Inr s' \<and> ss_futs s' = ss_futs s \<and>
    sem_permits (ss_sem s') = Suc (sem_permits (ss_sem s)) \<and>
    (if (\<exists>a. waits ev a) \<and> \<not> (\<exists>a. is_notified ev a)
     then \<exists>a. waits ev a \<and> is_notified (sem_event (ss_sem s')) a \<and>
       (\<forall>b. waits (sem_event (ss_sem s')) b \<longleftrightarrow> waits ev b \<and> b \<noteq> a)
     else sem_event (ss_sem s') = ev \<and> ss_woken s' = ss_woken s)"
proof -
  from sem_reach_inv [OF assms(1)] obtain q where inv: "sem_inv (unat p) s q" .
  then have r: "refines ev q" and t: "sem_permits (ss_sem s) + 1 \<le> usize_max"
    using assms(2) unat_usize [of p] by (simp_all add: sem_inv_def ev_def)
  show ?thesis
  proof (cases rule: notify_int_one [OF r])
    case (1 a woken e)
    then show ?thesis using t unfolding ev_def
      by (cases rc) (auto simp: SemaphoreGuard_drop_def SemaphoreGuardRc_drop_def)
  next
    case 2
    then show ?thesis using t unfolding ev_def
      by (cases rc) (auto simp: SemaphoreGuard_drop_def SemaphoreGuardRc_drop_def)
  qed
qed

theorem sem_release_witness:
  "\<exists>s. run sem_enabled sem_exec
       [STry False, STry False, SAcquire 8 False, SPoll 8 (1::nat), SAcquire 16 False, SPoll 16 2, SRelease False]
       (sem_init 2) = Some (Inr s) \<and> ss_woken s = [1] \<and> waits (sem_event (ss_sem s)) 16 \<and>
     (\<exists>s'. sem_exec (SRelease False) s = Inr s' \<and> sem_permits (ss_sem s') = 2 \<and> ss_woken s' = [1] \<and>
        waits (sem_event (ss_sem s')) 16)"
proof (rule after_reach)
  show "after sem_enabled sem_exec
       [STry False, STry False, SAcquire 8 False, SPoll 8 (1::nat), SAcquire 16 False, SPoll 16 2, SRelease False]
       (sem_init 2) (\<lambda>s. 0 < ss_guards s \<and> sem_permits (ss_sem s) = 1 \<and> ss_woken s = [1] \<and>
          waits (sem_event (ss_sem s)) 16 \<and> is_notified (sem_event (ss_sem s)) 8)"
    by (simp add: evals)
  fix s :: "nat sem_sys"
  assume "reach sem_enabled sem_exec (sem_init 2) s"
    and s: "0 < ss_guards s \<and> sem_permits (ss_sem s) = 1 \<and> ss_woken s = [1] \<and>
          waits (sem_event (ss_sem s)) 16 \<and> is_notified (sem_event (ss_sem s)) 8"
  then have "sem_reach 2 s" by (simp add: sem_reach_def)
  have "\<not> ((\<exists>a. waits (sem_event (ss_sem s)) a) \<and> \<not> (\<exists>a. is_notified (sem_event (ss_sem s)) a))" using s by blast
  note no = if_not_P [OF this]
  have "0 < ss_guards s" using s by simp
  from sem_release [OF \<open>sem_reach 2 s\<close> this, of False, unfolded no] obtain s' where
    "sem_exec (SRelease False) s = Inr s'" "sem_permits (ss_sem s') = Suc (sem_permits (ss_sem s))"
    "sem_event (ss_sem s') = sem_event (ss_sem s)" "ss_woken s' = ss_woken s" by blast
  with s have "sem_permits (ss_sem s') = 2" by simp
  with s \<open>sem_exec (SRelease False) s = Inr s'\<close> \<open>sem_event (ss_sem s') = sem_event (ss_sem s)\<close>
    \<open>ss_woken s' = ss_woken s\<close> show "ss_woken s = [1] \<and> waits (sem_event (ss_sem s)) 16 \<and>
     (\<exists>s'. sem_exec (SRelease False) s = Inr s' \<and> sem_permits (ss_sem s') = 2 \<and> ss_woken s' = [1] \<and>
        waits (sem_event (ss_sem s')) 16)" by metis
qed

text \<open>
  With more than one permit a wakeup can be lost. Two guards are dropped while two acquire
  futures wait: the second drop notifies nobody, because one listener is already notified. After
  that one has taken its permit, the other permit is free, the second future is suspended, and
  no listener is notified.
\<close>

lemma permit_sleeper:
  "\<exists>s. run sem_enabled sem_exec
       [STry False, STry False, SAcquire 8 False, SPoll 8 (1::nat), SAcquire 16 False, SPoll 16 2,
        SRelease False, SRelease False, SPoll 8 1] (sem_init 2) = Some (Inr s) \<and>
     sem_permits (ss_sem s) = 1 \<and> ss_futs s 16 = Some Suspended \<and> ss_woken s = [1] \<and>
     (\<forall>b. \<not> is_notified (sem_event (ss_sem s)) b)"
  by (simp add: evals)

end
