(* ===== verification/ReadWriteLock.thy ===== *)
theory ReadWriteLock
  imports Async Machine
begin

text \<open>
  \<open>src/lock/rwlock.rs\<close>: the read/write lock. It has two events: writers wait on
  \<open>no_readers\<close>, readers on \<open>no_writers\<close>; dropping the last read guard notifies the
  former, dropping a write guard the latter. The system is one lock, its read and write futures
  and the numbers of live guards.
\<close>

section \<open>The code\<close>

record ('d, 'w) RwLock =
  rw_no_readers :: "(unit, 'w) Event"
  rw_no_writers :: "(unit, 'w) Event"
  rw_readers :: usize
  rw_borrow :: borrow
  rw_data :: 'd

datatype RwLockReadGuard = RwLockReadGuard
datatype RwLockWriteGuard = RwLockWriteGuard

definition RwLock_new :: "'d \<Rightarrow> ('d, 'w) RwLock" where
  "RwLock_new data = \<lparr>rw_no_readers = Event_new, rw_no_writers = Event_new, rw_readers = 0,
     rw_borrow = Unused, rw_data = data\<rparr>"

definition RwLock_into_inner :: "('d, 'w) RwLock \<Rightarrow> 'd" where
  "RwLock_into_inner l = rw_data l"

text \<open>\<open>get_mut\<close> gives exclusive access: the caller applies some \<open>f\<close> to the data.\<close>

definition RwLock_get_mut :: "('d \<Rightarrow> 'd) \<Rightarrow> ('d, 'w) RwLock \<Rightarrow> ('d, 'w) RwLock" where
  "RwLock_get_mut f l = l\<lparr>rw_data := f (rw_data l)\<rparr>"

definition RwLock_try_read :: "('d, 'w) RwLock \<Rightarrow> (RwLockReadGuard option \<times> ('d, 'w) RwLock) outcome" where
  "RwLock_try_read l =
     (case try_borrow (rw_borrow l) of
        None \<Rightarrow> Inr (None, l)
      | Some b \<Rightarrow>
          andThen (expect (checked_add (rw_readers l) 1)) (\<lambda>n.
          Inr (Some RwLockReadGuard, l\<lparr>rw_readers := n, rw_borrow := b\<rparr>)))"

definition RwLock_try_write :: "('d, 'w) RwLock \<Rightarrow> RwLockWriteGuard option \<times> ('d, 'w) RwLock" where
  "RwLock_try_write l =
     (case try_borrow_mut (rw_borrow l) of
        None \<Rightarrow> (None, l)
      | Some b \<Rightarrow> (Some RwLockWriteGuard, l\<lparr>rw_borrow := b\<rparr>))"

text \<open>\<open>read\<close> awaits \<open>no_writers\<close>, \<open>write\<close> awaits \<open>no_readers\<close>.\<close>

definition RwLock_read :: "(('d, 'w) RwLock, unit, 'w, RwLockReadGuard) wait_fn" where
  "RwLock_read =
     \<lparr>wf_try = RwLock_try_read,
      wf_got = (\<lambda>_. None),
      wf_event = rw_no_writers,
      wf_put = (\<lambda>e l. l\<lparr>rw_no_writers := e\<rparr>)\<rparr>"

definition RwLock_write :: "(('d, 'w) RwLock, unit, 'w, RwLockWriteGuard) wait_fn" where
  "RwLock_write =
     \<lparr>wf_try = (\<lambda>l. Inr (RwLock_try_write l)),
      wf_got = (\<lambda>_. None),
      wf_event = rw_no_readers,
      wf_put = (\<lambda>e l. l\<lparr>rw_no_readers := e\<rparr>)\<rparr>"

text \<open>\<open>Deref\<close> and \<open>DerefMut\<close> of the guards.\<close>

definition RwLockReadGuard_deref :: "RwLockReadGuard \<Rightarrow> ('d, 'w) RwLock \<Rightarrow> 'd" where
  "RwLockReadGuard_deref g l = rw_data l"

definition RwLockWriteGuard_deref :: "RwLockWriteGuard \<Rightarrow> ('d, 'w) RwLock \<Rightarrow> 'd" where
  "RwLockWriteGuard_deref g l = rw_data l"

definition RwLockWriteGuard_deref_mut ::
  "RwLockWriteGuard \<Rightarrow> ('d \<Rightarrow> 'd) \<Rightarrow> ('d, 'w) RwLock \<Rightarrow> ('d, 'w) RwLock" where
  "RwLockWriteGuard_deref_mut g f l = l\<lparr>rw_data := f (rw_data l)\<rparr>"

text \<open>\<open>Drop\<close> of the guards; the borrow in the field \<open>data\<close> goes last.\<close>

definition RwLockReadGuard_drop ::
  "RwLockReadGuard \<Rightarrow> ('d, 'w) RwLock \<Rightarrow> ('w list \<times> ('d, 'w) RwLock) outcome" where
  "RwLockReadGuard_drop g l =
     andThen (expect (checked_sub (rw_readers l) 1)) (\<lambda>readers.
     let l1 = l\<lparr>rw_readers := readers\<rparr> in
     andThen (if readers = 0
              then andThen (notify_int 1 (rw_no_readers l1)) (\<lambda>(_, woken, e). Inr (woken, l1\<lparr>rw_no_readers := e\<rparr>))
              else Inr ([], l1)) (\<lambda>(woken, l2).
     Inr (woken, l2\<lparr>rw_borrow := drop_ref (rw_borrow l2)\<rparr>)))"

definition RwLockWriteGuard_drop ::
  "RwLockWriteGuard \<Rightarrow> ('d, 'w) RwLock \<Rightarrow> ('w list \<times> ('d, 'w) RwLock) outcome" where
  "RwLockWriteGuard_drop g l =
     andThen (notify_int 1 (rw_no_writers l)) (\<lambda>(_, woken, e).
     Inr (woken, l\<lparr>rw_no_writers := e, rw_borrow := drop_ref_mut (rw_borrow l)\<rparr>))"

declare RwLock_new_def [evals] RwLock_into_inner_def [evals] RwLock_get_mut_def [evals]
  RwLock_try_read_def [evals] RwLock_try_write_def [evals] RwLockReadGuard_deref_def [evals]
  RwLockWriteGuard_deref_def [evals] RwLockWriteGuard_deref_mut_def [evals]
  RwLockReadGuard_drop_def [evals] RwLockWriteGuard_drop_def [evals]

section \<open>The loop contracts\<close>

lemma RwLock_read_sel [simp]:
  "wf_try RwLock_read l = RwLock_try_read l"
  "wf_got RwLock_read t = None"
  "wf_event RwLock_read l = rw_no_writers l"
  "wf_put RwLock_read e l = l\<lparr>rw_no_writers := e\<rparr>"
  by (simp_all add: RwLock_read_def)

lemma RwLock_write_sel [simp]:
  "wf_try RwLock_write l = Inr (RwLock_try_write l)"
  "wf_got RwLock_write t = None"
  "wf_event RwLock_write l = rw_no_readers l"
  "wf_put RwLock_write e l = l\<lparr>rw_no_readers := e\<rparr>"
  by (simp_all add: RwLock_write_def)

text \<open>
  The reader count repeats the borrow flag, which never counts more than \<open>isize::MAX\<close>
  readers: this is why the \<open>expect\<close>s of the code never fail.
\<close>

fun borrow_readers :: "borrow \<Rightarrow> nat" where
  "borrow_readers (Reading n) = n"
| "borrow_readers Unused = 0"
| "borrow_readers Writing = 0"

definition rw_ok :: "('d, 'w) RwLock \<Rightarrow> bool" where
  "rw_ok l \<longleftrightarrow> rw_readers l = borrow_readers (rw_borrow l) \<and> rw_borrow l \<noteq> Reading 0 \<and>
     rw_readers l \<le> isize_max"

lemma RwLock_try_read_ok:
  assumes "rw_ok l"
  shows "RwLock_try_read l =
    (case try_borrow (rw_borrow l) of
       None \<Rightarrow> Inr (None, l)
     | Some b \<Rightarrow> Inr (Some RwLockReadGuard, l\<lparr>rw_readers := Suc (rw_readers l), rw_borrow := b\<rparr>))"
  using assms isize_max_less
  by (cases "rw_borrow l") (auto simp: RwLock_try_read_def rw_ok_def checked_add_def)

lemma try_read_keeps:
  assumes "rw_ok l" and "RwLock_try_read l = Inr (Some g, l')"
  shows "rw_ok l'" "rw_borrow l \<noteq> Writing"
    "l' = l\<lparr>rw_readers := Suc (rw_readers l), rw_borrow := Reading (Suc (rw_readers l))\<rparr>"
  using assms by (cases "rw_borrow l";
      auto simp: RwLock_try_read_ok rw_ok_def isize_max_def split: if_splits)+

interpretation rw_read: wait_loop RwLock_read rw_ok
proof unfold_locales
  fix l :: "('a, 'b) RwLock"
  show "rw_ok l \<Longrightarrow> \<exists>r s1. wf_try RwLock_read l = Inr (r, s1)"
    by (auto simp: RwLock_try_read_ok split: option.split)
qed (auto simp: rw_ok_def RwLock_try_read_def checked_add_def expect_def split: option.splits if_splits)

interpretation rw_write: handoff RwLock_write "\<lambda>_. True" "\<lambda>l. rw_borrow l = Unused"
proof unfold_locales
  fix l :: "('a, 'b) RwLock" and v l'
  show "(rw_borrow l = Unused) = (\<exists>v l'. wf_try RwLock_write l = Inr (Some v, l'))"
    by (cases "rw_borrow l") (simp_all add: RwLock_try_write_def)
  show "wf_try RwLock_write l = Inr (Some v, l') \<Longrightarrow> rw_borrow l' \<noteq> Unused"
    by (cases "rw_borrow l") (auto simp: RwLock_try_write_def)
qed (auto simp: RwLock_try_write_def split: option.splits)

section \<open>A lock and its clients\<close>

record ('d, 'w) rw_sys =
  rs_lock :: "('d, 'w) RwLock"
  rs_readers :: nat
  rs_writers :: nat
  rs_rfuts :: "addr \<rightharpoonup> fut"
  rs_wfuts :: "addr \<rightharpoonup> fut"
  rs_woken :: "'w list"

datatype ('d, 'w) rw_op =
    RRead addr
  | RWrite addr
  | RPoll_read addr 'w
  | RPoll_write addr 'w
  | RCancel_read addr
  | RCancel_write addr
  | RTry_read
  | RTry_write
  | RSet "'d \<Rightarrow> 'd"
  | RDrop_read
  | RDrop_write

definition rw_init :: "'d \<Rightarrow> ('d, 'w) rw_sys" where
  "rw_init data = \<lparr>rs_lock = RwLock_new data, rs_readers = 0, rs_writers = 0, rs_rfuts = Map.empty,
     rs_wfuts = Map.empty, rs_woken = []\<rparr>"

fun rw_enabled :: "('d, 'w) rw_op \<Rightarrow> ('d, 'w) rw_sys \<Rightarrow> bool" where
  "rw_enabled (RRead a) s \<longleftrightarrow> rs_rfuts s a = None \<and> rs_wfuts s a = None \<and> a \<noteq> 0"
| "rw_enabled (RWrite a) s \<longleftrightarrow> rs_rfuts s a = None \<and> rs_wfuts s a = None \<and> a \<noteq> 0"
| "rw_enabled (RPoll_read a w) s \<longleftrightarrow> rs_rfuts s a \<noteq> None \<and> rs_rfuts s a \<noteq> Some Returned"
| "rw_enabled (RPoll_write a w) s \<longleftrightarrow> rs_wfuts s a \<noteq> None \<and> rs_wfuts s a \<noteq> Some Returned"
| "rw_enabled (RCancel_read a) s \<longleftrightarrow> rs_rfuts s a \<noteq> None"
| "rw_enabled (RCancel_write a) s \<longleftrightarrow> rs_wfuts s a \<noteq> None"
| "rw_enabled RTry_read s \<longleftrightarrow> True"
| "rw_enabled RTry_write s \<longleftrightarrow> True"
| "rw_enabled (RSet f) s \<longleftrightarrow> 0 < rs_writers s"
| "rw_enabled RDrop_read s \<longleftrightarrow> 0 < rs_readers s"
| "rw_enabled RDrop_write s \<longleftrightarrow> 0 < rs_writers s"

fun rw_exec :: "('d, 'w) rw_op \<Rightarrow> ('d, 'w) rw_sys \<Rightarrow> ('d, 'w) rw_sys outcome" where
  "rw_exec (RRead a) s = Inr (s\<lparr>rs_rfuts := (rs_rfuts s)(a \<mapsto> Unresumed)\<rparr>)"
| "rw_exec (RWrite a) s = Inr (s\<lparr>rs_wfuts := (rs_wfuts s)(a \<mapsto> Unresumed)\<rparr>)"
| "rw_exec (RPoll_read a w) s =
     andThen (wait_poll RwLock_read (the (rs_rfuts s a)) a w (rs_lock s)) (\<lambda>(res, st, woken, l).
     Inr (s\<lparr>rs_lock := l, rs_rfuts := (rs_rfuts s)(a \<mapsto> st), rs_woken := rs_woken s @ woken,
       rs_readers := (case res of Ready g \<Rightarrow> rs_readers s + 1 | Pending \<Rightarrow> rs_readers s)\<rparr>))"
| "rw_exec (RPoll_write a w) s =
     andThen (wait_poll RwLock_write (the (rs_wfuts s a)) a w (rs_lock s)) (\<lambda>(res, st, woken, l).
     Inr (s\<lparr>rs_lock := l, rs_wfuts := (rs_wfuts s)(a \<mapsto> st), rs_woken := rs_woken s @ woken,
       rs_writers := (case res of Ready g \<Rightarrow> rs_writers s + 1 | Pending \<Rightarrow> rs_writers s)\<rparr>))"
| "rw_exec (RCancel_read a) s =
     andThen (wait_drop RwLock_read (the (rs_rfuts s a)) a (rs_lock s)) (\<lambda>(woken, l).
     Inr (s\<lparr>rs_lock := l, rs_rfuts := (rs_rfuts s)(a := None), rs_woken := rs_woken s @ woken\<rparr>))"
| "rw_exec (RCancel_write a) s =
     andThen (wait_drop RwLock_write (the (rs_wfuts s a)) a (rs_lock s)) (\<lambda>(woken, l).
     Inr (s\<lparr>rs_lock := l, rs_wfuts := (rs_wfuts s)(a := None), rs_woken := rs_woken s @ woken\<rparr>))"
| "rw_exec RTry_read s =
     andThen (RwLock_try_read (rs_lock s)) (\<lambda>(g, l).
     Inr (s\<lparr>rs_lock := l, rs_readers := (if g = None then rs_readers s else rs_readers s + 1)\<rparr>))"
| "rw_exec RTry_write s =
     (case RwLock_try_write (rs_lock s) of (g, l) \<Rightarrow>
     Inr (s\<lparr>rs_lock := l, rs_writers := (if g = None then rs_writers s else rs_writers s + 1)\<rparr>))"
| "rw_exec (RSet f) s = Inr (s\<lparr>rs_lock := RwLockWriteGuard_deref_mut RwLockWriteGuard f (rs_lock s)\<rparr>)"
| "rw_exec RDrop_read s =
     andThen (RwLockReadGuard_drop RwLockReadGuard (rs_lock s)) (\<lambda>(woken, l).
     Inr (s\<lparr>rs_lock := l, rs_readers := rs_readers s - 1, rs_woken := rs_woken s @ woken\<rparr>))"
| "rw_exec RDrop_write s =
     andThen (RwLockWriteGuard_drop RwLockWriteGuard (rs_lock s)) (\<lambda>(woken, l).
     Inr (s\<lparr>rs_lock := l, rs_writers := rs_writers s - 1, rs_woken := rs_woken s @ woken\<rparr>))"

definition rw_reach :: "'d \<Rightarrow> ('d, 'w) rw_sys \<Rightarrow> bool" where
  "rw_reach data = reach rw_enabled rw_exec (rw_init data)"

declare rw_init_def [evals]

text \<open>
  The invariant: each event is the queue of its suspended futures, and the borrow flag and the
  reader count agree with the live guards.
\<close>

definition rw_borrowed :: "('d, 'w) rw_sys \<Rightarrow> borrow" where
  "rw_borrowed s = (if 0 < rs_writers s then Writing
     else if rs_readers s = 0 then Unused else Reading (rs_readers s))"

definition rw_guards_ok :: "('d, 'w) rw_sys \<Rightarrow> bool" where
  "rw_guards_ok s \<longleftrightarrow> rw_borrow (rs_lock s) = rw_borrowed s \<and> rw_readers (rs_lock s) = rs_readers s \<and>
     rs_writers s \<le> 1 \<and> (0 < rs_writers s \<longrightarrow> rs_readers s = 0) \<and> rs_readers s \<le> isize_max"

definition rw_inv :: "('d, 'w) rw_sys \<Rightarrow> (unit, 'w) queue \<Rightarrow> (unit, 'w) queue \<Rightarrow> bool" where
  "rw_inv s qr qw \<longleftrightarrow>
     refines (rw_no_writers (rs_lock s)) qr \<and> live_ok (rs_rfuts s) qr \<and>
     refines (rw_no_readers (rs_lock s)) qw \<and> live_ok (rs_wfuts s) qw \<and> rw_guards_ok s"

lemma rw_guards_rw_ok: "rw_guards_ok s \<Longrightarrow> rw_ok (rs_lock s)"
  by (auto simp: rw_guards_ok_def rw_ok_def rw_borrowed_def)

section \<open>Preservation\<close>

lemma rw_poll_read_ok:
  assumes inv: "rw_inv s qr qw" and st: "rs_rfuts s a = Some st" "st \<noteq> Returned"
  shows "\<exists>s' qr'. rw_exec (RPoll_read a w) s = Inr s' \<and> rw_inv s' qr' qw \<and>
    rs_woken s' = rs_woken s \<and> polled_by a w qr qr'"
proof -
  from inv have i: "rw_ok (rs_lock s)" "refines (wf_event RwLock_read (rs_lock s)) qr"
      "live_ok (rs_rfuts s) qr" "rw_guards_ok s"
    by (simp_all add: rw_inv_def rw_guards_rw_ok)
  obtain res st' l' e q' where
    p: "wait_poll RwLock_read st a w (rs_lock s) = Inr (res, st', [], l'\<lparr>rw_no_writers := e\<rparr>)"
    and spec: "wait_spec RwLock_read st a w (rs_lock s) qr = (res, st', l', q')"
    and q': "refines e q'" "live_ok ((rs_rfuts s)(a \<mapsto> st')) q'"
    using rw_read.poll_ok [OF i(1,2,3) st, of w] by (metis RwLock_read_sel(4))
  have pb: "polled_by a w qr q'" by (rule wait_spec_polls [OF spec i(2) live_ok_pollable [OF i(3) st]])
  show ?thesis
  proof (cases res)
    case (Ready v)
    then have t: "RwLock_try_read (rs_lock s) = Inr (Some v, l')"
      using rw_read.spec_state(2) [OF spec] by simp
    have "rw_guards_ok (s\<lparr>rs_lock := l'\<lparr>rw_no_writers := e\<rparr>, rs_readers := Suc (rs_readers s)\<rparr>)"
      using try_read_keeps [OF i(1) t] i(4)
      by (auto simp: rw_guards_ok_def rw_borrowed_def rw_ok_def split: if_splits)
    then show ?thesis
      using p q' pb inv st Ready try_read_keeps(3) [OF i(1) t]
      by (auto simp: rw_inv_def rw_guards_ok_def rw_borrowed_def)
  next
    case Pending
    then have "l' = rs_lock s" using rw_read.spec_state(1) [OF spec] by simp
    then show ?thesis
      using p q' pb inv st Pending by (auto simp: rw_inv_def rw_guards_ok_def rw_borrowed_def)
  qed
qed

lemma RwLock_try_write_free:
  "rw_borrow l = Unused \<Longrightarrow> RwLock_try_write l = (Some RwLockWriteGuard, l\<lparr>rw_borrow := Writing\<rparr>)"
  "rw_borrow l \<noteq> Unused \<Longrightarrow> RwLock_try_write l = (None, l)"
  by (simp_all add: RwLock_try_write_def) (cases "rw_borrow l"; simp)

lemma rw_guards_free:
  "rw_guards_ok s \<Longrightarrow> rw_borrow (rs_lock s) = Unused \<longleftrightarrow> rs_writers s = 0 \<and> rs_readers s = 0"
  "rw_guards_ok s \<Longrightarrow> rw_borrow (rs_lock s) = Writing \<longleftrightarrow> 0 < rs_writers s"
  by (auto simp: rw_guards_ok_def rw_borrowed_def)

lemma rw_poll_write_ok:
  assumes inv: "rw_inv s qr qw" and st: "rs_wfuts s a = Some st" "st \<noteq> Returned"
  shows "\<exists>s' qw'. rw_exec (RPoll_write a w) s = Inr s' \<and> rw_inv s' qr qw' \<and>
    rs_woken s' = rs_woken s \<and> polled_by a w qw qw'"
proof -
  from inv have i: "refines (wf_event RwLock_write (rs_lock s)) qw"
      "live_ok (rs_wfuts s) qw" "rw_guards_ok s"
    by (simp_all add: rw_inv_def)
  obtain res st' l' e q' where
    p: "wait_poll RwLock_write st a w (rs_lock s) = Inr (res, st', [], l'\<lparr>rw_no_readers := e\<rparr>)"
    and spec: "wait_spec RwLock_write st a w (rs_lock s) qw = (res, st', l', q')"
    and q': "refines e q'" "live_ok ((rs_wfuts s)(a \<mapsto> st')) q'"
    using rw_write.poll_ok [OF TrueI i(1,2) st, of w] by (metis RwLock_write_sel(4))
  have pb: "polled_by a w qw q'" by (rule wait_spec_polls [OF spec i(1) live_ok_pollable [OF i(2) st]])
  show ?thesis
  proof (cases res)
    case (Ready v)
    then have t: "RwLock_try_write (rs_lock s) = (Some v, l')"
      using rw_write.spec_state(2) [OF spec] by simp
    then have "rw_borrow (rs_lock s) = Unused" "l' = (rs_lock s)\<lparr>rw_borrow := Writing\<rparr>"
      using RwLock_try_write_free [of "rs_lock s"] by (cases "rw_borrow (rs_lock s) = Unused"; auto)+
    then show ?thesis
      using p q' pb inv st Ready rw_guards_free(1) [OF i(3)]
      by (auto simp: rw_inv_def rw_guards_ok_def rw_borrowed_def)
  next
    case Pending
    then have "l' = rs_lock s" using rw_write.spec_state(1) [OF spec] by simp
    then show ?thesis
      using p q' pb inv st Pending by (auto simp: rw_inv_def rw_guards_ok_def rw_borrowed_def)
  qed
qed

lemma rw_cancel_read_ok:
  assumes inv: "rw_inv s qr qw" and st: "rs_rfuts s a = Some st"
  shows "\<exists>s' qr' ws. rw_exec (RCancel_read a) s = Inr s' \<and> rw_inv s' qr' qw \<and>
    rs_woken s' = rs_woken s @ ws \<and> wakes ws qr qr'"
proof -
  from inv have i: "refines (wf_event RwLock_read (rs_lock s)) qr" "live_ok (rs_rfuts s) qr"
    by (simp_all add: rw_inv_def)
  from rw_read.drop_ok [OF i st] obtain woken e q' where
    "wait_drop RwLock_read st a (rs_lock s) = Inr (woken, (rs_lock s)\<lparr>rw_no_writers := e\<rparr>)"
    "refines e q'" "live_ok ((rs_rfuts s)(a := None)) q'" "wakes woken qr q'"
    by (metis RwLock_read_sel(4))
  with inv st show ?thesis by (auto simp: rw_inv_def rw_guards_ok_def rw_borrowed_def)
qed

lemma rw_cancel_write_ok:
  assumes inv: "rw_inv s qr qw" and st: "rs_wfuts s a = Some st"
  shows "\<exists>s' qw' ws. rw_exec (RCancel_write a) s = Inr s' \<and> rw_inv s' qr qw' \<and>
    rs_woken s' = rs_woken s @ ws \<and> wakes ws qw qw'"
proof -
  from inv have i: "refines (wf_event RwLock_write (rs_lock s)) qw" "live_ok (rs_wfuts s) qw"
    by (simp_all add: rw_inv_def)
  from rw_write.drop_ok [OF i st] obtain woken e q' where
    "wait_drop RwLock_write st a (rs_lock s) = Inr (woken, (rs_lock s)\<lparr>rw_no_readers := e\<rparr>)"
    "refines e q'" "live_ok ((rs_wfuts s)(a := None)) q'" "wakes woken qw q'"
    by (metis RwLock_write_sel(4))
  with inv st show ?thesis by (auto simp: rw_inv_def rw_guards_ok_def rw_borrowed_def)
qed

lemma rw_drop_read_ok:
  assumes inv: "rw_inv s qr qw" and g: "0 < rs_readers s"
  shows "\<exists>s' qw' ws. rw_exec RDrop_read s = Inr s' \<and> rw_inv s' qr qw' \<and>
    rs_woken s' = rs_woken s @ ws \<and> wakes ws qw qw' \<and>
    rs_wfuts s' = rs_wfuts s \<and> rs_readers s' = rs_readers s - 1 \<and> rs_writers s' = 0 \<and>
    (rs_readers s = 1 \<longrightarrow> nothing_lost True qw')"
proof (cases "rs_readers s = 1")
  case True
  from inv have "refines (rw_no_readers (rs_lock s)) qw" by (simp add: rw_inv_def)
  from notify_one [OF this] obtain k woken e' q' where
    "notify_int 1 (rw_no_readers (rs_lock s)) = Inr (k, woken, e')" "refines e' q'"
    "live_ok (rs_wfuts s) q' = live_ok (rs_wfuts s) qw" "nothing_lost True q'" "wakes woken qw q'"
    by (metis live_ok_same)
  with True inv show ?thesis
    by (auto simp: rw_inv_def rw_guards_ok_def rw_borrowed_def RwLockReadGuard_drop_def checked_sub_def)
next
  case False
  with inv g wakes_refl show ?thesis
    by (auto simp: rw_inv_def rw_guards_ok_def rw_borrowed_def RwLockReadGuard_drop_def checked_sub_def
        intro!: exI [of _ qw])
qed

lemma rw_drop_write_ok:
  assumes inv: "rw_inv s qr qw" and g: "0 < rs_writers s"
  shows "\<exists>s' qr' ws. rw_exec RDrop_write s = Inr s' \<and> rw_inv s' qr' qw \<and>
    rs_woken s' = rs_woken s @ ws \<and> wakes ws qr qr' \<and>
    rs_rfuts s' = rs_rfuts s \<and> rs_readers s' = 0 \<and> rs_writers s' = 0 \<and> nothing_lost True qr'"
proof -
  from inv have "refines (rw_no_writers (rs_lock s)) qr" by (simp add: rw_inv_def)
  from notify_one [OF this] obtain k woken e' q' where
    "notify_int 1 (rw_no_writers (rs_lock s)) = Inr (k, woken, e')" "refines e' q'"
    "live_ok (rs_rfuts s) q' = live_ok (rs_rfuts s) qr" "nothing_lost True q'" "wakes woken qr q'"
    by (metis live_ok_same)
  with inv g show ?thesis
    by (auto simp: rw_inv_def rw_guards_ok_def rw_borrowed_def RwLockWriteGuard_drop_def)
qed

lemma rw_try_read_ok:
  assumes inv: "rw_inv s qr qw"
  shows "\<exists>s'. rw_exec RTry_read s = Inr s' \<and> rw_inv s' qr qw \<and> rs_woken s' = rs_woken s"
proof -
  from inv have ok: "rw_ok (rs_lock s)" by (simp add: rw_inv_def rw_guards_rw_ok)
  obtain g l where t: "RwLock_try_read (rs_lock s) = Inr (g, l)"
    using rw_read.try_ok [OF ok] by auto
  show ?thesis
  proof (cases g)
    case None
    then have "l = rs_lock s" using t rw_read.try_none [of "rs_lock s" l] by simp
    with None t inv show ?thesis by (simp add: rw_inv_def rw_guards_ok_def rw_borrowed_def)
  next
    case (Some v)
    with t have t': "RwLock_try_read (rs_lock s) = Inr (Some v, l)" by simp
    note k = try_read_keeps [OF ok t']
    have "rw_guards_ok (s\<lparr>rs_lock := l, rs_readers := Suc (rs_readers s)\<rparr>)"
      using k inv by (auto simp: rw_inv_def rw_guards_ok_def rw_borrowed_def rw_ok_def split: if_splits)
    with Some t k(3) inv show ?thesis by (simp add: rw_inv_def)
  qed
qed

text \<open>
  Futures have addresses of their own. Every step keeps the invariant, and what it does to the wakers of the
  waiting futures is a move of the two queues.
\<close>

definition rw_apart :: "('d, 'w) rw_sys \<Rightarrow> bool" where
  "rw_apart s \<longleftrightarrow> (\<forall>a. rs_rfuts s a = None \<or> rs_wfuts s a = None)"

lemma rw_apart_step:
  assumes "rw_apart s" and "rw_enabled op s" and "rw_exec op s = Inr s'"
  shows "rw_apart s'"
  using assms by (cases op)
    (auto simp: rw_apart_def andThen_Inr_iff split: if_splits option.splits prod.splits; metis option.distinct(1))+

definition rw_access :: "('d, 'w) rw_op \<Rightarrow> 'w access" where
  "rw_access op =
     (case op of
        RRead a \<Rightarrow> Creates a
      | RWrite a \<Rightarrow> Creates a
      | RPoll_read a w \<Rightarrow> Polls a w
      | RPoll_write a w \<Rightarrow> Polls a w
      | RCancel_read a \<Rightarrow> Drops a
      | RCancel_write a \<Rightarrow> Drops a
      | _ \<Rightarrow> Uses)"

declare rw_access_def [evals]

definition rw_pool :: "(unit, 'w) queue \<Rightarrow> (unit, 'w) queue \<Rightarrow> 'w pool" where
  "rw_pool qr qw = joint (pool qr) (pool qw)"

lemma rw_listed:
  assumes "rw_inv s qr qw" and "rw_apart s"
  shows "a \<in> set (q_addrs qr) \<Longrightarrow> rs_rfuts s a = Some Suspended \<and> rs_wfuts s a = None"
    "a \<in> set (q_addrs qw) \<Longrightarrow> rs_wfuts s a = Some Suspended \<and> rs_rfuts s a = None"
  using assms by (auto simp: rw_inv_def live_ok_def rw_apart_def) (metis option.distinct(1))+

lemma rw_step_ok:
  assumes inv: "rw_inv s qr qw" and apart: "rw_apart s" and en: "rw_enabled op s"
  shows "\<exists>s' qr' qw' ws. rw_exec op s = Inr s' \<and> rw_inv s' qr' qw' \<and> rs_woken s' = rs_woken s @ ws \<and>
    moves (rw_access op) ws (rw_pool qr qw) (rw_pool qr' qw')"
proof -
  have quiet: ?thesis if "rw_exec op s = Inr s'" "rw_inv s' qr qw" "rs_woken s' = rs_woken s"
    "accessed (rw_access op) (rw_pool qr qw) = rw_pool qr qw" for s'
    using that by (metis append_Nil2 moves_def pool_wakes_refl)
  have reads: ?thesis if "rw_exec op s = Inr s'" "rw_inv s' qr' qw" "rs_woken s' = rs_woken s @ ws"
    "moves (rw_access op) ws (pool qr) (pool qr')" "\<And>a w. rw_access op = Polls a w \<Longrightarrow> a \<notin> set (q_addrs qw)" for s' qr' ws
    using that moves_joint(1) [OF that(4), of "pool qw"] unfolding rw_pool_def pool_addrs by blast
  have writes: ?thesis if "rw_exec op s = Inr s'" "rw_inv s' qr qw'" "rs_woken s' = rs_woken s @ ws"
    "moves (rw_access op) ws (pool qw) (pool qw')" "\<And>a w. rw_access op = Polls a w \<Longrightarrow> a \<notin> set (q_addrs qr)" for s' qw' ws
    using that moves_joint(2) [OF that(4), of "pool qr"] unfolding rw_pool_def pool_addrs by blast
  show ?thesis
  proof (cases op)
    case (RRead a)
    with inv en have "rw_inv (s\<lparr>rs_rfuts := (rs_rfuts s)(a \<mapsto> Unresumed)\<rparr>) qr qw"
      by (simp add: rw_inv_def rw_guards_ok_def rw_borrowed_def live_ok_create)
    with RRead show ?thesis by (intro quiet [of "s\<lparr>rs_rfuts := (rs_rfuts s)(a \<mapsto> Unresumed)\<rparr>"]) (simp_all add: rw_access_def)
  next
    case (RWrite a)
    with inv en have "rw_inv (s\<lparr>rs_wfuts := (rs_wfuts s)(a \<mapsto> Unresumed)\<rparr>) qr qw"
      by (simp add: rw_inv_def rw_guards_ok_def rw_borrowed_def live_ok_create)
    with RWrite show ?thesis by (intro quiet [of "s\<lparr>rs_wfuts := (rs_wfuts s)(a \<mapsto> Unresumed)\<rparr>"]) (simp_all add: rw_access_def)
  next
    case (RPoll_read a w)
    with en obtain st where st: "rs_rfuts s a = Some st" "st \<noteq> Returned" by auto
    then have "a \<notin> set (q_addrs qw)" using rw_listed(2) [OF inv apart, of a] by auto
    with rw_poll_read_ok [OF inv st, of w] RPoll_read reads [of _ _ "[]"] moves_poll show ?thesis
      by (fastforce simp: rw_access_def)
  next
    case (RPoll_write a w)
    with en obtain st where st: "rs_wfuts s a = Some st" "st \<noteq> Returned" by auto
    then have "a \<notin> set (q_addrs qr)" using rw_listed(1) [OF inv apart, of a] by auto
    with rw_poll_write_ok [OF inv st, of w] RPoll_write writes [of _ _ "[]"] moves_poll show ?thesis
      by (fastforce simp: rw_access_def)
  next
    case (RCancel_read a)
    with en obtain st where st: "rs_rfuts s a = Some st" by auto
    with rw_cancel_read_ok [OF inv st] RCancel_read reads moves_other(2) show ?thesis
      by (fastforce simp: rw_access_def)
  next
    case (RCancel_write a)
    with en obtain st where st: "rs_wfuts s a = Some st" by auto
    with rw_cancel_write_ok [OF inv st] RCancel_write writes moves_other(2) show ?thesis
      by (fastforce simp: rw_access_def)
  next
    case RTry_read
    with rw_try_read_ok [OF inv] quiet show ?thesis by (auto simp: rw_access_def)
  next
    case RTry_write
    from inv have g: "rw_guards_ok s" by (simp add: rw_inv_def)
    have "\<exists>s'. rw_exec RTry_write s = Inr s' \<and> rw_inv s' qr qw \<and> rs_woken s' = rs_woken s"
      using inv rw_guards_free(1) [OF g]
      by (cases "rw_borrow (rs_lock s) = Unused")
        (fastforce simp: RwLock_try_write_free rw_inv_def rw_guards_ok_def rw_borrowed_def)+
    with RTry_write quiet show ?thesis by (auto simp: rw_access_def)
  next
    case (RSet f)
    with inv have "rw_inv (s\<lparr>rs_lock := RwLockWriteGuard_deref_mut RwLockWriteGuard f (rs_lock s)\<rparr>) qr qw"
      by (simp add: rw_inv_def rw_guards_ok_def rw_borrowed_def RwLockWriteGuard_deref_mut_def)
    with RSet show ?thesis
      by (intro quiet [of "s\<lparr>rs_lock := RwLockWriteGuard_deref_mut RwLockWriteGuard f (rs_lock s)\<rparr>"]) (simp_all add: rw_access_def)
  next
    case RDrop_read
    with rw_drop_read_ok [OF inv] en writes moves_other(3) show ?thesis by (fastforce simp: rw_access_def)
  next
    case RDrop_write
    with rw_drop_write_ok [OF inv] en reads moves_other(3) show ?thesis by (fastforce simp: rw_access_def)
  qed
qed

lemma rw_start_ok: "rw_inv (rw_init data) q_empty q_empty" "rw_apart (rw_init data)"
  by (simp_all add: rw_inv_def rw_guards_ok_def rw_borrowed_def rw_init_def RwLock_new_def rw_apart_def
      refines_empty live_ok_empty)

interpretation rw_machine: machine rw_enabled rw_exec "rw_init data" "\<lambda>s. (\<exists>qr qw. rw_inv s qr qw) \<and> rw_apart s"
  for data :: 'd
proof
  show "(\<exists>qr qw. rw_inv (rw_init data) qr qw) \<and> rw_apart (rw_init data)" by (intro conjI exI) (rule rw_start_ok)+
  fix s and op :: "('d, 'c) rw_op"
  assume "(\<exists>qr qw. rw_inv s qr qw) \<and> rw_apart s" and "rw_enabled op s"
  with rw_step_ok rw_apart_step show "\<exists>s'. rw_exec op s = Inr s' \<and> (\<exists>qr qw. rw_inv s' qr qw) \<and> rw_apart s'" by metis
qed

section \<open>Properties\<close>

lemma rw_reach_inv:
  assumes "rw_reach data s"
  obtains qr qw where "rw_inv s qr qw"
  using rw_machine.reach_inv [OF assms [unfolded rw_reach_def]] that by blast

text \<open>
  C25: Readers and writers exclude each other. Under every interleaving there is at most one
  write guard, none together with a read guard, and the reader count of the lock is the number of
  live read guards.
\<close>

theorem rw_exclusion:
  assumes "rw_reach data s"
  shows "rs_writers s \<le> 1 \<and> (rs_writers s = 0 \<or> rs_readers s = 0) \<and>
    rw_readers (rs_lock s) = rs_readers s \<and> rw_borrow (rs_lock s) = rw_borrowed s"
  using rw_reach_inv [OF assms] unfolding rw_inv_def rw_guards_ok_def by (metis gr0I)

theorem rw_exclusion_witness:
  "\<exists>s. run rw_enabled rw_exec [RTry_read, RRead 8, RPoll_read 8 (1::nat), RTry_write, RWrite 16,
        RPoll_write 16 2] (rw_init (0::nat)) = Some (Inr s) \<and>
     rs_readers s = 2 \<and> rs_writers s \<le> 1 \<and> rw_readers (rs_lock s) = rs_readers s"
proof (rule after_reach)
  show "after rw_enabled rw_exec [RTry_read, RRead 8, RPoll_read 8 (1::nat), RTry_write, RWrite 16,
      RPoll_write 16 2] (rw_init (0::nat)) (\<lambda>s. rs_readers s = 2)"
    by (simp add: evals)
qed (use rw_exclusion rw_reach_def in metis)

text \<open>
  No operation of a client on a read/write lock panics (the messages ``too many readers''
  and ``too few readers'' are never seen), touches freed memory or loops.
\<close>

lemma rw_no_fault:
  assumes "rw_reach data s" and "rw_enabled op s"
  shows "\<exists>s'. rw_exec op s = Inr s' \<and> rw_reach data s'"
  using rw_machine.no_fault [OF assms(1) [unfolded rw_reach_def] assms(2)]
  unfolding rw_reach_def .

text \<open>
  Dropping the last read guard hands the lock to a waiting writer: if a write future is
  suspended, then after the drop some suspended write future has been notified, and polling it
  returns a write guard.
\<close>

lemma last_reader_wakes_writer:
  assumes inv: "rw_inv s qr qw" and "rs_readers s = 1" and "rs_wfuts s a = Some Suspended"
  shows "\<exists>s' b. rw_exec RDrop_read s = Inr s' \<and> rs_wfuts s' b = Some Suspended \<and>
    is_notified (rw_no_readers (rs_lock s')) b \<and>
    (\<forall>w. \<exists>s''. rw_exec (RPoll_write b w) s' = Inr s'' \<and> rs_writers s'' = 1)"
proof -
  from rw_drop_read_ok [OF inv] assms(2) obtain s' qw' where
    s': "rw_exec RDrop_read s = Inr s'" "rw_inv s' qr qw'" "rs_wfuts s' = rs_wfuts s"
      "rs_readers s' = 0" "rs_writers s' = 0" "nothing_lost True qw'" by auto
  from s' have i: "refines (wf_event RwLock_write (rs_lock s')) qw'" "live_ok (rs_wfuts s') qw'"
      "rw_borrow (rs_lock s') = Unused" "nothing_lost (rw_borrow (rs_lock s') = Unused) qw'"
    by (simp_all add: rw_inv_def rw_guards_ok_def rw_borrowed_def)
  from rw_write.progress [OF TrueI i(1,2,4,3)] assms(3) s'(3) obtain b where
    b: "rs_wfuts s' b = Some Suspended" "is_notified (wf_event RwLock_write (rs_lock s')) b"
      "\<And>w. \<exists>v l. wait_poll RwLock_write Suspended b w (rs_lock s') = Inr (Ready v, Returned, [], l)"
    by metis
  have "\<exists>s''. rw_exec (RPoll_write b w) s' = Inr s'' \<and> rs_writers s'' = 1" for w
    using b(1) b(3) [of w] s'(5) by auto
  with b s'(1) show ?thesis by auto
qed

text \<open>
  Dropping a write guard hands the lock to a waiting reader: if a read future is suspended,
  then after the drop some suspended read future has been notified, and polling it returns a read
  guard.
\<close>

lemma writer_wakes_reader:
  assumes inv: "rw_inv s qr qw" and "0 < rs_writers s" and "rs_rfuts s a = Some Suspended"
  shows "\<exists>s' b. rw_exec RDrop_write s = Inr s' \<and> rs_rfuts s' b = Some Suspended \<and>
    is_notified (rw_no_writers (rs_lock s')) b \<and>
    (\<forall>w. \<exists>s''. rw_exec (RPoll_read b w) s' = Inr s'' \<and> rs_readers s'' = 1)"
proof -
  from rw_drop_write_ok [OF inv assms(2)] obtain s' qr' where
    s': "rw_exec RDrop_write s = Inr s'" "rw_inv s' qr' qw" "rs_rfuts s' = rs_rfuts s"
      "rs_readers s' = 0" "rs_writers s' = 0" "nothing_lost True qr'" by auto
  from s' have i: "refines (wf_event RwLock_read (rs_lock s')) qr'" "live_ok (rs_rfuts s') qr'"
      "rw_ok (rs_lock s')" "rw_borrow (rs_lock s') = Unused"
    by (simp_all add: rw_inv_def rw_guards_rw_ok) (simp add: rw_guards_ok_def rw_borrowed_def)
  have "rs_rfuts s' a = Some Suspended" using assms(3) s'(3) by simp
  from rw_read.somebody_notified [OF i(1,2) s'(6) this] obtain b t where
    b: "rs_rfuts s' b = Some Suspended" "is_notified (wf_event RwLock_read (rs_lock s')) b"
      "notified_tag b qr' = Some t" .
  obtain l where "wf_try RwLock_read (rs_lock s') = Inr (Some RwLockReadGuard, l)"
    using i(3,4) by (simp add: RwLock_try_read_ok)
  with rw_read.notified_attempt [OF i(3,1) b(3) RwLock_read_sel(2) this]
  have p: "\<exists>l. wait_poll RwLock_read Suspended b w (rs_lock s') = Inr (Ready RwLockReadGuard, Returned, [], l)" for w
    by metis
  have "\<exists>s''. rw_exec (RPoll_read b w) s' = Inr s'' \<and> rs_readers s'' = 1" for w
    using p [of w] b(1) s'(4) by auto
  with b s'(1) show ?thesis by auto
qed

text \<open>
  The lock is handed over. After the last read guard is dropped while a write future is suspended, some
  suspended write future has been notified, and polling it returns a write guard; after a write
  guard is dropped while a read future is suspended, some suspended read future has been notified, and polling it
  returns a read guard.
\<close>

theorem rw_hands_over:
  assumes "rw_reach data s"
  shows "(rs_readers s = 1 \<and> rs_wfuts s a = Some Suspended \<longrightarrow>
      (\<exists>s' b. rw_exec RDrop_read s = Inr s' \<and> rs_wfuts s' b = Some Suspended \<and>
         is_notified (rw_no_readers (rs_lock s')) b \<and>
         (\<forall>w. \<exists>s''. rw_exec (RPoll_write b w) s' = Inr s'' \<and> rs_writers s'' = 1))) \<and>
    (0 < rs_writers s \<and> rs_rfuts s a = Some Suspended \<longrightarrow>
      (\<exists>s' b. rw_exec RDrop_write s = Inr s' \<and> rs_rfuts s' b = Some Suspended \<and>
         is_notified (rw_no_writers (rs_lock s')) b \<and>
         (\<forall>w. \<exists>s''. rw_exec (RPoll_read b w) s' = Inr s'' \<and> rs_readers s'' = 1)))"
  by (rule rw_reach_inv [OF assms]) (use last_reader_wakes_writer writer_wakes_reader in blast)

theorem rw_hands_over_witness:
  "(\<exists>s. run rw_enabled rw_exec [RTry_read, RWrite 8, RPoll_write 8 (1::nat)] (rw_init (0::nat)) = Some (Inr s) \<and>
     (\<exists>s' b. rw_exec RDrop_read s = Inr s' \<and> rs_wfuts s' b = Some Suspended \<and>
        is_notified (rw_no_readers (rs_lock s')) b)) \<and>
   (\<exists>s. run rw_enabled rw_exec [RTry_write, RRead 8, RPoll_read 8 (1::nat)] (rw_init (0::nat)) = Some (Inr s) \<and>
     (\<exists>s' b. rw_exec RDrop_write s = Inr s' \<and> rs_rfuts s' b = Some Suspended \<and>
        is_notified (rw_no_writers (rs_lock s')) b))"
proof (intro conjI after_reach)
  show "after rw_enabled rw_exec [RTry_read, RWrite 8, RPoll_write 8 (1::nat)] (rw_init (0::nat))
      (\<lambda>s. rs_readers s = 1 \<and> rs_wfuts s 8 = Some Suspended)"
    by (simp add: evals)
  show "after rw_enabled rw_exec [RTry_write, RRead 8, RPoll_read 8 (1::nat)] (rw_init (0::nat))
      (\<lambda>s. 0 < rs_writers s \<and> rs_rfuts s 8 = Some Suspended)"
    by (simp add: evals)
qed (use rw_hands_over rw_reach_def in metis)+

section \<open>Writers only\<close>

text \<open>A lock that nobody reads: no read future is polled and nobody tries to read.\<close>

fun rw_write_only :: "('d, 'w) rw_op \<Rightarrow> ('d, 'w) rw_sys \<Rightarrow> bool" where
  "rw_write_only (RPoll_read a w) s \<longleftrightarrow> False"
| "rw_write_only RTry_read s \<longleftrightarrow> False"
| "rw_write_only op s \<longleftrightarrow> rw_enabled op s"

definition unread :: "('d, 'w) rw_sys \<Rightarrow> (unit, 'w) queue \<Rightarrow> (unit, 'w) queue \<Rightarrow> bool" where
  "unread s qr qw \<longleftrightarrow> rw_inv s qr qw \<and> q_addrs qr = [] \<and> q_notified qw = [] \<and> rs_readers s = 0 \<and> rs_woken s = [] \<and>
     (\<forall>a. rs_rfuts s a \<noteq> Some Suspended)"

lemma unread_poll:
  assumes inv: "unread s qr qw" and st: "rs_wfuts s a = Some st" "st \<noteq> Returned"
  shows "\<exists>s' qw'. rw_exec (RPoll_write a w) s = Inr s' \<and> unread s' qr qw' \<and>
    (st = Suspended \<longrightarrow> rs_wfuts s' a = Some Suspended \<and> rs_writers s' = rs_writers s)"
proof -
  from inv have i: "rw_inv s qr qw" "q_notified qw = []" by (simp_all add: unread_def)
  then have j: "refines (wf_event RwLock_write (rs_lock s)) qw" "live_ok (rs_wfuts s) qw" by (simp_all add: rw_inv_def)
  from rw_poll_write_ok [OF i(1) st, of w] obtain s' qw' where
    e: "rw_exec (RPoll_write a w) s = Inr s'" "rw_inv s' qr qw'" "rs_woken s' = rs_woken s" "polled_by a w qw qw'"
    by blast
  have "q_notified qw' = []" using e(4) i(2) by (auto simp: polled_by_def)
  moreover have "rs_readers s' = rs_readers s" "rs_rfuts s' = rs_rfuts s" using e(1) by (auto simp: andThen_Inr_iff)
  moreover have "rs_wfuts s' a = Some Suspended \<and> rs_writers s' = rs_writers s" if "st = Suspended"
  proof -
    obtain res st' l' ev q' where p: "wait_poll RwLock_write st a w (rs_lock s) = Inr (res, st', [], l'\<lparr>rw_no_readers := ev\<rparr>)"
      "wait_spec RwLock_write st a w (rs_lock s) qw = (res, st', l', q')"
      using rw_write.poll_ok [OF TrueI j st, of w] by (metis RwLock_write_sel(4))
    have "notified_tag a qw = None" using i(2) by (simp add: notified_tag_def)
    then have "res = Pending" "st' = Suspended" using p(2) that by (simp_all add: wait_spec_def)
    then show ?thesis using e(1) p(1) st(1) by auto
  qed
  ultimately show ?thesis using e inv unfolding unread_def by (intro exI [of _ s'] exI [of _ qw']) simp
qed

lemma unread_cancel:
  assumes inv: "unread s qr qw" and st: "rs_wfuts s a = Some st"
  shows "\<exists>s' qw'. rw_exec (RCancel_write a) s = Inr s' \<and> unread s' qr qw'"
proof -
  from inv have i: "rw_inv s qr qw" "q_notified qw = []" by (simp_all add: unread_def)
  then have j: "refines (wf_event RwLock_write (rs_lock s)) qw" "live_ok (rs_wfuts s) qw" by (simp_all add: rw_inv_def)
  show ?thesis
  proof (cases "st = Suspended")
    case True
    then have a: "a \<in> q_listeners qw" using j(2) st by (auto simp: live_ok_def q_listeners_def)
    have d: "q_drop a qw = ([], q_remove a qw)" using i(2) by (simp add: q_drop_def q_remove_def)
    from rw_write.drop_suspended [OF j(1) a] True obtain e where
      e: "wait_drop RwLock_write st a (rs_lock s) = Inr ([], (rs_lock s)\<lparr>rw_no_readers := e\<rparr>)" "refines e (q_remove a qw)"
      unfolding d by auto
    have "live_ok ((rs_wfuts s)(a := None)) (q_remove a qw)"
      using live_ok_drop(1) [OF j(2), of a] st True d by simp
    with e inv st show ?thesis
      by (intro exI [of _ "s\<lparr>rs_lock := (rs_lock s)\<lparr>rw_no_readers := e\<rparr>, rs_wfuts := (rs_wfuts s)(a := None), rs_woken := []\<rparr>"]
          exI [of _ "q_remove a qw"]) (simp add: unread_def rw_inv_def rw_guards_ok_def rw_borrowed_def)
  next
    case False
    then have d: "wait_drop RwLock_write st a (rs_lock s) = Inr ([], rs_lock s)" by (cases st) (simp_all add: wait_drop_def)
    have "live_ok ((rs_wfuts s)(a := None)) qw" using live_ok_drop(2) [OF j(2)] st False by simp
    with d inv st show ?thesis
      by (intro exI [of _ "s\<lparr>rs_wfuts := (rs_wfuts s)(a := None), rs_woken := []\<rparr>"] exI [of _ qw])
        (simp add: unread_def rw_inv_def rw_guards_ok_def rw_borrowed_def)
  qed
qed

lemma unread_drop:
  assumes inv: "unread s qr qw" and g: "0 < rs_writers s"
  shows "\<exists>s'. rw_exec RDrop_write s = Inr s' \<and> unread s' qr qw"
proof -
  from inv have r: "refines (rw_no_writers (rs_lock s)) qr" and n: "q_waiting qr = []"
    by (simp_all add: unread_def rw_inv_def q_addrs_def)
  have "notify_int 1 (rw_no_writers (rs_lock s)) = Inr (0, [], rw_no_writers (rs_lock s))"
    by (rule notify_int_one [OF r]) (use n refines_waits [OF r] in auto)
  then have "rw_exec RDrop_write s =
      Inr (s\<lparr>rs_lock := (rs_lock s)\<lparr>rw_borrow := drop_ref_mut (rw_borrow (rs_lock s))\<rparr>, rs_writers := rs_writers s - 1, rs_woken := rs_woken s @ []\<rparr>)"
    by (cases "rs_lock s") (simp add: RwLockWriteGuard_drop_def)
  moreover have "unread (s\<lparr>rs_lock := (rs_lock s)\<lparr>rw_borrow := drop_ref_mut (rw_borrow (rs_lock s))\<rparr>,
      rs_writers := rs_writers s - 1, rs_woken := rs_woken s @ []\<rparr>) qr qw"
    using inv g by (auto simp: unread_def rw_inv_def rw_guards_ok_def rw_borrowed_def)
  ultimately show ?thesis by blast
qed

lemma unread_quiet:
  assumes inv: "unread s qr qw" and apart: "rw_apart s" and en: "rw_write_only op s"
    and op: "case op of RPoll_write a w \<Rightarrow> False | RCancel_write a \<Rightarrow> False | RDrop_write \<Rightarrow> False | RDrop_read \<Rightarrow> False | _ \<Rightarrow> True"
  shows "\<exists>s'. rw_exec op s = Inr s' \<and> unread s' qr qw"
proof -
  from inv have i: "rw_inv s qr qw" and g: "rw_guards_ok s" by (simp_all add: unread_def rw_inv_def)
  show ?thesis
  proof (cases op)
    case (RRead a)
    with inv en show ?thesis by (auto simp: unread_def rw_inv_def rw_guards_ok_def rw_borrowed_def live_ok_create)
  next
    case (RWrite a)
    with inv en show ?thesis by (auto simp: unread_def rw_inv_def rw_guards_ok_def rw_borrowed_def live_ok_create)
  next
    case (RCancel_read a)
    with en obtain st where st: "rs_rfuts s a = Some st" by auto
    with inv have ns: "st \<noteq> Suspended" by (auto simp: unread_def)
    then have d: "wait_drop RwLock_read st a (rs_lock s) = Inr ([], rs_lock s)" by (cases st) (simp_all add: wait_drop_def)
    have "live_ok (rs_rfuts s) qr" using i by (simp add: rw_inv_def)
    then have "live_ok ((rs_rfuts s)(a := None)) qr" by (rule live_ok_drop(2)) (use st ns in simp)
    with d inv st RCancel_read show ?thesis
      by (auto simp: unread_def rw_inv_def rw_guards_ok_def rw_borrowed_def)
  next
    case RTry_write
    with inv rw_guards_free(1) [OF g] show ?thesis
      by (cases "rw_borrow (rs_lock s) = Unused")
        (auto simp: RwLock_try_write_free unread_def rw_inv_def rw_guards_ok_def rw_borrowed_def)
  next
    case (RSet f)
    with inv show ?thesis
      by (simp add: unread_def rw_inv_def rw_guards_ok_def rw_borrowed_def RwLockWriteGuard_deref_mut_def)
  qed (use op en in simp_all)
qed

lemma unread_step:
  assumes inv: "unread s qr qw" and apart: "rw_apart s" and en: "rw_write_only op s"
  shows "\<exists>s' qw'. rw_exec op s = Inr s' \<and> unread s' qr qw'"
proof (cases op)
  case (RPoll_write a w)
  then obtain st where "rs_wfuts s a = Some st" "st \<noteq> Returned" using en by auto
  with unread_poll [OF inv] RPoll_write show ?thesis by blast
next
  case (RCancel_write a)
  then obtain st where "rs_wfuts s a = Some st" using en by auto
  with unread_cancel [OF inv] RCancel_write show ?thesis by blast
next
  case RDrop_write
  with unread_drop [OF inv] en show ?thesis by auto
next
  case RDrop_read
  with en inv show ?thesis by (simp add: unread_def)
qed (use unread_quiet [OF assms] in auto)

lemma rw_write_only_enabled: "rw_write_only op s \<Longrightarrow> rw_enabled op s"
  by (cases op) auto

interpretation rw_writers: machine rw_write_only rw_exec "rw_init data" "\<lambda>s. (\<exists>qr qw. unread s qr qw) \<and> rw_apart s"
  for data :: 'd
proof
  have "unread (rw_init data :: ('d, 'c) rw_sys) q_empty q_empty"
    using rw_start_ok(1) by (simp add: unread_def) (simp add: rw_init_def q_empty_def q_addrs_def)
  then show "(\<exists>qr qw. unread (rw_init data :: ('d, 'c) rw_sys) qr qw) \<and> rw_apart (rw_init data :: ('d, 'c) rw_sys)"
    using rw_start_ok(2) [of data] by (intro conjI exI)
  fix s and op :: "('d, 'c) rw_op"
  assume a: "(\<exists>qr qw. unread s qr qw) \<and> rw_apart s" and e: "rw_write_only op s"
  with unread_step obtain s' qr qw where "rw_exec op s = Inr s'" "unread s' qr qw" by metis
  with rw_apart_step [of s op s'] rw_write_only_enabled [OF e] a
  show "\<exists>s'. rw_exec op s = Inr s' \<and> (\<exists>qr qw. unread s' qr qw) \<and> rw_apart s'" by blast
qed

text \<open>
  C38: Writers that wait for writers are stuck. As long as nobody reads, whatever is done with the lock and with write
  guards and futures, no waker is ever called and no suspended write future is ever notified; and a poll of
  a suspended write future, with whatever waker, leaves it suspended, even when the lock is free. (The drop of a
  write guard notifies readers only.)
\<close>

theorem rw_writers_stuck:
  assumes "reach rw_write_only rw_exec (rw_init data) s"
  shows "rs_woken s = [] \<and> (\<forall>a. \<not> is_notified (rw_no_readers (rs_lock s)) a) \<and>
    (\<forall>a w. rs_wfuts s a = Some Suspended \<longrightarrow>
       (\<exists>s'. rw_exec (RPoll_write a w) s = Inr s' \<and> rs_wfuts s' a = Some Suspended \<and> rs_writers s' = rs_writers s))"
proof -
  from rw_writers.reach_inv [OF assms] obtain qr qw where inv: "unread s qr qw" by blast
  then have r: "refines (rw_no_readers (rs_lock s)) qw" "q_notified qw = []" "rs_woken s = []"
    by (simp_all add: unread_def rw_inv_def)
  have nr: "Suspended \<noteq> Returned" by simp
  show ?thesis using r(2,3) refines_is_notified [OF r(1)] unread_poll [OF inv _ nr] by (auto simp del: rw_exec.simps) blast
qed

theorem rw_writers_stuck_witness:
  "\<exists>s. run rw_write_only rw_exec [RTry_write, RWrite 8, RPoll_write 8 (1::nat), RDrop_write] (rw_init (0::nat)) =
      Some (Inr s) \<and> rw_borrow (rs_lock s) = Unused \<and>
     (\<exists>s'. rw_exec (RPoll_write 8 2) s = Inr s' \<and> rs_wfuts s' 8 = Some Suspended \<and> rs_writers s' = 0)"
proof (rule after_reach)
  show "after rw_write_only rw_exec [RTry_write, RWrite 8, RPoll_write 8 (1::nat), RDrop_write] (rw_init (0::nat))
      (\<lambda>s. rw_borrow (rs_lock s) = Unused \<and> rs_wfuts s 8 = Some Suspended \<and> rs_writers s = 0)"
    by (simp add: evals)
  fix s :: "(nat, nat) rw_sys"
  assume r: "reach rw_write_only rw_exec (rw_init 0) s"
    and s: "rw_borrow (rs_lock s) = Unused \<and> rs_wfuts s 8 = Some Suspended \<and> rs_writers s = 0"
  from rw_writers_stuck [OF r] s show "rw_borrow (rs_lock s) = Unused \<and>
     (\<exists>s'. rw_exec (RPoll_write 8 2) s = Inr s' \<and> rs_wfuts s' 8 = Some Suspended \<and> rs_writers s' = 0)" by metis
qed

section \<open>Runs\<close>

text \<open>The drop of a write guard wakes one reader, and no writer.\<close>

lemma writer_stuck:
  "\<exists>s. run rw_enabled rw_exec [RTry_write, RWrite 8, RPoll_write 8 (1::nat), RDrop_write, RPoll_write 8 1]
       (rw_init (0::nat)) = Some (Inr s) \<and>
     rs_writers s = 0 \<and> rs_readers s = 0 \<and> rw_borrow (rs_lock s) = Unused \<and>
     rs_wfuts s 8 = Some Suspended \<and> rs_woken s = [] \<and>
     (\<forall>b. \<not> is_notified (rw_no_readers (rs_lock s)) b \<and> \<not> is_notified (rw_no_writers (rs_lock s)) b)"
  by (simp add: evals rw_borrowed_def RwLock_write_def)

lemma reader_stuck:
  "\<exists>s. run rw_enabled rw_exec
       [RTry_write, RRead 8, RPoll_read 8 (1::nat), RRead 16, RPoll_read 16 2, RDrop_write,
        RPoll_read 8 1, RDrop_read] (rw_init (0::nat)) = Some (Inr s) \<and>
     rs_writers s = 0 \<and> rs_readers s = 0 \<and> rs_rfuts s 16 = Some Suspended \<and> rs_woken s = [1] \<and>
     (\<forall>b. \<not> is_notified (rw_no_readers (rs_lock s)) b \<and> \<not> is_notified (rw_no_writers (rs_lock s)) b)"
  by (simp add: evals rw_borrowed_def)

end
