(* ===== verification/OnceLock.thy ===== *)
theory OnceLock
  imports Async Machine
begin

text \<open>
  \<open>src/lock/once_cell.rs\<close>: a cell that is written once. \<open>get_or_try_init\<close> waits in
  two places, for the event \<open>active\<close> while somebody else writes and for its own setter
  while it holds the cell, so it is a state machine of its own here; its wait loop is the
  one of \<open>Async\<close>. \<open>wait\<close> is a loop over the event \<open>passive\<close>.

  A setter is a future of the caller: its state \<open>'f\<close> and its poll function, a parameter
  \<open>sp\<close> of the model. It does not touch the cell while it is polled.
\<close>

section \<open>The code\<close>

record ('v, 'w) OnceCell =
  oc_active :: "(unit, 'w) Event"
  oc_passive :: "(unit, 'w) Event"
  oc_writing :: bool
  oc_data :: "'v option"

definition OnceCell_new :: "('v, 'w) OnceCell" where
  "OnceCell_new = \<lparr>oc_active = Event_new, oc_passive = Event_new, oc_writing = False, oc_data = None\<rparr>"

definition OnceCell_from :: "'v \<Rightarrow> ('v, 'w) OnceCell" where
  "OnceCell_from v = \<lparr>oc_active = Event_new, oc_passive = Event_new, oc_writing = False, oc_data = Some v\<rparr>"

text \<open>\<open>get_mut\<close> gives exclusive access: the caller applies some \<open>f\<close> to the value.\<close>

definition OnceCell_get_mut :: "('v \<Rightarrow> 'v) \<Rightarrow> ('v, 'w) OnceCell \<Rightarrow> ('v, 'w) OnceCell" where
  "OnceCell_get_mut f c = c\<lparr>oc_data := map_option f (oc_data c)\<rparr>"

definition OnceCell_take :: "('v, 'w) OnceCell \<Rightarrow> 'v option \<times> ('v, 'w) OnceCell" where
  "OnceCell_take c = (oc_data c, c\<lparr>oc_data := None\<rparr>)"

definition OnceCell_get :: "('v, 'w) OnceCell \<Rightarrow> 'v option" where
  "OnceCell_get c = oc_data c"

text \<open>\<open>Drop for UnwriteOnDrop\<close>.\<close>

definition UnwriteOnDrop_drop :: "('v, 'w) OnceCell \<Rightarrow> ('w list \<times> ('v, 'w) OnceCell) outcome" where
  "UnwriteOnDrop_drop c =
     (let c1 = c\<lparr>oc_writing := False\<rparr> in
      andThen (notify_int 1 (oc_active c1)) (\<lambda>(_, woken, e). Inr (woken, c1\<lparr>oc_active := e\<rparr>)))"

text \<open>
  The top of the loop of \<open>get_or_try_init\<close>: the value, or the right to write it
  (\<open>writing.replace(true)\<close> was false), or else wait.
\<close>

datatype 'v once_step = Got 'v | Writer

definition once_attempt :: "('v, 'w) OnceCell \<Rightarrow> 'v once_step option \<times> ('v, 'w) OnceCell" where
  "once_attempt c =
     (case OnceCell_get c of
        Some v \<Rightarrow> (Some (Got v), c)
      | None \<Rightarrow>
          if oc_writing c then (None, c\<lparr>oc_writing := True\<rparr>)
          else (Some Writer, c\<lparr>oc_writing := True\<rparr>))"

definition once_loop :: "(('v, 'w) OnceCell, unit, 'w, 'v once_step) wait_fn" where
  "once_loop =
     \<lparr>wf_try = (\<lambda>c. Inr (once_attempt c)),
      wf_got = (\<lambda>_. None),
      wf_event = oc_active,
      wf_put = (\<lambda>e c. c\<lparr>oc_active := e\<rparr>)\<rparr>"

text \<open>The setter returned a value: store it and wake up all listeners.\<close>

definition once_store :: "'v \<Rightarrow> ('v, 'w) OnceCell \<Rightarrow> ('w list \<times> ('v, 'w) OnceCell) outcome" where
  "once_store data c =
     (let c1 = c\<lparr>oc_data := Some data\<rparr> in
      andThen (notify_int_additional (int usize_max) (oc_passive c1)) (\<lambda>(_, woken1, e1).
      let c2 = c1\<lparr>oc_passive := e1\<rparr> in
      andThen (notify_int_additional (int usize_max) (oc_active c2)) (\<lambda>(_, woken2, e2).
      Inr (woken1 @ woken2, c2\<lparr>oc_active := e2\<rparr>))))"

text \<open>
  A \<open>get_or_try_init\<close> future: where it is, its variable \<open>setter\<close> and the setter it
  has taken out of it to await.
\<close>

datatype once_pc = OUnresumed | OAwaiting | OSetting | OReturned

record 'f once_fut =
  of_pc :: once_pc
  of_setter :: "'f option"
  of_running :: "'f option"

type_synonym ('f, 'w, 'e, 'v) setter = "'f \<Rightarrow> 'w \<Rightarrow> (('e + 'v) poll \<times> 'f) outcome"

type_synonym ('f, 'w, 'e, 'v) once_res =
  "(('e + 'v) poll \<times> 'f once_fut \<times> 'w list \<times> ('v, 'w) OnceCell) outcome"

definition OnceCell_get_or_try_init :: "'f \<Rightarrow> 'f once_fut" where
  "OnceCell_get_or_try_init setter = \<lparr>of_pc = OUnresumed, of_setter = Some setter, of_running = None\<rparr>"

text \<open>
  Await the setter while holding the cell (\<open>match setter.take().unwrap().await\<close>); a
  completed setter is kept in \<open>of_running\<close> for its captured variables. On return the
  guard is dropped, then the listener.
\<close>

definition once_leave ::
  "'w list \<Rightarrow> ('e + 'v) \<Rightarrow> 'f once_fut \<Rightarrow> addr \<Rightarrow> ('v, 'w) OnceCell \<Rightarrow> ('f, 'w, 'e, 'v) once_res" where
  "once_leave woken r fut a c =
     andThen (Listener_drop a (oc_active c)) (\<lambda>(woken', e).
     Inr (Ready r, fut\<lparr>of_pc := OReturned\<rparr>, woken @ woken', c\<lparr>oc_active := e\<rparr>))"

definition once_await_setter ::
  "('f, 'w, 'e, 'v) setter \<Rightarrow> 'f \<Rightarrow> 'f once_fut \<Rightarrow> addr \<Rightarrow> 'w \<Rightarrow> ('v, 'w) OnceCell
     \<Rightarrow> ('f, 'w, 'e, 'v) once_res" where
  "once_await_setter sp f fut a w c =
     andThen (sp f w) (\<lambda>(p, f').
     let fut' = fut\<lparr>of_running := Some f'\<rparr> in
     case p of
       Pending \<Rightarrow> Inr (Pending, fut'\<lparr>of_pc := OSetting\<rparr>, [], c)
     | Ready (Inr data) \<Rightarrow>
         andThen (once_store data c) (\<lambda>(woken1, c1).
         andThen (unwrap (OnceCell_get c1)) (\<lambda>v.
         andThen (UnwriteOnDrop_drop c1) (\<lambda>(woken2, c2).
         once_leave (woken1 @ woken2) (Inr v) fut' a c2)))
     | Ready (Inl err) \<Rightarrow>
         andThen (UnwriteOnDrop_drop c) (\<lambda>(woken1, c1).
         once_leave woken1 (Inl err) fut' a c1))"

definition once_continue ::
  "('f, 'w, 'e, 'v) setter \<Rightarrow> 'f once_fut \<Rightarrow> addr \<Rightarrow> 'w \<Rightarrow> 'v once_step poll \<times> ('v, 'w) OnceCell
     \<Rightarrow> ('f, 'w, 'e, 'v) once_res" where
  "once_continue sp fut a w pc =
     (case pc of
        (Pending, c) \<Rightarrow> Inr (Pending, fut\<lparr>of_pc := OAwaiting\<rparr>, [], c)
      | (Ready (Got v), c) \<Rightarrow> once_leave [] (Inr v) fut a c
      | (Ready Writer, c) \<Rightarrow>
          andThen (unwrap (of_setter fut)) (\<lambda>f.
          once_await_setter sp f (fut\<lparr>of_setter := None\<rparr>) a w c))"

definition get_or_try_init_poll ::
  "('f, 'w, 'e, 'v) setter \<Rightarrow> 'f once_fut \<Rightarrow> addr \<Rightarrow> 'w \<Rightarrow> ('v, 'w) OnceCell
     \<Rightarrow> ('f, 'w, 'e, 'v) once_res" where
  "get_or_try_init_poll sp fut a w c =
     (case of_pc fut of
        OUnresumed \<Rightarrow>
          andThen (loop_head poll_fuel once_loop a w (c\<lparr>oc_active := Listener_new a (oc_active c)\<rparr>))
            (once_continue sp fut a w)
      | OAwaiting \<Rightarrow> andThen (loop_resume once_loop a w c) (once_continue sp fut a w)
      | OSetting \<Rightarrow> andThen (unwrap (of_running fut)) (\<lambda>f. once_await_setter sp f fut a w c)
      | OReturned \<Rightarrow> Inl (Panic Resumed_after_completion))"

text \<open>Dropping the future: the guard if the setter was running, then the listener.\<close>

definition get_or_try_init_drop ::
  "'f once_fut \<Rightarrow> addr \<Rightarrow> ('v, 'w) OnceCell \<Rightarrow> ('w list \<times> ('v, 'w) OnceCell) outcome" where
  "get_or_try_init_drop fut a c =
     (case of_pc fut of
        OAwaiting \<Rightarrow>
          andThen (Listener_drop a (oc_active c)) (\<lambda>(woken, e). Inr (woken, c\<lparr>oc_active := e\<rparr>))
      | OSetting \<Rightarrow>
          andThen (UnwriteOnDrop_drop c) (\<lambda>(woken, c1).
          andThen (Listener_drop a (oc_active c1)) (\<lambda>(woken', e).
          Inr (woken @ woken', c1\<lparr>oc_active := e\<rparr>)))
      | _ \<Rightarrow> Inr ([], c))"

text \<open>
  \<open>get_or_init\<close>: the setter cannot fail, its error type is \<open>Infallible\<close>. Its
  result is the reference to the value.
\<close>

definition infallible :: "('f \<Rightarrow> 'w \<Rightarrow> ('v poll \<times> 'f) outcome) \<Rightarrow> ('f, 'w, unit, 'v) setter" where
  "infallible sp f w =
     andThen (sp f w) (\<lambda>(p, f'). Inr (case p of Pending \<Rightarrow> Pending | Ready v \<Rightarrow> Ready (Inr v), f'))"

definition get_or_init_poll ::
  "('f \<Rightarrow> 'w \<Rightarrow> ('v poll \<times> 'f) outcome) \<Rightarrow> 'f once_fut \<Rightarrow> addr \<Rightarrow> 'w \<Rightarrow> ('v, 'w) OnceCell
     \<Rightarrow> ('v poll \<times> 'f once_fut \<times> 'w list \<times> ('v, 'w) OnceCell) outcome" where
  "get_or_init_poll sp fut a w c =
     andThen (get_or_try_init_poll (infallible sp) fut a w c) (\<lambda>(p, rest).
     case p of
       Pending \<Rightarrow> Inr (Pending, rest)
     | Ready (Inr v) \<Rightarrow> Inr (Ready v, rest)
     | Ready (Inl e) \<Rightarrow> Inl UB)"

text \<open>
  \<open>set\<close>: the setter takes the value out of the variable it shares with \<open>set\<close>; a value
  that was not taken is the error.
\<close>

definition set_setter :: "'v option \<Rightarrow> 'w \<Rightarrow> ('v poll \<times> 'v option) outcome" where
  "set_setter value w = andThen (unwrap value) (\<lambda>v. Inr (Ready v, None))"

definition OnceCell_set :: "'v \<Rightarrow> 'v option once_fut" where
  "OnceCell_set value = OnceCell_get_or_try_init (Some value)"

definition set_value :: "'v option once_fut \<Rightarrow> 'v option" where
  "set_value fut =
     (case of_running fut of Some v \<Rightarrow> v | None \<Rightarrow> (case of_setter fut of Some v \<Rightarrow> v | None \<Rightarrow> None))"

definition set_poll ::
  "'v option once_fut \<Rightarrow> addr \<Rightarrow> 'w \<Rightarrow> ('v, 'w) OnceCell
     \<Rightarrow> (('v + unit) poll \<times> 'v option once_fut \<times> 'w list \<times> ('v, 'w) OnceCell) outcome" where
  "set_poll fut a w c =
     andThen (get_or_init_poll set_setter fut a w c) (\<lambda>(p, fut', rest).
     case p of
       Pending \<Rightarrow> Inr (Pending, fut', rest)
     | Ready _ \<Rightarrow>
         (case set_value fut' of
            Some value \<Rightarrow> Inr (Ready (Inl value), fut', rest)
          | None \<Rightarrow> Inr (Ready (Inr ()), fut', rest)))"

text \<open>\<open>wait\<close>.\<close>

definition OnceCell_wait :: "(('v, 'w) OnceCell, unit, 'w, unit) wait_fn" where
  "OnceCell_wait =
     \<lparr>wf_try = (\<lambda>c. Inr (if OnceCell_get c = None then None else Some (), c)),
      wf_got = (\<lambda>_. None),
      wf_event = oc_passive,
      wf_put = (\<lambda>e c. c\<lparr>oc_passive := e\<rparr>)\<rparr>"

declare OnceCell_new_def [evals] OnceCell_from_def [evals] OnceCell_get_mut_def [evals]
  OnceCell_take_def [evals] OnceCell_get_def [evals] UnwriteOnDrop_drop_def [evals]
  once_attempt_def [evals] once_store_def [evals] OnceCell_get_or_try_init_def [evals]
  once_leave_def [evals] once_await_setter_def [evals] once_continue_def [evals]
  get_or_try_init_poll_def [evals] get_or_try_init_drop_def [evals] infallible_def [evals]
  get_or_init_poll_def [evals] set_setter_def [evals] OnceCell_set_def [evals]
  set_value_def [evals] set_poll_def [evals]

section \<open>The loop contracts\<close>

lemma once_loop_sel [simp]:
  "wf_try once_loop c = Inr (once_attempt c)"
  "wf_got once_loop t = None"
  "wf_event once_loop c = oc_active c"
  "wf_put once_loop e c = c\<lparr>oc_active := e\<rparr>"
  by (simp_all add: once_loop_def)

lemma OnceCell_wait_sel [simp]:
  "wf_try OnceCell_wait c = Inr (if oc_data c = None then None else Some (), c)"
  "wf_got OnceCell_wait t = None"
  "wf_event OnceCell_wait c = oc_passive c"
  "wf_put OnceCell_wait e c = c\<lparr>oc_passive := e\<rparr>"
  by (simp_all add: OnceCell_wait_def OnceCell_get_def)

lemma once_attempt_cases:
  "oc_data c = Some v \<Longrightarrow> once_attempt c = (Some (Got v), c)"
  "oc_data c = None \<Longrightarrow> oc_writing c \<Longrightarrow> once_attempt c = (None, c)"
  "oc_data c = None \<Longrightarrow> \<not> oc_writing c \<Longrightarrow> once_attempt c = (Some Writer, c\<lparr>oc_writing := True\<rparr>)"
  by (cases c; simp add: once_attempt_def OnceCell_get_def)+

interpretation once: wait_loop once_loop "\<lambda>_. True"
  by unfold_locales
    (auto simp: once_attempt_def OnceCell_get_def split: option.splits if_splits)

interpretation once_wait: wait_loop OnceCell_wait "\<lambda>_. True"
  by unfold_locales (auto split: if_splits)

section \<open>The active queue\<close>

text \<open>
  The part of the state \<open>get_or_try_init\<close> works on, for futures at the program points
  \<open>pcs\<close>: the listeners of the waiting futures are in the list, the listener of the one that
  writes is idle.
\<close>

definition once_q :: "(addr \<rightharpoonup> once_pc) \<Rightarrow> ('v, 'w) OnceCell \<Rightarrow> (unit, 'w) queue \<Rightarrow> bool" where
  "once_q pcs c q \<longleftrightarrow>
     refines (oc_active c) q \<and> pcs 0 = None \<and>
     set (q_addrs q) = {a. pcs a = Some OAwaiting} \<and> q_idle q = {a. pcs a = Some OSetting}"

text \<open>
  Who may write: the flag is set exactly while some setter runs, at most one does, no wakeup is
  lost while none does, and once there is a value nobody writes or waits.
\<close>

definition once_excl :: "(addr \<rightharpoonup> once_pc) \<Rightarrow> ('v, 'w) OnceCell \<Rightarrow> (unit, 'w) queue \<Rightarrow> bool" where
  "once_excl pcs c q \<longleftrightarrow>
     (oc_writing c \<longleftrightarrow> (\<exists>a. pcs a = Some OSetting)) \<and>
     (\<forall>a b. pcs a = Some OSetting \<longrightarrow> pcs b = Some OSetting \<longrightarrow> a = b) \<and>
     (oc_data c \<noteq> None \<longrightarrow> \<not> oc_writing c \<and> q_waiting q = [])"

definition once_ok :: "(addr \<rightharpoonup> once_pc) \<Rightarrow> ('v, 'w) OnceCell \<Rightarrow> (unit, 'w) queue \<Rightarrow> bool" where
  "once_ok pcs c q \<longleftrightarrow> once_excl pcs c q \<and> nothing_lost (\<not> oc_writing c) q"

text \<open>
  A setter may do anything but fault: \<open>sok\<close> are the states it can be polled in.
\<close>

definition setter_ok :: "('f \<Rightarrow> 'w \<Rightarrow> ('r poll \<times> 'f) outcome) \<Rightarrow> ('f \<Rightarrow> bool) \<Rightarrow> bool" where
  "setter_ok sp sok \<longleftrightarrow> (\<forall>f w. sok f \<longrightarrow> (\<exists>p f'. sp f w = Inr (p, f') \<and> (p = Pending \<longrightarrow> sok f')))"

lemma setter_okE:
  assumes "setter_ok sp sok" and "sok f"
  obtains p f' where "sp f w = Inr (p, f')" and "p = Pending \<longrightarrow> sok f'"
  using assms unfolding setter_ok_def by blast

definition fut_ok :: "('f \<Rightarrow> bool) \<Rightarrow> 'f once_fut \<Rightarrow> bool" where
  "fut_ok sok fut \<longleftrightarrow>
     (case of_pc fut of
        OReturned \<Rightarrow> True
      | OSetting \<Rightarrow> (\<exists>f. of_running fut = Some f \<and> sok f)
      | _ \<Rightarrow> of_running fut = None \<and> (\<exists>f. of_setter fut = Some f \<and> sok f))"

text \<open>What a poll of a future at \<open>a\<close> does to the value and to the passive queue.\<close>

definition once_effect ::
  "('v, 'w) OnceCell \<Rightarrow> (unit, 'w) queue \<Rightarrow> ('e + 'v) poll \<Rightarrow> ('v, 'w) OnceCell \<Rightarrow> (unit, 'w) queue \<Rightarrow> bool"
where
  "once_effect c qp p c' qp' \<longleftrightarrow>
     q_addrs qp' = q_addrs qp \<and> q_idle qp' = q_idle qp \<and>
     (case p of
        Pending \<Rightarrow> oc_data c' = oc_data c \<and> qp' = qp
      | Ready (Inl e) \<Rightarrow> oc_data c = None \<and> oc_data c' = None \<and> qp' = qp
      | Ready (Inr v) \<Rightarrow> oc_data c' = Some v \<and>
          (oc_data c = Some v \<and> qp' = qp \<or> oc_data c = None \<and> q_waiting qp' = []))"

definition once_post ::
  "(addr \<rightharpoonup> once_pc) \<Rightarrow> ('f \<Rightarrow> bool) \<Rightarrow> addr \<Rightarrow> ('v, 'w) OnceCell \<Rightarrow> (unit, 'w) queue
     \<Rightarrow> ('f, 'w, 'e, 'v) once_res \<Rightarrow> bool" where
  "once_post pcs sok a c qp r \<longleftrightarrow>
     (\<exists>p fut woken c' q' qp'. r = Inr (p, fut, woken, c') \<and>
        once_q (pcs(a \<mapsto> of_pc fut)) c' q' \<and> once_ok (pcs(a \<mapsto> of_pc fut)) c' q' \<and>
        fut_ok sok fut \<and> (of_pc fut = OReturned \<longleftrightarrow> p \<noteq> Pending) \<and> of_pc fut \<noteq> OUnresumed \<and>
        refines (oc_passive c') qp' \<and> once_effect c qp p c' qp')"

lemma once_q_cong: "oc_active c' = oc_active c \<Longrightarrow> once_q pcs c' q = once_q pcs c q"
  by (simp add: once_q_def)

lemma q_remove_idle:
  assumes "a \<notin> set (q_addrs q)"
  shows "q_remove a q = q\<lparr>q_idle := q_idle q - {a}\<rparr>"
proof -
  have "filter (\<lambda>x. fst x \<noteq> a) (q_notified q) = q_notified q"
    and "filter (\<lambda>x. fst x \<noteq> a) (q_waiting q) = q_waiting q"
    using assms by (auto simp: q_addrs_def filter_id_conv)
  then show ?thesis by (simp add: q_remove_def q_del_def)
qed

lemma once_leave_ok:
  assumes q: "once_q (pcs(a \<mapsto> OSetting)) c q"
  obtains e where "once_leave woken r fut a c =
      Inr (Ready r, fut\<lparr>of_pc := OReturned\<rparr>, woken, c\<lparr>oc_active := e\<rparr>)"
    and "once_q (pcs(a \<mapsto> OReturned)) (c\<lparr>oc_active := e\<rparr>) (q\<lparr>q_idle := q_idle q - {a}\<rparr>)"
proof -
  from q have r: "refines (oc_active c) q" and a: "a \<in> q_idle q" "a \<notin> set (q_addrs q)"
    by (auto simp: once_q_def)
  from refines_drop_idle [OF r a(1)] obtain e where
    e: "Listener_drop a (oc_active c) = Inr ([], e)" "refines e (q\<lparr>q_idle := q_idle q - {a}\<rparr>)"
    unfolding q_remove_idle [OF a(2)] by blast
  have "once_q (pcs(a \<mapsto> OReturned)) (c\<lparr>oc_active := e\<rparr>) (q\<lparr>q_idle := q_idle q - {a}\<rparr>)"
    using q e(2) by (auto simp: once_q_def split: if_splits)
  with e(1) that show ?thesis by (simp add: once_leave_def)
qed

lemma unwrite_ok:
  assumes q: "once_q pcs c q"
  obtains woken e q' where "UnwriteOnDrop_drop c = Inr (woken, c\<lparr>oc_writing := False, oc_active := e\<rparr>)"
    and "once_q pcs (c\<lparr>oc_writing := False, oc_active := e\<rparr>) q'" and "\<And>b. nothing_lost b q'"
    and "q_waiting q = [] \<Longrightarrow> q_waiting q' = []"
proof -
  from q have "refines (oc_active c) q" by (simp add: once_q_def)
  from notify_one [OF this] obtain k woken e q' where
    e: "notify_int 1 (oc_active c) = Inr (k, woken, e)" "refines e q'" "q_addrs q' = q_addrs q"
      "q_idle q' = q_idle q" "\<And>b. nothing_lost b q'" "q_waiting q = [] \<Longrightarrow> q_waiting q' = []" by metis
  have "once_q pcs (c\<lparr>oc_writing := False, oc_active := e\<rparr>) q'"
    using q e(2-4) by (simp add: once_q_def)
  with e that show ?thesis by (simp add: UnwriteOnDrop_drop_def Let_def)
qed

lemma once_store_ok:
  assumes q: "once_q pcs c q" and p: "refines (oc_passive c) qp"
  obtains woken e1 e2 q' qp' where
    "once_store v c = Inr (woken, c\<lparr>oc_data := Some v, oc_passive := e1, oc_active := e2\<rparr>)"
    and "once_q pcs (c\<lparr>oc_data := Some v, oc_passive := e1, oc_active := e2\<rparr>) q'"
    and "q_waiting q' = []" and "refines e1 qp'" and "q_addrs qp' = q_addrs qp"
    and "q_idle qp' = q_idle qp" and "q_waiting qp' = []"
proof -
  from q have r: "refines (oc_active c) q" by (simp add: once_q_def)
  from notify_all_additional [OF r] obtain k2 woken2 e2 q' where
    e2: "notify_int_additional (int usize_max) (oc_active c) = Inr (k2, woken2, e2)" "refines e2 q'"
      "q_addrs q' = q_addrs q" "q_idle q' = q_idle q" "q_waiting q' = []" by metis
  from notify_all_additional [OF p] obtain k1 woken1 e1 qp' where
    e1: "notify_int_additional (int usize_max) (oc_passive c) = Inr (k1, woken1, e1)" "refines e1 qp'"
      "q_addrs qp' = q_addrs qp" "q_idle qp' = q_idle qp" "q_waiting qp' = []" by metis
  have "once_q pcs (c\<lparr>oc_data := Some v, oc_passive := e1, oc_active := e2\<rparr>) q'"
    using q e2(2-4) by (simp add: once_q_def)
  with e1 e2 that show ?thesis by (simp add: once_store_def Let_def)
qed

lemma once_exclI:
  assumes "once_excl (pcs(a \<mapsto> OSetting)) c q" and "pc \<noteq> OSetting"
    and "oc_data c' \<noteq> None \<Longrightarrow> q_waiting q' = []" and "\<not> oc_writing c'" and "nothing_lost True q'"
  shows "once_ok (pcs(a \<mapsto> pc)) c' q'"
proof -
  from assms(1) have "pcs b \<noteq> Some OSetting" if "b \<noteq> a" for b
    using that unfolding once_excl_def by (metis fun_upd_apply)
  with assms(2-5) show ?thesis by (auto simp: once_ok_def once_excl_def)
qed

lemma poll_result_cases [case_names pending ok err]:
  obtains "p = Pending" | v where "p = Ready (Inr v)" | e where "p = Ready (Inl e)"
proof (cases p)
  case (Ready r)
  then show ?thesis using that by (cases r) auto
qed

lemma once_ok_step:
  assumes "once_ok pcs c q" and "\<And>b. pcs' b = Some OSetting \<longleftrightarrow> pcs b = Some OSetting"
    and "oc_data c' = oc_data c" and "oc_writing c' = oc_writing c"
    and "q_waiting q = [] \<Longrightarrow> q_waiting q' = []"
    and "\<And>b. nothing_lost b q \<Longrightarrow> nothing_lost b q'"
  shows "once_ok pcs' c' q'"
proof -
  from assms(1) have w: "oc_writing c \<longleftrightarrow> (\<exists>a. pcs a = Some OSetting)"
    and u: "\<forall>a b. pcs a = Some OSetting \<longrightarrow> pcs b = Some OSetting \<longrightarrow> a = b"
    and n: "nothing_lost (\<not> oc_writing c) q"
    and d: "oc_data c \<noteq> None \<longrightarrow> \<not> oc_writing c \<and> q_waiting q = []"
    unfolding once_ok_def once_excl_def by blast+
  show ?thesis
    unfolding once_ok_def once_excl_def assms(2-4) using w u assms(6) [OF n] d assms(5) by blast
qed

text \<open>The setter runs.\<close>

lemma once_setter_gives:
  fixes sp :: "('f, 'w, 'e, 'v) setter"
  assumes q: "once_q (pcs(a \<mapsto> OSetting)) c q" and ok: "once_ok (pcs(a \<mapsto> OSetting)) c q"
    and qp: "refines (oc_passive c) qp" and wr: "oc_writing c" "oc_data c = None"
    and f: "sp f w = Inr (Ready (Inr v), f')"
  shows "once_post pcs sok a c qp (once_await_setter sp f fut a w c)"
proof -
  obtain wk1 e1 e2 q1 qp1 where
    st: "once_store v c = Inr (wk1, c\<lparr>oc_data := Some v, oc_passive := e1, oc_active := e2\<rparr>)"
      "once_q (pcs(a \<mapsto> OSetting)) (c\<lparr>oc_data := Some v, oc_passive := e1, oc_active := e2\<rparr>) q1"
      "q_waiting q1 = []" "refines e1 qp1" "q_addrs qp1 = q_addrs qp" "q_idle qp1 = q_idle qp"
      "q_waiting qp1 = []"
    by (rule once_store_ok [OF q qp])
  define c1 where "c1 = c\<lparr>oc_data := Some v, oc_passive := e1, oc_active := e2\<rparr>"
  obtain wk2 e3 q2 where
    un: "UnwriteOnDrop_drop c1 = Inr (wk2, c1\<lparr>oc_writing := False, oc_active := e3\<rparr>)"
      "once_q (pcs(a \<mapsto> OSetting)) (c1\<lparr>oc_writing := False, oc_active := e3\<rparr>) q2"
      "nothing_lost True q2" "q_waiting q2 = []"
    using unwrite_ok [OF st(2) [folded c1_def]] st(3) by metis
  obtain e4 where
    lv: "once_leave (wk1 @ wk2) (Inr v :: 'e + 'v) (fut\<lparr>of_running := Some f'\<rparr>) a
        (c1\<lparr>oc_writing := False, oc_active := e3\<rparr>) =
      Inr (Ready (Inr v), fut\<lparr>of_running := Some f'\<rparr>\<lparr>of_pc := OReturned\<rparr>, wk1 @ wk2,
        c1\<lparr>oc_writing := False, oc_active := e3\<rparr>\<lparr>oc_active := e4\<rparr>)"
      "once_q (pcs(a \<mapsto> OReturned)) (c1\<lparr>oc_writing := False, oc_active := e3\<rparr>\<lparr>oc_active := e4\<rparr>)
        (q2\<lparr>q_idle := q_idle q2 - {a}\<rparr>)"
    by (rule once_leave_ok [OF un(2)])
  have "once_ok (pcs(a \<mapsto> OReturned)) (c1\<lparr>oc_writing := False, oc_active := e4\<rparr>)
      (q2\<lparr>q_idle := q_idle q2 - {a}\<rparr>)"
    using ok un(3,4)
    by (intro once_exclI [where q = q and c = c]) (auto simp: once_ok_def nothing_lost_def)
  moreover have "once_await_setter sp f fut a w c =
    Inr (Ready (Inr v), fut\<lparr>of_running := Some f', of_pc := OReturned\<rparr>, wk1 @ wk2,
      c1\<lparr>oc_writing := False, oc_active := e4\<rparr>)"
    using f st(1) un(1) lv(1)
    by (simp add: once_await_setter_def Let_def c1_def OnceCell_get_def)
  ultimately show ?thesis
    using lv(2) st(4-7) wr
    by (auto simp: once_post_def fut_ok_def once_effect_def c1_def)
qed

lemma once_setter_fails:
  fixes sp :: "('f, 'w, 'e, 'v) setter"
  assumes q: "once_q (pcs(a \<mapsto> OSetting)) c q" and ok: "once_ok (pcs(a \<mapsto> OSetting)) c q"
    and qp: "refines (oc_passive c) qp" and wr: "oc_writing c" "oc_data c = None"
    and f: "sp f w = Inr (Ready (Inl e), f')"
  shows "once_post pcs sok a c qp (once_await_setter sp f fut a w c)"
proof -
  obtain wk2 e3 q2 where
    un: "UnwriteOnDrop_drop c = Inr (wk2, c\<lparr>oc_writing := False, oc_active := e3\<rparr>)"
      "once_q (pcs(a \<mapsto> OSetting)) (c\<lparr>oc_writing := False, oc_active := e3\<rparr>) q2"
      "nothing_lost True q2"
    using unwrite_ok [OF q] by metis
  obtain e4 where
    lv: "once_leave wk2 (Inl e :: 'e + 'v) (fut\<lparr>of_running := Some f'\<rparr>) a (c\<lparr>oc_writing := False, oc_active := e3\<rparr>) =
      Inr (Ready (Inl e), fut\<lparr>of_running := Some f'\<rparr>\<lparr>of_pc := OReturned\<rparr>, wk2,
        c\<lparr>oc_writing := False, oc_active := e3\<rparr>\<lparr>oc_active := e4\<rparr>)"
      "once_q (pcs(a \<mapsto> OReturned)) (c\<lparr>oc_writing := False, oc_active := e3\<rparr>\<lparr>oc_active := e4\<rparr>)
        (q2\<lparr>q_idle := q_idle q2 - {a}\<rparr>)"
    by (rule once_leave_ok [OF un(2)])
  have "once_ok (pcs(a \<mapsto> OReturned)) (c\<lparr>oc_writing := False, oc_active := e4\<rparr>)
      (q2\<lparr>q_idle := q_idle q2 - {a}\<rparr>)"
    using ok un(3) wr
    by (intro once_exclI [where q = q and c = c]) (auto simp: once_ok_def nothing_lost_def)
  with f un(1) lv wr qp show ?thesis
    by (auto simp: once_post_def once_await_setter_def Let_def fut_ok_def once_effect_def)
qed

lemma once_await_setter_ok:
  fixes sp :: "('f, 'w, 'e, 'v) setter"
  assumes q: "once_q (pcs(a \<mapsto> OSetting)) c q" and ok: "once_ok (pcs(a \<mapsto> OSetting)) c q"
    and qp: "refines (oc_passive c) qp" and sp: "setter_ok sp sok" "sok f"
  shows "once_post pcs sok a c qp (once_await_setter sp f fut a w c)"
proof -
  from ok have wr: "oc_writing c" "oc_data c = None"
    unfolding once_ok_def once_excl_def by (metis fun_upd_same)+
  obtain p f' where f: "sp f w = Inr (p, f')" "p = Pending \<longrightarrow> sok f'"
    by (rule setter_okE [OF sp, of w])
  show ?thesis
  proof (cases p rule: poll_result_cases)
    case pending
    with f q ok qp wr show ?thesis
      by (auto simp: once_post_def once_await_setter_def fut_ok_def once_effect_def)
  next
    case (ok v)
    with f(1) show ?thesis by (intro once_setter_gives [OF q _ qp wr]) (use \<open>once_ok (pcs(a \<mapsto> OSetting)) c q\<close> in simp_all)
  next
    case (err e)
    with f(1) show ?thesis by (intro once_setter_fails [OF q ok qp wr]) simp
  qed
qed

lemma once_post_cong:
  assumes "oc_data c' = oc_data c"
  shows "once_post pcs sok a c' qp r = once_post pcs sok a c qp r"
  unfolding once_post_def once_effect_def assms by (rule refl)

text \<open>The loop, entered with an idle listener at \<open>a\<close>.\<close>

lemma once_loop_ok:
  fixes sp :: "('f, 'w, 'e, 'v) setter"
  assumes q: "once_q (pcs(a \<mapsto> OSetting)) c q" and ex: "once_excl pcs c q"
    and a: "pcs a \<noteq> Some OSetting"
    and qp: "refines (oc_passive c) qp" and sp: "setter_ok sp sok" "of_setter fut = Some f" "sok f"
    and run: "of_running fut = None"
  shows "once_post pcs sok a c qp
    (andThen (loop_head poll_fuel once_loop a w c) (once_continue sp fut a w))"
proof (cases "oc_data c")
  case (Some v)
  then have l: "loop_head poll_fuel once_loop a w c = Inr (Ready (Got v), c)"
    using once.loop_head_ready [of c "Got v" c] by (simp add: once_attempt_cases)
  obtain e where
    e: "once_leave [] (Inr v :: 'e + 'v) fut a c = Inr (Ready (Inr v), fut\<lparr>of_pc := OReturned\<rparr>, [], c\<lparr>oc_active := e\<rparr>)"
      "once_q (pcs(a \<mapsto> OReturned)) (c\<lparr>oc_active := e\<rparr>) (q\<lparr>q_idle := q_idle q - {a}\<rparr>)"
    using once_leave_ok [OF q] by metis
  have "once_ok (pcs(a \<mapsto> OReturned)) (c\<lparr>oc_active := e\<rparr>) (q\<lparr>q_idle := q_idle q - {a}\<rparr>)"
    using ex Some a by (auto simp: once_ok_def once_excl_def nothing_lost_def split: if_splits)
  with l e qp Some show ?thesis
    by (auto simp: once_post_def once_continue_def fut_ok_def once_effect_def)
next
  case None
  show ?thesis
  proof (cases "oc_writing c")
    case True
    from q have "refines (wf_event once_loop c) q" "a \<in> q_idle q" by (simp_all add: once_q_def)
    from once.loop_head_pending [OF this, of c w] None True obtain e where
      e: "loop_head poll_fuel once_loop a w c = Inr (Pending, c\<lparr>oc_active := e\<rparr>)"
        "refines e (q_insert a (Some w) q)"
      by (auto simp: once_attempt_cases)
    have "once_q (pcs(a \<mapsto> OAwaiting)) (c\<lparr>oc_active := e\<rparr>) (q_insert a (Some w) q)"
      using q e(2) by (auto simp: once_q_def split: if_splits)
    moreover have "once_ok (pcs(a \<mapsto> OAwaiting)) (c\<lparr>oc_active := e\<rparr>) (q_insert a (Some w) q)"
      using ex a True None by (auto simp: once_ok_def once_excl_def)
    ultimately show ?thesis
      using e(1) qp sp run by (auto simp: once_post_def once_continue_def fut_ok_def once_effect_def)
  next
    case False
    then have l: "loop_head poll_fuel once_loop a w c = Inr (Ready Writer, c\<lparr>oc_writing := True\<rparr>)"
      using once.loop_head_ready [of c Writer] None by (simp add: once_attempt_cases)
    have "once_q (pcs(a \<mapsto> OSetting)) (c\<lparr>oc_writing := True\<rparr>) q"
      using q by (simp add: once_q_def)
    moreover have "once_ok (pcs(a \<mapsto> OSetting)) (c\<lparr>oc_writing := True\<rparr>) q"
      using ex False None by (auto simp: once_ok_def once_excl_def)
    ultimately have "once_post pcs sok a (c\<lparr>oc_writing := True\<rparr>) qp
        (once_await_setter sp f (fut\<lparr>of_setter := None\<rparr>) a w (c\<lparr>oc_writing := True\<rparr>))"
      using qp by (intro once_await_setter_ok sp(1,3)) simp_all
    then have "once_post pcs sok a c qp
        (once_await_setter sp f (fut\<lparr>of_setter := None\<rparr>) a w (c\<lparr>oc_writing := True\<rparr>))"
      by (rule once_post_cong [THEN iffD1, rotated]) simp
    with l sp(2) show ?thesis by (simp add: once_continue_def)
  qed
qed

text \<open>A poll of a live future.\<close>

lemma poll_unresumed:
  assumes q: "once_q pcs c q" and ok: "once_ok pcs c q" and qp: "refines (oc_passive c) qp"
    and a: "pcs a = Some (of_pc fut)" and f: "fut_ok sok fut"
    and sp: "setter_ok sp sok" and pc: "of_pc fut = OUnresumed"
  shows "once_post pcs sok a c qp (get_or_try_init_poll sp fut a w c)"
proof -
  let ?c = "c\<lparr>oc_active := Listener_new a (oc_active c)\<rparr>"
  have "a \<notin> q_listeners q" "a \<noteq> 0"
    using q a pc by (auto simp: once_q_def q_listeners_def)
  then have "refines (oc_active ?c) (q_new a q)"
    using refines_new [of "oc_active c" q a] q by (simp add: once_q_def)
  then have "once_q (pcs(a \<mapsto> OSetting)) ?c (q_new a q)"
    using q a pc by (auto simp: once_q_def q_addrs_def)
  moreover have "once_excl pcs ?c (q_new a q)" using ok by (auto simp: once_ok_def once_excl_def)
  moreover obtain g where "of_setter fut = Some g" "sok g" "of_running fut = None"
    using f pc by (auto simp: fut_ok_def)
  ultimately have "once_post pcs sok a ?c qp
      (andThen (loop_head poll_fuel once_loop a w ?c) (once_continue sp fut a w))"
    using a pc qp by (intro once_loop_ok [OF _ _ _ _ sp]) simp_all
  then have "once_post pcs sok a c qp
      (andThen (loop_head poll_fuel once_loop a w ?c) (once_continue sp fut a w))"
    by (rule once_post_cong [THEN iffD1, rotated]) simp
  then show ?thesis by (simp add: get_or_try_init_poll_def pc)
qed

lemma poll_awaiting:
  assumes q: "once_q pcs c q" and ok: "once_ok pcs c q" and qp: "refines (oc_passive c) qp"
    and a: "pcs a = Some (of_pc fut)" and f: "fut_ok sok fut"
    and sp: "setter_ok sp sok" and pc: "of_pc fut = OAwaiting"
  shows "once_post pcs sok a c qp (get_or_try_init_poll sp fut a w c)"
proof -
  from q have r: "refines (wf_event once_loop c) q" by (simp add: once_q_def)
  have p: "pollable Suspended a q" using q a pc by (auto simp: once_q_def pollable_def)
  obtain g where g: "of_setter fut = Some g" "sok g" "of_running fut = None"
    using f pc by (auto simp: fut_ok_def)
  from r p show ?thesis
  proof (cases rule: pollable_suspended)
    case 1
    from once.loop_resume_waiting [OF r 1(1), of w] obtain e where
      e: "loop_resume once_loop a w c = Inr (Pending, c\<lparr>oc_active := e\<rparr>)" "refines e (q_set_waker a w q)"
      by auto
    have "pcs(a \<mapsto> OAwaiting) = pcs" using a pc by auto
    moreover have "once_q pcs (c\<lparr>oc_active := e\<rparr>) (q_set_waker a w q)"
      using q e(2) by (simp add: once_q_def)
    moreover have "once_ok pcs (c\<lparr>oc_active := e\<rparr>) (q_set_waker a w q)"
      by (rule once_ok_step [OF ok]) (simp_all add: nothing_lost_set_waker)
    ultimately show ?thesis
      using e(1) qp g
      by (auto simp: once_post_def get_or_try_init_poll_def pc once_continue_def fut_ok_def
          once_effect_def)
  next
    case (2 t)
    from once.loop_resume_notified [OF r 2, of w] obtain e where
      e: "refines e (q_del a q)"
        "loop_resume once_loop a w c = loop_head poll_fuel once_loop a w (c\<lparr>oc_active := e\<rparr>)"
      by auto
    have "set (q_addrs (q_del a q)) = set (q_addrs q) - {a}" by (auto simp: q_addrs_def)
    then have "once_q (pcs(a \<mapsto> OSetting)) (c\<lparr>oc_active := e\<rparr>) (q_del a q)"
      using q e(1) a pc by (auto simp: once_q_def)
    moreover have "once_excl pcs (c\<lparr>oc_active := e\<rparr>) (q_del a q)"
      using ok by (auto simp: once_ok_def once_excl_def)
    ultimately have "once_post pcs sok a (c\<lparr>oc_active := e\<rparr>) qp
        (andThen (loop_head poll_fuel once_loop a w (c\<lparr>oc_active := e\<rparr>)) (once_continue sp fut a w))"
      using a pc qp by (intro once_loop_ok [OF _ _ _ _ sp g]) simp_all
    then have "once_post pcs sok a c qp
        (andThen (loop_head poll_fuel once_loop a w (c\<lparr>oc_active := e\<rparr>)) (once_continue sp fut a w))"
      by (rule once_post_cong [THEN iffD1, rotated]) simp
    then show ?thesis by (simp add: get_or_try_init_poll_def pc e(2))
  qed
qed

lemma poll_setting:
  assumes q: "once_q pcs c q" and ok: "once_ok pcs c q" and qp: "refines (oc_passive c) qp"
    and a: "pcs a = Some (of_pc fut)" and f: "fut_ok sok fut"
    and sp: "setter_ok sp sok" and pc: "of_pc fut = OSetting"
  shows "once_post pcs sok a c qp (get_or_try_init_poll sp fut a w c)"
proof -
  from pc have s: "pcs(a \<mapsto> OSetting) = pcs" using a by auto
  obtain g where g: "of_running fut = Some g" "sok g" using f pc by (auto simp: fut_ok_def)
  have "once_post pcs sok a c qp (once_await_setter sp g fut a w c)"
    using q ok qp by (intro once_await_setter_ok [of pcs a c q] sp g(2)) (simp_all add: s)
  then show ?thesis by (simp add: get_or_try_init_poll_def pc g(1))
qed

lemma get_or_try_init_poll_ok:
  assumes q: "once_q pcs c q" and ok: "once_ok pcs c q" and qp: "refines (oc_passive c) qp"
    and a: "pcs a = Some (of_pc fut)" "of_pc fut \<noteq> OReturned" and f: "fut_ok sok fut"
    and sp: "setter_ok sp sok"
  shows "once_post pcs sok a c qp (get_or_try_init_poll sp fut a w c)"
proof (cases "of_pc fut")
  case OUnresumed
  then show ?thesis by (rule poll_unresumed [OF q ok qp a(1) f sp])
next
  case OAwaiting
  then show ?thesis by (rule poll_awaiting [OF q ok qp a(1) f sp])
next
  case OSetting
  then show ?thesis by (rule poll_setting [OF q ok qp a(1) f sp])
qed (use a(2) in simp)

text \<open>Dropping a future.\<close>

lemma once_forget:
  assumes "once_q (pcs(a \<mapsto> pc)) c q" and "once_ok (pcs(a \<mapsto> pc)) c q"
    and "pc = OReturned \<or> pc = OUnresumed"
  shows "once_q (pcs(a := None)) c q" "once_ok (pcs(a := None)) c q"
proof -
  have eq: "((pcs(a := None)) b = Some x) = ((pcs(a \<mapsto> pc)) b = Some x)"
    if "x = OSetting \<or> x = OAwaiting" for b x
    using that assms(3) by auto
  have "(pcs(a := None)) 0 = None"
    using assms(1) by (auto simp: once_q_def split: if_splits)
  moreover have "{b. (pcs(a := None)) b = Some OAwaiting} = {b. (pcs(a \<mapsto> pc)) b = Some OAwaiting}"
    and "{b. (pcs(a := None)) b = Some OSetting} = {b. (pcs(a \<mapsto> pc)) b = Some OSetting}"
    by (simp_all only: eq simp_thms)
  ultimately show "once_q (pcs(a := None)) c q"
    using assms(1) unfolding once_q_def by metis
  show "once_ok (pcs(a := None)) c q"
    by (rule once_ok_step [OF assms(2)]) (simp_all only: eq simp_thms)
qed

lemma drop_setting:
  assumes q: "once_q pcs c q" and ok: "once_ok pcs c q" and a: "pcs a = Some (of_pc fut)"
    and pc: "of_pc fut = OSetting"
  shows "\<exists>woken c' q'. get_or_try_init_drop fut a c = Inr (woken, c') \<and>
    once_q (pcs(a := None)) c' q' \<and> once_ok (pcs(a := None)) c' q' \<and>
    oc_data c' = oc_data c \<and> oc_passive c' = oc_passive c"
proof -
  from pc have s: "pcs(a \<mapsto> OSetting) = pcs" using a by auto
  obtain wk e1 q1 where
    un: "UnwriteOnDrop_drop c = Inr (wk, c\<lparr>oc_writing := False, oc_active := e1\<rparr>)"
      "once_q (pcs(a \<mapsto> OSetting)) (c\<lparr>oc_writing := False, oc_active := e1\<rparr>) q1" "nothing_lost True q1"
    using unwrite_ok [OF q] s by metis
  obtain e2 where
    lv: "once_leave [] (Inl ()) fut a (c\<lparr>oc_writing := False, oc_active := e1\<rparr>) =
      Inr (Ready (Inl ()), fut\<lparr>of_pc := OReturned\<rparr>, [], c\<lparr>oc_writing := False, oc_active := e1\<rparr>\<lparr>oc_active := e2\<rparr>)"
      "once_q (pcs(a \<mapsto> OReturned)) (c\<lparr>oc_writing := False, oc_active := e1\<rparr>\<lparr>oc_active := e2\<rparr>)
        (q1\<lparr>q_idle := q_idle q1 - {a}\<rparr>)"
    using once_leave_ok [OF un(2)] by metis
  have wr: "oc_data c = None" using ok a pc unfolding once_ok_def once_excl_def by metis
  have "once_ok (pcs(a \<mapsto> OReturned)) (c\<lparr>oc_writing := False, oc_active := e2\<rparr>)
      (q1\<lparr>q_idle := q_idle q1 - {a}\<rparr>)"
    using ok un(3) wr s
    by (intro once_exclI [where q = q and c = c]) (auto simp: once_ok_def nothing_lost_def)
  moreover have "once_q (pcs(a \<mapsto> OReturned)) (c\<lparr>oc_writing := False, oc_active := e2\<rparr>)
      (q1\<lparr>q_idle := q_idle q1 - {a}\<rparr>)" using lv(2) by simp
  ultimately have "once_q (pcs(a := None)) (c\<lparr>oc_writing := False, oc_active := e2\<rparr>)
      (q1\<lparr>q_idle := q_idle q1 - {a}\<rparr>) \<and>
    once_ok (pcs(a := None)) (c\<lparr>oc_writing := False, oc_active := e2\<rparr>) (q1\<lparr>q_idle := q_idle q1 - {a}\<rparr>)"
    by (intro conjI once_forget [where pc = OReturned and pcs = pcs and a = a]) simp_all
  moreover have "Listener_drop a e1 = Inr ([], e2)"
    using lv(1) by (cases c; cases "Listener_drop a e1") (auto simp: once_leave_def)
  ultimately show ?thesis
    using un(1) by (auto simp: get_or_try_init_drop_def pc)
qed

lemma get_or_try_init_drop_ok:
  assumes q: "once_q pcs c q" and ok: "once_ok pcs c q" and a: "pcs a = Some (of_pc fut)"
  shows "\<exists>woken c' q'. get_or_try_init_drop fut a c = Inr (woken, c') \<and>
    once_q (pcs(a := None)) c' q' \<and> once_ok (pcs(a := None)) c' q' \<and>
    oc_data c' = oc_data c \<and> oc_passive c' = oc_passive c"
proof (cases "of_pc fut")
  case OAwaiting
  from q have r: "refines (oc_active c) q" "a \<in> q_listeners q"
    using a OAwaiting by (auto simp: once_q_def q_listeners_def)
  from refines_drop [OF this] obtain e where
    e: "Listener_drop a (oc_active c) = Inr (fst (q_drop a q), e)" "refines e (snd (q_drop a q))"
    by auto
  have "once_q (pcs(a := None)) (c\<lparr>oc_active := e\<rparr>) (snd (q_drop a q))"
    using q e(2) a OAwaiting by (auto simp: once_q_def q_drop_addrs q_drop_idle)
  moreover have "q_waiting q = [] \<Longrightarrow> q_waiting (snd (q_drop a q)) = []"
    by (simp add: q_drop_eq q_forward_def Let_def split: option.split)
  then have "once_ok (pcs(a := None)) (c\<lparr>oc_active := e\<rparr>) (snd (q_drop a q))"
    using a OAwaiting by (intro once_ok_step [OF ok]) (auto intro: nothing_lost_drop)
  ultimately show ?thesis using e(1) by (auto simp: get_or_try_init_drop_def OAwaiting)
next
  case OSetting
  then show ?thesis by (rule drop_setting [OF q ok a])
next
  case OUnresumed
  then have "pcs(a \<mapsto> OUnresumed) = pcs" using a by auto
  then show ?thesis
    using once_forget [of pcs a OUnresumed c q] q ok by (auto simp: get_or_try_init_drop_def OUnresumed)
next
  case OReturned
  then have "pcs(a \<mapsto> OReturned) = pcs" using a by auto
  then show ?thesis
    using once_forget [of pcs a OReturned c q] q ok by (auto simp: get_or_try_init_drop_def OReturned)
qed

section \<open>A cell and its clients\<close>

text \<open>
  \<open>os_inits\<close> are the futures of \<open>get_or_try_init\<close>, \<open>os_waits\<close> those of
  \<open>wait\<close>, \<open>os_results\<close> the references returned so far. \<open>take\<close> needs exclusive
  access: no future and no reference is alive.
\<close>

record ('f, 'v, 'w) once_sys =
  os_cell :: "('v, 'w) OnceCell"
  os_inits :: "addr \<rightharpoonup> 'f once_fut"
  os_waits :: "addr \<rightharpoonup> fut"
  os_woken :: "'w list"
  os_results :: "'v list"

datatype ('f, 'w) once_op =
    OInit addr 'f
  | OPoll addr 'w
  | OCancel addr
  | OWait addr
  | OPoll_wait addr 'w
  | OCancel_wait addr
  | OTake

definition once_start :: "('v, 'w) OnceCell \<Rightarrow> ('f, 'v, 'w) once_sys" where
  "once_start c = \<lparr>os_cell = c, os_inits = Map.empty, os_waits = Map.empty, os_woken = [], os_results = []\<rparr>"

fun once_enabled :: "('f \<Rightarrow> bool) \<Rightarrow> ('f, 'w) once_op \<Rightarrow> ('f, 'v, 'w) once_sys \<Rightarrow> bool" where
  "once_enabled sok (OInit a f) s \<longleftrightarrow> os_inits s a = None \<and> os_waits s a = None \<and> a \<noteq> 0 \<and> sok f"
| "once_enabled sok (OPoll a w) s \<longleftrightarrow>
     (case os_inits s a of None \<Rightarrow> False | Some fut \<Rightarrow> of_pc fut \<noteq> OReturned)"
| "once_enabled sok (OCancel a) s \<longleftrightarrow> os_inits s a \<noteq> None"
| "once_enabled sok (OWait a) s \<longleftrightarrow> os_inits s a = None \<and> os_waits s a = None \<and> a \<noteq> 0"
| "once_enabled sok (OPoll_wait a w) s \<longleftrightarrow> os_waits s a \<noteq> None \<and> os_waits s a \<noteq> Some Returned"
| "once_enabled sok (OCancel_wait a) s \<longleftrightarrow> os_waits s a \<noteq> None"
| "once_enabled sok OTake s \<longleftrightarrow> os_inits s = Map.empty \<and> os_waits s = Map.empty"

fun once_exec ::
  "('f, 'w, 'e, 'v) setter \<Rightarrow> ('f, 'w) once_op \<Rightarrow> ('f, 'v, 'w) once_sys
     \<Rightarrow> ('f, 'v, 'w) once_sys outcome" where
  "once_exec sp (OInit a f) s = Inr (s\<lparr>os_inits := (os_inits s)(a \<mapsto> OnceCell_get_or_try_init f)\<rparr>)"
| "once_exec sp (OPoll a w) s =
     andThen (get_or_try_init_poll sp (the (os_inits s a)) a w (os_cell s)) (\<lambda>(p, fut, woken, c).
     Inr (s\<lparr>os_cell := c, os_inits := (os_inits s)(a \<mapsto> fut), os_woken := os_woken s @ woken,
       os_results := (case p of Ready (Inr v) \<Rightarrow> os_results s @ [v] | _ \<Rightarrow> os_results s)\<rparr>))"
| "once_exec sp (OCancel a) s =
     andThen (get_or_try_init_drop (the (os_inits s a)) a (os_cell s)) (\<lambda>(woken, c).
     Inr (s\<lparr>os_cell := c, os_inits := (os_inits s)(a := None), os_woken := os_woken s @ woken\<rparr>))"
| "once_exec sp (OWait a) s = Inr (s\<lparr>os_waits := (os_waits s)(a \<mapsto> Unresumed)\<rparr>)"
| "once_exec sp (OPoll_wait a w) s =
     andThen (wait_poll OnceCell_wait (the (os_waits s a)) a w (os_cell s)) (\<lambda>(p, st, woken, c).
     Inr (s\<lparr>os_cell := c, os_waits := (os_waits s)(a \<mapsto> st), os_woken := os_woken s @ woken\<rparr>))"
| "once_exec sp (OCancel_wait a) s =
     andThen (wait_drop OnceCell_wait (the (os_waits s a)) a (os_cell s)) (\<lambda>(woken, c).
     Inr (s\<lparr>os_cell := c, os_waits := (os_waits s)(a := None), os_woken := os_woken s @ woken\<rparr>))"
| "once_exec sp OTake s =
     (case OnceCell_take (os_cell s) of (v, c) \<Rightarrow> Inr (s\<lparr>os_cell := c, os_results := []\<rparr>))"

text \<open>A cell that starts empty or, with \<open>From\<close>, full.\<close>

definition once_cell0 :: "'v option \<Rightarrow> ('v, 'w) OnceCell" where
  "once_cell0 v = (case v of None \<Rightarrow> OnceCell_new | Some x \<Rightarrow> OnceCell_from x)"

definition once_reach ::
  "('f, 'w, 'e, 'v) setter \<Rightarrow> ('f \<Rightarrow> bool) \<Rightarrow> 'v option \<Rightarrow> ('f, 'v, 'w) once_sys \<Rightarrow> bool" where
  "once_reach sp sok v = reach (once_enabled sok) (once_exec sp) (once_start (once_cell0 v))"

declare once_start_def [evals] once_cell0_def [evals]

definition once_pcs :: "('f, 'v, 'w) once_sys \<Rightarrow> addr \<rightharpoonup> once_pc" where
  "once_pcs s a = map_option of_pc (os_inits s a)"

definition once_inv ::
  "('f \<Rightarrow> bool) \<Rightarrow> ('f, 'v, 'w) once_sys \<Rightarrow> (unit, 'w) queue \<Rightarrow> (unit, 'w) queue \<Rightarrow> bool" where
  "once_inv sok s q qp \<longleftrightarrow>
     once_q (once_pcs s) (os_cell s) q \<and> once_ok (once_pcs s) (os_cell s) q \<and>
     refines (oc_passive (os_cell s)) qp \<and> live_ok (os_waits s) qp \<and>
     (oc_data (os_cell s) \<noteq> None \<longrightarrow> q_waiting qp = []) \<and>
     (\<forall>a fut. os_inits s a = Some fut \<longrightarrow> fut_ok sok fut) \<and>
     (\<forall>v \<in> set (os_results s). oc_data (os_cell s) = Some v)"

lemma once_pcs_upd [simp]:
  "once_pcs (s\<lparr>os_cell := c\<rparr>) = once_pcs s" "once_pcs (s\<lparr>os_woken := ws\<rparr>) = once_pcs s"
  "once_pcs (s\<lparr>os_results := rs\<rparr>) = once_pcs s" "once_pcs (s\<lparr>os_waits := fs\<rparr>) = once_pcs s"
  "once_pcs (s\<lparr>os_inits := fs'\<rparr>) = map_option of_pc \<circ> fs'"
  by (auto simp: once_pcs_def fun_eq_iff)

lemma once_pcs_inits [simp]:
  "map_option of_pc \<circ> os_inits s = once_pcs s"
  "map_option of_pc \<circ> (os_inits s)(a := None) = (once_pcs s)(a := None)"
  by (auto simp: once_pcs_def fun_eq_iff)

lemma once_passive [simp]:
  "once_q pcs (c\<lparr>oc_passive := e\<rparr>) q = once_q pcs c q"
  "once_ok pcs (c\<lparr>oc_passive := e\<rparr>) q = once_ok pcs c q"
  "once_q pcs (c\<lparr>oc_data := d\<rparr>) q = once_q pcs c q"
  by (simp_all add: once_q_def once_ok_def once_excl_def)

lemma once_ok_empty:
  assumes "once_ok pcs c q"
  shows "once_ok pcs (c\<lparr>oc_data := None\<rparr>) q"
proof -
  from assms have w: "oc_writing c \<longleftrightarrow> (\<exists>a. pcs a = Some OSetting)"
    and u: "\<forall>a b. pcs a = Some OSetting \<longrightarrow> pcs b = Some OSetting \<longrightarrow> a = b"
    and n: "nothing_lost (\<not> oc_writing c) q"
    unfolding once_ok_def once_excl_def by blast+
  then show ?thesis by (simp add: once_ok_def once_excl_def)
qed

section \<open>Preservation\<close>

lemma once_effect_stable:
  assumes "once_effect c qp p c' qp'" and "oc_data c = Some v"
  shows "oc_data c' = Some v"
  using assms by (auto simp: once_effect_def split: poll.splits sum.splits)

lemma once_effect_passive:
  assumes "once_effect c qp p c' qp'" and "oc_data c \<noteq> None \<Longrightarrow> q_waiting qp = []"
  shows "oc_data c' \<noteq> None \<Longrightarrow> q_waiting qp' = []" and "q_addrs qp' = q_addrs qp"
    and "q_idle qp' = q_idle qp" and "p = Ready (Inr v) \<Longrightarrow> oc_data c' = Some v"
  using assms by (auto simp: once_effect_def split: poll.splits sum.splits)

lemma once_poll_ok:
  assumes inv: "once_inv sok s q qp" and f: "os_inits s a = Some fut" "of_pc fut \<noteq> OReturned"
    and sp: "setter_ok sp sok"
  obtains p fut' woken c' s' q' qp' where
    "get_or_try_init_poll sp fut a w (os_cell s) = Inr (p, fut', woken, c')"
    and "once_exec sp (OPoll a w) s = Inr s'" and "once_inv sok s' q' qp'"
    and "os_cell s' = c'" and "once_effect (os_cell s) qp p c' qp'"
    and "of_pc fut' = OReturned \<longleftrightarrow> p \<noteq> Pending"
    and "os_inits s' = (os_inits s)(a \<mapsto> fut')"
proof -
  from inv have i: "once_q (once_pcs s) (os_cell s) q" "once_ok (once_pcs s) (os_cell s) q"
      "refines (oc_passive (os_cell s)) qp" "live_ok (os_waits s) qp"
      "oc_data (os_cell s) \<noteq> None \<longrightarrow> q_waiting qp = []"
      "\<forall>a fut. os_inits s a = Some fut \<longrightarrow> fut_ok sok fut"
      "\<forall>v \<in> set (os_results s). oc_data (os_cell s) = Some v"
    by (simp_all add: once_inv_def)
  have pc: "once_pcs s a = Some (of_pc fut)" using f(1) by (simp add: once_pcs_def)
  have fok: "fut_ok sok fut" using i(6) f(1) by blast
  from get_or_try_init_poll_ok [OF i(1-3) pc f(2) fok sp, of w]
  obtain p fut' woken c' q' qp' where
    r: "get_or_try_init_poll sp fut a w (os_cell s) = Inr (p, fut', woken, c')"
      "once_q ((once_pcs s)(a \<mapsto> of_pc fut')) c' q'" "once_ok ((once_pcs s)(a \<mapsto> of_pc fut')) c' q'"
      "fut_ok sok fut'" "of_pc fut' = OReturned \<longleftrightarrow> p \<noteq> Pending" "refines (oc_passive c') qp'"
      "once_effect (os_cell s) qp p c' qp'"
    unfolding once_post_def by blast
  let ?rs = "case p of Ready (Inr v) \<Rightarrow> os_results s @ [v] | _ \<Rightarrow> os_results s"
  let ?s' = "s\<lparr>os_cell := c', os_inits := (os_inits s)(a \<mapsto> fut'), os_woken := os_woken s @ woken,
      os_results := ?rs\<rparr>"
  note eff = once_effect_passive [OF r(7) i(5) [rule_format]]
  have "live_ok (os_waits s) qp'" using live_ok_same [OF eff(2,3)] i(4) by simp
  moreover have "\<forall>v \<in> set ?rs. oc_data c' = Some v"
    using i(7) once_effect_stable [OF r(7)] eff(4) by (auto split: poll.splits sum.splits)
  ultimately have "once_inv sok ?s' q' qp'"
    using r(2-4,6) i(6) eff(1) by (simp add: once_inv_def)
  moreover have "once_exec sp (OPoll a w) s = Inr ?s'" using r(1) f(1) by simp
  ultimately show ?thesis using that [OF r(1), of ?s' q' qp'] r(5,7) by simp
qed

lemma once_cancel_ok:
  assumes inv: "once_inv sok s q qp" and f: "os_inits s a = Some fut"
  shows "\<exists>s' q'. once_exec sp (OCancel a) s = Inr s' \<and> once_inv sok s' q' qp \<and>
    oc_data (os_cell s') = oc_data (os_cell s)"
proof -
  from inv have i: "once_q (once_pcs s) (os_cell s) q" "once_ok (once_pcs s) (os_cell s) q"
    by (simp_all add: once_inv_def)
  have pc: "once_pcs s a = Some (of_pc fut)" using f(1) by (simp add: once_pcs_def)
  from get_or_try_init_drop_ok [OF i pc] obtain woken c' q' where
    "get_or_try_init_drop fut a (os_cell s) = Inr (woken, c')" "once_q ((once_pcs s)(a := None)) c' q'"
    "once_ok ((once_pcs s)(a := None)) c' q'" "oc_data c' = oc_data (os_cell s)"
    "oc_passive c' = oc_passive (os_cell s)" by blast
  with inv f show ?thesis by (auto simp: once_inv_def)
qed

lemma once_poll_wait_ok:
  assumes inv: "once_inv sok s q qp" and st: "os_waits s a = Some st" "st \<noteq> Returned"
  shows "\<exists>s' qp'. once_exec sp (OPoll_wait a w) s = Inr s' \<and> once_inv sok s' q qp' \<and>
    oc_data (os_cell s') = oc_data (os_cell s)"
proof -
  from inv have i: "refines (wf_event OnceCell_wait (os_cell s)) qp" "live_ok (os_waits s) qp"
    by (simp_all add: once_inv_def)
  obtain res st' c' e q' where
    p: "wait_poll OnceCell_wait st a w (os_cell s) = Inr (res, st', [], c'\<lparr>oc_passive := e\<rparr>)"
    and spec: "wait_spec OnceCell_wait st a w (os_cell s) qp = (res, st', c', q')"
    and q': "refines e q'" "live_ok ((os_waits s)(a \<mapsto> st')) q'"
    using once_wait.poll_ok [OF TrueI i st, of w] by (metis OnceCell_wait_sel(4))
  have c': "c' = os_cell s"
    using spec by (auto simp: wait_spec_def wait_attempt_def split: if_splits option.splits)
  have w: "q_waiting q' = []" if "oc_data (os_cell s) \<noteq> None"
  proof -
    have "q_waiting qp = []" using inv that by (simp add: once_inv_def)
    then show ?thesis using spec that
      by (auto simp: wait_spec_def wait_attempt_def split: if_splits option.splits)
  qed
  show ?thesis
    using p st q' w inv
    by (auto simp: once_inv_def c')
qed

lemma once_cancel_wait_ok:
  assumes inv: "once_inv sok s q qp" and st: "os_waits s a = Some st"
  shows "\<exists>s' qp'. once_exec sp (OCancel_wait a) s = Inr s' \<and> once_inv sok s' q qp' \<and>
    oc_data (os_cell s') = oc_data (os_cell s)"
proof -
  from inv have i: "refines (wf_event OnceCell_wait (os_cell s)) qp" "live_ok (os_waits s) qp"
    by (simp_all add: once_inv_def)
  show ?thesis
  proof (cases "st = Suspended")
    case True
    then have a: "a \<in> q_listeners qp" using i(2) st by (auto simp: live_ok_def q_listeners_def)
    from once_wait.drop_suspended [OF i(1) a] True obtain e where
      d: "wait_drop OnceCell_wait st a (os_cell s) = Inr (fst (q_drop a qp), (os_cell s)\<lparr>oc_passive := e\<rparr>)"
        "refines e (snd (q_drop a qp))" by auto
    have "live_ok ((os_waits s)(a := None)) (snd (q_drop a qp))"
      using live_ok_drop(1) [OF i(2)] st True by simp
    moreover have "q_waiting qp = [] \<Longrightarrow> q_waiting (snd (q_drop a qp)) = []"
      by (simp add: q_drop_eq q_forward_def Let_def split: option.split)
    ultimately show ?thesis
      using d st inv by (auto simp: once_inv_def)
  next
    case False
    then have "wait_drop OnceCell_wait st a (os_cell s) = Inr ([], os_cell s)"
      by (cases st) (simp_all add: wait_drop_def)
    moreover have "live_ok ((os_waits s)(a := None)) qp" using live_ok_drop(2) [OF i(2)] st False by simp
    ultimately show ?thesis using inv st by (auto simp: once_inv_def)
  qed
qed

lemma once_exec_ok:
  assumes "\<exists>q qp. once_inv sok s q qp" and "once_enabled sok op s" and sp: "setter_ok sp sok"
  shows "\<exists>s'. once_exec sp op s = Inr s' \<and> (\<exists>q qp. once_inv sok s' q qp)"
proof -
  from assms(1) obtain q qp where inv: "once_inv sok s q qp" by blast
  show ?thesis
  proof (cases op)
    case (OInit a f)
    have a: "once_pcs s a = None" "a \<noteq> 0" using OInit assms(2) by (auto simp: once_pcs_def)
    let ?pcs = "(once_pcs s)(a \<mapsto> OUnresumed)"
    have "once_q ?pcs (os_cell s) q" using inv a by (auto simp: once_inv_def once_q_def)
    moreover have "once_ok ?pcs (os_cell s) q"
      by (rule once_ok_step [where pcs = "once_pcs s" and c = "os_cell s" and q = q])
        (use inv a in \<open>auto simp: once_inv_def\<close>)
    ultimately have "once_inv sok (s\<lparr>os_inits := (os_inits s)(a \<mapsto> OnceCell_get_or_try_init f)\<rparr>) q qp"
      using inv OInit assms(2) by (auto simp: once_inv_def OnceCell_get_or_try_init_def fut_ok_def)
    with OInit show ?thesis by auto
  next
    case (OPoll a w)
    then obtain fut where "os_inits s a = Some fut" "of_pc fut \<noteq> OReturned"
      using assms(2) by (auto split: option.splits)
    from once_poll_ok [OF inv this sp, of w] OPoll show ?thesis by metis
  next
    case (OCancel a)
    then obtain fut where "os_inits s a = Some fut" using assms(2) by auto
    from once_cancel_ok [OF inv this, of sp] OCancel show ?thesis by blast
  next
    case (OWait a)
    have "once_inv sok (s\<lparr>os_waits := (os_waits s)(a \<mapsto> Unresumed)\<rparr>) q qp"
      using inv OWait assms(2) by (auto simp: once_inv_def live_ok_create)
    with OWait show ?thesis by auto
  next
    case (OPoll_wait a w)
    then obtain st where "os_waits s a = Some st" "st \<noteq> Returned" using assms(2) by auto
    from once_poll_wait_ok [OF inv this, of sp w] OPoll_wait show ?thesis by blast
  next
    case (OCancel_wait a)
    then obtain st where "os_waits s a = Some st" using assms(2) by auto
    from once_cancel_wait_ok [OF inv this, of sp] OCancel_wait show ?thesis by blast
  next
    case OTake
    have "once_inv sok (s\<lparr>os_cell := (os_cell s)\<lparr>oc_data := None\<rparr>, os_results := []\<rparr>) q qp"
      using inv by (auto simp: once_inv_def once_ok_empty)
    with OTake show ?thesis by (auto simp: OnceCell_take_def)
  qed
qed

lemma once_start_ok: "once_inv sok (once_start (once_cell0 v)) q_empty q_empty"
  by (simp add: once_inv_def once_start_def once_cell0_def OnceCell_new_def OnceCell_from_def
      once_q_def once_ok_def once_excl_def once_pcs_def refines_empty live_ok_empty
      split: option.split) (simp add: q_empty_def q_addrs_def)

text \<open>
  The interface of a setter: any setter that does not fault makes the cell and its clients a
  machine.
\<close>

locale setter =
  fixes sp :: "('f, 'w, 'e, 'v) setter" and sok :: "'f \<Rightarrow> bool"
  assumes sp_ok: "setter_ok sp sok"

sublocale setter \<subseteq> once_machine: machine "once_enabled sok" "once_exec sp" "once_start (once_cell0 v)"
  "\<lambda>s. \<exists>q qp. once_inv sok s q qp" for v
  by unfold_locales (use once_start_ok once_exec_ok [OF _ _ sp_ok] in blast)+

context setter
begin

lemma reach_inv:
  assumes "once_reach sp sok v s"
  obtains q qp where "once_inv sok s q qp"
  using once_machine.reach_inv [OF assms [unfolded once_reach_def]] that by blast

lemma reach_no_fault:
  "once_reach sp sok v s \<Longrightarrow> once_enabled sok op s \<Longrightarrow>
    \<exists>s'. once_exec sp op s = Inr s' \<and> once_reach sp sok v s'"
  unfolding once_reach_def by (rule once_machine.no_fault)

end

text \<open>The setter of \<open>set\<close>: the value is there to be taken.\<close>

definition set_sok :: "'v option \<Rightarrow> bool" where
  "set_sok value = (value \<noteq> None)"

interpretation set_setter: setter "infallible set_setter" set_sok
  by unfold_locales (auto simp: setter_ok_def infallible_def set_setter_def set_sok_def)

section \<open>The program points of a poll\<close>

lemma unit_poll: "(p :: unit poll) \<noteq> Pending \<longleftrightarrow> p = Ready ()"
  by (cases p) auto

lemma once_loop_head_inv:
  "loop_head k once_loop a w c = Inr (Ready step, c1) \<Longrightarrow>
    oc_data c1 = oc_data c \<and> (case step of Writer \<Rightarrow> oc_data c = None | Got v \<Rightarrow> oc_data c = Some v)"
proof (induction k arbitrary: c)
  case (Suc k)
  show ?case
  proof (cases "oc_data c = None \<and> oc_writing c")
    case True
    with Suc.prems obtain t e where
      "loop_head k once_loop a w (c\<lparr>oc_active := e\<rparr>) = Inr (Ready step, c1)"
      by (auto simp: once_attempt_cases andThen_Inr_iff unit_poll split: poll.splits)
    from Suc.IH [OF this] show ?thesis by (cases step) auto
  next
    case False
    with Suc.prems show ?thesis
      by (cases "oc_data c") (auto simp: once_attempt_cases)
  qed
qed simp

lemma once_loop_resume_inv:
  assumes "loop_resume once_loop a w c = Inr (Ready step, c1)"
  shows "oc_data c1 = oc_data c \<and> (case step of Writer \<Rightarrow> oc_data c = None | Got v \<Rightarrow> oc_data c = Some v)"
proof -
  from assms obtain e where "loop_head poll_fuel once_loop a w (c\<lparr>oc_active := e\<rparr>) = Inr (Ready step, c1)"
    by (auto simp: loop_resume_def andThen_Inr_iff unit_poll split: poll.splits)
  from once_loop_head_inv [OF this] show ?thesis by (cases step) auto
qed

lemma set_await_setter:
  assumes "once_await_setter (infallible set_setter) (Some x) fut a w c = Inr (p, fut', woken, c')"
  shows "p = Ready (Inr x)" "of_running fut' = Some None" "oc_data c' = Some x"
  using assms
  by (auto simp: once_await_setter_def infallible_def set_setter_def once_leave_def andThen_Inr_iff
      once_store_def UnwriteOnDrop_drop_def OnceCell_get_def Let_def)

lemma once_continue_Got:
  assumes "once_continue sp fut a w (Ready (Got v), c) = Inr (p, fut', woken, c')"
  shows "p = Ready (Inr v)" "of_running fut' = of_running fut" "of_setter fut' = of_setter fut"
    "oc_data c' = oc_data c"
  using assms by (auto simp: once_continue_def once_leave_def andThen_Inr_iff)

text \<open>What a poll of a \<open>set\<close> future returns.\<close>

lemma set_continue:
  assumes f: "fut_ok set_sok fut" "of_pc fut = OUnresumed \<or> of_pc fut = OAwaiting"
    and l: "oc_data c1 = oc_data c \<and> (case step of Writer \<Rightarrow> oc_data c = None | Got v \<Rightarrow> oc_data c = Some v)"
    and r: "once_continue (infallible set_setter) fut a w (Ready step, c1) = Inr (p, fut', woken, c')"
  shows "(oc_data c \<noteq> None \<and> oc_data c' = oc_data c \<and> p = Ready (Inr (the (oc_data c))) \<and> set_value fut' = set_value fut) \<or>
    (oc_data c = None \<and> oc_data c' = set_value fut \<and> p = Ready (Inr (the (set_value fut))) \<and> set_value fut' = None)"
proof -
  from f obtain x where x: "of_setter fut = Some (Some x)" "of_running fut = None"
    by (auto simp: fut_ok_def set_sok_def)
  show ?thesis
  proof (cases step)
    case (Got v)
    with once_continue_Got [OF r [unfolded Got]] l x show ?thesis by (simp add: set_value_def)
  next
    case Writer
    with r x have "once_await_setter (infallible set_setter) (Some x) (fut\<lparr>of_setter := None\<rparr>) a w c1 =
        Inr (p, fut', woken, c')" by (simp add: once_continue_def)
    from set_await_setter [OF this] Writer l x show ?thesis by (simp add: set_value_def)
  qed
qed

lemma set_inner_poll:
  assumes f: "fut_ok set_sok fut" "of_pc fut \<noteq> OReturned"
    and none: "of_pc fut = OSetting \<Longrightarrow> oc_data c = None"
    and r: "get_or_try_init_poll (infallible set_setter) fut a w c = Inr (p, fut', woken, c')"
    and ready: "p \<noteq> Pending"
  shows "(oc_data c \<noteq> None \<and> oc_data c' = oc_data c \<and> p = Ready (Inr (the (oc_data c))) \<and> set_value fut' = set_value fut) \<or>
    (oc_data c = None \<and> oc_data c' = set_value fut \<and> p = Ready (Inr (the (set_value fut))) \<and> set_value fut' = None)"
proof (cases "of_pc fut")
  case OUnresumed
  with r obtain st c1 where
    l: "loop_head poll_fuel once_loop a w (c\<lparr>oc_active := Listener_new a (oc_active c)\<rparr>) = Inr (st, c1)"
      "once_continue (infallible set_setter) fut a w (st, c1) = Inr (p, fut', woken, c')"
    by (auto simp: get_or_try_init_poll_def andThen_Inr_iff)
  then obtain step where step: "st = Ready step" using ready by (cases st) (auto simp: once_continue_def)
  have "oc_data c1 = oc_data c \<and> (case step of Writer \<Rightarrow> oc_data c = None | Got v \<Rightarrow> oc_data c = Some v)"
    using once_loop_head_inv [OF l(1) [unfolded step]] by (cases step) auto
  from set_continue [OF f(1) _ this l(2) [unfolded step]] OUnresumed show ?thesis by blast
next
  case OAwaiting
  with r obtain st c1 where l: "loop_resume once_loop a w c = Inr (st, c1)"
      "once_continue (infallible set_setter) fut a w (st, c1) = Inr (p, fut', woken, c')"
    by (auto simp: get_or_try_init_poll_def andThen_Inr_iff)
  then obtain step where step: "st = Ready step" using ready by (cases st) (auto simp: once_continue_def)
  from set_continue [OF f(1) _ once_loop_resume_inv [OF l(1) [unfolded step]] l(2) [unfolded step]] OAwaiting
  show ?thesis by blast
next
  case OSetting
  with f(1) obtain x where x: "of_running fut = Some (Some x)" by (auto simp: fut_ok_def set_sok_def)
  with OSetting r have "once_await_setter (infallible set_setter) (Some x) fut a w c = Inr (p, fut', woken, c')"
    by (simp add: get_or_try_init_poll_def)
  from set_await_setter [OF this] x none [OF OSetting] show ?thesis by (simp add: set_value_def)
qed (use f(2) in simp)

section \<open>Properties\<close>

text \<open>Setters to evaluate runs with: they follow a plan.\<close>

datatype plan = Fails | Gives | Waits plan

fun planned :: "(plan, nat, unit, nat) setter" where
  "planned Fails w = Inr (Ready (Inl ()), Fails)"
| "planned Gives w = Inr (Ready (Inr 42), Gives)"
| "planned (Waits p) w = Inr (Pending, p)"

lemma planned_ok: "setter_ok planned (\<lambda>_. True)"
proof -
  have "\<exists>p f'. planned f w = Inr (p, f')" for f w by (cases f) auto
  then show ?thesis by (simp add: setter_ok_def)
qed

abbreviation planned_run ::
  "(plan, nat) once_op list \<Rightarrow> (plan, nat, nat) once_sys outcome option" where
  "planned_run ops \<equiv> run (once_enabled (\<lambda>_. True)) (once_exec planned) ops (once_start (once_cell0 None))"

abbreviation planned_after ::
  "(plan, nat) once_op list \<Rightarrow> ((plan, nat, nat) once_sys \<Rightarrow> bool) \<Rightarrow> bool" where
  "planned_after ops \<equiv> after (once_enabled (\<lambda>_. True)) (once_exec planned) ops (once_start (once_cell0 None))"

definition once_setting :: "('f, 'v, 'w) once_sys \<Rightarrow> addr set" where
  "once_setting s = {a. \<exists>fut. os_inits s a = Some fut \<and> of_pc fut = OSetting}"

lemma once_setting_pcs: "once_setting s = {a. once_pcs s a = Some OSetting}"
  by (auto simp: once_setting_def once_pcs_def)

text \<open>
  At most one setter runs at a time, and the flag \<open>writing\<close> is set exactly while one
  does; the cell is then empty.
\<close>

theorem once_single_writer:
  assumes "setter_ok sp sok" and "once_reach sp sok v s"
  shows "(once_setting s = {} \<and> \<not> oc_writing (os_cell s)) \<or>
    ((\<exists>a. once_setting s = {a}) \<and> oc_writing (os_cell s) \<and> oc_data (os_cell s) = None)"
proof -
  obtain q qp where inv: "once_inv sok s q qp"
    using setter.reach_inv [OF setter.intro [OF assms(1)] assms(2)] .
  then have "once_excl (once_pcs s) (os_cell s) q" by (simp add: once_inv_def once_ok_def)
  then have w: "oc_writing (os_cell s) \<longleftrightarrow> once_setting s \<noteq> {}"
    and u: "\<forall>a b. a \<in> once_setting s \<longrightarrow> b \<in> once_setting s \<longrightarrow> a = b"
    and d: "oc_data (os_cell s) \<noteq> None \<longrightarrow> \<not> oc_writing (os_cell s)"
    unfolding once_excl_def once_setting_pcs by blast+
  show ?thesis
  proof (cases "once_setting s = {}")
    case False
    then obtain a where "a \<in> once_setting s" by blast
    then have "once_setting s = {a}" using u by blast
    then show ?thesis using w d by blast
  qed (use w in blast)
qed

theorem once_single_writer_witness:
  "\<exists>s. planned_run [OInit 8 (Waits Gives), OInit 16 (Waits Fails), OPoll 8 1, OPoll 16 2] = Some (Inr s) \<and>
     once_setting s \<noteq> {} \<and>
     ((once_setting s = {} \<and> \<not> oc_writing (os_cell s)) \<or>
      ((\<exists>a. once_setting s = {a}) \<and> oc_writing (os_cell s) \<and> oc_data (os_cell s) = None))"
proof (rule after_reach)
  show "planned_after [OInit 8 (Waits Gives), OInit 16 (Waits Fails), OPoll 8 1, OPoll 16 2] (\<lambda>s. once_setting s \<noteq> {})"
    by (simp add: evals once_setting_def)
qed (use once_single_writer [OF planned_ok] once_reach_def in metis)

text \<open>
  No operation on a cell panics (both \<open>unwrap\<close>s succeed), touches freed memory or
  loops, for any setters that do not panic themselves.
\<close>

lemma once_no_fault:
  assumes "setter_ok sp sok" and "once_reach sp sok v s" and "once_enabled sok op s"
  shows "\<exists>s'. once_exec sp op s = Inr s' \<and> once_reach sp sok v s'"
  by (rule setter.reach_no_fault [OF setter.intro [OF assms(1)] assms(2,3)])

text \<open>
  C14: A cell is written once. While it is shared its value never changes after it has been set,
  and every call of \<open>get_or_try_init\<close> that returns a value returns that one.
\<close>

theorem once_write_once:
  assumes "setter_ok sp sok" and "once_reach sp sok v s" and "once_enabled sok op s"
    and "op \<noteq> OTake" and "oc_data (os_cell s) = Some x" and "once_exec sp op s = Inr s'"
  shows "oc_data (os_cell s') = Some x \<and> set (os_results s') \<subseteq> {x}"
proof -
  note st = setter.intro [OF assms(1)]
  from setter.reach_inv [OF st assms(2)] obtain q qp where inv: "once_inv sok s q qp" .
  from setter.reach_no_fault [OF st assms(2,3)] assms(6) have "once_reach sp sok v s'" by auto
  from setter.reach_inv [OF st this] obtain q' qp' where inv': "once_inv sok s' q' qp'" .
  have "oc_data (os_cell s') = Some x"
  proof (cases op)
    case (OPoll a w)
    then obtain fut where "os_inits s a = Some fut" "of_pc fut \<noteq> OReturned"
      using assms(3) by (auto split: option.splits)
    from once_poll_ok [OF inv this assms(1), of w] OPoll assms(5,6) show ?thesis
      by (metis once_effect_stable sum.inject(2))
  next
    case (OCancel a)
    then obtain fut where "os_inits s a = Some fut" using assms(3) by auto
    from once_cancel_ok [OF inv this, of sp] OCancel assms(5,6) show ?thesis by auto
  next
    case (OPoll_wait a w)
    then obtain st where "os_waits s a = Some st" "st \<noteq> Returned" using assms(3) by auto
    from once_poll_wait_ok [OF inv this, of sp w] OPoll_wait assms(5,6) show ?thesis by auto
  next
    case (OCancel_wait a)
    then obtain st where "os_waits s a = Some st" using assms(3) by auto
    from once_cancel_wait_ok [OF inv this, of sp] OCancel_wait assms(5,6) show ?thesis by auto
  qed (use assms(4-6) in auto)
  with inv' show ?thesis by (auto simp: once_inv_def)
qed

theorem once_write_once_witness:
  "\<exists>s. planned_run [OInit 8 Gives, OInit 16 Gives, OPoll 8 1] = Some (Inr s) \<and>
     (\<forall>s'. once_exec planned (OPoll 16 2) s = Inr s' \<longrightarrow> oc_data (os_cell s') = Some 42)"
proof (rule after_reach)
  show "planned_after [OInit 8 Gives, OInit 16 Gives, OPoll 8 1]
      (\<lambda>s. once_enabled (\<lambda>_. True) (OPoll 16 2) s \<and> oc_data (os_cell s) = Some 42)"
    by (simp add: evals)
next
  fix s assume "reach (once_enabled (\<lambda>_. True)) (once_exec planned) (once_start (once_cell0 None)) s"
    and *: "once_enabled (\<lambda>_. True) (OPoll 16 2) s \<and> oc_data (os_cell s) = Some 42"
  then have "once_reach planned (\<lambda>_. True) None s" by (simp add: once_reach_def)
  from once_write_once [OF planned_ok this conjunct1 [OF *] _ conjunct2 [OF *]]
  show "\<forall>s'. once_exec planned (OPoll 16 2) s = Inr s' \<longrightarrow> oc_data (os_cell s') = Some 42" by blast
qed

lemma once_served:
  assumes inv: "once_inv sok s q qp" and sp: "setter_ok sp sok" and x: "oc_data (os_cell s) = Some x"
  shows "os_waits s a = Some Suspended \<Longrightarrow> is_notified (oc_passive (os_cell s)) a \<and>
      (\<forall>w. \<exists>s'. once_exec sp (OPoll_wait a w) s = Inr s' \<and> os_waits s' a = Some Returned)"
    and "os_inits s a = Some fut \<Longrightarrow> of_pc fut = OAwaiting \<Longrightarrow> is_notified (oc_active (os_cell s)) a \<and>
      (\<forall>w. \<exists>fut' woken c. get_or_try_init_poll sp fut a w (os_cell s) = Inr (Ready (Inr x), fut', woken, c))"
proof -
  have qs: "refines (oc_passive (os_cell s)) qp" "live_ok (os_waits s) qp" "q_waiting qp = []"
    "refines (oc_active (os_cell s)) q" "q_waiting q = []" "set (q_addrs q) = {a. once_pcs s a = Some OAwaiting}"
    using inv x unfolding once_inv_def once_q_def once_ok_def once_excl_def by auto
  {
    assume w: "os_waits s a = Some Suspended"
    obtain t where t: "notified_tag a qp = Some t"
      using live_ok_suspended [OF qs(2) w] qs(3) by (auto simp: is_waiting_def)
    have n: "is_notified (oc_passive (os_cell s)) a"
      using refines_notified [OF qs(1)] qs(3) t refines_is_notified [OF qs(1), of a]
      by (metis map_of_eq_None_iff notified_tag_def option.map_disc_iff option.simps(3))
    have "wf_try OnceCell_wait (os_cell s) = Inr (Some (), os_cell s)" using x by simp
    note attempt = once_wait.notified_attempt [OF TrueI _ t _ this]
    have "\<exists>s'. once_exec sp (OPoll_wait a wk) s = Inr s' \<and> os_waits s' a = Some Returned" for wk
      using attempt [of wk] qs(1) w by auto
    with n show "is_notified (oc_passive (os_cell s)) a \<and>
      (\<forall>w. \<exists>s'. once_exec sp (OPoll_wait a w) s = Inr s' \<and> os_waits s' a = Some Returned)" by blast
  }
  {
    assume f: "os_inits s a = Some fut" "of_pc fut = OAwaiting"
    then have "a \<in> set (q_addrs q)" using qs(6) by (simp add: once_pcs_def)
    then have a: "a \<in> fst ` set (q_notified q)" using qs(5) by (simp add: q_addrs_def)
    then have n: "is_notified (oc_active (os_cell s)) a" using refines_is_notified [OF qs(4)] by simp
    from a obtain t where t: "notified_tag a q = Some t"
      by (metis map_of_eq_None_iff notified_tag_def not_None_eq option.map_disc_iff)
    have "\<exists>fut' woken c. get_or_try_init_poll sp fut a wk (os_cell s) = Inr (Ready (Inr x), fut', woken, c)" for wk
    proof -
      from once.loop_resume_notified [of "os_cell s" q a t wk] qs(4) t obtain e where
        e: "loop_resume once_loop a wk (os_cell s) = loop_head poll_fuel once_loop a wk ((os_cell s)\<lparr>oc_active := e\<rparr>)"
        by auto
      have "loop_head poll_fuel once_loop a wk ((os_cell s)\<lparr>oc_active := e\<rparr>) =
          Inr (Ready (Got x), (os_cell s)\<lparr>oc_active := e\<rparr>)"
        using once.loop_head_ready [of "(os_cell s)\<lparr>oc_active := e\<rparr>" "Got x"] x
        by (simp add: once_attempt_cases)
      moreover obtain p fut' woken c' where
        r: "get_or_try_init_poll sp fut a wk (os_cell s) = Inr (p, fut', woken, c')"
        using once_poll_ok [OF inv f(1) _ sp, of wk] f by fastforce
      ultimately have "once_continue sp fut a wk (Ready (Got x), (os_cell s)\<lparr>oc_active := e\<rparr>) = Inr (p, fut', woken, c')"
        using f e by (simp add: get_or_try_init_poll_def)
      from once_continue_Got(1) [OF this] r show ?thesis by blast
    qed
    with n show "is_notified (oc_active (os_cell s)) a \<and>
      (\<forall>w. \<exists>fut' woken c. get_or_try_init_poll sp fut a w (os_cell s) = Inr (Ready (Inr x), fut', woken, c))" by blast
  }
qed

text \<open>
  Once the cell has a value, everybody who waits is woken and served: every suspended
  \<open>wait\<close> future has been notified and its next poll returns, and every
  \<open>get_or_try_init\<close> future that waits has been notified and its next poll returns the value.
\<close>

theorem once_set_wakes_all:
  assumes "setter_ok sp sok" and "once_reach sp sok v s" and "oc_data (os_cell s) = Some x"
  shows "(os_waits s a = Some Suspended \<longrightarrow> is_notified (oc_passive (os_cell s)) a \<and>
      (\<forall>w. \<exists>s'. once_exec sp (OPoll_wait a w) s = Inr s' \<and> os_waits s' a = Some Returned)) \<and>
    (\<forall>fut. os_inits s a = Some fut \<and> of_pc fut = OAwaiting \<longrightarrow> is_notified (oc_active (os_cell s)) a \<and>
      (\<forall>w. \<exists>fut' woken c. get_or_try_init_poll sp fut a w (os_cell s) = Inr (Ready (Inr x), fut', woken, c)))"
proof -
  from setter.reach_inv [OF setter.intro [OF assms(1)] assms(2)] obtain q qp where "once_inv sok s q qp" .
  from once_served [OF this assms(1,3)] show ?thesis by blast
qed

theorem once_set_wakes_all_witness:
  "\<exists>s. planned_run [OInit 8 (Waits Gives), OPoll 8 1, OInit 16 (Waits Fails), OPoll 16 2, OWait 24, OPoll_wait 24 3, OPoll 8 1] =
       Some (Inr s) \<and>
     os_woken s = [3, 2] \<and> is_notified (oc_passive (os_cell s)) 24"
proof (rule after_reach)
  show "planned_after [OInit 8 (Waits Gives), OPoll 8 1, OInit 16 (Waits Fails), OPoll 16 2, OWait 24, OPoll_wait 24 3, OPoll 8 1]
      (\<lambda>s. os_woken s = [3, 2] \<and> oc_data (os_cell s) = Some 42 \<and> os_waits s 24 = Some Suspended)"
    by (simp add: evals OnceCell_wait_def)
qed (use once_set_wakes_all [OF planned_ok] once_reach_def in metis)

lemma once_retried:
  assumes inv: "once_inv sok s q qp" and none: "oc_data (os_cell s) = None" "\<not> oc_writing (os_cell s)"
    and a: "os_inits s a = Some fut" "of_pc fut = OAwaiting"
  shows "\<exists>b fut' f. os_inits s b = Some fut' \<and> of_pc fut' = OAwaiting \<and> of_setter fut' = Some f \<and>
    is_notified (oc_active (os_cell s)) b \<and>
    (\<forall>w. \<exists>e. get_or_try_init_poll sp fut' b w (os_cell s) =
       once_await_setter sp f (fut'\<lparr>of_setter := None\<rparr>) b w ((os_cell s)\<lparr>oc_active := e, oc_writing := True\<rparr>))"
proof -
  from inv have qs: "refines (oc_active (os_cell s)) q" "nothing_lost True q"
    "set (q_addrs q) = {a. once_pcs s a = Some OAwaiting}"
    using none(2) by (simp_all add: once_inv_def once_q_def once_ok_def)
  have "a \<in> set (q_addrs q)" using qs(3) a by (simp add: once_pcs_def)
  then have "q_notified q \<noteq> []" using qs(2) by (auto simp: nothing_lost_def q_addrs_def)
  then obtain b where b: "b \<in> fst ` set (q_notified q)" by (cases "q_notified q") auto
  then have "once_pcs s b = Some OAwaiting" using qs(3) by (auto simp: q_addrs_def)
  then obtain fut' where f: "os_inits s b = Some fut'" "of_pc fut' = OAwaiting"
    by (auto simp: once_pcs_def)
  then obtain f where g: "of_setter fut' = Some f"
    using inv by (fastforce simp: once_inv_def fut_ok_def)
  from b obtain t where t: "notified_tag b q = Some t"
    by (metis map_of_eq_None_iff notified_tag_def not_None_eq option.map_disc_iff)
  have "\<exists>e. get_or_try_init_poll sp fut' b w (os_cell s) =
      once_await_setter sp f (fut'\<lparr>of_setter := None\<rparr>) b w ((os_cell s)\<lparr>oc_active := e, oc_writing := True\<rparr>)" for w
  proof -
    from once.loop_resume_notified [of "os_cell s" q b t w] qs(1) t obtain e where
      e: "loop_resume once_loop b w (os_cell s) = loop_head poll_fuel once_loop b w ((os_cell s)\<lparr>oc_active := e\<rparr>)"
      by auto
    also have "\<dots> = Inr (Ready Writer, (os_cell s)\<lparr>oc_active := e, oc_writing := True\<rparr>)"
      using once.loop_head_ready [of "(os_cell s)\<lparr>oc_active := e\<rparr>" Writer] none
      by (simp add: once_attempt_cases)
    finally show ?thesis using f(2) g by (auto simp: get_or_try_init_poll_def once_continue_def)
  qed
  then show ?thesis using f g b refines_is_notified [OF qs(1)] by blast
qed

text \<open>
  C29: No wakeup of an initializer is lost. While the cell is empty and nobody writes (a setter
  failed or was cancelled), if some \<open>get_or_try_init\<close> future waits, then one of those that wait
  has been notified, and its next poll takes the cell and polls its own setter.
\<close>

theorem once_no_lost_wakeup:
  assumes "setter_ok sp sok" and "once_reach sp sok v s" and "oc_data (os_cell s) = None"
    and "\<not> oc_writing (os_cell s)" and "os_inits s a = Some fut" and "of_pc fut = OAwaiting"
  shows "\<exists>b fut' f. os_inits s b = Some fut' \<and> of_pc fut' = OAwaiting \<and> of_setter fut' = Some f \<and>
    is_notified (oc_active (os_cell s)) b \<and>
    (\<forall>w. \<exists>e. get_or_try_init_poll sp fut' b w (os_cell s) =
       once_await_setter sp f (fut'\<lparr>of_setter := None\<rparr>) b w ((os_cell s)\<lparr>oc_active := e, oc_writing := True\<rparr>))"
proof -
  from setter.reach_inv [OF setter.intro [OF assms(1)] assms(2)] obtain q qp where "once_inv sok s q qp" .
  from once_retried [OF this assms(3-6)] show ?thesis by blast
qed

theorem once_no_lost_wakeup_witness:
  "\<exists>s. planned_run [OInit 8 (Waits Fails), OPoll 8 1, OInit 16 Gives, OPoll 16 2, OInit 24 Gives, OPoll 24 3, OPoll 8 1] =
       Some (Inr s) \<and>
     os_woken s = [2] \<and> (\<exists>b. is_notified (oc_active (os_cell s)) b)"
proof (rule after_reach)
  show "planned_after [OInit 8 (Waits Fails), OPoll 8 1, OInit 16 Gives, OPoll 16 2, OInit 24 Gives, OPoll 24 3, OPoll 8 1]
      (\<lambda>s. os_woken s = [2] \<and> oc_data (os_cell s) = None \<and> \<not> oc_writing (os_cell s) \<and>
        (\<exists>fut. os_inits s 24 = Some fut \<and> of_pc fut = OAwaiting))"
    by (simp add: evals)
qed (use once_no_lost_wakeup [OF planned_ok] once_reach_def in metis)

text \<open>
  \<open>set\<close> returns \<open>Ok\<close> exactly when it stored its value in an empty cell, and returns its
  value back when the cell had one already; its \<open>unwrap\<close> never fails.
\<close>

theorem once_set:
  assumes "once_reach (infallible set_setter) set_sok v s" and "os_inits s a = Some fut"
    and "of_pc fut \<noteq> OReturned"
  shows "\<exists>p fut' woken c. set_poll fut a w (os_cell s) = Inr (p, fut', woken, c) \<and>
    (case p of
       Pending \<Rightarrow> oc_data c = oc_data (os_cell s)
     | Ready (Inr _) \<Rightarrow> oc_data (os_cell s) = None \<and> set_value fut \<noteq> None \<and> oc_data c = set_value fut
     | Ready (Inl x) \<Rightarrow> oc_data (os_cell s) \<noteq> None \<and> oc_data c = oc_data (os_cell s) \<and> set_value fut = Some x)"
proof -
  from set_setter.reach_inv [OF assms(1)] obtain q qp where inv: "once_inv set_sok s q qp" .
  then have fok: "fut_ok set_sok fut" using assms(2) by (auto simp: once_inv_def)
  then have val: "set_value fut \<noteq> None"
    using assms(3) by (cases "of_pc fut") (auto simp: fut_ok_def set_sok_def set_value_def)
  have none: "oc_data (os_cell s) = None" if "of_pc fut = OSetting"
  proof -
    have "once_pcs s a = Some OSetting" using that assms(2) by (simp add: once_pcs_def)
    then show ?thesis using inv unfolding once_inv_def once_ok_def once_excl_def by metis
  qed
  from once_poll_ok [OF inv assms(2,3) set_setter.sp_ok, of w] obtain p fut' woken c' qp' where
    r: "get_or_try_init_poll (infallible set_setter) fut a w (os_cell s) = Inr (p, fut', woken, c')"
      "once_effect (os_cell s) qp p c' qp'" by metis
  show ?thesis
  proof (cases "p = Pending")
    case True
    with r show ?thesis by (simp add: set_poll_def get_or_init_poll_def once_effect_def)
  next
    case False
    from set_inner_poll [OF fok assms(3) none r(1) False] r(1) val show ?thesis
      by (auto simp: set_poll_def get_or_init_poll_def)
  qed
qed

theorem once_set_witness:
  "\<exists>s. run (once_enabled set_sok) (once_exec (infallible set_setter))
       [OInit 8 (Some (5 :: nat)), OInit 16 (Some 7), OPoll 8 (1 :: nat)] (once_start (once_cell0 None)) = Some (Inr s) \<and>
     (\<exists>p fut' woken c. set_poll (OnceCell_set (7 :: nat)) 16 2 (os_cell s) = Inr (p, fut', woken, c) \<and> oc_data c = Some 5)"
proof (rule after_reach)
  show "after (once_enabled set_sok) (once_exec (infallible set_setter))
      [OInit 8 (Some (5 :: nat)), OInit 16 (Some 7), OPoll 8 (1 :: nat)] (once_start (once_cell0 None))
      (\<lambda>s. os_inits s 16 = Some (OnceCell_set (7 :: nat)) \<and> oc_data (os_cell s) = Some 5)"
    by (simp add: evals set_sok_def)
next
  fix s :: "(nat option, nat, nat) once_sys"
  assume "reach (once_enabled set_sok) (once_exec (infallible set_setter)) (once_start (once_cell0 None)) s"
    and *: "os_inits s 16 = Some (OnceCell_set (7 :: nat)) \<and> oc_data (os_cell s) = Some 5"
  then have r: "once_reach (infallible set_setter) set_sok None s" by (simp add: once_reach_def)
  have "of_pc (OnceCell_set (7 :: nat)) \<noteq> OReturned"
    by (simp add: OnceCell_set_def OnceCell_get_or_try_init_def)
  from once_set [OF r conjunct1 [OF *] this, of 2] obtain p fut' woken c where
    p: "set_poll (OnceCell_set (7 :: nat)) 16 2 (os_cell s) = Inr (p, fut', woken, c)"
    "case p of
       Pending \<Rightarrow> oc_data c = oc_data (os_cell s)
     | Ready (Inr _) \<Rightarrow> oc_data (os_cell s) = None \<and> set_value (OnceCell_set (7 :: nat)) \<noteq> None \<and>
         oc_data c = set_value (OnceCell_set (7 :: nat))
     | Ready (Inl x) \<Rightarrow> oc_data (os_cell s) \<noteq> None \<and> oc_data c = oc_data (os_cell s) \<and>
         set_value (OnceCell_set (7 :: nat)) = Some x" by blast
  from p(2) * have "oc_data c = Some 5" by (cases p) (auto split: sum.splits)
  with p(1) show "\<exists>p fut' woken c. set_poll (OnceCell_set (7 :: nat)) 16 2 (os_cell s) = Inr (p, fut', woken, c) \<and>
      oc_data c = Some 5" by blast
qed

end
