(* ===== verification/BarrierLock.thy ===== *)
theory BarrierLock
  imports Async Machine
begin

text \<open>
  \<open>src/lock/barrier.rs\<close>: a reusable barrier for \<open>n\<close> tasks. The state of a
  \<open>wait\<close> future is that of its loop (theory \<open>Async\<close>) and the generation it has
  read. The system is one barrier and its futures, with the numbers of arrivals and of
  leaders so far.
\<close>

section \<open>The code\<close>

record 'w Barrier =
  ba_n :: usize
  ba_count :: usize
  ba_generation :: u64
  ba_event :: "(unit, 'w) Event"

datatype BarrierWaitResult = BarrierWaitResult bool

fun is_leader :: "BarrierWaitResult \<Rightarrow> bool" where
  "is_leader (BarrierWaitResult b) = b"

definition Barrier_new :: "usize \<Rightarrow> 'w Barrier" where
  "Barrier_new n = \<lparr>ba_n = n, ba_count = 0, ba_generation = 0, ba_event = Event_new\<rparr>"

text \<open>The loop of a task that is not the last one to arrive.\<close>

definition barrier_loop :: "u64 \<Rightarrow> ('w Barrier, unit, 'w, BarrierWaitResult) wait_fn" where
  "barrier_loop local_gen =
     \<lparr>wf_try = (\<lambda>b. Inr (if local_gen = ba_generation b \<and> ba_count b < ba_n b then None
                        else Some (BarrierWaitResult False), b)),
      wf_got = (\<lambda>_. None),
      wf_event = ba_event,
      wf_put = (\<lambda>e b. b\<lparr>ba_event := e\<rparr>)\<rparr>"

record barrier_fut =
  bf_st :: fut
  bf_gen :: u64

definition Barrier_wait :: barrier_fut where
  "Barrier_wait = \<lparr>bf_st = Unresumed, bf_gen = 0\<rparr>"

text \<open>The last task to arrive starts the next generation and notifies all the others.\<close>

definition barrier_lead ::
  "u64 \<Rightarrow> addr \<Rightarrow> 'w Barrier
     \<Rightarrow> (BarrierWaitResult poll \<times> fut \<times> 'w list \<times> 'w Barrier) outcome" where
  "barrier_lead local_gen a b =
     (let b1 = b\<lparr>ba_event := Listener_new a (ba_event b)\<rparr>; b2 = b1\<lparr>ba_count := 0\<rparr> in
      andThen (u64_add local_gen 1) (\<lambda>g.
      let b3 = b2\<lparr>ba_generation := g\<rparr> in
      andThen (notify_int (int usize_max) (ba_event b3)) (\<lambda>(_, woken, e).
      andThen (Listener_drop a e) (\<lambda>(woken', e').
      Inr (Ready (BarrierWaitResult True), Returned, woken @ woken', b3\<lparr>ba_event := e'\<rparr>)))))"

definition Barrier_wait_poll ::
  "barrier_fut \<Rightarrow> addr \<Rightarrow> 'w \<Rightarrow> 'w Barrier
     \<Rightarrow> (BarrierWaitResult poll \<times> barrier_fut \<times> 'w list \<times> 'w Barrier) outcome" where
  "Barrier_wait_poll f a w b =
     (case bf_st f of
        Unresumed \<Rightarrow>
          (let local_gen = ba_generation b in
           andThen (usize_add (ba_count b) 1) (\<lambda>count.
           let b1 = b\<lparr>ba_count := count\<rparr> in
           andThen (if ba_count b1 < ba_n b1 then wait_poll (barrier_loop local_gen) Unresumed a w b1
                    else barrier_lead local_gen a b1) (\<lambda>(p, st, rest).
           Inr (p, \<lparr>bf_st = st, bf_gen = local_gen\<rparr>, rest))))
      | st \<Rightarrow>
          andThen (wait_poll (barrier_loop (bf_gen f)) st a w b) (\<lambda>(p, st', rest).
          Inr (p, f\<lparr>bf_st := st'\<rparr>, rest)))"

definition Barrier_wait_drop :: "barrier_fut \<Rightarrow> addr \<Rightarrow> 'w Barrier \<Rightarrow> ('w list \<times> 'w Barrier) outcome" where
  "Barrier_wait_drop f a b = wait_drop (barrier_loop (bf_gen f)) (bf_st f) a b"

declare is_leader.simps [evals] Barrier_new_def [evals] barrier_loop_def [evals]
  Barrier_wait_def [evals] barrier_lead_def [evals] Barrier_wait_poll_def [evals]
  Barrier_wait_drop_def [evals]

section \<open>The loop contract\<close>

lemma barrier_loop_sel [simp]:
  "wf_try (barrier_loop g) b =
     Inr (if g = ba_generation b \<and> ba_count b < ba_n b then None else Some (BarrierWaitResult False), b)"
  "wf_got (barrier_loop g) t = None"
  "wf_event (barrier_loop g) b = ba_event b"
  "wf_put (barrier_loop g) e b = b\<lparr>ba_event := e\<rparr>"
  by (simp_all add: barrier_loop_def)

interpretation barrier: wait_loop "barrier_loop g" "\<lambda>_. True" for g
  by unfold_locales (auto split: if_splits)

section \<open>A barrier and its clients\<close>

record 'w barrier_sys =
  bs_barrier :: "'w Barrier"
  bs_futs :: "addr \<rightharpoonup> barrier_fut"
  bs_woken :: "'w list"
  bs_arrived :: nat
  bs_leaders :: nat

datatype 'w barrier_op =
    BWait addr
  | BPoll addr 'w
  | BCancel addr

definition barrier_init :: "64 word \<Rightarrow> 'w barrier_sys" where
  "barrier_init n = \<lparr>bs_barrier = Barrier_new (unat n), bs_futs = Map.empty, bs_woken = [],
     bs_arrived = 0, bs_leaders = 0\<rparr>"

text \<open>
  The counter of the generations is a \<open>u64\<close>; the operations considered stay below its
  last value.
\<close>

fun barrier_enabled :: "'w barrier_op \<Rightarrow> 'w barrier_sys \<Rightarrow> bool" where
  "barrier_enabled (BWait a) s \<longleftrightarrow> bs_futs s a = None \<and> a \<noteq> 0"
| "barrier_enabled (BPoll a w) s \<longleftrightarrow>
     (case bs_futs s a of None \<Rightarrow> False | Some f \<Rightarrow> bf_st f \<noteq> Returned) \<and>
     ba_generation (bs_barrier s) < u64_max"
| "barrier_enabled (BCancel a) s \<longleftrightarrow> bs_futs s a \<noteq> None"

fun barrier_exec :: "'w barrier_op \<Rightarrow> 'w barrier_sys \<Rightarrow> 'w barrier_sys outcome" where
  "barrier_exec (BWait a) s = Inr (s\<lparr>bs_futs := (bs_futs s)(a \<mapsto> Barrier_wait)\<rparr>)"
| "barrier_exec (BPoll a w) s =
     andThen (Barrier_wait_poll (the (bs_futs s a)) a w (bs_barrier s)) (\<lambda>(p, f, woken, b).
     Inr (s\<lparr>bs_barrier := b, bs_futs := (bs_futs s)(a \<mapsto> f), bs_woken := bs_woken s @ woken,
       bs_arrived := (if bf_st (the (bs_futs s a)) = Unresumed then bs_arrived s + 1 else bs_arrived s),
       bs_leaders := (if p = Ready (BarrierWaitResult True) then bs_leaders s + 1 else bs_leaders s)\<rparr>))"
| "barrier_exec (BCancel a) s =
     andThen (Barrier_wait_drop (the (bs_futs s a)) a (bs_barrier s)) (\<lambda>(woken, b).
     Inr (s\<lparr>bs_barrier := b, bs_futs := (bs_futs s)(a := None), bs_woken := bs_woken s @ woken\<rparr>))"

definition barrier_reach :: "64 word \<Rightarrow> 'w barrier_sys \<Rightarrow> bool" where
  "barrier_reach n = reach barrier_enabled barrier_exec (barrier_init n)"

declare barrier_init_def [evals]

definition bs_sts :: "'w barrier_sys \<Rightarrow> addr \<rightharpoonup> fut" where
  "bs_sts s a = map_option bf_st (bs_futs s a)"

text \<open>
  The invariant: \<open>leaders\<close> generations of \<open>n\<close> arrivals each and the current arrivals
  make up all arrivals; whoever still waits unnotified belongs to the current generation.
\<close>

definition barrier_counts :: "usize \<Rightarrow> 'w barrier_sys \<Rightarrow> bool" where
  "barrier_counts n s \<longleftrightarrow>
     ba_n (bs_barrier s) = n \<and> ba_count (bs_barrier s) < max 1 n \<and>
     ba_generation (bs_barrier s) = bs_leaders s \<and>
     bs_arrived s = bs_leaders s * max 1 n + ba_count (bs_barrier s)"

definition barrier_inv :: "usize \<Rightarrow> 'w barrier_sys \<Rightarrow> (unit, 'w) queue \<Rightarrow> bool" where
  "barrier_inv n s q \<longleftrightarrow>
     refines (ba_event (bs_barrier s)) q \<and> live_ok (bs_sts s) q \<and> barrier_counts n s \<and>
     (\<forall>a f. bs_futs s a = Some f \<longrightarrow> bf_st f = Suspended \<longrightarrow>
        0 < n \<and> bf_gen f \<le> ba_generation (bs_barrier s) \<and>
        (is_waiting a q \<longrightarrow> bf_gen f = ba_generation (bs_barrier s)))"

lemma bs_sts_upd [simp]:
  "bs_sts (s\<lparr>bs_barrier := b\<rparr>) = bs_sts s" "bs_sts (s\<lparr>bs_woken := ws\<rparr>) = bs_sts s"
  "bs_sts (s\<lparr>bs_arrived := k\<rparr>) = bs_sts s" "bs_sts (s\<lparr>bs_leaders := k\<rparr>) = bs_sts s"
  "bs_sts (s\<lparr>bs_futs := fs\<rparr>) = map_option bf_st \<circ> fs"
  "map_option bf_st \<circ> bs_futs s = bs_sts s"
  "map_option bf_st \<circ> (bs_futs s)(a := None) = (bs_sts s)(a := None)"
  by (auto simp: bs_sts_def fun_eq_iff)

lemma is_waiting_simps [simp]:
  "is_waiting a (q_set_waker b w q) = is_waiting a q"
  "is_waiting a (q_insert b v q) \<longleftrightarrow> a = b \<or> is_waiting a q"
  "is_waiting a (q_remove b q) \<longleftrightarrow> a \<noteq> b \<and> is_waiting a q"
  by (auto simp: is_waiting_def)

section \<open>Preservation\<close>

lemma barrier_first_poll_ok:
  assumes inv: "barrier_inv n s q" and n: "n \<le> usize_max"
    and f: "bs_futs s a = Some f" "bf_st f = Unresumed" and g: "ba_generation (bs_barrier s) < u64_max"
  shows "\<exists>s' q' ws. barrier_exec (BPoll a w) s = Inr s' \<and> barrier_inv n s' q' \<and>
    bs_woken s' = bs_woken s @ ws \<and> moves (Polls a w) ws (pool q) (pool q')"
proof -
  let ?b = "bs_barrier s"
  let ?b1 = "?b\<lparr>ba_count := ba_count ?b + 1\<rparr>"
  from inv have i: "refines (ba_event ?b) q" "live_ok (bs_sts s) q" "barrier_counts n s"
    by (simp_all add: barrier_inv_def)
  have "bs_sts s a = Some Unresumed" using f by (simp add: bs_sts_def)
  from live_ok_pollable [OF i(2) this] have a: "a \<notin> q_listeners q" "a \<noteq> 0"
    by (simp_all add: pollable_def)
  then have out: "a \<notin> fst ` set (q_notified q)" "a \<notin> fst ` set (q_waiting q)"
    by (auto simp: q_listeners_def q_addrs_def)
  then have same: "polled_by a w q q" "polled_by a w q (q_insert a (Some w) q)"
    by (auto simp: polled_by_def)
  have c: "ba_count ?b + 1 \<le> usize_max"
    using i(3) n by (auto simp: barrier_counts_def max_def usize_max_def split: if_splits)
  show ?thesis
  proof (cases "ba_count ?b + 1 < n")
    case True
    then have t: "wf_try (barrier_loop (ba_generation ?b)) ?b1 = Inr (None, ?b1)"
      using i(3) by (simp add: barrier_counts_def)
    from barrier.first_poll_pending [OF _ a t, where w = w] i(1) obtain e where
      e: "wait_poll (barrier_loop (ba_generation ?b)) Unresumed a w ?b1 = Inr (Pending, Suspended, [], ?b1\<lparr>ba_event := e\<rparr>)"
        "refines e (q_insert a (Some w) q)" by auto
    have "live_ok ((bs_sts s)(a \<mapsto> Suspended)) (q_insert a (Some w) q)"
      using i(2) a by (auto simp: live_ok_def q_listeners_def)
    with e True c f inv same(2) show ?thesis
      by (fastforce simp: barrier_inv_def barrier_counts_def Barrier_wait_poll_def Let_def intro: moves_poll)
  next
    case False
    then have cn: "ba_count ?b + 1 = max 1 n" "\<not> ba_count ?b + 1 < ba_n ?b"
      using i(3) by (auto simp: barrier_counts_def)
    have "refines (Listener_new a (ba_event ?b)) (q_new a q)" by (rule refines_new [OF i(1) a])
    from notify_all [OF this] obtain k woken e q1 where
      e: "notify_int (int usize_max) (Listener_new a (ba_event ?b)) = Inr (k, woken, e)" "refines e q1"
        "q_addrs q1 = q_addrs (q_new a q)" "q_idle q1 = q_idle (q_new a q)" "q_waiting q1 = []"
      "wakes woken (q_new a q) q1" .
    have "wakes woken q (q_remove a q1)" using e(6) by (auto simp: wakes_def)
    from moves_poll_wakes [OF same(1) this]
    have mv: "moves (Polls a w) (woken @ []) (pool q) (pool (q_remove a q1))" by simp
    have idle: "a \<in> q_idle q1" using e(4) by simp
    from refines_drop_idle [OF e(2) idle] obtain e' where
      e': "Listener_drop a e = Inr ([], e')" "refines e' (q_remove a q1)" by blast
    have "live_ok ((bs_sts s)(a \<mapsto> Returned)) (q_remove a q1)"
    proof -
      have "set (q_addrs (q_remove a q1)) = set (q_addrs q) - {a}"
        using e(3) by (simp add: q_addrs_def [of "q_new a q"] q_addrs_def [of q])
      then show ?thesis using i(2) a e(4) by (auto simp: live_ok_def q_listeners_def)
    qed
    moreover have "\<forall>x. \<not> is_waiting x q1" using e(5) by (simp add: is_waiting_def)
    ultimately show ?thesis
      using e(1) e' cn c g f inv mv
      by (auto simp: barrier_inv_def barrier_counts_def Barrier_wait_poll_def barrier_lead_def Let_def
          intro: le_SucI intro!: exI [of _ "q_remove a q1"])
  qed
qed

lemma barrier_next_poll_ok:
  assumes inv: "barrier_inv n s q" and f: "bs_futs s a = Some f" "bf_st f = Suspended"
  shows "\<exists>s' q'. barrier_exec (BPoll a w) s = Inr s' \<and> barrier_inv n s' q' \<and>
    bs_futs s' = (bs_futs s)(a \<mapsto> f\<lparr>bf_st :=
      (if bf_gen f = ba_generation (bs_barrier s) then Suspended else Returned)\<rparr>) \<and>
    bs_leaders s' = bs_leaders s \<and> bs_woken s' = bs_woken s \<and> moves (Polls a w) [] (pool q) (pool q')"
proof -
  let ?b = "bs_barrier s" and ?F = "barrier_loop (bf_gen f)"
  from inv have i: "refines (wf_event ?F ?b) q" "live_ok (bs_sts s) q" "barrier_counts n s"
    and w: "is_waiting a q \<longrightarrow> bf_gen f = ba_generation ?b" and gen: "0 < n" "bf_gen f \<le> ba_generation ?b"
    using f by (auto simp: barrier_inv_def)
  have st: "bs_sts s a = Some Suspended" "Suspended \<noteq> Returned" using f by (simp_all add: bs_sts_def)
  from barrier.poll_ok [OF TrueI i(1,2) st, of w] obtain res st' b' e q' where
    p: "wait_poll ?F Suspended a w ?b = Inr (res, st', [], b'\<lparr>ba_event := e\<rparr>)"
    and spec: "wait_spec ?F Suspended a w ?b q = (res, st', b', q')"
    and q': "refines e q'" "live_ok ((bs_sts s)(a \<mapsto> st')) q'"
    by (metis barrier_loop_sel(4))
  have "polled_by a w q q'" using wait_spec_polls [OF spec i(1) live_ok_pollable [OF i(2) st]] .
  note mv = moves_poll [OF this]
  have b': "b' = ?b" "res \<noteq> Ready (BarrierWaitResult True)"
      "\<And>x. is_waiting x q' \<Longrightarrow> is_waiting x q \<or> x = a"
      "is_waiting a q' \<Longrightarrow> bf_gen f = ba_generation ?b"
    using spec w by (auto simp: wait_spec_def wait_attempt_def split: if_splits option.splits)
  have st': "st' = (if bf_gen f = ba_generation ?b then Suspended else Returned)"
  proof (cases "bf_gen f = ba_generation ?b")
    case True
    then have "ba_count ?b < ba_n ?b" using i(3) gen by (simp add: barrier_counts_def)
    with True spec show ?thesis
      by (auto simp: wait_spec_def wait_attempt_def split: option.splits)
  next
    case False
    then have "notified_tag a q \<noteq> None"
      using live_ok_suspended [OF i(2) st(1)] w by blast
    with False spec show ?thesis by (auto simp: wait_spec_def wait_attempt_def)
  qed
  let ?s' = "s\<lparr>bs_barrier := ?b\<lparr>ba_event := e\<rparr>, bs_futs := (bs_futs s)(a \<mapsto> f\<lparr>bf_st := st'\<rparr>),
      bs_woken := bs_woken s @ []\<rparr>"
  have "barrier_inv n ?s' q'"
    using inv q' b'(3,4) f gen st'
    by (fastforce simp: barrier_inv_def barrier_counts_def)
  moreover have "barrier_exec (BPoll a w) s = Inr ?s'"
    using p f b'(1,2) by (auto simp: Barrier_wait_poll_def)
  ultimately show ?thesis using st' mv by auto
qed

lemma barrier_cancel_ok:
  assumes inv: "barrier_inv n s q" and f: "bs_futs s a = Some f"
  shows "\<exists>s' q' ws. barrier_exec (BCancel a) s = Inr s' \<and> barrier_inv n s' q' \<and>
    bs_woken s' = bs_woken s @ ws \<and> wakes ws q q'"
proof -
  let ?b = "bs_barrier s" and ?F = "barrier_loop (bf_gen f)"
  from inv have i: "refines (wf_event ?F ?b) q" "live_ok (bs_sts s) q" by (simp_all add: barrier_inv_def)
  have st: "bs_sts s a = Some (bf_st f)" using f by (simp add: bs_sts_def)
  from barrier.drop_ok [OF i st] obtain woken e q' where
    d: "wait_drop ?F (bf_st f) a ?b = Inr (woken, ?b\<lparr>ba_event := e\<rparr>)" "refines e q'"
      "live_ok ((bs_sts s)(a := None)) q'" "wakes woken q q'" by (metis barrier_loop_sel(4))
  have "is_waiting b q' \<Longrightarrow> is_waiting b q" for b using d(4) by (auto simp: wakes_def is_waiting_def)
  with d f inv show ?thesis by (auto simp: barrier_inv_def barrier_counts_def Barrier_wait_drop_def)
qed

definition barrier_access :: "'w barrier_op \<Rightarrow> 'w access" where
  "barrier_access op = (case op of BWait a \<Rightarrow> Creates a | BPoll a w \<Rightarrow> Polls a w | BCancel a \<Rightarrow> Drops a)"

text \<open>Every operation, with what it does to the waiting futures and their wakers.\<close>

lemma barrier_step_ok:
  assumes inv: "barrier_inv n s q" and en: "barrier_enabled op s" and n: "n \<le> usize_max"
  shows "\<exists>s' q' ws. barrier_exec op s = Inr s' \<and> barrier_inv n s' q' \<and> bs_woken s' = bs_woken s @ ws \<and>
    moves (barrier_access op) ws (pool q) (pool q')"
proof (cases op)
  case (BWait a)
  then have a: "bs_sts s a = None" "a \<noteq> 0" using en by (auto simp: bs_sts_def)
  have "live_ok ((bs_sts s)(a \<mapsto> Unresumed)) q"
    using inv a by (intro live_ok_create) (simp_all add: barrier_inv_def)
  then have "barrier_inv n (s\<lparr>bs_futs := (bs_futs s)(a \<mapsto> Barrier_wait)\<rparr>) q"
    using inv by (auto simp: barrier_inv_def barrier_counts_def Barrier_wait_def)
  with BWait moves_other(1) [OF wakes_refl, of a q] show ?thesis by (fastforce simp: barrier_access_def)
next
  case (BPoll a w)
  then obtain f where f: "bs_futs s a = Some f" "bf_st f \<noteq> Returned" "ba_generation (bs_barrier s) < u64_max"
    using en by (auto split: option.splits)
  show ?thesis
  proof (cases "bf_st f")
    case Unresumed
    from barrier_first_poll_ok [OF inv n f(1) Unresumed f(3), of w] BPoll show ?thesis
      by (simp add: barrier_access_def del: barrier_exec.simps)
  next
    case Suspended
    from barrier_next_poll_ok [OF inv f(1) Suspended, of w] obtain s' q' where
      "barrier_exec (BPoll a w) s = Inr s'" "barrier_inv n s' q'" "bs_woken s' = bs_woken s @ []"
      "moves (Polls a w) [] (pool q) (pool q')" by auto
    with BPoll show ?thesis unfolding barrier_access_def by fastforce
  qed (use f(2) in simp)
next
  case (BCancel a)
  then obtain f where "bs_futs s a = Some f" using en by auto
  from barrier_cancel_ok [OF inv this] moves_other(2) [of _ q _ a] BCancel show ?thesis
    by (simp add: barrier_access_def del: barrier_exec.simps) blast
qed

lemma barrier_exec_ok:
  assumes "\<exists>q. barrier_inv n s q" and "barrier_enabled op s" and "n \<le> usize_max"
  shows "\<exists>s'. barrier_exec op s = Inr s' \<and> (\<exists>q. barrier_inv n s' q)"
  using assms barrier_step_ok by blast

lemma barrier_start_ok: "barrier_inv (unat n) (barrier_init n) q_empty"
  by (simp add: barrier_inv_def barrier_counts_def barrier_init_def Barrier_new_def refines_empty [unfolded q_empty_def]
      live_ok_def bs_sts_def dom_def q_empty_def q_addrs_def less_max_iff_disj)

interpretation barrier_machine: machine barrier_enabled barrier_exec "barrier_init n"
  "\<lambda>s. \<exists>q. barrier_inv (unat n) s q" for n :: "64 word"
proof
  show "\<exists>q. barrier_inv (unat n) (barrier_init n) q" using barrier_start_ok by blast
qed (rule barrier_exec_ok [OF _ _ unat_usize])

section \<open>Properties\<close>

lemma barrier_reach_inv:
  assumes "barrier_reach n s"
  obtains q where "barrier_inv (unat n) s q"
  using barrier_machine.reach_inv [OF assms [unfolded barrier_reach_def]] that by blast

text \<open>
  C27: A barrier elects one leader for every \<open>n\<close> tasks that arrive: all arrivals are the
  generations so far, of \<open>n\<close> arrivals and one leader each, plus fewer than \<open>n\<close> that
  wait for the rest.
\<close>

theorem barrier_leaders:
  assumes "barrier_reach n s"
  shows "bs_arrived s = bs_leaders s * max 1 (unat n) + ba_count (bs_barrier s) \<and>
    ba_count (bs_barrier s) < max 1 (unat n) \<and> ba_generation (bs_barrier s) = bs_leaders s"
  using barrier_reach_inv [OF assms] unfolding barrier_inv_def barrier_counts_def by metis

theorem barrier_leaders_witness:
  "\<exists>s. run barrier_enabled barrier_exec
       [BWait 8, BPoll 8 (1 :: nat), BWait 16, BPoll 16 2, BWait 24, BPoll 24 3] (barrier_init 2) = Some (Inr s) \<and>
     bs_arrived s = 3 \<and> bs_leaders s = 1 \<and>
     bs_arrived s = bs_leaders s * max 1 (unat (2 :: 64 word)) + ba_count (bs_barrier s)"
proof (rule after_reach)
  show "after barrier_enabled barrier_exec
      [BWait 8, BPoll 8 (1 :: nat), BWait 16, BPoll 16 2, BWait 24, BPoll 24 3] (barrier_init 2)
      (\<lambda>s. bs_arrived s = 3 \<and> bs_leaders s = 1)"
    by (simp add: evals)
qed (use barrier_leaders barrier_reach_def in metis)

text \<open>
  No operation on a barrier panics (while the generation counter has not reached its last
  value), touches freed memory or loops.
\<close>

lemma barrier_no_fault:
  assumes "barrier_reach n s" and "barrier_enabled op s"
  shows "\<exists>s'. barrier_exec op s = Inr s' \<and> barrier_reach n s'"
  using barrier_machine.no_fault [OF assms(1) [unfolded barrier_reach_def] assms(2)]
  unfolding barrier_reach_def .

text \<open>A suspended future of a generation that is over has been notified.\<close>

lemma barrier_notified:
  assumes inv: "barrier_inv n s q" and f: "bs_futs s a = Some f" "bf_st f = Suspended"
    and g: "bf_gen f \<noteq> ba_generation (bs_barrier s)"
  shows "a \<in> fst ` set (q_notified q)"
proof -
  have "bs_sts s a = Some Suspended" using f by (simp add: bs_sts_def)
  with live_ok_suspended [of "bs_sts s" q a] inv f g show ?thesis
    by (auto simp: barrier_inv_def notified_tag_def map_of_eq_None_iff)
qed

text \<open>
  A waiting task passes the barrier exactly when its generation is over. A suspended future
  of an earlier generation has been notified, and its next poll returns; one of the current
  generation stays suspended however often it is polled. Neither becomes the leader.
\<close>

theorem barrier_releases:
  assumes "barrier_reach n s" and "bs_futs s a = Some f" and "bf_st f = Suspended"
  shows "bf_gen f \<le> ba_generation (bs_barrier s) \<and>
    (bf_gen f = ba_generation (bs_barrier s) \<or> is_notified (ba_event (bs_barrier s)) a) \<and>
    (\<forall>w. \<exists>s'. barrier_exec (BPoll a w) s = Inr s' \<and> bs_leaders s' = bs_leaders s \<and>
       bs_futs s' = (bs_futs s)(a \<mapsto> f\<lparr>bf_st :=
         (if bf_gen f = ba_generation (bs_barrier s) then Suspended else Returned)\<rparr>))"
proof -
  from barrier_reach_inv [OF assms(1)] obtain q where inv: "barrier_inv (unat n) s q" .
  then have r: "refines (ba_event (bs_barrier s)) q" "bf_gen f \<le> ba_generation (bs_barrier s)"
    using assms(2,3) by (auto simp: barrier_inv_def)
  have "bf_gen f = ba_generation (bs_barrier s) \<or> is_notified (ba_event (bs_barrier s)) a"
    using barrier_notified [OF inv assms(2,3)] refines_is_notified [OF r(1), of a] by blast
  with r(2) barrier_next_poll_ok [OF inv assms(2,3)] show ?thesis by metis
qed

theorem barrier_releases_witness:
  "\<exists>s. run barrier_enabled barrier_exec [BWait 8, BPoll 8 (1 :: nat), BWait 16, BPoll 16 2] (barrier_init 2) =
       Some (Inr s) \<and>
     bs_woken s = [1] \<and> (\<forall>w. \<exists>s'. barrier_exec (BPoll 8 w) s = Inr s' \<and> bs_leaders s' = bs_leaders s)"
proof (rule after_reach)
  show "after barrier_enabled barrier_exec [BWait 8, BPoll 8 (1 :: nat), BWait 16, BPoll 16 2] (barrier_init 2)
      (\<lambda>s. bs_woken s = [1] \<and> (\<exists>f. bs_futs s 8 = Some f \<and> bf_st f = Suspended))"
    by (simp add: evals)
qed (use barrier_releases barrier_reach_def in metis)

text \<open>
  A cancelled wait still counts. With \<open>n = 2\<close>, a task that gives up waiting leaves its
  arrival behind, so that the next one passes the barrier at once, as the leader and alone.
\<close>

lemma cancelled_counts:
  "\<exists>s. run barrier_enabled barrier_exec [BWait 8, BPoll 8 (1 :: nat), BCancel 8, BWait 16, BPoll 16 2]
       (barrier_init 2) = Some (Inr s) \<and>
     bs_leaders s = 1 \<and> bs_futs s 8 = None \<and> map_option bf_st (bs_futs s 16) = Some Returned"
  by (simp add: evals)

end
