(* ===== verification/Handover.thy ===== *)
theory Handover
  imports Async "HOL-Library.Multiset"
begin

text \<open>
  Handing items over with an event: the channel and the executor use an
  \<open>Event<Option<T>>\<close> and offer an item to the first waiting listener with
  \<open>notify(1.tag_with(|| item.take()))\<close>. The tag of a listener that has been notified
  and not polled since is an item in flight.
\<close>

section \<open>Offers\<close>

text \<open>The closure \<open>|| item.take()\<close>; its variable \<open>item\<close> is the environment.\<close>

definition take_item :: "'v option \<Rightarrow> 'v option \<times> 'v option" where
  "take_item item = (item, None)"

text \<open>The closure \<open>|| None\<close>: a wakeup without an item.\<close>

definition no_item :: "unit \<Rightarrow> 'v option \<times> unit" where
  "no_item u = (None, ())"

declare take_item_def [evals] no_item_def [evals]

text \<open>The items handed to receivers that have not been polled since.\<close>

definition somes :: "'a option list \<Rightarrow> 'a list" where
  "somes xs = concat (map (\<lambda>x. case x of Some v \<Rightarrow> [v] | None \<Rightarrow> []) xs)"

definition in_flight :: "('v option, 'w) Event \<Rightarrow> 'v list" where
  "in_flight ev = somes (Event_tags ev)"

definition q_items :: "('v option, 'w) queue \<Rightarrow> 'v list" where
  "q_items q = somes (map (\<lambda>x. fst (snd x)) (q_notified q))"

declare somes_def [evals] in_flight_def [evals]

lemma somes_simps [simp]:
  "somes [] = []" "somes (Some v # xs) = v # somes xs" "somes (None # xs) = somes xs"
  "somes (xs @ ys) = somes xs @ somes ys" "somes (replicate n None) = []"
  by (simp_all add: somes_def)

lemma refines_in_flight: "refines ev q \<Longrightarrow> in_flight ev = q_items q"
  by (simp add: in_flight_def q_items_def refines_tags)

section \<open>Items in flight\<close>

lemma q_items_simps [simp]:
  "q_items (q_set_waker a w q) = q_items q" "q_items (q_insert a v q) = q_items q"
  by (simp_all add: q_items_def)

lemma map2_tags:
  "length ts \<le> length ws \<Longrightarrow> map (\<lambda>x. fst (snd x)) (map2 (\<lambda>(a, _) t. (a, t, b)) ws ts) = ts"
  by (induction ws ts rule: list_induct2') auto

lemma q_items_mark:
  "length ts \<le> length (q_waiting q) \<Longrightarrow> q_items (q_mark ts b q) = q_items q @ somes ts"
  unfolding q_items_def q_mark_def by (simp add: map2_tags del: map_map)

lemma somes_remove:
  assumes "distinct (map fst ns)" and "map_of ns a = Some (t, b)"
  shows "mset (somes (map (\<lambda>x. fst (snd x)) ns)) =
    mset (somes [t]) + mset (somes (map (\<lambda>x. fst (snd x)) (filter (\<lambda>x. fst x \<noteq> a) ns)))"
  using assms
proof (induction ns)
  case (Cons x ns)
  obtain c u d where x: "x = (c, u, d)" by (cases x) auto
  show ?case
  proof (cases "c = a")
    case True
    then have "filter (\<lambda>x. fst x \<noteq> a) ns = ns"
      using Cons.prems(1) x by (auto simp: filter_id_conv)
    with True Cons.prems x show ?thesis by (cases t) auto
  next
    case False
    with Cons x show ?thesis by (cases u) auto
  qed
qed simp

lemma q_items_remove:
  assumes "refines ev q" and "notified_tag a q = Some t"
  shows "mset (q_items q) = mset (somes [t]) + mset (q_items (q_remove a q))"
proof -
  from refines_notified(3) [OF assms] obtain b where "map_of (q_notified q) a = Some (t, b)" by blast
  moreover have "distinct (map fst (q_notified q))"
    using refines_wf(1) [OF assms(1)] by (simp add: q_addrs_def)
  ultimately show ?thesis unfolding q_items_def q_remove_sel by (intro somes_remove)
qed

lemma q_items_remove_none:
  assumes "notified_tag a q = None"
  shows "q_items (q_remove a q) = q_items q"
proof -
  have "filter (\<lambda>x. fst x \<noteq> a) (q_notified q) = q_notified q"
    using assms by (auto simp: notified_tag_def map_of_eq_None_iff filter_id_conv)
  then show ?thesis by (simp add: q_items_def)
qed

lemma notified_iff:
  "refines ev q \<Longrightarrow> is_notified ev a \<longleftrightarrow> notified_tag a q \<noteq> None"
  by (simp add: refines_is_notified notified_tag_def map_of_eq_None_iff)

lemma q_items_drop:
  assumes "refines ev q"
  shows "notified_tag a q = None \<Longrightarrow> q_items (snd (q_drop a q)) = q_items q"
    and "mset (q_items (snd (q_drop a q))) \<subseteq># mset (q_items q)"
proof -
  show eq: "q_items (snd (q_drop a q)) = q_items q" if "notified_tag a q = None"
    using q_items_remove_none [OF that] that by (simp add: q_drop_eq notified_tag_def)
  show "mset (q_items (snd (q_drop a q))) \<subseteq># mset (q_items q)"
  proof (cases "notified_tag a q")
    case None
    with eq show ?thesis by simp
  next
    case (Some t)
    from refines_notified(3) [OF assms Some] obtain b where b: "map_of (q_notified q) a = Some (t, b)" by blast
    let ?k = "notify_amount 1 b (q_del a q)"
    have k: "?k \<le> length (q_waiting (q_del a q))" "?k \<le> 1" by (auto simp: notify_amount_def)
    have "q_items (snd (q_drop a q)) = q_items (q_del a q) @ somes (replicate ?k t)"
      using b q_items_mark [of "replicate ?k t" "q_del a q" b] k(1)
      by (simp add: q_drop_eq q_forward_def Let_def q_items_def)
    moreover have "q_items (q_del a q) = q_items (q_remove a q)" by (simp add: q_items_def)
    moreover have "mset (somes (replicate ?k t)) \<subseteq># mset (somes [t])"
      using k(2) by (cases ?k) auto
    ultimately show ?thesis
      using q_items_remove [OF assms Some] by (simp add: add.commute subset_mset.add_right_mono)
  qed
qed

text \<open>How much a drop loses: at most the item of the listener, and that one if nobody else waits.\<close>

lemma q_items_drop_lost:
  assumes r: "refines ev q" and t: "notified_tag a q = Some t"
  shows "mset (q_items q) \<subseteq># mset (q_items (snd (q_drop a q))) + mset (somes [t])"
    and "q_waiting q = [] \<Longrightarrow> mset (q_items q) = mset (q_items (snd (q_drop a q))) + mset (somes [t])"
proof -
  from refines_notified(3) [OF r t] obtain b where b: "map_of (q_notified q) a = Some (t, b)" by blast
  let ?k = "notify_amount 1 b (q_del a q)"
  have k: "?k \<le> length (q_waiting (q_del a q))" by (auto simp: notify_amount_def)
  have d: "q_items (snd (q_drop a q)) = q_items (q_remove a q) @ somes (replicate ?k t)"
    using b q_items_mark [of "replicate ?k t" "q_del a q" b] k
    by (simp add: q_drop_eq q_forward_def Let_def q_items_def q_del_def)
  note i = q_items_remove [OF r t]
  show "mset (q_items q) \<subseteq># mset (q_items (snd (q_drop a q))) + mset (somes [t])"
    unfolding d i by simp
  show "mset (q_items q) = mset (q_items (snd (q_drop a q))) + mset (somes [t])" if "q_waiting q = []"
    unfolding d i using that by (simp add: notify_amount_def q_del_def)
qed

text \<open>The item that the future at an address has been handed and that no poll has taken yet.\<close>

definition handed :: "('v option, 'w) Event \<Rightarrow> addr \<Rightarrow> 'v list" where
  "handed ev a =
     (case ev_heap ev a of
        None \<Rightarrow> []
      | Some l \<Rightarrow> (case e_state (l_entry l) of Notified t addl \<Rightarrow> somes [t] | _ \<Rightarrow> []))"

declare handed_def [evals]

lemma handed_tag:
  assumes "refines ev q" and "notified_tag a q = Some t"
  shows "handed ev a = somes [t]"
proof -
  from refines_notified(3) [OF assms] obtain b where "map_of (q_notified q) a = Some (t, b)" by blast
  from map_of_SomeD [OF this] have "(a, Notified t b) \<in> set (entries q)"
    by (force simp: entries_def notified_entries_def)
  from refines_entry [OF assms(1) this] show ?thesis by (auto simp: handed_def)
qed

lemma handed_none: "\<not> is_notified ev a \<Longrightarrow> handed ev a = []"
  by (auto simp: handed_def is_notified_def split: option.splits State.splits)

section \<open>What an offer does\<close>

text \<open>
  An offer is taken if somebody waits and nobody is notified already.
\<close>

definition hands_over :: "('t, 'w) queue \<Rightarrow> bool" where
  "hands_over q \<longleftrightarrow> q_notified q = [] \<and> q_waiting q \<noteq> []"

lemma notify_amount_one: "notify_amount 1 False q = (if hands_over q then 1 else 0)"
  by (cases "q_notified q"; cases "q_waiting q") (auto simp: notify_amount_def hands_over_def)

lemma offer_ok:
  assumes r: "refines ev q"
  shows "\<exists>e. notify_int_with 1 take_item (Some v) ev = Inr (if hands_over q then None else Some v,
        if hands_over q then wakers_of (take 1 (q_waiting q)) else [], e) \<and>
    refines e (q_mark (if hands_over q then [Some v] else []) False q)"
proof -
  have i: "0 \<le> (1 :: int)" "1 \<le> int usize_max" by (simp_all add: usize_max_def)
  have n: "notify_amount (nat 1) False q = (if hands_over q then 1 else 0)"
    using notify_amount_one [of q] by simp
  have "call_times take_item (notify_amount (nat 1) False q) (Some v) =
      (if hands_over q then [Some v] else [], if hands_over q then None else Some v)"
    unfolding n by (simp add: take_item_def)
  from refines_notify_with [OF r i this] n show ?thesis
    by (cases "hands_over q") (auto simp: wakers_of_def map_filter_def)
qed

lemma ping_ok:
  assumes r: "refines ev q"
  shows "\<exists>e. notify_int_with 1 no_item () ev =
      Inr ((), if hands_over q then wakers_of (take 1 (q_waiting q)) else [], e) \<and>
    refines e (q_mark (if hands_over q then [None] else []) False q)"
proof -
  have i: "0 \<le> (1 :: int)" "1 \<le> int usize_max" by (simp_all add: usize_max_def)
  have n: "notify_amount (nat 1) False q = (if hands_over q then 1 else 0)"
    using notify_amount_one [of q] by simp
  have "call_times no_item (notify_amount (nat 1) False q) () = (if hands_over q then [None] else [], ())"
    unfolding n by (simp add: no_item_def)
  from refines_notify_with [OF r i this] n show ?thesis
    by (cases "hands_over q") (auto simp: wakers_of_def map_filter_def)
qed

section \<open>Items are not lost\<close>

text \<open>
  The items sent are here (in flight, queued or received), except those lost with a listener that
  was dropped after it had been notified.
\<close>

definition items_ok :: "'v list \<Rightarrow> 'v multiset \<Rightarrow> bool \<Rightarrow> bool" where
  "items_ok sent here lossy \<longleftrightarrow> here \<subseteq># mset sent \<and> (lossy \<or> mset sent = here)"

lemma items_ok_send: "items_ok sent here b \<Longrightarrow> items_ok (sent @ [v]) (add_mset v here) b"
  by (auto simp: items_ok_def)

lemma items_ok_add: "items_ok sent here b \<Longrightarrow> here' = here + mset vs \<Longrightarrow> items_ok (sent @ vs) here' b"
  by (auto simp: items_ok_def)

lemma items_ok_lose: "items_ok sent here b \<Longrightarrow> here' \<subseteq># here \<Longrightarrow> items_ok sent here' True"
  by (auto simp: items_ok_def)

end
