(* ===== verification/ChannelModel.thy ===== *)
theory ChannelModel
  imports Handover Machine "HOL-Library.Sublist"
begin

text \<open>
  \<open>src/channel.rs\<close>: the multi-producer multi-consumer channel. An item is handed to a
  waiting receiver as the tag of the notification, or else queued. The state of a channel is
  its queue, its flags and counters and its event; the \<open>Rc\<close>s that share it are not
  modelled. The queue is borrowed only within single expressions, so its borrow flag is left
  out. The system is one channel with its senders, receivers and \<open>recv\<close> futures.
\<close>

section \<open>The code\<close>

record ('v, 'w) Channel =
  ch_data :: "'v list"
  ch_closed :: bool
  ch_senders :: usize
  ch_receivers :: usize
  ch_event :: "('v option, 'w) Event"

datatype ChannelClosed = ChannelClosed
datatype TryRecvError = Closed | Empty

text \<open>\<open>channel\<close>: one sender and one receiver.\<close>

definition channel :: "('v, 'w) Channel" where
  "channel = \<lparr>ch_data = [], ch_closed = False, ch_senders = 1, ch_receivers = 1, ch_event = Event_new\<rparr>"

text \<open>\<open>Sender::send\<close>: offer the item to the event, then push it if it was not taken.\<close>

definition Sender_send ::
  "'v \<Rightarrow> ('v, 'w) Channel \<Rightarrow> ((ChannelClosed + unit) \<times> 'w list \<times> ('v, 'w) Channel) outcome" where
  "Sender_send item c =
     (if ch_closed c then Inr (Inl ChannelClosed, [], c)
      else
        andThen (notify_int_with 1 take_item (Some item) (ch_event c)) (\<lambda>(item', woken, e).
        let c1 = c\<lparr>ch_event := e\<rparr> in
        case item' of
          Some v \<Rightarrow> Inr (Inr (), woken, c1\<lparr>ch_data := ch_data c1 @ [v]\<rparr>)
        | None \<Rightarrow> Inr (Inr (), woken, c1)))"

text \<open>The tail of both \<open>Drop\<close>s: close the channel and wake everybody.\<close>

definition channel_close :: "('v, 'w) Channel \<Rightarrow> ('w list \<times> ('v, 'w) Channel) outcome" where
  "channel_close c =
     (let c1 = c\<lparr>ch_closed := True\<rparr> in
      andThen (notify_int_with (int usize_max) (\<lambda>_. (None, ())) () (ch_event c1)) (\<lambda>(_, woken, e).
      Inr (woken, c1\<lparr>ch_event := e\<rparr>)))"

definition Sender_clone :: "('v, 'w) Channel \<Rightarrow> ('v, 'w) Channel outcome" where
  "Sender_clone c = andThen (usize_add (ch_senders c) 1) (\<lambda>n. Inr (c\<lparr>ch_senders := n\<rparr>))"

definition Sender_drop :: "('v, 'w) Channel \<Rightarrow> ('w list \<times> ('v, 'w) Channel) outcome" where
  "Sender_drop c =
     andThen (usize_sub (ch_senders c) 1) (\<lambda>n.
     let c1 = c\<lparr>ch_senders := n\<rparr> in
     if n = 0 then channel_close c1 else Inr ([], c1))"

definition Receiver_clone :: "('v, 'w) Channel \<Rightarrow> ('v, 'w) Channel outcome" where
  "Receiver_clone c = andThen (usize_add (ch_receivers c) 1) (\<lambda>n. Inr (c\<lparr>ch_receivers := n\<rparr>))"

definition Receiver_drop :: "('v, 'w) Channel \<Rightarrow> ('w list \<times> ('v, 'w) Channel) outcome" where
  "Receiver_drop c =
     andThen (usize_sub (ch_receivers c) 1) (\<lambda>n.
     let c1 = c\<lparr>ch_receivers := n\<rparr> in
     if n = 0 then channel_close c1 else Inr ([], c1))"

text \<open>\<open>Receiver::try_recv\<close>.\<close>

definition Receiver_try_recv :: "('v, 'w) Channel \<Rightarrow> (TryRecvError + 'v) \<times> ('v, 'w) Channel" where
  "Receiver_try_recv c =
     (case ch_data c of
        item # data \<Rightarrow> (Inr item, c\<lparr>ch_data := data\<rparr>)
      | [] \<Rightarrow> (Inl (if ch_closed c then Closed else Empty), c))"

text \<open>\<open>Receiver::recv\<close>: a tag with an item is the result.\<close>

definition recv_try :: "('v, 'w) Channel \<Rightarrow> (ChannelClosed + 'v) option \<times> ('v, 'w) Channel" where
  "recv_try c =
     (case ch_data c of
        item # data \<Rightarrow> (Some (Inr item), c\<lparr>ch_data := data\<rparr>)
      | [] \<Rightarrow> if ch_closed c then (Some (Inl ChannelClosed), c) else (None, c))"

definition Receiver_recv :: "(('v, 'w) Channel, 'v option, 'w, ChannelClosed + 'v) wait_fn" where
  "Receiver_recv =
     \<lparr>wf_try = (\<lambda>c. Inr (recv_try c)),
      wf_got = map_option Inr,
      wf_event = ch_event,
      wf_put = (\<lambda>e c. c\<lparr>ch_event := e\<rparr>)\<rparr>"

text \<open>How the errors are displayed, and the cause of a \<open>TryRecvError\<close>.\<close>

definition ChannelClosed_fmt :: "ChannelClosed \<Rightarrow> string" where
  "ChannelClosed_fmt e = ''channel closed''"

definition TryRecvError_fmt :: "TryRecvError \<Rightarrow> string" where
  "TryRecvError_fmt e = (case e of Closed \<Rightarrow> ''channel closed'' | Empty \<Rightarrow> ''channel empty'')"

definition TryRecvError_cause :: "TryRecvError \<Rightarrow> ChannelClosed option" where
  "TryRecvError_cause e = (case e of Closed \<Rightarrow> Some ChannelClosed | Empty \<Rightarrow> None)"

declare channel_def [evals] Sender_send_def [evals] channel_close_def [evals]
  Sender_clone_def [evals] Sender_drop_def [evals] Receiver_clone_def [evals]
  Receiver_drop_def [evals] Receiver_try_recv_def [evals] recv_try_def [evals]

section \<open>The loop contract\<close>

lemma Receiver_recv_sel [simp]:
  "wf_try Receiver_recv c = Inr (recv_try c)"
  "wf_got Receiver_recv t = map_option Inr t"
  "wf_event Receiver_recv c = ch_event c"
  "wf_put Receiver_recv e c = c\<lparr>ch_event := e\<rparr>"
  by (simp_all add: Receiver_recv_def)

interpretation chan: wait_loop Receiver_recv "\<lambda>_. True"
  by unfold_locales (auto simp: recv_try_def split: list.splits if_splits)

section \<open>A channel and its clients\<close>

text \<open>
  \<open>cs_sent\<close> are the items \<open>send\<close> has accepted, \<open>cs_received\<close> those returned to
  receivers, \<open>cs_cancelled\<close> tells whether a \<open>recv\<close> future was ever dropped after it had
  been notified.
\<close>

record ('v, 'w) chan_sys =
  cs_chan :: "('v, 'w) Channel"
  cs_futs :: "addr \<rightharpoonup> fut"
  cs_woken :: "'w list"
  cs_sent :: "'v list"
  cs_received :: "'v list"
  cs_cancelled :: bool

datatype ('v, 'w) chan_op =
    CSend 'v
  | CClone_sender
  | CDrop_sender
  | CClone_receiver
  | CDrop_receiver
  | CTry_recv
  | CRecv addr
  | CPoll addr 'w
  | CCancel addr

definition chan_init :: "('v, 'w) chan_sys" where
  "chan_init = \<lparr>cs_chan = channel, cs_futs = Map.empty, cs_woken = [], cs_sent = [], cs_received = [],
     cs_cancelled = False\<rparr>"

text \<open>
  The operations need a live sender or receiver; a \<open>recv\<close> future borrows its receiver. A
  handle is cloned only while its counter is below \<open>usize::MAX\<close>, which the handles in
  memory cannot reach.
\<close>

fun chan_enabled :: "('v, 'w) chan_op \<Rightarrow> ('v, 'w) chan_sys \<Rightarrow> bool" where
  "chan_enabled (CSend v) s \<longleftrightarrow> 0 < ch_senders (cs_chan s)"
| "chan_enabled CClone_sender s \<longleftrightarrow> 0 < ch_senders (cs_chan s) \<and> ch_senders (cs_chan s) < usize_max"
| "chan_enabled CDrop_sender s \<longleftrightarrow> 0 < ch_senders (cs_chan s)"
| "chan_enabled CClone_receiver s \<longleftrightarrow> 0 < ch_receivers (cs_chan s) \<and> ch_receivers (cs_chan s) < usize_max"
| "chan_enabled CDrop_receiver s \<longleftrightarrow>
     1 < ch_receivers (cs_chan s) \<or> ch_receivers (cs_chan s) = 1 \<and> cs_futs s = Map.empty"
| "chan_enabled CTry_recv s \<longleftrightarrow> 0 < ch_receivers (cs_chan s)"
| "chan_enabled (CRecv a) s \<longleftrightarrow> 0 < ch_receivers (cs_chan s) \<and> cs_futs s a = None \<and> a \<noteq> 0"
| "chan_enabled (CPoll a w) s \<longleftrightarrow> cs_futs s a \<noteq> None \<and> cs_futs s a \<noteq> Some Returned"
| "chan_enabled (CCancel a) s \<longleftrightarrow> cs_futs s a \<noteq> None"

fun received :: "('e + 'v) \<Rightarrow> 'v list" where
  "received (Inr v) = [v]"
| "received (Inl e) = []"

fun chan_exec :: "('v, 'w) chan_op \<Rightarrow> ('v, 'w) chan_sys \<Rightarrow> ('v, 'w) chan_sys outcome" where
  "chan_exec (CSend v) s =
     andThen (Sender_send v (cs_chan s)) (\<lambda>(r, woken, c).
     Inr (s\<lparr>cs_chan := c, cs_woken := cs_woken s @ woken,
       cs_sent := (case r of Inr _ \<Rightarrow> cs_sent s @ [v] | Inl _ \<Rightarrow> cs_sent s)\<rparr>))"
| "chan_exec CClone_sender s = andThen (Sender_clone (cs_chan s)) (\<lambda>c. Inr (s\<lparr>cs_chan := c\<rparr>))"
| "chan_exec CDrop_sender s =
     andThen (Sender_drop (cs_chan s)) (\<lambda>(woken, c). Inr (s\<lparr>cs_chan := c, cs_woken := cs_woken s @ woken\<rparr>))"
| "chan_exec CClone_receiver s = andThen (Receiver_clone (cs_chan s)) (\<lambda>c. Inr (s\<lparr>cs_chan := c\<rparr>))"
| "chan_exec CDrop_receiver s =
     andThen (Receiver_drop (cs_chan s)) (\<lambda>(woken, c). Inr (s\<lparr>cs_chan := c, cs_woken := cs_woken s @ woken\<rparr>))"
| "chan_exec CTry_recv s =
     (case Receiver_try_recv (cs_chan s) of (r, c) \<Rightarrow>
     Inr (s\<lparr>cs_chan := c, cs_received := cs_received s @ received r\<rparr>))"
| "chan_exec (CRecv a) s = Inr (s\<lparr>cs_futs := (cs_futs s)(a \<mapsto> Unresumed)\<rparr>)"
| "chan_exec (CPoll a w) s =
     andThen (wait_poll Receiver_recv (the (cs_futs s a)) a w (cs_chan s)) (\<lambda>(p, st, woken, c).
     Inr (s\<lparr>cs_chan := c, cs_futs := (cs_futs s)(a \<mapsto> st), cs_woken := cs_woken s @ woken,
       cs_received := (case p of Ready r \<Rightarrow> cs_received s @ received r | Pending \<Rightarrow> cs_received s)\<rparr>))"
| "chan_exec (CCancel a) s =
     andThen (wait_drop Receiver_recv (the (cs_futs s a)) a (cs_chan s)) (\<lambda>(woken, c).
     Inr (s\<lparr>cs_chan := c, cs_futs := (cs_futs s)(a := None), cs_woken := cs_woken s @ woken,
       cs_cancelled := (cs_cancelled s \<or> is_notified (ch_event (cs_chan s)) a)\<rparr>))"

definition chan_reach :: "('v, 'w) chan_sys \<Rightarrow> bool" where
  "chan_reach = reach chan_enabled chan_exec chan_init"

declare chan_init_def [evals]

text \<open>
  The invariant: the event is the queue of the suspended futures; no notification is additional; after the
  channel is closed nobody waits; every item sent is received, queued, handed over, or was lost by a
  cancellation.
\<close>

definition plain :: "('t, 'w) queue \<Rightarrow> bool" where
  "plain q \<longleftrightarrow> (\<forall>(a, t, b) \<in> set (q_notified q). \<not> b)"

lemma plain_steps:
  assumes "plain q"
  shows "plain (q_mark ts False q)" "plain (q_remove a q)" "plain (q_insert a v q)" "plain (q_set_waker a w q)"
    "plain (snd (q_drop a q))" "map_of (q_notified q) a = Some (t, b) \<Longrightarrow> \<not> b"
proof -
  have mark: "plain (q_mark ts False q)" if "plain q" for ts and q :: "('a, 'b) queue"
    using that by (auto simp: plain_def q_mark_def dest!: set_zip_leftD set_zip_rightD)
  show "plain (q_mark ts False q)" by (rule mark [OF assms])
  show "plain (q_remove a q)" "plain (q_insert a v q)" "plain (q_set_waker a w q)"
    using assms by (auto simp: plain_def q_insert_def q_set_waker_def)
  show b: "\<not> b" if "map_of (q_notified q) a = Some (t, b)" for t b
    using assms map_of_SomeD [OF that] by (auto simp: plain_def)
  have del: "plain (q_del a q)" using assms by (auto simp: plain_def q_del_def)
  have "plain (q\<lparr>q_idle := A\<rparr>) = plain q" for A and q :: "('a, 'b) queue" by (simp add: plain_def)
  then show "plain (snd (q_drop a q))"
    using \<open>plain (q_remove a q)\<close> mark [OF del] b by (auto simp: q_drop_eq q_forward_def Let_def split: option.split)
qed

definition chan_here :: "('v, 'w) chan_sys \<Rightarrow> ('v option, 'w) queue \<Rightarrow> 'v multiset" where
  "chan_here s q = mset (cs_received s) + mset (ch_data (cs_chan s)) + mset (q_items q)"

definition chan_inv :: "('v, 'w) chan_sys \<Rightarrow> ('v option, 'w) queue \<Rightarrow> bool" where
  "chan_inv s q \<longleftrightarrow>
     refines (ch_event (cs_chan s)) q \<and> live_ok (cs_futs s) q \<and>
     (ch_closed (cs_chan s) \<longleftrightarrow> ch_senders (cs_chan s) = 0 \<or> ch_receivers (cs_chan s) = 0) \<and>
     (ch_closed (cs_chan s) \<longrightarrow> q_waiting q = []) \<and>
     ch_senders (cs_chan s) \<le> usize_max \<and> ch_receivers (cs_chan s) \<le> usize_max \<and>
     items_ok (cs_sent s) (chan_here s q) (cs_cancelled s) \<and> plain q"

section \<open>Preservation\<close>

lemma chan_invD:
  assumes "chan_inv s q"
  shows "refines (ch_event (cs_chan s)) q" "live_ok (cs_futs s) q"
    "ch_closed (cs_chan s) \<longleftrightarrow> ch_senders (cs_chan s) = 0 \<or> ch_receivers (cs_chan s) = 0"
    "ch_closed (cs_chan s) \<longrightarrow> q_waiting q = []"
    "ch_senders (cs_chan s) \<le> usize_max" "ch_receivers (cs_chan s) \<le> usize_max"
    "items_ok (cs_sent s) (chan_here s q) (cs_cancelled s)" "plain q"
  using assms by (simp_all add: chan_inv_def)

text \<open>
  \<open>send\<close> on an open channel: the item goes to the first waiting receiver if there is one
  and no receiver is notified, and to the queue otherwise.
\<close>

lemma Sender_send_ok:
  assumes r: "refines (ch_event c) q" and o: "\<not> ch_closed c"
  obtains woken e where
    "Sender_send v c = Inr (Inr (), woken, c\<lparr>ch_event := e, ch_data := (if hands_over q then ch_data c else ch_data c @ [v])\<rparr>)"
    and "refines e (q_mark (if hands_over q then [Some v] else []) False q)"
  using offer_ok [OF r, of v] that o by (cases "hands_over q") (auto simp: Sender_send_def)

definition sent_to ::
  "'v \<Rightarrow> ('v, 'w) chan_sys \<Rightarrow> ('v option, 'w) queue \<Rightarrow> ('v, 'w) chan_sys \<Rightarrow> ('v option, 'w) queue \<Rightarrow> bool" where
  "sent_to v s q s' q' \<longleftrightarrow>
     cs_received s' = cs_received s \<and> cs_futs s' = cs_futs s \<and> cs_cancelled s' = cs_cancelled s \<and>
     (if ch_closed (cs_chan s) then cs_sent s' = cs_sent s \<and> ch_data (cs_chan s') = ch_data (cs_chan s) \<and> q' = q
      else cs_sent s' = cs_sent s @ [v] \<and>
        (if hands_over q
         then ch_data (cs_chan s') = ch_data (cs_chan s) \<and> q' = q_mark [Some v] False q
         else ch_data (cs_chan s') = ch_data (cs_chan s) @ [v] \<and> q' = q))"

lemma chan_send_ok:
  assumes inv: "chan_inv s q"
  shows "\<exists>s' q'. chan_exec (CSend v) s = Inr s' \<and> chan_inv s' q' \<and> sent_to v s q s' q'"
proof (cases "ch_closed (cs_chan s)")
  case True
  then have "chan_exec (CSend v) s = Inr (s\<lparr>cs_chan := cs_chan s, cs_woken := cs_woken s @ [], cs_sent := cs_sent s\<rparr>)"
    by (simp add: Sender_send_def)
  with inv True show ?thesis by (auto simp: sent_to_def)
next
  case False
  note i = chan_invD [OF inv]
  let ?ts = "if hands_over q then [Some v] else []"
  let ?c = "\<lambda>e. (cs_chan s)\<lparr>ch_event := e,
    ch_data := (if hands_over q then ch_data (cs_chan s) else ch_data (cs_chan s) @ [v])\<rparr>"
  from Sender_send_ok [OF i(1) False, of v] obtain woken e where
    e: "Sender_send v (cs_chan s) = Inr (Inr (), woken, ?c e)" "refines e (q_mark ?ts False q)" .
  have len: "length ?ts \<le> length (q_waiting q)" by (auto simp: hands_over_def Suc_le_eq)
  let ?s' = "s\<lparr>cs_chan := ?c e, cs_woken := cs_woken s @ woken, cs_sent := cs_sent s @ [v]\<rparr>"
  have "chan_here ?s' (q_mark ?ts False q) = add_mset v (chan_here s q)"
    unfolding chan_here_def q_items_mark [OF len] by simp
  then have "items_ok (cs_sent ?s') (chan_here ?s' (q_mark ?ts False q)) (cs_cancelled ?s')"
    using items_ok_send [OF i(7)] by simp
  then have "chan_inv ?s' (q_mark ?ts False q)"
    using i(2,3,5,6,8) e(2) False unfolding chan_inv_def by (simp add: live_ok_mark plain_steps(1))
  moreover have "sent_to v s q ?s' (q_mark ?ts False q)" using False by (simp add: sent_to_def)
  moreover have "chan_exec (CSend v) s = Inr ?s'" using e(1) by simp
  ultimately show ?thesis by blast
qed

lemma channel_close_ok:
  assumes r: "refines (ch_event c) q"
  obtains woken e q' where "channel_close c = Inr (woken, c\<lparr>ch_closed := True, ch_event := e\<rparr>)"
    and "refines e q'" and "q_addrs q' = q_addrs q" and "q_idle q' = q_idle q"
    and "q_waiting q' = []" and "q_items q' = q_items q" and "plain q \<longrightarrow> plain q'"
proof -
  let ?n = "notify_amount usize_max False q"
  have n: "?n = length (q_waiting q)"
    using refines_len_bound [OF r] by (simp add: notify_amount_def)
  have i: "0 \<le> int usize_max" "int usize_max \<le> int usize_max" by simp_all
  have ct: "call_times (\<lambda>_. (None, ())) k () = (replicate k None, ())" for k
    by (induction k) auto
  from refines_notify_with [OF r i ct] obtain woken e where
    e: "notify_int_with (int usize_max) (\<lambda>_. (None, ())) () (ch_event c) = Inr ((), woken, e)"
      "refines e (q_mark (replicate ?n None) False q)" by auto
  have "q_items (q_mark (replicate ?n None) False q) = q_items q"
    using q_items_mark [of "replicate ?n None" q False] n by simp
  moreover have "q_waiting (q_mark (replicate ?n None) False q) = []" using n by simp
  moreover have "q_addrs (q_mark (replicate ?n None) False q) = q_addrs q"
    "q_idle (q_mark (replicate ?n None) False q) = q_idle q" by simp_all
  moreover have "channel_close c = Inr (woken, c\<lparr>ch_closed := True, ch_event := e\<rparr>)"
    using e(1) by (simp add: channel_close_def Let_def)
  ultimately show ?thesis using that [OF _ e(2)] plain_steps(1) by blast
qed

text \<open>The operations on handles leave the items alone.\<close>

definition quiet ::
  "('v, 'w) chan_sys \<Rightarrow> ('v option, 'w) queue \<Rightarrow> ('v, 'w) chan_sys \<Rightarrow> ('v option, 'w) queue \<Rightarrow> bool" where
  "quiet s q s' q' \<longleftrightarrow>
     cs_sent s' = cs_sent s \<and> cs_received s' = cs_received s \<and> cs_futs s' = cs_futs s \<and> cs_cancelled s' = cs_cancelled s \<and>
     ch_data (cs_chan s') = ch_data (cs_chan s) \<and> q_items q' = q_items q \<and>
     (q_waiting q = [] \<longrightarrow> q_waiting q' = [])"

lemma chan_close_inv:
  assumes inv: "chan_inv s q" and c: "ch_event c = ch_event (cs_chan s)" "ch_data c = ch_data (cs_chan s)"
    "ch_senders c \<le> usize_max" "ch_receivers c \<le> usize_max" "ch_senders c = 0 \<or> ch_receivers c = 0"
  shows "\<exists>woken c' q'. channel_close c = Inr (woken, c') \<and>
    (\<forall>ws. chan_inv (s\<lparr>cs_chan := c', cs_woken := ws\<rparr>) q' \<and>
       quiet s q (s\<lparr>cs_chan := c', cs_woken := ws\<rparr>) q')"
proof -
  have "refines (ch_event c) q" using inv c(1) by (simp add: chan_inv_def)
  from channel_close_ok [OF this] obtain woken e q' where
    e: "channel_close c = Inr (woken, c\<lparr>ch_closed := True, ch_event := e\<rparr>)" "refines e q'"
      "q_addrs q' = q_addrs q" "q_idle q' = q_idle q" "q_waiting q' = []" "q_items q' = q_items q" "plain q \<longrightarrow> plain q'" .
  have "live_ok (cs_futs s) q'" using live_ok_same [OF e(3,4)] inv by (simp add: chan_inv_def)
  moreover have "chan_here (s\<lparr>cs_chan := c\<lparr>ch_closed := True, ch_event := e\<rparr>, cs_woken := ws\<rparr>) q' =
      chan_here s q" for ws
    using c(2) e(6) by (simp add: chan_here_def)
  ultimately show ?thesis using e c inv by (auto simp: chan_inv_def quiet_def intro!: exI [of _ q'])
qed

lemma chan_drop_ok:
  assumes inv: "chan_inv s q"
  shows "0 < ch_senders (cs_chan s) \<Longrightarrow> \<exists>s' q'. chan_exec CDrop_sender s = Inr s' \<and> chan_inv s' q' \<and> quiet s q s' q'"
    and "0 < ch_receivers (cs_chan s) \<Longrightarrow> \<exists>s' q'. chan_exec CDrop_receiver s = Inr s' \<and> chan_inv s' q' \<and> quiet s q s' q'"
proof -
  assume pos: "0 < ch_senders (cs_chan s)"
  let ?c = "(cs_chan s)\<lparr>ch_senders := ch_senders (cs_chan s) - 1\<rparr>"
  show "\<exists>s' q'. chan_exec CDrop_sender s = Inr s' \<and> chan_inv s' q' \<and> quiet s q s' q'"
  proof (cases "ch_senders (cs_chan s) = 1")
    case True
    have "ch_senders ?c \<le> usize_max" "ch_receivers ?c \<le> usize_max"
      using chan_invD(5,6) [OF inv] by simp_all
    with chan_close_inv [OF inv, of ?c] True obtain woken c' q' where
      "channel_close ?c = Inr (woken, c')" "\<forall>ws. chan_inv (s\<lparr>cs_chan := c', cs_woken := ws\<rparr>) q' \<and>
        quiet s q (s\<lparr>cs_chan := c', cs_woken := ws\<rparr>) q'"
      by (simp del: One_nat_def) blast
    with True show ?thesis by (fastforce simp: Sender_drop_def Let_def)
  next
    case False
    with pos inv have "chan_inv (s\<lparr>cs_chan := ?c, cs_woken := ws\<rparr>) q \<and>
        quiet s q (s\<lparr>cs_chan := ?c, cs_woken := ws\<rparr>) q" for ws
      by (auto simp: chan_inv_def chan_here_def quiet_def)
    moreover have "chan_exec CDrop_sender s = Inr (s\<lparr>cs_chan := ?c, cs_woken := cs_woken s @ []\<rparr>)"
      using False pos by (simp add: Sender_drop_def Let_def)
    ultimately show ?thesis by blast
  qed
next
  assume pos: "0 < ch_receivers (cs_chan s)"
  let ?c = "(cs_chan s)\<lparr>ch_receivers := ch_receivers (cs_chan s) - 1\<rparr>"
  show "\<exists>s' q'. chan_exec CDrop_receiver s = Inr s' \<and> chan_inv s' q' \<and> quiet s q s' q'"
  proof (cases "ch_receivers (cs_chan s) = 1")
    case True
    have "ch_senders ?c \<le> usize_max" "ch_receivers ?c \<le> usize_max"
      using chan_invD(5,6) [OF inv] by simp_all
    with chan_close_inv [OF inv, of ?c] True obtain woken c' q' where
      "channel_close ?c = Inr (woken, c')" "\<forall>ws. chan_inv (s\<lparr>cs_chan := c', cs_woken := ws\<rparr>) q' \<and>
        quiet s q (s\<lparr>cs_chan := c', cs_woken := ws\<rparr>) q'"
      by (simp del: One_nat_def) blast
    with True show ?thesis by (fastforce simp: Receiver_drop_def Let_def)
  next
    case False
    with pos inv have "chan_inv (s\<lparr>cs_chan := ?c, cs_woken := ws\<rparr>) q \<and>
        quiet s q (s\<lparr>cs_chan := ?c, cs_woken := ws\<rparr>) q" for ws
      by (auto simp: chan_inv_def chan_here_def quiet_def)
    moreover have "chan_exec CDrop_receiver s = Inr (s\<lparr>cs_chan := ?c, cs_woken := cs_woken s @ []\<rparr>)"
      using False pos by (simp add: Receiver_drop_def Let_def)
    ultimately show ?thesis by blast
  qed
qed

text \<open>A poll of a \<open>recv\<close> future: where the item comes from.\<close>

definition recv_effect ::
  "('v, 'w) Channel \<Rightarrow> ('v option, 'w) queue \<Rightarrow> (ChannelClosed + 'v) poll \<Rightarrow> ('v, 'w) Channel
     \<Rightarrow> ('v option, 'w) queue \<Rightarrow> bool" where
  "recv_effect c q p c' q' \<longleftrightarrow>
     (case p of
        Ready (Inr v) \<Rightarrow>
          c' = c \<and> mset (q_items q) = mset (q_items q') + {#v#} \<or>
          ch_data c = v # ch_data c' \<and> c' = c\<lparr>ch_data := ch_data c'\<rparr> \<and> mset (q_items q') = mset (q_items q)
      | Ready (Inl e) \<Rightarrow> c' = c \<and> ch_closed c \<and> ch_data c = [] \<and> mset (q_items q') = mset (q_items q)
      | Pending \<Rightarrow> c' = c \<and> mset (q_items q') = mset (q_items q)) \<and>
     (ch_closed c \<and> q_waiting q = [] \<longrightarrow> q_waiting q' = [])"

lemma recv_effectD:
  assumes "recv_effect c q p c' q'"
  shows "(case p of Ready r \<Rightarrow> mset (received r) | Pending \<Rightarrow> {#}) + mset (ch_data c') + mset (q_items q') =
      mset (ch_data c) + mset (q_items q)"
    and "ch_closed c' = ch_closed c" and "ch_senders c' = ch_senders c" and "ch_receivers c' = ch_receivers c"
    and "ch_closed c \<and> q_waiting q = [] \<longrightarrow> q_waiting q' = []"
proof -
  show "ch_closed c \<and> q_waiting q = [] \<longrightarrow> q_waiting q' = []"
    using assms unfolding recv_effect_def by blast
  have "c' = c \<or> c' = c\<lparr>ch_data := ch_data c'\<rparr>"
    using assms by (auto simp: recv_effect_def split: poll.splits sum.splits)
  then show "ch_closed c' = ch_closed c" "ch_senders c' = ch_senders c" "ch_receivers c' = ch_receivers c"
    by (cases c; cases c'; auto)+
  show "(case p of Ready r \<Rightarrow> mset (received r) | Pending \<Rightarrow> {#}) + mset (ch_data c') + mset (q_items q') =
      mset (ch_data c) + mset (q_items q)"
    using assms by (auto simp: recv_effect_def split: poll.splits sum.splits)
qed

lemma recv_attempt_effect:
  assumes "wait_attempt Receiver_recv a w c q = (p, st', c', q')"
    and "mset (q_items q) = mset (q_items q0)" and "ch_closed c \<and> q_waiting q0 = [] \<longrightarrow> q_waiting q = []"
  shows "recv_effect c q0 p c' q'"
  using assms
  by (auto simp: wait_attempt_def recv_effect_def recv_try_def split: list.splits if_splits)

lemma recv_spec_effect:
  assumes r: "refines (ch_event c) q" and spec: "wait_spec Receiver_recv st a w c q = (p, st', c', q')"
  shows "recv_effect c q p c' q'"
proof (cases "st = Unresumed")
  case True
  with spec recv_attempt_effect [of a w c q p st' c' q' q] show ?thesis by (simp add: wait_spec_def)
next
  case False
  show ?thesis
  proof (cases "notified_tag a q")
    case None
    with False spec show ?thesis by (auto simp: wait_spec_def recv_effect_def)
  next
    case (Some t)
    note items = q_items_remove [OF r Some]
    show ?thesis
    proof (cases t)
      case None
      with False Some spec items show ?thesis
        by (intro recv_attempt_effect [of a w c "q_remove a q" p st' c' q' q]) (auto simp: wait_spec_def)
    next
      case (Some v)
      with False \<open>notified_tag a q = Some t\<close> spec items show ?thesis
        by (auto simp: wait_spec_def recv_effect_def)
    qed
  qed
qed

lemma wait_spec_plain:
  "wait_spec Receiver_recv st a w c q = (p, st', c', q') \<Longrightarrow> plain q \<Longrightarrow> plain q'"
  by (auto simp: wait_spec_def wait_attempt_def plain_steps split: if_splits option.splits prod.splits)

lemma chan_poll_ok:
  assumes inv: "chan_inv s q" and st: "cs_futs s a = Some st" "st \<noteq> Returned"
  obtains p st' c' s' q' where "wait_spec Receiver_recv st a w (cs_chan s) q = (p, st', c', q')"
    and "chan_exec (CPoll a w) s = Inr s'" and "chan_inv s' q'"
    and "cs_futs s' = (cs_futs s)(a \<mapsto> st')" and "ch_data (cs_chan s') = ch_data c'"
    and "ch_closed (cs_chan s') = ch_closed c'" and "cs_sent s' = cs_sent s"
    and "cs_received s' = (case p of Ready r \<Rightarrow> cs_received s @ received r | Pending \<Rightarrow> cs_received s)"
    and "cs_cancelled s' = cs_cancelled s"
proof -
  note i = chan_invD [OF inv]
  have i1: "refines (wf_event Receiver_recv (cs_chan s)) q" using i(1) by simp
  obtain p st' c' e q' where
    r: "wait_poll Receiver_recv st a w (cs_chan s) = Inr (p, st', [], c'\<lparr>ch_event := e\<rparr>)"
    and spec: "wait_spec Receiver_recv st a w (cs_chan s) q = (p, st', c', q')"
    and q': "refines e q'" "live_ok ((cs_futs s)(a \<mapsto> st')) q'"
    using chan.poll_ok [OF TrueI i1 i(2) st, of w] by (metis Receiver_recv_sel(4))
  have eff: "recv_effect (cs_chan s) q p c' q'"
    by (rule recv_spec_effect [OF i(1) spec])
  let ?rs = "case p of Ready r \<Rightarrow> cs_received s @ received r | Pending \<Rightarrow> cs_received s"
  let ?s' = "s\<lparr>cs_chan := c'\<lparr>ch_event := e\<rparr>, cs_futs := (cs_futs s)(a \<mapsto> st'), cs_woken := cs_woken s @ [],
      cs_received := ?rs\<rparr>"
  note eff' = recv_effectD [OF eff]
  have "chan_here ?s' q' = chan_here s q"
    using eff'(1) by (cases p) (simp_all add: chan_here_def add.assoc)
  then have "chan_inv ?s' q'"
    using i(3-7) eff'(2-5) q' wait_spec_plain [OF spec i(8)] unfolding chan_inv_def by simp
  moreover have "chan_exec (CPoll a w) s = Inr ?s'" using r st by simp
  ultimately show ?thesis using that [OF spec, of ?s'] by simp
qed

text \<open>Cancelling a \<open>recv\<close>: a notified one may take an item with it.\<close>

lemma chan_cancel_ok:
  assumes inv: "chan_inv s q" and st: "cs_futs s a = Some st"
  shows "\<exists>s' q'. chan_exec (CCancel a) s = Inr s' \<and> chan_inv s' q' \<and>
    ch_data (cs_chan s') = ch_data (cs_chan s) \<and> cs_sent s' = cs_sent s \<and> cs_received s' = cs_received s \<and>
    cs_futs s' = (cs_futs s)(a := None) \<and> (q_waiting q = [] \<longrightarrow> q_waiting q' = []) \<and>
    cs_cancelled s' = (cs_cancelled s \<or> is_notified (ch_event (cs_chan s)) a) \<and>
    (\<not> is_notified (ch_event (cs_chan s)) a \<longrightarrow> q_items q' = q_items q) \<and>
    (st = Suspended \<longrightarrow> q' = snd (q_drop a q))"
proof -
  note i = chan_invD [OF inv]
  show ?thesis
  proof (cases "st = Suspended")
    case True
    then have a: "a \<in> q_listeners q" using i(2) st by (auto simp: live_ok_def q_listeners_def)
    from chan.drop_suspended [of "cs_chan s" q a] i(1) a True obtain e where
      d: "wait_drop Receiver_recv st a (cs_chan s) = Inr (fst (q_drop a q), (cs_chan s)\<lparr>ch_event := e\<rparr>)"
        "refines e (snd (q_drop a q))" by auto
    let ?q = "snd (q_drop a q)"
    let ?s' = "s\<lparr>cs_chan := (cs_chan s)\<lparr>ch_event := e\<rparr>, cs_futs := (cs_futs s)(a := None),
        cs_woken := cs_woken s @ fst (q_drop a q),
        cs_cancelled := (cs_cancelled s \<or> is_notified (ch_event (cs_chan s)) a)\<rparr>"
    have l: "live_ok ((cs_futs s)(a := None)) ?q" using live_ok_drop(1) [OF i(2)] st True by simp
    have w: "q_waiting q = [] \<Longrightarrow> q_waiting ?q = []"
      by (simp add: q_drop_eq q_forward_def Let_def split: option.split)
    have it: "\<not> is_notified (ch_event (cs_chan s)) a \<Longrightarrow> q_items ?q = q_items q"
      using q_items_drop(1) [OF i(1)] notified_iff [OF i(1)] by simp
    have "chan_here ?s' ?q \<subseteq># chan_here s q"
      using q_items_drop(2) [OF i(1), of a] by (simp add: chan_here_def)
    then have "items_ok (cs_sent ?s') (chan_here ?s' ?q) (cs_cancelled ?s')"
    proof (cases "is_notified (ch_event (cs_chan s)) a")
      case True
      with \<open>chan_here ?s' ?q \<subseteq># chan_here s q\<close> items_ok_lose [OF i(7)] show ?thesis by simp
    next
      case False
      with it i(7) show ?thesis by (simp add: chan_here_def)
    qed
    then have "chan_inv ?s' ?q" using i(3-6) d(2) l w plain_steps(5) [OF i(8)] unfolding chan_inv_def by simp
    moreover have "chan_exec (CCancel a) s = Inr ?s'" using d(1) st by simp
    ultimately show ?thesis using it w by (intro exI [of _ ?s'] exI [of _ ?q]) simp
  next
    case False
    then have d: "wait_drop Receiver_recv st a (cs_chan s) = Inr ([], cs_chan s)"
      by (cases st) (simp_all add: wait_drop_def)
    have l: "live_ok ((cs_futs s)(a := None)) q" using live_ok_drop(2) [OF i(2)] st False by simp
    have "a \<notin> set (q_addrs q)" using i(2) st False by (auto simp: live_ok_def)
    then have n: "\<not> is_notified (ch_event (cs_chan s)) a"
      using refines_is_notified [OF i(1), of a] by (auto simp: q_addrs_def)
    let ?s' = "s\<lparr>cs_chan := cs_chan s, cs_futs := (cs_futs s)(a := None), cs_woken := cs_woken s @ [],
        cs_cancelled := (cs_cancelled s \<or> is_notified (ch_event (cs_chan s)) a)\<rparr>"
    have "chan_inv ?s' q" using i l n unfolding chan_inv_def by (simp add: chan_here_def)
    moreover have "chan_exec (CCancel a) s = Inr ?s'" using d st by simp
    ultimately show ?thesis using False by (intro exI [of _ ?s'] exI [of _ q]) simp
  qed
qed

lemma chan_try_recv_ok:
  assumes inv: "chan_inv s q"
  shows "\<exists>s'. chan_exec CTry_recv s = Inr s' \<and> chan_inv s' q"
proof (cases "ch_data (cs_chan s)")
  case Nil
  then have "chan_exec CTry_recv s = Inr (s\<lparr>cs_chan := cs_chan s, cs_received := cs_received s @ []\<rparr>)"
    by (simp add: Receiver_try_recv_def)
  with inv show ?thesis by auto
next
  case (Cons v data)
  let ?s' = "s\<lparr>cs_chan := (cs_chan s)\<lparr>ch_data := data\<rparr>, cs_received := cs_received s @ [v]\<rparr>"
  have "chan_here ?s' q = chan_here s q" using Cons by (simp add: chan_here_def)
  then have "chan_inv ?s' q" using chan_invD [OF inv] unfolding chan_inv_def by simp
  moreover have "chan_exec CTry_recv s = Inr ?s'" using Cons by (simp add: Receiver_try_recv_def)
  ultimately show ?thesis by blast
qed

lemma chan_exec_ok:
  assumes "\<exists>q. chan_inv s q" and "chan_enabled op s"
  shows "\<exists>s'. chan_exec op s = Inr s' \<and> (\<exists>q. chan_inv s' q)"
proof -
  from assms(1) obtain q where inv: "chan_inv s q" by blast
  show ?thesis
  proof (cases op)
    case (CSend v)
    with chan_send_ok [OF inv] show ?thesis by blast
  next
    case CClone_sender
    with inv assms(2) have "chan_inv (s\<lparr>cs_chan := (cs_chan s)\<lparr>ch_senders := ch_senders (cs_chan s) + 1\<rparr>\<rparr>) q"
      by (simp add: chan_inv_def chan_here_def)
    with CClone_sender assms(2) show ?thesis by (auto simp: Sender_clone_def)
  next
    case CDrop_sender
    with chan_drop_ok(1) [OF inv] assms(2) show ?thesis by fastforce
  next
    case CClone_receiver
    with inv assms(2) have "chan_inv (s\<lparr>cs_chan := (cs_chan s)\<lparr>ch_receivers := ch_receivers (cs_chan s) + 1\<rparr>\<rparr>) q"
      by (simp add: chan_inv_def chan_here_def)
    with CClone_receiver assms(2) show ?thesis by (auto simp: Receiver_clone_def)
  next
    case CDrop_receiver
    then have "0 < ch_receivers (cs_chan s)" using assms(2) by auto
    from chan_drop_ok(2) [OF inv this] CDrop_receiver show ?thesis by blast
  next
    case CTry_recv
    with chan_try_recv_ok [OF inv] show ?thesis by blast
  next
    case (CRecv a)
    with inv assms(2) have "chan_inv (s\<lparr>cs_futs := (cs_futs s)(a \<mapsto> Unresumed)\<rparr>) q"
      by (simp add: chan_inv_def chan_here_def live_ok_create)
    with CRecv show ?thesis by auto
  next
    case (CPoll a w)
    then obtain st where "cs_futs s a = Some st" "st \<noteq> Returned" using assms(2) by auto
    from chan_poll_ok [OF inv this, of w] CPoll show ?thesis by metis
  next
    case (CCancel a)
    then obtain st where "cs_futs s a = Some st" using assms(2) by auto
    from chan_cancel_ok [OF inv this] CCancel show ?thesis by blast
  qed
qed

lemma chan_start_ok: "chan_inv chan_init q_empty"
  by (simp add: chan_inv_def chan_init_def channel_def refines_empty live_ok_empty chan_here_def
      items_ok_def) (simp add: q_items_def q_empty_def plain_def)

interpretation chan_machine: machine chan_enabled chan_exec chan_init "\<lambda>s. \<exists>q. chan_inv s q"
  by unfold_locales (use chan_start_ok chan_exec_ok in blast)+

section \<open>One consumer\<close>

text \<open>
  One consumer that does one thing at a time: a \<open>recv\<close> or \<open>try_recv\<close> is started only when no
  \<open>recv\<close> is pending. A pending \<open>recv\<close> may be cancelled at any time.
\<close>

definition nobody_receives :: "('v, 'w) chan_sys \<Rightarrow> bool" where
  "nobody_receives s \<longleftrightarrow> (\<forall>b. cs_futs s b = None \<or> cs_futs s b = Some Returned)"

fun chan_single :: "('v, 'w) chan_op \<Rightarrow> ('v, 'w) chan_sys \<Rightarrow> bool" where
  "chan_single (CRecv a) s = (chan_enabled (CRecv a) s \<and> nobody_receives s)"
| "chan_single CTry_recv s = (chan_enabled CTry_recv s \<and> nobody_receives s)"
| "chan_single op s = chan_enabled op s"

declare nobody_receives_def [evals]

definition chan_reach1 :: "('v, 'w) chan_sys \<Rightarrow> bool" where
  "chan_reach1 = reach chan_single chan_exec chan_init"

lemma chan_single_enabled: "chan_single op s \<Longrightarrow> chan_enabled op s"
  by (cases op) auto

definition one_live :: "(addr \<rightharpoonup> fut) \<Rightarrow> bool" where
  "one_live futs \<longleftrightarrow> (\<forall>a b. futs a \<in> {Some Unresumed, Some Suspended} \<longrightarrow>
     futs b \<in> {Some Unresumed, Some Suspended} \<longrightarrow> a = b)"

lemma one_live_create:
  "\<forall>b. futs b = None \<or> futs b = Some Returned \<Longrightarrow> one_live (futs(a \<mapsto> st))"
  unfolding one_live_def by (metis fun_upd_apply insertE fut.distinct(3,5) option.distinct(1) option.inject singletonD)

lemma one_live_step:
  assumes "one_live futs" and "futs a = Some st" "st \<noteq> Returned"
  shows "one_live (futs(a \<mapsto> st'))"
proof -
  have "futs a \<in> {Some Unresumed, Some Suspended}" using assms(2,3) by (cases st) auto
  then have "x = a" if "(futs(a \<mapsto> st')) x \<in> {Some Unresumed, Some Suspended}" for x
    using assms(1) that unfolding one_live_def by (metis fun_upd_apply)
  then show ?thesis unfolding one_live_def by metis
qed

lemma one_live_delete: "one_live futs \<Longrightarrow> one_live (futs(a := None))"
  by (simp add: one_live_def)

text \<open>
  The items that have left the channel, in the order in which they were sent: the consumer has received
  them, but for those that went with a cancelled \<open>recv\<close>.
\<close>

definition left_channel :: "('v, 'w) chan_sys \<Rightarrow> 'v list \<Rightarrow> bool" where
  "left_channel s gone \<longleftrightarrow> subseq (cs_received s) gone \<and> (cs_cancelled s \<or> gone = cs_received s)"

lemma left_channel_receive:
  "left_channel s gone \<Longrightarrow> cs_received s' = cs_received s @ vs \<Longrightarrow> cs_cancelled s' = cs_cancelled s \<Longrightarrow>
     left_channel s' (gone @ vs)"
  by (auto simp: left_channel_def)

lemma left_channel_lose:
  "left_channel s gone \<Longrightarrow> cs_received s' = cs_received s \<Longrightarrow> cs_cancelled s' \<Longrightarrow> left_channel s' (gone @ vs)"
  by (auto simp: left_channel_def)

definition fifo_inv :: "('v, 'w) chan_sys \<Rightarrow> ('v option, 'w) queue \<Rightarrow> bool" where
  "fifo_inv s q \<longleftrightarrow> chan_inv s q \<and>
     one_live (cs_futs s) \<and>
     (\<exists>gone. cs_sent s = gone @ q_items q @ ch_data (cs_chan s) \<and> left_channel s gone) \<and>
     (q_waiting q \<noteq> [] \<longrightarrow> ch_data (cs_chan s) = [])"

text \<open>There is at most one listener, waiting or notified.\<close>

lemma single_queue:
  assumes r: "refines ev q" and l: "live_ok futs q"
    and one: "one_live futs"
  shows "futs a = Some Unresumed \<Longrightarrow> q_notified q = [] \<and> q_waiting q = []"
    and "q_notified q = [] \<or> q_waiting q = []"
    and "\<forall>x. futs x = None \<or> futs x = Some Returned \<Longrightarrow> q_notified q = [] \<and> q_waiting q = []"
    and "notified_tag a q = Some t \<Longrightarrow> \<exists>b. q_notified q = [(a, t, b)]"
    and "length (q_waiting q) \<le> 1"
proof -
  have set: "set (q_addrs q) = {a. futs a = Some Suspended}" and d: "distinct (q_addrs q)"
    using l refines_wf(1) [OF r] by (simp_all add: live_ok_def)
  have u: "x = y" if "x \<in> set (q_addrs q)" "y \<in> set (q_addrs q)" for x y
  proof -
    have "futs x = Some Suspended" "futs y = Some Suspended" using that set by auto
    then show ?thesis using one by (simp add: one_live_def)
  qed
  have len: "length (q_addrs q) \<le> 1"
  proof (cases "q_addrs q")
    case (Cons x xs)
    have "xs = []"
    proof (cases xs)
      case (Cons y ys)
      with \<open>q_addrs q = x # xs\<close> d u [of x y] show ?thesis by simp
    qed
    with Cons show ?thesis by simp
  qed simp
  then have ll: "length (q_notified q) + length (q_waiting q) \<le> 1" by (simp add: q_addrs_def)
  then show "q_notified q = [] \<or> q_waiting q = []" "length (q_waiting q) \<le> 1"
    by (cases "q_notified q"; cases "q_waiting q"; simp)+
  show "q_notified q = [] \<and> q_waiting q = []" if "\<forall>x. futs x = None \<or> futs x = Some Returned"
  proof -
    have "set (q_addrs q) = {}" unfolding set using that by (metis (mono_tags, lifting) Collect_empty_eq fut.distinct(5) not_Some_eq option.inject)
    then show ?thesis by (simp add: q_addrs_def)
  qed
  show "q_notified q = [] \<and> q_waiting q = []" if "futs a = Some Unresumed"
  proof -
    have "set (q_addrs q) = {}"
    proof (rule equals0I)
      fix x assume "x \<in> set (q_addrs q)"
      then have "futs x = Some Suspended" using set by simp
      with one that have "x = a" unfolding one_live_def by blast
      with that \<open>futs x = Some Suspended\<close> show False by simp
    qed
    then show ?thesis by (simp add: q_addrs_def)
  qed
  assume t: "notified_tag a q = Some t"
  then obtain b where "map_of (q_notified q) a = Some (t, b)" by (auto simp: notified_tag_def)
  moreover obtain x xs where x: "q_notified q = x # xs" using t by (cases "q_notified q") (auto simp: notified_tag_def)
  moreover have "xs = []" using ll x by (cases xs) auto
  ultimately show "\<exists>b. q_notified q = [(a, t, b)]"
    by (cases x) (auto split: if_splits)
qed

text \<open>A poll by the only consumer takes the oldest item.\<close>

lemma fifo_poll:
  assumes inv: "fifo_inv s q" and st: "cs_futs s a = Some st" "st \<noteq> Returned"
    and spec: "wait_spec Receiver_recv st a w (cs_chan s) q = (p, st', c', q')"
  shows "q_items q @ ch_data (cs_chan s) =
      (case p of Ready r \<Rightarrow> received r | Pending \<Rightarrow> []) @ q_items q' @ ch_data c' \<and>
    (q_waiting q' \<noteq> [] \<longrightarrow> ch_data c' = [])"
proof -
  from inv have i: "refines (ch_event (cs_chan s)) q" "live_ok (cs_futs s) q"
    "one_live (cs_futs s)"
    "q_waiting q \<noteq> [] \<longrightarrow> ch_data (cs_chan s) = []"
    by (simp_all add: fifo_inv_def chan_inv_def)
  note sq = single_queue [OF i(1,2,3)]
  have att: ?thesis if "wait_attempt Receiver_recv a w (cs_chan s) q1 = (p, st', c', q')"
    "q_items q = []" "q_items q1 = []" "q_waiting q1 = []" for q1
    using that by (auto simp: wait_attempt_def recv_try_def split: list.splits if_splits)
  show ?thesis
  proof (cases "st = Unresumed")
    case True
    with sq(1) [of a] st(1) have "q_notified q = []" "q_waiting q = []" by simp_all
    with True spec show ?thesis by (intro att [of q]) (simp_all add: wait_spec_def q_items_def)
  next
    case False
    show ?thesis
    proof (cases "notified_tag a q")
      case None
      with False spec i(4) show ?thesis by (auto simp: wait_spec_def)
    next
      case (Some t)
      from sq(4) [OF Some] obtain b where n: "q_notified q = [(a, t, b)]" by blast
      then have w: "q_waiting q = []" using sq(2) by auto
      show ?thesis
      proof (cases t)
        case None
        with False Some spec n w show ?thesis
          by (intro att [of "q_remove a q"]) (simp_all add: wait_spec_def q_items_def)
      next
        case (Some v)
        with False \<open>notified_tag a q = Some t\<close> spec n w show ?thesis
          by (auto simp: wait_spec_def q_items_def)
      qed
    qed
  qed
qed

lemma fifo_invD:
  assumes "fifo_inv s q"
  shows "chan_inv s q" "one_live (cs_futs s)"
    "\<exists>gone. cs_sent s = gone @ q_items q @ ch_data (cs_chan s) \<and> left_channel s gone"
    "q_waiting q \<noteq> [] \<longrightarrow> ch_data (cs_chan s) = []"
  using assms by (simp_all add: fifo_inv_def)

text \<open>The operations on handles.\<close>

lemma fifo_quiet: "fifo_inv s q \<Longrightarrow> chan_inv s' q' \<Longrightarrow> quiet s q s' q' \<Longrightarrow> fifo_inv s' q'"
  by (auto simp: fifo_inv_def quiet_def left_channel_def)

lemma fifo_handles:
  assumes inv: "fifo_inv s q" and en: "chan_enabled op s"
    and op: "op \<in> {CClone_sender, CDrop_sender, CClone_receiver, CDrop_receiver}"
  shows "\<exists>s' q'. chan_exec op s = Inr s' \<and> fifo_inv s' q'"
proof -
  note ci = fifo_invD(1) [OF inv]
  from op consider "op = CClone_sender" | "op = CDrop_sender" | "op = CClone_receiver" | "op = CDrop_receiver" by blast
  then show ?thesis
  proof cases
    case 1
    let ?s' = "s\<lparr>cs_chan := (cs_chan s)\<lparr>ch_senders := ch_senders (cs_chan s) + 1\<rparr>\<rparr>"
    have "chan_inv ?s' q" using ci en 1 by (simp add: chan_inv_def chan_here_def)
    then have "fifo_inv ?s' q" using fifo_invD(2-4) [OF inv] unfolding fifo_inv_def left_channel_def by simp
    with 1 en show ?thesis by (auto simp: Sender_clone_def)
  next
    case 2
    then have "0 < ch_senders (cs_chan s)" using en by simp
    from chan_drop_ok(1) [OF ci this] 2 fifo_quiet [OF inv] show ?thesis by blast
  next
    case 3
    let ?s' = "s\<lparr>cs_chan := (cs_chan s)\<lparr>ch_receivers := ch_receivers (cs_chan s) + 1\<rparr>\<rparr>"
    have "chan_inv ?s' q" using ci en 3 by (simp add: chan_inv_def chan_here_def)
    then have "fifo_inv ?s' q" using fifo_invD(2-4) [OF inv] unfolding fifo_inv_def left_channel_def by simp
    with 3 en show ?thesis by (auto simp: Receiver_clone_def)
  next
    case 4
    then have "0 < ch_receivers (cs_chan s)" using en by auto
    from chan_drop_ok(2) [OF ci this] 4 fifo_quiet [OF inv] show ?thesis by blast
  qed
qed

lemma fifo_send:
  assumes inv: "fifo_inv s q"
  shows "\<exists>s' q'. chan_exec (CSend v) s = Inr s' \<and> fifo_inv s' q'"
proof -
  note i = fifo_invD [OF inv] and ci = chan_invD [OF fifo_invD(1) [OF inv]]
  note sq = single_queue [OF ci(1,2) i(2)]
  from chan_send_ok [OF i(1)] obtain s' q' where
    e: "chan_exec (CSend v) s = Inr s'" "chan_inv s' q'" "sent_to v s q s' q'" by blast
  from i(3) obtain gone where g: "cs_sent s = gone @ q_items q @ ch_data (cs_chan s)" "left_channel s gone" by blast
  have "cs_sent s' = gone @ q_items q' @ ch_data (cs_chan s')"
    using e(3) g(1) i(4) q_items_mark [of "[Some v]" q False]
    by (auto simp: sent_to_def hands_over_def Suc_le_eq split: if_splits)
  moreover have "left_channel s' gone" using g(2) e(3) by (simp add: left_channel_def sent_to_def)
  moreover have "q_waiting q' \<noteq> [] \<longrightarrow> ch_data (cs_chan s') = []"
    using e(3) i(4) sq(2,5) by (auto simp: sent_to_def hands_over_def split: if_splits)
  moreover have "cs_futs s' = cs_futs s" using e(3) by (simp add: sent_to_def)
  ultimately have "fifo_inv s' q'" using e(2) i(2) by (auto simp: fifo_inv_def)
  with e(1) show ?thesis by blast
qed

lemma fifo_exec_ok:
  assumes "\<exists>q. fifo_inv s q" and "chan_single op s"
  shows "\<exists>s'. chan_exec op s = Inr s' \<and> (\<exists>q. fifo_inv s' q)"
proof -
  from assms(1) obtain q where inv: "fifo_inv s q" by blast
  note ci = fifo_invD(1) [OF inv] and one = fifo_invD(2) [OF inv] and wt = fifo_invD(4) [OF inv]
  from fifo_invD(3) [OF inv] obtain gone where
    sent: "cs_sent s = gone @ q_items q @ ch_data (cs_chan s)" and gone: "left_channel s gone" by blast
  note i = chan_invD [OF ci]
  note sq = single_queue [OF i(1,2) one] and en = chan_single_enabled [OF assms(2)]
  show ?thesis
  proof (cases op)
    case (CSend v)
    with fifo_send [OF inv] show ?thesis by blast
  next
    case CTry_recv
    then have n: "q_notified q = []" "q_waiting q = []"
      using assms(2) sq(3) by (simp_all add: nobody_receives_def)
    from chan_try_recv_ok [OF ci] obtain s' where e: "chan_exec CTry_recv s = Inr s'" "chan_inv s' q" by blast
    have "\<exists>vs. cs_received s' = cs_received s @ vs \<and> ch_data (cs_chan s) = vs @ ch_data (cs_chan s') \<and>
        cs_sent s' = cs_sent s \<and> cs_futs s' = cs_futs s \<and> cs_cancelled s' = cs_cancelled s"
      using e(1) by (auto simp: Receiver_try_recv_def split: list.splits)
    then obtain vs where vs: "cs_received s' = cs_received s @ vs" "ch_data (cs_chan s) = vs @ ch_data (cs_chan s')"
      "cs_sent s' = cs_sent s" "cs_futs s' = cs_futs s" "cs_cancelled s' = cs_cancelled s" by blast
    have "cs_sent s' = (gone @ vs) @ q_items q @ ch_data (cs_chan s')"
      using sent vs(2,3) n by (simp add: q_items_def)
    with left_channel_receive [OF gone vs(1,5)] e(2) one vs(4) n(2) have "fifo_inv s' q"
      unfolding fifo_inv_def by auto
    with e(1) CTry_recv show ?thesis by blast
  next
    case (CRecv a)
    with assms(2) have en: "cs_futs s a = None" "a \<noteq> 0" and
      nb: "\<forall>b. cs_futs s b = None \<or> cs_futs s b = Some Returned" by (simp_all add: nobody_receives_def)
    have "chan_inv (s\<lparr>cs_futs := (cs_futs s)(a \<mapsto> Unresumed)\<rparr>) q"
      using ci en by (simp add: chan_inv_def chan_here_def live_ok_create)
    moreover have "one_live ((cs_futs s)(a \<mapsto> Unresumed))" by (rule one_live_create [OF nb])
    ultimately have "fifo_inv (s\<lparr>cs_futs := (cs_futs s)(a \<mapsto> Unresumed)\<rparr>) q"
      using sent gone wt unfolding fifo_inv_def left_channel_def by auto
    with CRecv show ?thesis by auto
  next
    case (CPoll a w)
    then obtain st where st: "cs_futs s a = Some st" "st \<noteq> Returned" using assms(2) by auto
    from chan_poll_ok [OF ci st, of w] obtain p st' c' s' q' where
      e: "wait_spec Receiver_recv st a w (cs_chan s) q = (p, st', c', q')"
        "chan_exec (CPoll a w) s = Inr s'" "chan_inv s' q'" "cs_futs s' = (cs_futs s)(a \<mapsto> st')"
        "ch_data (cs_chan s') = ch_data c'" "cs_sent s' = cs_sent s"
        "cs_received s' = (case p of Ready r \<Rightarrow> cs_received s @ received r | Pending \<Rightarrow> cs_received s)"
        "cs_cancelled s' = cs_cancelled s"
      by metis
    let ?vs = "case p of Ready r \<Rightarrow> received r | Pending \<Rightarrow> []"
    have "cs_received s' = cs_received s @ ?vs" using e(7) by (cases p) auto
    then have "left_channel s' (gone @ ?vs)" by (rule left_channel_receive [OF gone _ e(8)])
    moreover from fifo_poll [OF inv st e(1)] have
      "cs_sent s' = (gone @ ?vs) @ q_items q' @ ch_data (cs_chan s')"
      "q_waiting q' \<noteq> [] \<longrightarrow> ch_data (cs_chan s') = []"
      using sent e(5,6) by simp_all
    moreover have "one_live (cs_futs s')" unfolding e(4) by (rule one_live_step [OF one st])
    ultimately have "fifo_inv s' q'" using e(3) unfolding fifo_inv_def by blast
    with e(2) CPoll show ?thesis by blast
  next
    case (CCancel a)
    then obtain st where st: "cs_futs s a = Some st" using assms(2) by auto
    from chan_cancel_ok [OF ci st] obtain s' q' where
      e: "chan_exec (CCancel a) s = Inr s'" "chan_inv s' q'"
        "ch_data (cs_chan s') = ch_data (cs_chan s)" "cs_sent s' = cs_sent s" "cs_received s' = cs_received s"
        "cs_futs s' = (cs_futs s)(a := None)" "q_waiting q = [] \<longrightarrow> q_waiting q' = []"
        "cs_cancelled s' = (cs_cancelled s \<or> is_notified (ch_event (cs_chan s)) a)"
        "\<not> is_notified (ch_event (cs_chan s)) a \<longrightarrow> q_items q' = q_items q"
        "st = Suspended \<longrightarrow> q' = snd (q_drop a q)" by blast
    have "one_live (cs_futs s')" unfolding e(6) by (rule one_live_delete [OF one])
    moreover have "q_waiting q' \<noteq> [] \<longrightarrow> ch_data (cs_chan s') = []" using e(3,7) wt by auto
    moreover have "\<exists>gone'. cs_sent s' = gone' @ q_items q' @ ch_data (cs_chan s') \<and> left_channel s' gone'"
    proof (cases "is_notified (ch_event (cs_chan s)) a")
      case False
      then have "cs_sent s' = gone @ q_items q' @ ch_data (cs_chan s')" "left_channel s' gone"
        using e sent gone by (simp_all add: left_channel_def)
      then show ?thesis by blast
    next
      case True
      then obtain t where t: "notified_tag a q = Some t" using notified_iff [OF i(1)] by blast
      from sq(4) [OF t] obtain b where n: "q_notified q = [(a, t, b)]" by blast
      then have "a \<in> set (q_addrs q)" and w: "q_waiting q = []" using sq(2) by (auto simp: q_addrs_def)
      then have "st = Suspended" using i(2) st by (simp add: live_ok_def)
      then have q': "q_items q' = []"
        using e(10) n w by (simp add: q_drop_eq q_forward_def Let_def notify_amount_def q_items_def q_mark_def)
      have "left_channel s' (gone @ q_items q)" using left_channel_lose [OF gone e(5)] e(8) True by simp
      with q' e(3,4) sent show ?thesis by auto
    qed
    ultimately have "fifo_inv s' q'" using e(2) unfolding fifo_inv_def by blast
    with e(1) CCancel show ?thesis by blast
  qed (use fifo_handles [OF inv en] in blast)+
qed

lemma fifo_start_ok: "fifo_inv chan_init q_empty"
  using chan_start_ok
  by (simp add: fifo_inv_def) (simp add: chan_init_def channel_def q_items_def q_empty_def one_live_def left_channel_def)

interpretation fifo_machine: machine chan_single chan_exec chan_init "\<lambda>s. \<exists>q. fifo_inv s q"
  by unfold_locales (use fifo_start_ok fifo_exec_ok in blast)+

section \<open>Properties\<close>

lemma chan_reach_inv: "chan_reach s \<Longrightarrow> \<exists>q. chan_inv s q"
  unfolding chan_reach_def by (rule chan_machine.reach_inv)

lemma fifo_reach_inv: "chan_reach1 s \<Longrightarrow> \<exists>q. fifo_inv s q"
  unfolding chan_reach1_def by (rule fifo_machine.reach_inv)

text \<open>
  No channel operation panics, whatever the interleaving of sends, polls, clones,
  cancellations and drops of handles: every enabled operation of a reachable system returns,
  and counters never wrap.
\<close>

lemma chan_no_fault:
  assumes "chan_reach s" and "chan_enabled op s"
  shows "\<exists>s'. chan_exec op s = Inr s' \<and> chan_reach s' \<and>
    (ch_closed (cs_chan s') \<longleftrightarrow> ch_senders (cs_chan s') = 0 \<or> ch_receivers (cs_chan s') = 0)"
proof -
  from chan_machine.no_fault assms obtain s' where s': "chan_exec op s = Inr s'" "chan_reach s'"
    unfolding chan_reach_def by blast
  from chan_reach_inv [OF s'(2)] obtain q where "chan_inv s' q" by blast
  with s' chan_invD(3) show ?thesis by blast
qed

text \<open>
  C7: Conservation of items. In every reachable system the items returned to receivers, queued
  and in flight are together among the items \<open>send\<close> accepted, none twice; and they are
  all of them unless a \<open>recv\<close> future was dropped after it had been notified.
\<close>

theorem chan_items:
  assumes "chan_reach s"
  shows "mset (cs_received s) + mset (in_flight (ch_event (cs_chan s))) + mset (ch_data (cs_chan s))
      \<subseteq># mset (cs_sent s) \<and>
    (cs_cancelled s \<or> mset (cs_sent s) =
      mset (cs_received s) + mset (in_flight (ch_event (cs_chan s))) + mset (ch_data (cs_chan s)))"
proof -
  from chan_reach_inv [OF assms] obtain q where inv: "chan_inv s q" by blast
  have "mset (cs_received s) + mset (in_flight (ch_event (cs_chan s))) + mset (ch_data (cs_chan s)) =
      chan_here s q"
    using refines_in_flight [OF chan_invD(1) [OF inv]] by (simp add: chan_here_def ac_simps)
  with chan_invD(7) [OF inv] show ?thesis by (simp add: items_ok_def)
qed

theorem chan_items_witness:
  "\<exists>s. run chan_enabled chan_exec [CRecv 8, CPoll 8 (1::nat), CSend (5::nat), CSend 6] chan_init =
      Some (Inr s) \<and>
    mset (cs_received s) + mset [5] + mset (ch_data (cs_chan s)) = mset (cs_sent s)"
proof (rule after_reach)
  show "after chan_enabled chan_exec [CRecv 8, CPoll 8 (1::nat), CSend (5::nat), CSend 6] chan_init
      (\<lambda>s. in_flight (ch_event (cs_chan s)) = [5] \<and> \<not> cs_cancelled s)"
    by (simp add: evals)
qed (use chan_items chan_reach_def in metis)

text \<open>
  Closing reaches everybody. Once the last sender or the last receiver is gone, every
  suspended \<open>recv\<close> future has been notified, and its next poll, with any waker, returns.
\<close>

theorem chan_closed_wakes:
  assumes "chan_reach s" and "ch_senders (cs_chan s) = 0 \<or> ch_receivers (cs_chan s) = 0"
    and "cs_futs s a = Some Suspended"
  shows "is_notified (ch_event (cs_chan s)) a \<and>
    (\<exists>s'. chan_exec (CPoll a w) s = Inr s' \<and> cs_futs s' a = Some Returned)"
proof -
  from chan_reach_inv [OF assms(1)] obtain q where inv: "chan_inv s q" by blast
  note i = chan_invD [OF inv]
  from i(3) assms(2) have cl: "ch_closed (cs_chan s)" by blast
  have "a \<in> set (q_addrs q)" using i(2) assms(3) by (simp add: live_ok_def)
  then have a: "a \<in> fst ` set (q_notified q)" using i(4) cl by (simp add: q_addrs_def)
  then obtain t where t: "notified_tag a q = Some t"
    by (cases "map_of (q_notified q) a") (auto simp: notified_tag_def map_of_eq_None_iff)
  have nr: "Suspended \<noteq> Returned" by simp
  from chan_poll_ok [OF inv assms(3) nr, of w] obtain p st' c' s' q' where
    e: "wait_spec Receiver_recv Suspended a w (cs_chan s) q = (p, st', c', q')"
      "chan_exec (CPoll a w) s = Inr s'" "cs_futs s' = (cs_futs s)(a \<mapsto> st')" by metis
  have "recv_try (cs_chan s) \<noteq> (None, c)" for c using cl by (simp add: recv_try_def split: list.splits)
  with e(1) t have "st' = Returned"
    by (auto simp: wait_spec_def wait_attempt_def split: option.splits prod.splits)
  with e(2,3) refines_is_notified [OF i(1)] a show ?thesis by simp
qed

theorem chan_closed_wakes_witness:
  "\<exists>s. run chan_enabled chan_exec [CRecv 8, CPoll 8 (1::nat), CRecv 16, CPoll 16 2, CDrop_sender]
      (chan_init :: (nat, nat) chan_sys) = Some (Inr s) \<and> is_notified (ch_event (cs_chan s)) 16"
proof (rule after_reach)
  show "after chan_enabled chan_exec [CRecv 8, CPoll 8 (1::nat), CRecv 16, CPoll 16 2, CDrop_sender]
      (chan_init :: (nat, nat) chan_sys)
      (\<lambda>s. ch_senders (cs_chan s) = 0 \<and> cs_futs s 16 = Some Suspended)"
    by (simp add: evals)
qed (use chan_closed_wakes chan_reach_def in metis)

lemma q_items_drop_plain:
  assumes r: "refines ev q" and p: "plain q" and t: "notified_tag a q = Some t"
  shows "mset (q_items (snd (q_drop a q))) +
      (if (\<exists>b. waits ev b) \<and> \<not> (\<exists>b. b \<noteq> a \<and> is_notified ev b) then {#} else mset (somes [t])) = mset (q_items q)"
proof -
  from refines_notified(3) [OF r t] obtain b where b: "map_of (q_notified q) a = Some (t, b)" by blast
  with plain_steps(6) [OF p] have nb: "\<not> b" by blast
  let ?q = "q_del a q"
  have w: "q_waiting ?q = q_waiting q"
    using refines_notified(4) [OF r t] by (auto simp: q_del_def filter_id_conv)
  have "(\<exists>b. waits ev b) \<longleftrightarrow> q_waiting ?q \<noteq> []" unfolding w refines_waits [OF r] by (cases "q_waiting q") auto
  moreover have "\<not> (\<exists>b. b \<noteq> a \<and> is_notified ev b) \<longleftrightarrow> q_notified ?q = []"
    unfolding refines_is_notified [OF r] by (auto simp: q_del_def filter_empty_conv)
  ultimately have pass: "(\<exists>b. waits ev b) \<and> \<not> (\<exists>b. b \<noteq> a \<and> is_notified ev b) \<longleftrightarrow> hands_over ?q"
    by (auto simp: hands_over_def)
  have "q_items (snd (q_drop a q)) = q_items ?q @ somes (if hands_over ?q then [t] else [])"
    using b nb q_items_mark [of "[t]" ?q False] notify_amount_one [of ?q]
    by (auto simp: q_drop_eq q_forward_def Let_def q_items_def hands_over_def Suc_le_eq q_mark_def)
  moreover have "q_items ?q = q_items (q_remove a q)" by (simp add: q_items_def q_del_def)
  ultimately show ?thesis using q_items_remove [OF r t] unfolding pass by (simp add: ac_simps)
qed

text \<open>
  C39: What cancelling a \<open>recv\<close> does. It leaves the queued items and what was received alone, and it loses at most the
  item that was handed to the cancelled future and not taken by a poll: that item passes on to another future if
  one waits un-notified and no other one is notified, and is lost otherwise; a future that was handed none loses none.
\<close>

theorem chan_cancel:
  assumes "chan_reach s" and "cs_futs s a \<noteq> None"
  defines "ev \<equiv> ch_event (cs_chan s)"
  shows "\<exists>s'. chan_exec (CCancel a) s = Inr s' \<and> cs_futs s' = (cs_futs s)(a := None) \<and>
    cs_sent s' = cs_sent s \<and> cs_received s' = cs_received s \<and> ch_data (cs_chan s') = ch_data (cs_chan s) \<and>
    mset (in_flight (ch_event (cs_chan s'))) +
      (if (\<exists>b. waits ev b) \<and> \<not> (\<exists>b. b \<noteq> a \<and> is_notified ev b) then {#} else mset (handed ev a)) =
    mset (in_flight ev)"
proof -
  from chan_reach_inv [OF assms(1)] obtain q where inv: "chan_inv s q" by blast
  note i = chan_invD [OF inv]
  from assms(2) obtain st where st: "cs_futs s a = Some st" by blast
  from chan_cancel_ok [OF inv st] obtain s' q' where e: "chan_exec (CCancel a) s = Inr s'" "chan_inv s' q'"
    "ch_data (cs_chan s') = ch_data (cs_chan s)" "cs_sent s' = cs_sent s" "cs_received s' = cs_received s"
    "cs_futs s' = (cs_futs s)(a := None)" "\<not> is_notified ev a \<longrightarrow> q_items q' = q_items q"
    "st = Suspended \<longrightarrow> q' = snd (q_drop a q)" unfolding ev_def by blast
  note fl = refines_in_flight [OF i(1), folded ev_def] refines_in_flight [OF chan_invD(1) [OF e(2)]]
  note r = i(1) [folded ev_def]
  have "mset (q_items q') +
      (if (\<exists>b. waits ev b) \<and> \<not> (\<exists>b. b \<noteq> a \<and> is_notified ev b) then {#} else mset (handed ev a)) = mset (q_items q)"
  proof (cases "is_notified ev a")
    case False
    with e(7) handed_none [OF False] show ?thesis by simp
  next
    case True
    then obtain t where t: "notified_tag a q = Some t" using notified_iff [OF r] by blast
    then have "a \<in> set (q_addrs q)" by (auto simp: notified_tag_def q_addrs_def dest!: map_of_SomeD) force
    then have "q' = snd (q_drop a q)" using e(8) i(2) st by (simp add: live_ok_def)
    then show ?thesis unfolding handed_tag [OF r t] using q_items_drop_plain [OF r i(8) t] by simp
  qed
  with e fl show ?thesis unfolding ev_def by auto
qed

theorem chan_cancel_witness:
  "\<exists>s. run chan_enabled chan_exec [CRecv 8, CPoll 8 (1::nat), CRecv 16, CPoll 16 2, CSend (5::nat), CCancel 8] chan_init =
      Some (Inr s) \<and>
    (\<exists>s'. chan_exec (CCancel 16) s = Inr s' \<and> cs_received s' = [] \<and> ch_data (cs_chan s') = [] \<and>
       mset (in_flight (ch_event (cs_chan s'))) + {#5#} = {#5#})"
proof (rule after_reach)
  show "after chan_enabled chan_exec [CRecv 8, CPoll 8 (1::nat), CRecv 16, CPoll 16 2, CSend (5::nat), CCancel 8] chan_init
      (\<lambda>s. cs_futs s 16 \<noteq> None \<and> cs_received s = [] \<and> ch_data (cs_chan s) = [] \<and>
         ev_first (ch_event (cs_chan s)) = None \<and> in_flight (ch_event (cs_chan s)) = [5] \<and>
         handed (ch_event (cs_chan s)) 16 = [5] \<and> (\<forall>b. \<not> waits (ch_event (cs_chan s)) b))"
    by (simp add: evals)
next
  fix s :: "(nat, nat) chan_sys"
  assume "reach chan_enabled chan_exec chan_init s"
  then have "chan_reach s" by (simp add: chan_reach_def)
  note c = chan_cancel [OF this, of 16]
  assume "cs_futs s 16 \<noteq> None \<and> cs_received s = [] \<and> ch_data (cs_chan s) = [] \<and>
         ev_first (ch_event (cs_chan s)) = None \<and> in_flight (ch_event (cs_chan s)) = [5] \<and>
         handed (ch_event (cs_chan s)) 16 = [5] \<and> (\<forall>b. \<not> waits (ch_event (cs_chan s)) b)"
  with c show "\<exists>s'. chan_exec (CCancel 16) s = Inr s' \<and> cs_received s' = [] \<and> ch_data (cs_chan s') = [] \<and>
       mset (in_flight (ch_event (cs_chan s'))) + {#5#} = {#5#}" by force
qed

text \<open>An offer that is not taken leaves the event as it is.\<close>

lemma idle_offer:
  assumes "refines ev q" and "\<not> hands_over q"
  shows "notify_int_with 1 take_item (Some v) ev = Inr (Some v, [], ev)"
proof -
  let ?n = "tag_with (Notify 1) take_item (Some v)"
  have "1 \<le> ev_notified ev \<or> ev_first ev = None"
    using assms by (cases "q_notified q"; cases "q_waiting q") (auto simp: refines_def hands_over_def)
  then have "Event_notify (TagWith_impl Notify_impl) ?n ev = Inr (0, [], ?n, ev)"
    by (auto simp: Event_notify_def Inner_notify_def Let_def tag_with_def
        notify_loop.simps [of "TagWith_impl Notify_impl" False "Suc 0 - ev_notified ev"])
  then show ?thesis by (simp add: notify_int_with_def tag_with_def into_notification_def as_usize_def usize_max_def)
qed

text \<open>
  Where an item sent goes. A closed channel refuses it. If some future waits and none has been notified
  without having been polled since, one that waits is handed the item. In every other case it is
  queued and nobody is notified or woken: so when several receivers wait, the second of two items sent in a row is queued
  and the others go on waiting, although there is an item for them.
\<close>

theorem chan_send:
  assumes "chan_reach s"
  defines "c \<equiv> cs_chan s"
  shows "\<exists>res woken c'. Sender_send v c = Inr (res, woken, c') \<and>
    (if ch_closed c then res = Inl ChannelClosed \<and> woken = [] \<and> c' = c
     else res = Inr () \<and>
       (if (\<exists>a. waits (ch_event c) a) \<and> \<not> (\<exists>a. is_notified (ch_event c) a)
        then ch_data c' = ch_data c \<and>
          (\<exists>a. waits (ch_event c) a \<and> handed (ch_event c') a = [v] \<and>
             (\<forall>b. waits (ch_event c') b \<longleftrightarrow> waits (ch_event c) b \<and> b \<noteq> a))
        else woken = [] \<and> c' = c\<lparr>ch_data := ch_data c @ [v]\<rparr>))"
proof (cases "ch_closed c")
  case True
  then show ?thesis by (simp add: Sender_send_def)
next
  case False
  from chan_reach_inv [OF assms(1)] obtain q where "chan_inv s q" by blast
  then have r: "refines (ch_event c) q" by (simp add: chan_inv_def c_def)
  have ho: "(\<exists>a. waits (ch_event c) a) \<and> \<not> (\<exists>a. is_notified (ch_event c) a) \<longleftrightarrow> hands_over q"
    unfolding refines_waits [OF r] refines_is_notified [OF r] hands_over_def
    by (cases "q_waiting q"; cases "q_notified q") auto
  from Sender_send_ok [OF r False, of v] obtain woken e where
    e: "Sender_send v c = Inr (Inr (), woken, c\<lparr>ch_event := e, ch_data := (if hands_over q then ch_data c else ch_data c @ [v])\<rparr>)"
      "refines e (q_mark (if hands_over q then [Some v] else []) False q)" .
  show ?thesis
  proof (cases "hands_over q")
    case True
    then obtain a w ws where q: "q_notified q = []" "q_waiting q = (a, w) # ws"
      by (cases "q_waiting q") (auto simp: hands_over_def)
    have r': "refines e (q_mark [Some v] False q)" using e(2) True by simp
    have "distinct (q_addrs q)" using refines_wf(1) [OF r] .
    then have "a \<notin> fst ` set ws" using q by (simp add: q_addrs_def)
    then have "waits e b \<longleftrightarrow> waits (ch_event c) b \<and> b \<noteq> a" for b
      unfolding refines_waits [OF r] refines_waits [OF r'] using q by (auto simp: q_mark_def)
    moreover have "handed e a = [v]"
      using handed_tag [OF r', of a "Some v"] q by (simp add: notified_tag_def q_mark_def)
    moreover have "waits (ch_event c) a" unfolding refines_waits [OF r] using q by simp
    ultimately show ?thesis unfolding ho using e(1) True False by auto
  next
    case no: False
    have "Sender_send v c = Inr (Inr (), [], c\<lparr>ch_data := ch_data c @ [v]\<rparr>)"
      using idle_offer [OF r no] False by (simp add: Sender_send_def)
    then show ?thesis unfolding ho using no False by simp
  qed
qed

theorem chan_send_witness:
  "\<exists>s. run chan_enabled chan_exec [CRecv 8, CPoll 8 (1::nat), CRecv 16, CPoll 16 2, CSend (5::nat)] chan_init =
      Some (Inr s) \<and> Sender_send 6 (cs_chan s) = Inr (Inr (), [], (cs_chan s)\<lparr>ch_data := [6]\<rparr>)"
proof (rule after_reach)
  show "after chan_enabled chan_exec [CRecv 8, CPoll 8 (1::nat), CRecv 16, CPoll 16 2, CSend (5::nat)] chan_init
      (\<lambda>s. \<not> ch_closed (cs_chan s) \<and> is_notified (ch_event (cs_chan s)) 8 \<and> ch_data (cs_chan s) = [])"
    by (simp add: evals)
  fix s :: "(nat, nat) chan_sys"
  assume "reach chan_enabled chan_exec chan_init s"
    and s: "\<not> ch_closed (cs_chan s) \<and> is_notified (ch_event (cs_chan s)) 8 \<and> ch_data (cs_chan s) = []"
  then have "chan_reach s" by (simp add: chan_reach_def)
  from chan_send [OF this, of 6] show "Sender_send 6 (cs_chan s) = Inr (Inr (), [], (cs_chan s)\<lparr>ch_data := [6]\<rparr>)"
    using s by (elim exE conjE) (simp split: if_splits; blast)
qed

text \<open>
  C8: With one consumer the channel is a queue. The consumer does one thing at a time: it starts a \<open>recv\<close> or
  \<open>try_recv\<close> only when none of its \<open>recv\<close> futures is pending, and may cancel a pending one at any
  time. Then the items sent are, in order and none repeated, those that have left the channel, the one in flight and those
  queued; the consumer has received those that left in their order, and all of them, unless it cancelled a \<open>recv\<close> that had
  been notified already; and a consumer that waits un-notified waits for an empty queue.
\<close>

theorem chan_fifo:
  assumes "chan_reach1 s"
  shows "(\<exists>gone. cs_sent s = gone @ in_flight (ch_event (cs_chan s)) @ ch_data (cs_chan s) \<and>
      subseq (cs_received s) gone \<and> (\<not> cs_cancelled s \<longrightarrow> gone = cs_received s)) \<and>
    (\<forall>a. cs_futs s a = Some Suspended \<longrightarrow> is_notified (ch_event (cs_chan s)) a \<or> ch_data (cs_chan s) = [])"
proof -
  from fifo_reach_inv [OF assms] obtain q where inv: "fifo_inv s q" by blast
  then have ci: "chan_inv s q" by (simp add: fifo_inv_def)
  note i = chan_invD [OF ci]
  have "is_notified (ch_event (cs_chan s)) a" if "cs_futs s a = Some Suspended" "q_waiting q = []" for a
    using that i(2) refines_is_notified [OF i(1)] by (auto simp: live_ok_def q_addrs_def)
  then show ?thesis
    using inv refines_in_flight [OF i(1)] by (auto simp: fifo_inv_def left_channel_def)
qed

theorem chan_fifo_witness:
  "\<exists>s. run chan_single chan_exec
      [CSend 4, CRecv 8, CPoll 8 (1::nat), CCancel 8, CRecv 8, CPoll 8 1, CSend (5::nat), CSend 6, CCancel 8, CRecv 8,
       CPoll 8 1, CCancel 8, CRecv 8, CPoll 8 1, CSend 7, CSend 8] chan_init = Some (Inr s) \<and>
    (\<exists>gone. [4, 5, 6, 7, 8 :: nat] = gone @ [7] @ [8] \<and> subseq [4, 6] gone)"
proof (rule after_reach)
  show "after chan_single chan_exec
      [CSend 4, CRecv 8, CPoll 8 (1::nat), CCancel 8, CRecv 8, CPoll 8 1, CSend (5::nat), CSend 6, CCancel 8, CRecv 8,
       CPoll 8 1, CCancel 8, CRecv 8, CPoll 8 1, CSend 7, CSend 8] chan_init
      (\<lambda>s. cs_sent s = [4, 5, 6, 7, 8] \<and> cs_received s = [4, 6] \<and> in_flight (ch_event (cs_chan s)) = [7] \<and>
         ch_data (cs_chan s) = [8])"
    by (simp add: evals)
next
  fix s :: "(nat, nat) chan_sys"
  assume "reach chan_single chan_exec chan_init s"
  then have "chan_reach1 s" by (simp add: chan_reach1_def)
  from chan_fifo [OF this, THEN conjunct1] obtain gone where
    "cs_sent s = gone @ in_flight (ch_event (cs_chan s)) @ ch_data (cs_chan s)" "subseq (cs_received s) gone" by blast
  moreover assume "cs_sent s = [4, 5, 6, 7, 8] \<and> cs_received s = [4, 6] \<and> in_flight (ch_event (cs_chan s)) = [7] \<and>
    ch_data (cs_chan s) = [8]"
  ultimately show "\<exists>gone. [4, 5, 6, 7, 8 :: nat] = gone @ [7] @ [8] \<and> subseq [4, 6] gone" by metis
qed

end
