(* ===== verification/EventApi.thy ===== *)
theory EventApi
  imports Async Machine
begin

text \<open>
  The public interface of \<open>src/event.rs\<close>: an event, the listeners pinned at their
  addresses, and any sequence of the operations a client can perform on them, with any type of
  notification that satisfies the contract of its trait. The theory relates such a sequence to
  the abstract queue of theory \<open>EventQueue\<close>, and states what notifications, polls and
  drops promise.
\<close>

section \<open>An event and its clients\<close>

text \<open>\<open>vs_got\<close> are the tags that polls have returned, with the listeners.\<close>

record ('t, 'w) event_sys =
  vs_event :: "('t, 'w) Event"
  vs_woken :: "'w list"
  vs_got :: "(addr \<times> 't) list"

datatype ('n, 'w) event_op =
    VNew addr
  | VListen addr
  | VPoll addr 'w
  | VDrop addr
  | VNotify 'n

definition event_start :: "('t, 'w) event_sys" where
  "event_start = \<lparr>vs_event = Event_new, vs_woken = [], vs_got = []\<rparr>"

text \<open>
  A listener is made and pinned where no listener is; the others are operations on a live
  listener. \<open>usable\<close> are the notifications that honour the contract of the trait.
\<close>

fun event_enabled :: "('n \<Rightarrow> bool) \<Rightarrow> ('n, 'w) event_op \<Rightarrow> ('t, 'w) event_sys \<Rightarrow> bool" where
  "event_enabled usable (VNew a) s \<longleftrightarrow> ev_heap (vs_event s) a = None \<and> a \<noteq> 0"
| "event_enabled usable (VListen a) s \<longleftrightarrow> ev_heap (vs_event s) a \<noteq> None"
| "event_enabled usable (VPoll a w) s \<longleftrightarrow> ev_heap (vs_event s) a \<noteq> None"
| "event_enabled usable (VDrop a) s \<longleftrightarrow> ev_heap (vs_event s) a \<noteq> None"
| "event_enabled usable (VNotify n) s \<longleftrightarrow> usable n"

fun polled :: "addr \<Rightarrow> 't poll \<Rightarrow> (addr \<times> 't) list" where
  "polled a (Ready t) = [(a, t)]"
| "polled a Pending = []"

fun event_exec ::
  "('n, 't) NotificationSealed \<Rightarrow> ('n, 'w) event_op \<Rightarrow> ('t, 'w) event_sys \<Rightarrow> ('t, 'w) event_sys outcome" where
  "event_exec N (VNew a) s = Inr (s\<lparr>vs_event := Listener_new a (vs_event s)\<rparr>)"
| "event_exec N (VListen a) s =
     andThen (EventListener_listen a (vs_event s)) (\<lambda>e. Inr (s\<lparr>vs_event := e\<rparr>))"
| "event_exec N (VPoll a w) s =
     andThen (Listener_poll a w (vs_event s)) (\<lambda>(p, e).
     Inr (s\<lparr>vs_event := e, vs_got := vs_got s @ polled a p\<rparr>))"
| "event_exec N (VDrop a) s =
     andThen (Listener_drop a (vs_event s)) (\<lambda>(woken, e).
     Inr (s\<lparr>vs_event := e, vs_woken := vs_woken s @ woken\<rparr>))"
| "event_exec N (VNotify n) s =
     andThen (Event_notify N n (vs_event s)) (\<lambda>(_, woken, _, e).
     Inr (s\<lparr>vs_event := e, vs_woken := vs_woken s @ woken\<rparr>))"

definition event_reach ::
  "('n, 't) NotificationSealed \<Rightarrow> ('n \<Rightarrow> bool) \<Rightarrow> ('t, 'w) event_sys \<Rightarrow> bool" where
  "event_reach N usable = reach (event_enabled usable) (event_exec N) event_start"

declare event_start_def [evals]

section \<open>The specification\<close>

text \<open>The same operations on the abstract queue.\<close>

record ('t, 'w) queue_sys =
  qs_queue :: "('t, 'w) queue"
  qs_woken :: "'w list"
  qs_got :: "(addr \<times> 't) list"

definition queue_start :: "('t, 'w) queue_sys" where
  "queue_start = \<lparr>qs_queue = q_empty, qs_woken = [], qs_got = []\<rparr>"

fun queue_enabled :: "('n \<Rightarrow> bool) \<Rightarrow> ('n, 'w) event_op \<Rightarrow> ('t, 'w) queue_sys \<Rightarrow> bool" where
  "queue_enabled usable (VNew a) s \<longleftrightarrow> a \<notin> q_listeners (qs_queue s) \<and> a \<noteq> 0"
| "queue_enabled usable (VListen a) s \<longleftrightarrow> a \<in> q_listeners (qs_queue s)"
| "queue_enabled usable (VPoll a w) s \<longleftrightarrow> a \<in> q_listeners (qs_queue s)"
| "queue_enabled usable (VDrop a) s \<longleftrightarrow> a \<in> q_listeners (qs_queue s)"
| "queue_enabled usable (VNotify n) s \<longleftrightarrow> usable n"

fun queue_exec ::
  "('n, 't) NotificationSealed \<Rightarrow> ('n, 'w) event_op \<Rightarrow> ('t, 'w) queue_sys \<Rightarrow> ('t, 'w) queue_sys outcome" where
  "queue_exec N (VNew a) s = Inr (s\<lparr>qs_queue := q_new a (qs_queue s)\<rparr>)"
| "queue_exec N (VListen a) s = Inr (s\<lparr>qs_queue := q_listen a (qs_queue s)\<rparr>)"
| "queue_exec N (VPoll a w) s =
     (case q_poll a w (qs_queue s) of (p, q) \<Rightarrow>
     Inr (s\<lparr>qs_queue := q, qs_got := qs_got s @ polled a p\<rparr>))"
| "queue_exec N (VDrop a) s =
     (case q_drop a (qs_queue s) of (woken, q) \<Rightarrow>
     Inr (s\<lparr>qs_queue := q, qs_woken := qs_woken s @ woken\<rparr>))"
| "queue_exec N (VNotify n) s =
     (let q = qs_queue s; k = notify_amount (nt_count N n) (nt_is_additional N n) q in
      andThen (draw N k n) (\<lambda>(ts, _).
      Inr (s\<lparr>qs_queue := q_mark ts (nt_is_additional N n) q,
        qs_woken := qs_woken s @ wakers_of (take k (q_waiting q))\<rparr>)))"

definition simulates :: "('t, 'w) event_sys \<Rightarrow> ('t, 'w) queue_sys \<Rightarrow> bool" where
  "simulates s t \<longleftrightarrow>
     refines (vs_event s) (qs_queue t) \<and> vs_woken s = qs_woken t \<and> vs_got s = qs_got t"

lemma simulates_start: "simulates event_start queue_start"
  by (simp add: simulates_def event_start_def queue_start_def refines_empty)

lemma simulates_enabled:
  "simulates s t \<Longrightarrow> event_enabled usable op s \<longleftrightarrow> queue_enabled usable op t"
  by (cases op) (auto simp: simulates_def refines_def)

context notification
begin

lemma notify_draw:
  assumes "usable n"
  shows "\<exists>ts n'. draw N (notify_amount (nt_count N n) (nt_is_additional N n) q) n = Inr (ts, n') \<and>
    length ts = notify_amount (nt_count N n) (nt_is_additional N n) q"
proof -
  have "notify_amount (nt_count N n) (nt_is_additional N n) q \<le> nt_count N n"
    by (auto simp: notify_amount_def)
  from draw_total [OF assms this] show ?thesis by metis
qed

text \<open>One operation on the pointers is one operation on the queue.\<close>

lemma simulates_step:
  assumes sim: "simulates s t" and en: "queue_enabled usable op t"
  shows "\<exists>s' t'. event_exec N op s = Inr s' \<and> queue_exec N op t = Inr t' \<and> simulates s' t'"
proof (cases op)
  case (VNew a)
  with en sim refines_new [of "vs_event s" "qs_queue t" a] show ?thesis
    by (auto simp: simulates_def)
next
  case (VListen a)
  with en sim refines_listen [of "vs_event s" "qs_queue t" a] show ?thesis
    by (auto simp: simulates_def)
next
  case (VPoll a w)
  with en sim refines_poll [of "vs_event s" "qs_queue t" a w] show ?thesis
    by (cases "q_poll a w (qs_queue t)") (auto simp: simulates_def)
next
  case (VDrop a)
  with en sim refines_drop [of "vs_event s" "qs_queue t" a] show ?thesis
    by (cases "q_drop a (qs_queue t)") (auto simp: simulates_def)
next
  case (VNotify n)
  let ?q = "qs_queue t"
  from VNotify en have "usable n" by simp
  from notify_draw [OF this] obtain ts n' where
    d: "draw N (notify_amount (nt_count N n) (nt_is_additional N n) ?q) n = Inr (ts, n')"
      "length ts = notify_amount (nt_count N n) (nt_is_additional N n) ?q" by blast
  have "refines (vs_event s) ?q" using sim by (simp add: simulates_def)
  from refines_Event_notify [OF this d(1)] obtain e where
    "Event_notify N n (vs_event s) = Inr (length ts, wakers_of (take (length ts) (q_waiting ?q)), n', e)"
    "refines e (q_mark ts (nt_is_additional N n) ?q)" by blast
  with VNotify sim d show ?thesis by (simp add: simulates_def Let_def)
qed

lemma simulates_run:
  assumes "simulates s t" and "run (event_enabled usable) (event_exec N) ops s = Some r"
  shows "\<exists>s' t'. r = Inr s' \<and> run (queue_enabled usable) (queue_exec N) ops t = Some (Inr t') \<and>
    simulates s' t'"
  using assms
proof (induction ops arbitrary: s t)
  case (Cons op ops)
  from Cons.prems have "queue_enabled usable op t"
    using simulates_enabled by (auto split: if_splits)
  from simulates_step [OF Cons.prems(1) this] obtain s1 t1 where
    1: "event_exec N op s = Inr s1" "queue_exec N op t = Inr t1" "simulates s1 t1" by blast
  with Cons.prems have "run (event_enabled usable) (event_exec N) ops s1 = Some r"
    by (auto split: if_splits)
  from Cons.IH [OF 1(3) this] 1(2) \<open>queue_enabled usable op t\<close> show ?case by simp
qed auto

end

sublocale notification \<subseteq> event_machine: machine "event_enabled usable" "event_exec N" event_start
  "\<lambda>s. \<exists>t. simulates s t"
proof
  show "\<exists>t. simulates event_start t" using simulates_start by blast
  show "\<exists>s'. event_exec N op s = Inr s' \<and> (\<exists>t. simulates s' t)"
    if "\<exists>t. simulates s t" and "event_enabled usable op s" for s op
    using that simulates_enabled simulates_step by blast
qed

context notification
begin

lemma event_reach_queue:
  assumes "event_reach N usable s"
  obtains q where "refines (vs_event s) q"
  using event_machine.reach_inv [OF assms [unfolded event_reach_def]] that
  by (auto simp: simulates_def)

lemma event_reach_no_fault:
  assumes "event_reach N usable s" and "event_enabled usable op s"
  shows "\<exists>s'. event_exec N op s = Inr s' \<and> event_reach N usable s'"
  using event_machine.no_fault assms unfolding event_reach_def by blast

end

section \<open>The list as clients see it\<close>

fun entry_notified :: "addr \<times> ('t, 'w) State \<Rightarrow> bool" where
  "entry_notified (a, Notified t addl) = True"
| "entry_notified (a, Waiting w) = False"
| "entry_notified (a, Created) = False"

fun entry_waker :: "addr \<times> ('t, 'w) State \<Rightarrow> 'w list" where
  "entry_waker (a, Waiting w) = [w]"
| "entry_waker (a, Notified t addl) = []"
| "entry_waker (a, Created) = []"

definition notified_part :: "('t, 'w) Event \<Rightarrow> (addr \<times> ('t, 'w) State) list" where
  "notified_part ev = filter entry_notified (Event_list ev)"

definition waiting_part :: "('t, 'w) Event \<Rightarrow> (addr \<times> ('t, 'w) State) list" where
  "waiting_part ev = filter (\<lambda>x. \<not> entry_notified x) (Event_list ev)"

definition wake_list :: "(addr \<times> ('t, 'w) State) list \<Rightarrow> 'w list" where
  "wake_list xs = concat (map entry_waker xs)"

text \<open>The list as it is read backwards from its tail.\<close>

fun walk_back :: "nat \<Rightarrow> (addr \<rightharpoonup> ('t, 'w) Listener) \<Rightarrow> addr option \<Rightarrow> (addr \<times> ('t, 'w) State) list" where
  "walk_back (Suc n) h (Some a) =
     (case h a of
        None \<Rightarrow> []
      | Some l \<Rightarrow> (a, e_state (l_entry l)) # walk_back n h (e_prev (l_entry l)))"
| "walk_back 0 h p = []"
| "walk_back (Suc n) h None = []"

definition Event_back :: "('t, 'w) Event \<Rightarrow> (addr \<times> ('t, 'w) State) list" where
  "Event_back ev = walk_back (ev_len ev) (ev_heap ev) (ev_tail ev)"

declare notified_part_def [evals] waiting_part_def [evals] wake_list_def [evals] Event_back_def [evals]

lemma filter_notified_entries [simp]:
  "filter entry_notified (notified_entries ns) = notified_entries ns"
  "filter (\<lambda>x. \<not> entry_notified x) (notified_entries ns) = []"
  by (induction ns) auto

lemma waiting_not_notified [simp]: "\<not> entry_notified (a, waiting_state w)"
  by (cases w) auto

lemma filter_waiting_entries [simp]:
  "filter entry_notified (waiting_entries ws) = []"
  "filter (\<lambda>x. \<not> entry_notified x) (waiting_entries ws) = waiting_entries ws"
  by (induction ws) auto

lemma refines_parts:
  assumes "refines ev q"
  shows "notified_part ev = notified_entries (q_notified q)"
    and "waiting_part ev = waiting_entries (q_waiting q)"
    and "Event_list ev = notified_entries (q_notified q) @ waiting_entries (q_waiting q)"
  using refines_list [OF assms]
  by (simp_all add: notified_part_def waiting_part_def entries_def)

lemma wake_list_waiting [simp]: "wake_list (waiting_entries ws) = wakers_of ws"
proof (induction ws)
  case (Cons x ws)
  then show ?case
    by (cases x; cases "snd x") (auto simp: wake_list_def wakers_of_def map_filter_def)
qed (simp add: wake_list_def wakers_of_def map_filter_def)

lemma walk_back_dll:
  "dll h None xs n \<Longrightarrow> walk_back (length xs) h (last_of None xs) = rev xs"
proof (induction xs arbitrary: n rule: rev_induct)
  case (snoc x xs)
  obtain a s where x: "x = (a, s)" by (cases x)
  from snoc.prems have "h a = Some (node s (last_of None xs) n)" and "dll h None xs (Some a)"
    by (simp_all add: x)
  with snoc.IH show ?case by (simp add: x)
qed simp

lemma refines_back: "refines ev q \<Longrightarrow> Event_back ev = rev (entries q)"
  using walk_back_dll by (fastforce simp: refines_def Event_back_def)

lemma waiting_entries_take: "take k (waiting_entries ws) = waiting_entries (take k ws)"
  by (simp add: waiting_entries_def take_map)

lemma waiting_entries_drop: "drop k (waiting_entries ws) = waiting_entries (drop k ws)"
  by (simp add: waiting_entries_def drop_map)

text \<open>The entries handed the tags \<open>ts\<close>.\<close>

definition hand_tags :: "(addr \<times> ('t, 'w) State) list \<Rightarrow> 't list \<Rightarrow> bool \<Rightarrow> (addr \<times> ('t, 'w) State) list" where
  "hand_tags xs ts addl = map2 (\<lambda>x t. (fst x, Notified t addl)) xs ts"

declare hand_tags_def [evals]

lemma hand_tags_waiting:
  "hand_tags (waiting_entries ws) ts b = notified_entries (map2 (\<lambda>(a, _) t. (a, t, b)) ws ts)"
  unfolding hand_tags_def by (induction ws ts rule: list_induct2') auto

lemma map2_take: "length ts \<le> length xs \<Longrightarrow> map2 f (take (length ts) xs) ts = map2 f xs ts"
  by (induction xs ts rule: list_induct2') auto

lemma q_mark_entries:
  assumes "length ts \<le> length (q_waiting q)"
  shows "entries (q_mark ts b q) = notified_entries (q_notified q) @
    hand_tags (waiting_entries (take (length ts) (q_waiting q))) ts b @
    waiting_entries (drop (length ts) (q_waiting q))"
  using assms by (simp add: entries_def q_mark_def hand_tags_waiting map2_take)

lemma refines_mark_list:
  assumes "refines ev q" and "refines ev' (q_mark ts b q)" and "length ts \<le> length (q_waiting q)"
  shows "Event_list ev' = notified_part ev @ hand_tags (take (length ts) (waiting_part ev)) ts b @
    drop (length ts) (waiting_part ev)"
  using refines_parts(1,2) [OF assms(1)] refines_list [OF assms(2)] q_mark_entries [OF assms(3)]
  by (simp add: waiting_entries_take waiting_entries_drop)


definition without :: "addr \<Rightarrow> (addr \<times> 'a) list \<Rightarrow> (addr \<times> 'a) list" where
  "without a xs = filter (\<lambda>x. fst x \<noteq> a) xs"

declare without_def [evals]

lemma without_entries:
  "without a (notified_entries ns) = notified_entries (filter (\<lambda>x. fst x \<noteq> a) ns)"
  "without a (waiting_entries ws) = waiting_entries (filter (\<lambda>x. fst x \<noteq> a) ws)"
  "without a (xs @ ys) = without a xs @ without a ys"
  by (induction ns; auto simp: without_def) (induction ws; auto simp: without_def; simp add: without_def)+

lemma entries_del: "entries (q_del a q) = without a (entries q)"
  by (simp add: entries_def q_del_def without_entries)

lemma mem_entries: "(a, Notified t b) \<in> set (entries q) \<longleftrightarrow> (a, t, b) \<in> set (q_notified q)"
proof -
  have "(a, Notified t b) \<notin> set (waiting_entries ws)" for ws :: "(addr \<times> 'b option) list"
  proof (induction ws)
    case (Cons x ws)
    then show ?case by (cases x; cases "snd x") auto
  qed simp
  then show ?thesis by (auto simp: entries_def notified_entries_def intro!: image_eqI)
qed

lemma entries_set_waker:
  assumes "refines ev q" and "a \<notin> fst ` set (q_notified q)"
  shows "entries (q_set_waker a w q) = map (\<lambda>(x, st). (x, if x = a then Waiting w else st)) (entries q)"
proof -
  have "notified_entries ns = map (\<lambda>(x, st). (x, if x = a then Waiting w else st)) (notified_entries ns)"
    if "a \<notin> fst ` set ns" for ns :: "(addr \<times> 'a \<times> bool) list"
    using that by (induction ns) (auto simp: notified_entries_def)
  moreover have "waiting_entries (map (\<lambda>(x, v). (x, if x = a then Some w else v)) ws) =
      map (\<lambda>(x, st). (x, if x = a then Waiting w else st)) (waiting_entries ws :: (addr \<times> ('a, 'b) State) list)" for ws
    by (induction ws) auto
  ultimately show ?thesis using assms(2) by (simp add: entries_def q_set_waker_def)
qed

section \<open>Properties\<close>

lemma event_reach_refines:
  assumes "notification N usable" and "event_reach N usable s"
  obtains q where "refines (vs_event s) q"
  using notification.event_reach_queue [OF assms] by blast

text \<open>
  C1: Memory safety and absence of panics. Under every sequence of creating, inserting, polling,
  dropping and notifying, with any waker and any kind of notification, no pointer to freed memory is
  dereferenced, no counter overflows, no \<open>unwrap\<close> fails and every loop ends: each enabled
  operation of a reachable event returns.
\<close>

theorem event_no_fault:
  assumes "notification N usable" and "event_reach N usable s" and "event_enabled usable op s"
  shows "\<exists>s'. event_exec N op s = Inr s' \<and> event_reach N usable s'"
  by (rule notification.event_reach_no_fault [OF assms])

theorem event_no_fault_witness:
  "\<exists>s. run (event_enabled (\<lambda>n. Notify_0 (tag_inner n) \<le> usize_max)) (event_exec (Tag_impl Notify_impl))
      [VNew 8, VPoll 8 (1 :: nat), VNew 16, VPoll 16 2, VNotify (tag (Notify 1) (7 :: nat))] event_start =
      Some (Inr s) \<and> (\<exists>s'. event_exec (Tag_impl Notify_impl) (VDrop 8) s = Inr s')"
proof (rule after_reach)
  show "after (event_enabled (\<lambda>n. Notify_0 (tag_inner n) \<le> usize_max)) (event_exec (Tag_impl Notify_impl))
      [VNew 8, VPoll 8 (1 :: nat), VNew 16, VPoll 16 2, VNotify (tag (Notify 1) (7 :: nat))] event_start
      (event_enabled (\<lambda>n. Notify_0 (tag_inner n) \<le> usize_max) (VDrop 8))"
    by (simp add: evals)
qed (use event_no_fault [OF counted_tag.notification_axioms, unfolded event_reach_def] in blast)

text \<open>
  C2: Refinement. The event is the abstract queue: every sequence of operations that the event
  performs is one of the queue, with the same listeners in the same order in the same states, the same
  wakers woken in the same order, and the same tags returned by polls.
\<close>

theorem event_refines_queue:
  assumes "notification N usable" and "run (event_enabled usable) (event_exec N) ops event_start = Some r"
  shows "\<exists>s t. r = Inr s \<and> run (queue_enabled usable) (queue_exec N) ops queue_start = Some (Inr t) \<and>
    Event_list (vs_event s) = entries (qs_queue t) \<and> vs_woken s = qs_woken t \<and> vs_got s = qs_got t"
  using notification.simulates_run [OF assms(1) simulates_start assms(2)] refines_list
  unfolding simulates_def by blast

theorem event_refines_queue_witness:
  "\<exists>s t. run (event_enabled (\<lambda>n. Notify_0 n \<le> usize_max)) (event_exec Notify_impl)
      [VNew 8, VPoll 8 (1 :: nat), VNew 16, VListen 16, VNotify (Notify 2), VDrop 8, VPoll 16 3] event_start =
      Some (Inr s) \<and>
    run (queue_enabled (\<lambda>n. Notify_0 n \<le> usize_max)) (queue_exec Notify_impl)
      [VNew 8, VPoll 8 (1 :: nat), VNew 16, VListen 16, VNotify (Notify 2), VDrop 8, VPoll 16 3] queue_start =
      Some (Inr t) \<and> vs_woken s = qs_woken t"
proof -
  let ?ops = "[VNew 8, VPoll 8 (1 :: nat), VNew 16, VListen 16, VNotify (Notify 2), VDrop 8, VPoll 16 3]"
  have "\<exists>r. run (event_enabled (\<lambda>n. Notify_0 n \<le> usize_max)) (event_exec Notify_impl) ?ops event_start =
      Some r"
    by (simp add: evals)
  then obtain r where
    r: "run (event_enabled (\<lambda>n. Notify_0 n \<le> usize_max)) (event_exec Notify_impl) ?ops event_start = Some r" ..
  from event_refines_queue [OF counted.notification_axioms r] r show ?thesis by blast
qed

text \<open>
  C34: The list is well formed in every reachable state: read backwards from the tail it is the
  list read from the head, \<open>len\<close> is its length and no listener occurs twice; the notified
  entries come first, \<open>notified\<close> is their number and \<open>first\<close> points to the first
  of the others.
\<close>

theorem event_well_formed:
  assumes "notification N usable" and "event_reach N usable s"
  defines "ev \<equiv> vs_event s"
  shows "Event_back ev = rev (Event_list ev) \<and> length (Event_list ev) = ev_len ev \<and>
    distinct (map fst (Event_list ev)) \<and> Event_list ev = notified_part ev @ waiting_part ev \<and>
    ev_notified ev = length (notified_part ev) \<and> ev_first ev = first_of (waiting_part ev) None"
proof -
  from event_reach_refines [OF assms(1,2)] obtain q where r: "refines ev q" unfolding ev_def .
  from r have "distinct (map fst (Event_list ev))" "length (Event_list ev) = ev_len ev"
    by (simp_all add: refines_list [OF r]) (simp_all add: refines_def)
  with r refines_parts [OF r] refines_back [OF r] refines_list [OF r] show ?thesis
    by (simp add: refines_def)
qed

theorem event_well_formed_witness:
  "\<exists>s. run (event_enabled (\<lambda>n. Notify_0 n \<le> usize_max)) (event_exec Notify_impl)
      [VNew 8, VPoll 8 (1 :: nat), VNew 16, VListen 16, VNotify (Notify 1)] event_start = Some (Inr s) \<and>
    Event_back (vs_event s) = rev (Event_list (vs_event s))"
proof (rule after_reach)
  show "after (event_enabled (\<lambda>n. Notify_0 n \<le> usize_max)) (event_exec Notify_impl)
      [VNew 8, VPoll 8 (1 :: nat), VNew 16, VListen 16, VNotify (Notify 1)] event_start (\<lambda>_. True)"
    by (simp add: evals)
qed (use event_well_formed [OF counted.notification_axioms, unfolded event_reach_def] in blast)

text \<open>
  C3: A notification marks the waiting listeners in the order in which they were inserted, as
  many as its count allows (less those already notified, unless it is additional), gives each its tag,
  wakes those that had been polled in that order, and returns how many it marked.
\<close>

theorem event_notify:
  assumes "notification N usable" and "event_reach N usable s" and "usable n"
  defines "ev \<equiv> vs_event s"
  defines "k \<equiv> min (if nt_is_additional N n then nt_count N n else nt_count N n - ev_notified ev)
    (length (waiting_part ev))"
  shows "\<exists>ts n' ev'. draw N k n = Inr (ts, n') \<and>
    Event_notify N n ev = Inr (k, wake_list (take k (waiting_part ev)), n', ev') \<and>
    Event_list ev' = notified_part ev @ hand_tags (take k (waiting_part ev)) ts (nt_is_additional N n) @
      drop k (waiting_part ev)"
proof -
  from event_reach_refines [OF assms(1,2)] obtain q where r: "refines ev q" unfolding ev_def .
  then have k: "k = notify_amount (nt_count N n) (nt_is_additional N n) q"
    using refines_parts [OF r] by (simp add: k_def notify_amount_def refines_def)
  from notification.notify_draw [OF assms(1,3)] obtain ts n' where
    d: "draw N k n = Inr (ts, n')" "length ts = k" unfolding k by blast
  from refines_Event_notify [OF r d(1) [unfolded k]] obtain ev' where
    e: "Event_notify N n ev = Inr (length ts, wakers_of (take (length ts) (q_waiting q)), n', ev')"
      "refines ev' (q_mark ts (nt_is_additional N n) q)" by blast
  have "length ts \<le> length (q_waiting q)" unfolding d(2) k by (rule notify_amount_le)
  from refines_mark_list [OF r e(2) this] e(1) d refines_parts [OF r] show ?thesis
    by (simp add: waiting_entries_take)
qed

theorem event_notify_witness:
  "\<exists>s. run (event_enabled (\<lambda>n. Notify_0 (tag_inner n) \<le> usize_max)) (event_exec (Tag_impl Notify_impl))
      [VNew 8, VPoll 8 (1 :: nat), VNew 16, VPoll 16 2, VNew 24, VListen 24] event_start = Some (Inr s) \<and>
    (\<exists>n' ev'. Event_notify (Tag_impl Notify_impl) (tag (Notify 2) (7 :: nat)) (vs_event s) = Inr (2, [1, 2], n', ev'))"
proof (rule after_reach)
  show "after (event_enabled (\<lambda>n. Notify_0 (tag_inner n) \<le> usize_max)) (event_exec (Tag_impl Notify_impl))
      [VNew 8, VPoll 8 (1 :: nat), VNew 16, VPoll 16 2, VNew 24, VListen 24] event_start
      (\<lambda>s. ev_notified (vs_event s) = 0 \<and> map entry_waker (waiting_part (vs_event s)) = [[1], [2], []])"
    by (simp add: evals)
next
  fix s :: "(nat, nat) event_sys"
  let ?n = "tag (Notify 2) (7 :: nat)" and ?w = "waiting_part (vs_event s)"
  assume "reach (event_enabled (\<lambda>n. Notify_0 (tag_inner n) \<le> usize_max)) (event_exec (Tag_impl Notify_impl))
      event_start s" and s: "ev_notified (vs_event s) = 0 \<and> map entry_waker ?w = [[1], [2], []]"
  then have r: "event_reach (Tag_impl Notify_impl) (\<lambda>n. Notify_0 (tag_inner n) \<le> usize_max) s"
    by (simp add: event_reach_def)
  from s have "length (map entry_waker ?w) = 3" by simp
  then have "length ?w = 3" by simp
  moreover have "wake_list (take 2 ?w) = [1, 2]" using s by (simp add: wake_list_def flip: take_map)
  ultimately show "\<exists>n' ev'. Event_notify (Tag_impl Notify_impl) ?n (vs_event s) = Inr (2, [1, 2], n', ev')"
    using event_notify [OF counted_tag.notification_axioms r, of ?n] s
    by (auto simp: tag_def usize_max_def)
qed

text \<open>
  A poll of a notified listener returns its tag and takes it out of the list; a poll of one
  that waits replaces its waker and changes nothing else; a poll of one that is not in the list
  appends it. In all cases the other listeners keep their places.
\<close>

theorem event_poll:
  assumes "notification N usable" and "event_reach N usable s" and "ev_heap (vs_event s) a \<noteq> None"
  defines "xs \<equiv> Event_list (vs_event s)"
  shows "\<exists>p ev'. Listener_poll a w (vs_event s) = Inr (p, ev') \<and>
    (\<forall>t b. (a, Notified t b) \<in> set xs \<longrightarrow> p = Ready t \<and> Event_list ev' = without a xs) \<and>
    (a \<in> fst ` set (waiting_part (vs_event s)) \<longrightarrow> p = Pending \<and>
       Event_list ev' = map (\<lambda>(x, st). (x, if x = a then Waiting w else st)) xs) \<and>
    (a \<notin> fst ` set xs \<longrightarrow> p = Pending \<and> Event_list ev' = xs @ [(a, Waiting w)])"
proof -
  from event_reach_refines [OF assms(1,2)] obtain q where r: "refines (vs_event s) q" .
  from assms(3) r have a: "a \<in> q_listeners q" by (auto simp: refines_def)
  from refines_poll [OF r a, of w] obtain ev' where
    p: "Listener_poll a w (vs_event s) = Inr (fst (q_poll a w q), ev')" "refines ev' (snd (q_poll a w q))"
    by blast
  have ev': "Event_list ev' = entries (snd (q_poll a w q))" by (rule refines_list [OF p(2)])
  note [simp] = refines_parts(2) [OF r] and q_set = entries_set_waker [OF r]
  have xs: "xs = entries q" unfolding xs_def by (rule refines_list [OF r])
  from r a show ?thesis
  proof (cases rule: listener_cases)
    case idle
    then have "map_of (q_notified q) a = None" by (simp add: map_of_eq_None_iff q_addrs_def)
    with idle have "q_poll a w q = (Pending, q_insert a (Some w) q)" "a \<notin> fst ` set (entries q)"
      by (simp_all add: q_poll_def)
    moreover have "a \<notin> fst ` set (q_waiting q)" using idle by (simp add: q_addrs_def)
    moreover have "entries (q_insert a (Some w) q) = entries q @ [(a, Waiting w)]"
      by (simp add: entries_def q_insert_def)
    moreover have "(a, Notified t b) \<notin> set (entries q)" for t b
      using idle by (force simp: mem_entries q_addrs_def)
    ultimately show ?thesis using p(1) ev' unfolding xs by simp
  next
    case (notified t b)
    from split_notified [OF r notified(1)] have nin: "a \<notin> fst ` set (q_waiting q)" by metis
    have "map_of (q_notified q) a = Some (t, b)" using notified(1) map_of_notified(1) [OF r] by simp
    then have "q_poll a w q = (Ready t, q_del a q)" by (simp add: q_poll_def)
    moreover have "t' = t" if "(a, Notified t' b') \<in> set (entries q)" for t' b'
    proof -
      have "(a, t', b') \<in> set (q_notified q)" using that by (simp add: mem_entries)
      then have "map_of (q_notified q) a = Some (t', b')" using map_of_notified(1) [OF r] by simp
      with \<open>map_of (q_notified q) a = Some (t, b)\<close> show ?thesis by simp
    qed
    moreover have "a \<in> fst ` set (entries q)" using notified(1) by (force simp: q_addrs_def)
    ultimately show ?thesis using p(1) ev' nin unfolding xs by (auto simp: entries_del)
  next
    case (waiting v)
    from split_waiting [OF r waiting(1)] have nin: "a \<notin> fst ` set (q_notified q)" by metis
    have idle: "a \<notin> q_idle q" by (rule waiting(2))
    from nin have "map_of (q_notified q) a = None" by (simp add: map_of_eq_None_iff)
    with idle have "q_poll a w q = (Pending, q_set_waker a w q)" by (simp add: q_poll_def)
    moreover have "(a, Notified t b) \<notin> set (entries q)" for t b
      using nin by (force simp: mem_entries)
    moreover have "a \<in> fst ` set (entries q)" using waiting(1) by (force simp: q_addrs_def)
    ultimately show ?thesis using p(1) ev' q_set [OF nin] unfolding xs by simp
  qed
qed


theorem event_poll_witness:
  "\<exists>s. run (event_enabled (\<lambda>n. Notify_0 (tag_inner n) \<le> usize_max)) (event_exec (Tag_impl Notify_impl))
      [VNew 8, VPoll 8 (1 :: nat), VNotify (tag (Notify 1) (7 :: nat))] event_start = Some (Inr s) \<and>
    (\<exists>ev'. Listener_poll 8 (3 :: nat) (vs_event s) = Inr (Ready 7, ev'))"
proof (rule after_reach)
  show "after (event_enabled (\<lambda>n. Notify_0 (tag_inner n) \<le> usize_max)) (event_exec (Tag_impl Notify_impl))
      [VNew 8, VPoll 8 (1 :: nat), VNotify (tag (Notify 1) (7 :: nat))] event_start
      (\<lambda>s. ev_heap (vs_event s) 8 \<noteq> None \<and> (8, Notified 7 False) \<in> set (Event_list (vs_event s)))"
    by (simp add: evals)
next
  fix s :: "(nat, nat) event_sys"
  assume "reach (event_enabled (\<lambda>n. Notify_0 (tag_inner n) \<le> usize_max)) (event_exec (Tag_impl Notify_impl))
      event_start s" and s: "ev_heap (vs_event s) 8 \<noteq> None \<and> (8, Notified 7 False) \<in> set (Event_list (vs_event s))"
  then have "event_reach (Tag_impl Notify_impl) (\<lambda>n. Notify_0 (tag_inner n) \<le> usize_max) s"
    by (simp add: event_reach_def)
  from event_poll [OF counted_tag.notification_axioms this conjunct1 [OF s]] s
  show "\<exists>ev'. Listener_poll 8 (3 :: nat) (vs_event s) = Inr (Ready 7, ev')" by fastforce
qed

lemma drop_notified:
  assumes r: "refines ev q" and "(a, Notified t b) \<in> set (entries q)" and ws: "ws = waiting_entries (q_waiting q)"
    and ns: "ns = notified_entries (filter (\<lambda>x. fst x \<noteq> a) (q_notified q))"
    and k: "k = (if b \<or> ns = [] then min 1 (length ws) else 0)"
  shows "fst (q_drop a q) = wake_list (take k ws) \<and>
      entries (snd (q_drop a q)) = ns @ hand_tags (take k ws) (replicate k t) b @ drop k ws"
proof -
  have m: "(a, t, b) \<in> set (q_notified q)" using assms(2) by (simp add: mem_entries)
  then have "map_of (q_notified q) a = Some (t, b)" using map_of_notified(1) [OF r] by simp
  moreover from split_notified [OF r m] have "a \<notin> fst ` set (q_waiting q)" by metis
  then have w: "q_waiting (q_del a q) = q_waiting q" by (simp add: q_del_def filter_out)
  moreover have n: "notified_entries (q_notified (q_del a q)) = ns" by (simp add: ns q_del_def)
  moreover have "notify_amount 1 b (q_del a q) = k"
  proof -
    have "length (q_notified (q_del a q)) = length ns" using n by (metis notified_entries_simps(5))
    then show ?thesis using w by (cases ns) (auto simp: notify_amount_def k ws)
  qed
  ultimately show ?thesis
    using q_mark_entries [of "replicate k t" "q_del a q" b] k
    by (simp add: q_drop_def q_forward_def Let_def ws waiting_entries_take waiting_entries_drop)
qed

text \<open>
  C4: What dropping a listener does. A notified listener passes its tag on to the first waiting one, if there is one,
  waking it, exactly when its notification is additional or no other listener is notified; otherwise its notification is gone
  and nobody is notified instead. A listener that is not notified leaves without any effect on the others. In
  every case its entry is freed and the order of the others is kept.
\<close>

theorem event_drop:
  assumes "notification N usable" and "event_reach N usable s" and "ev_heap (vs_event s) a \<noteq> None"
  defines "ns \<equiv> without a (notified_part (vs_event s))" and "ws \<equiv> waiting_part (vs_event s)"
  shows "\<exists>woken ev'. Listener_drop a (vs_event s) = Inr (woken, ev') \<and> ev_heap ev' a = None \<and>
    (\<forall>t b. (a, Notified t b) \<in> set (Event_list (vs_event s)) \<longrightarrow>
       (let k = (if b \<or> ns = [] then min 1 (length ws) else 0) in
        woken = wake_list (take k ws) \<and>
        Event_list ev' = ns @ hand_tags (take k ws) (replicate k t) b @ drop k ws)) \<and>
    (a \<notin> fst ` set (notified_part (vs_event s)) \<longrightarrow>
       woken = [] \<and> Event_list ev' = without a (Event_list (vs_event s)))"
proof -
  from event_reach_refines [OF assms(1,2)] obtain q where r: "refines (vs_event s) q" .
  from assms(3) r have a: "a \<in> q_listeners q" by (auto simp: refines_def)
  from refines_drop [OF r a] obtain ev' where
    d: "Listener_drop a (vs_event s) = Inr (fst (q_drop a q), ev')" "refines ev' (snd (q_drop a q))" by blast
  have ev': "Event_list ev' = entries (snd (q_drop a q))" by (rule refines_list [OF d(2)])
  have "a \<notin> q_listeners (snd (q_drop a q))" by (simp add: q_listeners_def q_drop_addrs q_drop_idle)
  then have gone: "ev_heap ev' a = None" using d(2) by (auto simp: refines_def)
  have parts: "notified_part (vs_event s) = notified_entries (q_notified q)" "ws = waiting_entries (q_waiting q)"
    "Event_list (vs_event s) = entries q"
    unfolding ws_def by (rule refines_parts [OF r] refines_list [OF r])+
  have ns: "ns = notified_entries (filter (\<lambda>x. fst x \<noteq> a) (q_notified q))"
    unfolding ns_def parts by (rule without_entries)
  note notified = drop_notified [OF r _ parts(2) ns]
  have other: "fst (q_drop a q) = [] \<and> entries (snd (q_drop a q)) = without a (entries q)"
    if "a \<notin> fst ` set (notified_entries (q_notified q))"
  proof -
    have "map_of (q_notified q) a = None" using that by (simp add: map_of_eq_None_iff)
    then show ?thesis by (simp add: q_drop_def entries_del)
  qed
  show ?thesis
    unfolding parts(1,3) Let_def
  proof (intro exI conjI)
    show "Listener_drop a (vs_event s) = Inr (fst (q_drop a q), ev')" "ev_heap ev' a = None" by fact+
    show "\<forall>t b. (a, Notified t b) \<in> set (entries q) \<longrightarrow>
        fst (q_drop a q) = wake_list (take (if b \<or> ns = [] then min 1 (length ws) else 0) ws) \<and>
        Event_list ev' = ns @ hand_tags (take (if b \<or> ns = [] then min 1 (length ws) else 0) ws)
          (replicate (if b \<or> ns = [] then min 1 (length ws) else 0) t) b @
          drop (if b \<or> ns = [] then min 1 (length ws) else 0) ws"
      unfolding ev' using notified [OF _ refl] by blast
    show "a \<notin> fst ` set (notified_entries (q_notified q)) \<longrightarrow>
        fst (q_drop a q) = [] \<and> Event_list ev' = without a (entries q)"
      unfolding ev' using other by blast
  qed
qed


theorem event_drop_witness:
  "\<exists>s. run (event_enabled (\<lambda>n. Notify_0 (tag_inner n) \<le> usize_max)) (event_exec (Tag_impl Notify_impl))
      [VNew 8, VPoll 8 (1 :: nat), VNew 16, VPoll 16 2, VNotify (tag (Notify 1) (7 :: nat))] event_start =
      Some (Inr s) \<and>
    (\<exists>woken ev'. Listener_drop 8 (vs_event s) = Inr (woken, ev') \<and> ev_heap ev' 8 = None)"
proof (rule after_reach)
  show "after (event_enabled (\<lambda>n. Notify_0 (tag_inner n) \<le> usize_max)) (event_exec (Tag_impl Notify_impl))
      [VNew 8, VPoll 8 (1 :: nat), VNew 16, VPoll 16 2, VNotify (tag (Notify 1) (7 :: nat))] event_start
      (\<lambda>s. ev_heap (vs_event s) 8 \<noteq> None)"
    by (simp add: evals)
next
  fix s :: "(nat, nat) event_sys"
  assume "reach (event_enabled (\<lambda>n. Notify_0 (tag_inner n) \<le> usize_max)) (event_exec (Tag_impl Notify_impl))
      event_start s" and s: "ev_heap (vs_event s) 8 \<noteq> None"
  then have "event_reach (Tag_impl Notify_impl) (\<lambda>n. Notify_0 (tag_inner n) \<le> usize_max) s"
    by (simp add: event_reach_def)
  from event_drop [OF counted_tag.notification_axioms this s]
  show "\<exists>woken ev'. Listener_drop 8 (vs_event s) = Inr (woken, ev') \<and> ev_heap ev' 8 = None" by blast
qed

text \<open>
  Notifying is idempotent: right after a notification of \<open>n\<close> listeners, another one of
  at most \<open>n\<close> (neither of them additional) notifies nobody, wakes nobody, draws no tag and
  leaves the event as it is.
\<close>

theorem event_notify_idempotent:
  assumes "notification N usable" and "event_reach N usable s" and "usable n"
    and "\<not> nt_is_additional N n" "\<not> nt_is_additional M m" "nt_count M m \<le> nt_count N n"
    and "Event_notify N n (vs_event s) = Inr (k, woken, n', ev')"
  shows "Event_notify M m ev' = Inr (0, [], m, ev')"
proof -
  from event_reach_refines [OF assms(1,2)] obtain q where r: "refines (vs_event s) q" .
  from notification.notify_draw [OF assms(1,3)] obtain ts n1 where
    d: "draw N (notify_amount (nt_count N n) (nt_is_additional N n) q) n = Inr (ts, n1)"
      "length ts = notify_amount (nt_count N n) (nt_is_additional N n) q" by blast
  from refines_Event_notify [OF r d(1)] assms(7) have r': "refines ev' (q_mark ts False q)"
    using assms(4) by auto
  have len: "length (q_notified (q_mark ts False q)) = length (q_notified q) + length ts"
    using d(2) notify_amount_le [of "nt_count N n" "nt_is_additional N n" q]
    by (simp add: q_mark_def min_absorb2)
  have "nt_count M m \<le> ev_notified ev' \<or> ev_first ev' = None"
  proof (cases "nt_count N n - length (q_notified q) \<le> length (q_waiting q)")
    case True
    then have "nt_count M m \<le> length (q_notified (q_mark ts False q))"
      using assms(4,6) d(2) unfolding len by (simp add: notify_amount_def)
    then show ?thesis using r' by (simp add: refines_def)
  next
    case False
    then have "q_waiting (q_mark ts False q) = []"
      using assms(4) d(2) by (simp add: q_mark_def notify_amount_def)
    then show ?thesis using r' by (simp add: refines_def)
  qed
  then have "Inner_notify M m ev' = Inr (0, [], m, ev')"
    using assms(5) by (auto simp: Inner_notify_def Let_def notify_loop.simps [of M False "nt_count M m - ev_notified ev'"])
  then show ?thesis by (simp add: refines_Event_notify_Inner [OF r'])
qed

theorem event_notify_idempotent_witness:
  "\<exists>s. run (event_enabled (\<lambda>n. Notify_0 n \<le> usize_max)) (event_exec Notify_impl)
      [VNew 8, VPoll 8 (1 :: nat), VNew 16, VPoll 16 2] event_start = Some (Inr s) \<and>
    (\<exists>n' ev'. Event_notify Notify_impl (Notify 1) (vs_event s) = Inr (1, [1], n', ev') \<and>
      Event_notify Notify_impl (Notify 1) ev' = Inr (0, [], Notify 1, ev'))"
proof (rule after_reach)
  show "after (event_enabled (\<lambda>n. Notify_0 n \<le> usize_max)) (event_exec Notify_impl)
      [VNew 8, VPoll 8 (1 :: nat), VNew 16, VPoll 16 2] event_start
      (\<lambda>s. case Event_notify Notify_impl (Notify 1) (vs_event s) of
         Inr (k, woken, n', ev') \<Rightarrow> k = 1 \<and> woken = [1] | Inl f \<Rightarrow> False)"
    by (simp add: evals)
next
  fix s :: "(unit, nat) event_sys"
  assume "reach (event_enabled (\<lambda>n. Notify_0 n \<le> usize_max)) (event_exec Notify_impl) event_start s"
    and s: "case Event_notify Notify_impl (Notify 1) (vs_event s) of
         Inr (k, woken, n', ev') \<Rightarrow> k = 1 \<and> woken = [1] | Inl f \<Rightarrow> False"
  then have r: "event_reach Notify_impl (\<lambda>n. Notify_0 n \<le> usize_max) s" by (simp add: event_reach_def)
  from s obtain n' ev' where
    e: "Event_notify Notify_impl (Notify 1) (vs_event s) = Inr (1, [1], n', ev')"
    by (auto split: sum.splits)
  have "Notify_0 (Notify 1) \<le> usize_max" by simp
  from event_notify_idempotent [OF counted.notification_axioms r this _ _ _ e, of Notify_impl "Notify 1"] e
  show "\<exists>n' ev'. Event_notify Notify_impl (Notify 1) (vs_event s) = Inr (1, [1], n', ev') \<and>
      Event_notify Notify_impl (Notify 1) ev' = Inr (0, [], Notify 1, ev')" by auto
qed

text \<open>
  C36: The early returns of \<open>Event::notify\<close> are redundant: on every reachable event it does
  what \<open>Inner::notify\<close> does without them.
\<close>

theorem event_guards_redundant:
  assumes "notification N usable" and "event_reach N usable s"
  shows "Event_notify M m (vs_event s) = Inner_notify M m (vs_event s)"
proof -
  from event_reach_refines [OF assms] obtain q where "refines (vs_event s) q" .
  then show ?thesis by (rule refines_Event_notify_Inner)
qed

theorem event_guards_redundant_witness:
  "\<exists>s. run (event_enabled (\<lambda>n. Notify_0 n \<le> usize_max)) (event_exec Notify_impl)
      [VNew 8, VPoll 8 (1 :: nat), VNotify (Notify 1)] event_start = Some (Inr s) \<and>
    Event_notify (Additional_impl Notify_impl) (additional (Notify 0)) (vs_event s) =
    Inner_notify (Additional_impl Notify_impl) (additional (Notify 0)) (vs_event s)"
proof (rule after_reach)
  show "after (event_enabled (\<lambda>n. Notify_0 n \<le> usize_max)) (event_exec Notify_impl)
      [VNew 8, VPoll 8 (1 :: nat), VNotify (Notify 1)] event_start (\<lambda>_. True)"
    by (simp add: evals)
qed (rule event_guards_redundant [OF counted.notification_axioms, unfolded event_reach_def])

lemma as_usize_mod: "as_usize (i mod 2 ^ 64) = as_usize i"
proof -
  have "(word_of_int (i mod 2 ^ 64) :: 64 word) = word_of_int i"
    by (rule word_of_int_eq_iff [THEN iffD2]) (simp add: take_bit_eq_mod)
  then show ?thesis by (simp add: as_usize_def)
qed

text \<open>
  Integers as notifications: a negative count panics and leaves the event untouched, every
  other count is accepted, and counts are taken modulo \<open>2\<^sup>64\<close> (a \<open>u128\<close> of
  \<open>2\<^sup>64\<close> notifies nobody).
\<close>

theorem notify_int_range:
  assumes "notification N usable" and "event_reach N usable s"
  shows "(i < 0 \<longrightarrow> notify_int i (vs_event s) = Inl (Panic Negative_count)) \<and>
    (0 \<le> i \<longrightarrow> (\<exists>r. notify_int i (vs_event s) = Inr r) \<and>
       notify_int i (vs_event s) = notify_int (i mod 2 ^ 64) (vs_event s))"
proof -
  from event_reach_refines [OF assms] obtain q where r: "refines (vs_event s) q" .
  have m: "0 \<le> i mod 2 ^ 64" "i mod 2 ^ 64 \<le> int usize_max"
    using pos_mod_bound [of "2 ^ 64" i] by (simp_all add: usize_max_def)
  have "notify_int i (vs_event s) = notify_int (i mod 2 ^ 64) (vs_event s)" if "0 \<le> i"
  proof -
    have "into_notification i = into_notification (i mod 2 ^ 64)"
      using that m(1)
      by (simp only: into_notification_def as_usize_mod linorder_not_less [symmetric] if_False)
    then show ?thesis by (simp only: notify_int_def)
  qed
  moreover have "notify_int i (vs_event s) = Inl (Panic Negative_count)" if "i < 0"
    using that by (simp add: notify_int_def into_notification_def)
  ultimately show ?thesis using refines_notify_int [OF r m] by auto
qed

theorem notify_int_range_witness:
  "\<exists>s. run (event_enabled (\<lambda>n. Notify_0 n \<le> usize_max)) (event_exec Notify_impl)
      [VNew 8, VPoll 8 (1 :: nat)] event_start = Some (Inr s) \<and>
    notify_int (2 ^ 64 + 1) (vs_event s) = notify_int 1 (vs_event s) \<and>
    notify_int (2 ^ 64) (vs_event s) = Inr (0, [], vs_event s)"
proof (rule after_reach)
  show "after (event_enabled (\<lambda>n. Notify_0 n \<le> usize_max)) (event_exec Notify_impl)
      [VNew 8, VPoll 8 (1 :: nat)] event_start (\<lambda>s. notify_int 0 (vs_event s) = Inr (0, [], vs_event s))"
    by (simp add: evals)
next
  fix s :: "(unit, nat) event_sys"
  assume "reach (event_enabled (\<lambda>n. Notify_0 n \<le> usize_max)) (event_exec Notify_impl) event_start s"
    and s: "notify_int 0 (vs_event s) = Inr (0, [], vs_event s)"
  then have r: "event_reach Notify_impl (\<lambda>n. Notify_0 n \<le> usize_max) s" by (simp add: event_reach_def)
  note c = notify_int_range [OF counted.notification_axioms r]
  show "notify_int (2 ^ 64 + 1) (vs_event s) = notify_int 1 (vs_event s) \<and>
    notify_int (2 ^ 64) (vs_event s) = Inr (0, [], vs_event s)"
    using c [of "2 ^ 64 + 1"] c [of "2 ^ 64"] s by simp
qed

end
