(* ===== verification/Executor.thy ===== *)
theory Executor
  imports Handover Machine
begin

text \<open>
  \<open>src/executor.rs\<close>: the executor. Its local queue, its event and its slab of wakers belong
  to the origin thread and sit behind one \<open>RefCell\<close> (\<open>thread_state\<close>); the mainstream
  queue and its waker are shared with other threads. A runnable is scheduled to one of the two
  queues, or handed to a waiting ticker as the tag of its notification. This theory models the
  operations; the system of an executor and its tickers is in theory \<open>ExecutorSystem\<close>.
\<close>

section \<open>The crates it is built on\<close>

text \<open>
  \<open>concurrent_queue\<close>, \<open>atomic_waker\<close>, \<open>slab\<close> and \<open>async_task\<close> are not part of the
  crate: their operations are parameters. A queue \<open>'q\<close>, an atomic waker \<open>'a\<close>, a slab of
  wakers \<open>'s\<close>, runnables \<open>'r\<close> and wakers \<open>'w\<close>; \<open>rn_task\<close> tells which
  runnable of this executor waking a waker schedules (that of a pending task), if any.
\<close>

record ('q, 'a, 's, 'r, 'w) externs =
  cq_unbounded :: 'q
  cq_push :: "'r \<Rightarrow> 'q \<Rightarrow> ('r + unit) \<times> 'q"
  cq_pop :: "'q \<Rightarrow> 'r option \<times> 'q"
  cq_is_empty :: "'q \<Rightarrow> bool"
  aw_new :: 'a
  aw_register :: "'w \<Rightarrow> 'a \<Rightarrow> 'a"
  aw_take :: "'a \<Rightarrow> 'w option \<times> 'a"
  aw_wake :: "'a \<Rightarrow> 'w list \<times> 'a"
  sl_new :: 's
  sl_vacant_key :: "'s \<Rightarrow> usize"
  sl_insert :: "'w \<Rightarrow> 's \<Rightarrow> usize \<times> 's"
  sl_try_remove :: "usize \<Rightarrow> 's \<Rightarrow> 'w option \<times> 's"
  sl_drain :: "'s \<Rightarrow> 'w list \<times> 's"
  rn_waker :: "'r \<Rightarrow> 'w"
  rn_task :: "'w \<Rightarrow> 'r option"

section \<open>Thread identifiers\<close>

text \<open>
  \<open>trait ThreadId\<close>: a strategy maps the calling thread to its identifier, if it has one.
  \<open>StdThreadId\<close> takes the address of a thread-local variable, a parameter here (there is none
  while a thread shuts down).
\<close>

type_synonym 'th ThreadId = "'th \<Rightarrow> usize option"

definition StdThreadId_id :: "('th \<Rightarrow> addr option) \<Rightarrow> 'th ThreadId" where
  "StdThreadId_id local_addr th = map_option unat (local_addr th)"

definition NoThreadId_id :: "'th ThreadId" where
  "NoThreadId_id th = None"

definition DefaultThreadId_id :: "('th \<Rightarrow> addr option) \<Rightarrow> 'th ThreadId" where
  "DefaultThreadId_id local_addr th = StdThreadId_id local_addr th"

section \<open>The state\<close>

text \<open>
  \<open>State\<close> and the \<open>ThreadState\<close> in it. \<open>ex_borrow\<close> is the flag of the \<open>RefCell\<close>
  around the thread state, \<open>ev_borrow\<close> that of the cell in the event, which is held while the
  event calls wakers. \<open>ex_dropped\<close> tells that the thread state has been destroyed (it is in a
  \<open>ManuallyDrop\<close>), \<open>ex_woken\<close> logs the wakers woken that are not those of tasks of this executor.
\<close>

record ('q, 'a, 's, 'r, 'w, 'th) Executor =
  ex_task_queue :: 'q
  ex_mainstream_waker :: 'a
  ex_thread_id :: "'th ThreadId"
  ex_origin_thread :: "usize option"
  ex_borrow :: borrow
  ts_task_queue :: "'r list"
  ts_thread_waker :: "('r option, 'w) Event"
  ts_active :: 's
  ts_is_mainstream_listening :: bool
  ev_borrow :: borrow
  ex_dropped :: bool
  ex_woken :: "'w list"

text \<open>\<open>Executor::with_thread_id\<close>, called on the thread \<open>th\<close>.\<close>

definition with_thread_id ::
  "('q, 'a, 's, 'r, 'w) externs \<Rightarrow> 'th ThreadId \<Rightarrow> 'th \<Rightarrow> ('q, 'a, 's, 'r, 'w, 'th) Executor" where
  "with_thread_id X tid th =
     \<lparr>ex_task_queue = cq_unbounded X, ex_mainstream_waker = aw_new X, ex_thread_id = tid,
      ex_origin_thread = tid th, ex_borrow = Unused, ts_task_queue = [], ts_thread_waker = Event_new,
      ts_active = sl_new X, ts_is_mainstream_listening = False, ev_borrow = Unused, ex_dropped = False,
      ex_woken = []\<rparr>"

text \<open>\<open>Executor::new\<close>, and \<open>Default\<close> for the default strategy.\<close>

definition Executor_new ::
  "('q, 'a, 's, 'r, 'w) externs \<Rightarrow> ('th \<Rightarrow> addr option) \<Rightarrow> 'th \<Rightarrow> ('q, 'a, 's, 'r, 'w, 'th) Executor" where
  "Executor_new X local_addr th = with_thread_id X (DefaultThreadId_id local_addr) th"

text \<open>
  \<open>thread_state.borrow_mut()\<close>, whose guard is dereferenced right after (undefined behaviour once
  the state has been destroyed), and the drop of the guard; the same for the event.
\<close>

definition ts_lock :: "('q, 'a, 's, 'r, 'w, 'th) Executor \<Rightarrow> ('q, 'a, 's, 'r, 'w, 'th) Executor outcome" where
  "ts_lock ex =
     (case try_borrow_mut (ex_borrow ex) of
        None \<Rightarrow> Inl (Panic Borrow_failed)
      | Some b \<Rightarrow> if ex_dropped ex then Inl UB else Inr (ex\<lparr>ex_borrow := b\<rparr>))"

definition ts_unlock :: "('q, 'a, 's, 'r, 'w, 'th) Executor \<Rightarrow> ('q, 'a, 's, 'r, 'w, 'th) Executor" where
  "ts_unlock ex = ex\<lparr>ex_borrow := drop_ref_mut (ex_borrow ex)\<rparr>"

definition ev_lock :: "('q, 'a, 's, 'r, 'w, 'th) Executor \<Rightarrow> ('q, 'a, 's, 'r, 'w, 'th) Executor outcome" where
  "ev_lock ex =
     (case try_borrow_mut (ev_borrow ex) of
        None \<Rightarrow> Inl (Panic Borrow_failed)
      | Some b \<Rightarrow> Inr (ex\<lparr>ev_borrow := b\<rparr>))"

definition ev_unlock :: "('q, 'a, 's, 'r, 'w, 'th) Executor \<Rightarrow> ('q, 'a, 's, 'r, 'w, 'th) Executor" where
  "ev_unlock ex = ex\<lparr>ev_borrow := drop_ref_mut (ev_borrow ex)\<rparr>"

text \<open>\<open>Executor::is_empty\<close>.\<close>

definition is_empty ::
  "('q, 'a, 's, 'r, 'w) externs \<Rightarrow> ('q, 'a, 's, 'r, 'w, 'th) Executor
     \<Rightarrow> (bool \<times> ('q, 'a, 's, 'r, 'w, 'th) Executor) outcome" where
  "is_empty X ex =
     andThen (ts_lock ex) (\<lambda>ex1.
     let b = (ts_task_queue ex1 = []); ex2 = ts_unlock ex1 in
     Inr (b \<and> cq_is_empty X (ex_task_queue ex2), ex2))"

section \<open>Scheduling\<close>

text \<open>
  Calling wakers: that of a task of this executor calls its scheduler function \<open>sched\<close>.
\<close>

fun wake_all ::
  "('q, 'a, 's, 'r, 'w) externs
     \<Rightarrow> ('r \<Rightarrow> ('q, 'a, 's, 'r, 'w, 'th) Executor \<Rightarrow> ('q, 'a, 's, 'r, 'w, 'th) Executor outcome)
     \<Rightarrow> 'w list \<Rightarrow> ('q, 'a, 's, 'r, 'w, 'th) Executor \<Rightarrow> ('q, 'a, 's, 'r, 'w, 'th) Executor outcome" where
  "wake_all X sched [] ex = Inr ex"
| "wake_all X sched (w # ws) ex =
     andThen (case rn_task X w of
                Some r \<Rightarrow> sched r ex
              | None \<Rightarrow> Inr (ex\<lparr>ex_woken := ex_woken ex @ [w]\<rparr>)) (\<lambda>ex'.
     wake_all X sched ws ex')"

text \<open>\<open>thread_waker.notify(1.tag_with(f))\<close>: the event is borrowed while it calls wakers.\<close>

definition notify_thread ::
  "('q, 'a, 's, 'r, 'w) externs
     \<Rightarrow> ('r \<Rightarrow> ('q, 'a, 's, 'r, 'w, 'th) Executor \<Rightarrow> ('q, 'a, 's, 'r, 'w, 'th) Executor outcome)
     \<Rightarrow> ('e \<Rightarrow> 'r option \<times> 'e) \<Rightarrow> 'e \<Rightarrow> ('q, 'a, 's, 'r, 'w, 'th) Executor
     \<Rightarrow> ('e \<times> ('q, 'a, 's, 'r, 'w, 'th) Executor) outcome" where
  "notify_thread X sched f env ex =
     andThen (ev_lock ex) (\<lambda>ex1.
     andThen (notify_int_with 1 f env (ts_thread_waker ex1)) (\<lambda>(env', woken, e).
     andThen (wake_all X sched woken (ex1\<lparr>ts_thread_waker := e\<rparr>)) (\<lambda>ex2.
     Inr (env', ev_unlock ex2))))"

text \<open>\<open>mainstream_waker.wake()\<close>.\<close>

definition wake_mainstream ::
  "('q, 'a, 's, 'r, 'w) externs
     \<Rightarrow> ('r \<Rightarrow> ('q, 'a, 's, 'r, 'w, 'th) Executor \<Rightarrow> ('q, 'a, 's, 'r, 'w, 'th) Executor outcome)
     \<Rightarrow> ('q, 'a, 's, 'r, 'w, 'th) Executor \<Rightarrow> ('q, 'a, 's, 'r, 'w, 'th) Executor outcome" where
  "wake_mainstream X sched ex =
     (case aw_wake X (ex_mainstream_waker ex) of
        (woken, a) \<Rightarrow> wake_all X sched woken (ex\<lparr>ex_mainstream_waker := a\<rparr>))"

definition same_thread :: "('q, 'a, 's, 'r, 'w, 'th) Executor \<Rightarrow> 'th \<Rightarrow> bool" where
  "same_thread ex th =
     (case ex_origin_thread ex of
        None \<Rightarrow> False
      | Some origin_id \<Rightarrow>
          (case ex_thread_id ex th of None \<Rightarrow> False | Some our_id \<Rightarrow> origin_id = our_id))"

text \<open>
  The scheduler function, called on the thread \<open>th\<close>. A waker it wakes may call it again;
  the fuel bounds how deep.
\<close>

fun schedule ::
  "('q, 'a, 's, 'r, 'w) externs \<Rightarrow> nat \<Rightarrow> 'th \<Rightarrow> 'r \<Rightarrow> ('q, 'a, 's, 'r, 'w, 'th) Executor
     \<Rightarrow> ('q, 'a, 's, 'r, 'w, 'th) Executor outcome" where
  "schedule X 0 th runnable ex = Inl Out_of_fuel"
| "schedule X (Suc n) th runnable ex =
     (if same_thread ex th then
        andThen (ts_lock ex) (\<lambda>ex1.
        \<comment> \<open>Try to send the runnable directly.\<close>
        andThen (notify_thread X (schedule X n th) take_item (Some runnable) ex1) (\<lambda>(item, ex2).
        \<comment> \<open>If that didn't take, push to the queue.\<close>
        case item of
          Some r \<Rightarrow> Inr (ts_unlock (ex2\<lparr>ts_task_queue := ts_task_queue ex2 @ [r]\<rparr>))
        | None \<Rightarrow> Inr (ts_unlock ex2)))
      else
        (case cq_push X runnable (ex_task_queue ex) of
           \<comment> \<open>the runnable is leaked\<close>
           (Inl e, q) \<Rightarrow> Inr (ex\<lparr>ex_task_queue := q\<rparr>)
         | (Inr u, q) \<Rightarrow> wake_mainstream X (schedule X n th) (ex\<lparr>ex_task_queue := q\<rparr>)))"

definition sched_fuel :: nat where
  "sched_fuel = Suc (Suc (Suc 0))"

abbreviation scheduler ::
  "('q, 'a, 's, 'r, 'w) externs \<Rightarrow> 'th \<Rightarrow> 'r \<Rightarrow> ('q, 'a, 's, 'r, 'w, 'th) Executor
     \<Rightarrow> ('q, 'a, 's, 'r, 'w, 'th) Executor outcome" where
  "scheduler X \<equiv> schedule X sched_fuel"

text \<open>
  \<open>Executor::spawn\<close> for the task with runnable \<open>r\<close>, and its index in the slab, which the
  guard in the task (\<open>CallOnDrop\<close>) removes when the task, once polled, is finished.
\<close>

definition spawn ::
  "('q, 'a, 's, 'r, 'w) externs \<Rightarrow> 'th \<Rightarrow> 'r \<Rightarrow> ('q, 'a, 's, 'r, 'w, 'th) Executor
     \<Rightarrow> (usize \<times> ('q, 'a, 's, 'r, 'w, 'th) Executor) outcome" where
  "spawn X th r ex =
     andThen (ts_lock ex) (\<lambda>ex1.
     let index = sl_vacant_key X (ts_active ex1) in
     case sl_insert X (rn_waker X r) (ts_active ex1) of
       (_, s) \<Rightarrow>
         andThen (scheduler X th r (ts_unlock (ex1\<lparr>ts_active := s\<rparr>))) (\<lambda>ex2. Inr (index, ex2)))"

definition CallOnDrop_drop ::
  "('q, 'a, 's, 'r, 'w) externs \<Rightarrow> usize \<Rightarrow> ('q, 'a, 's, 'r, 'w, 'th) Executor
     \<Rightarrow> ('q, 'a, 's, 'r, 'w, 'th) Executor outcome" where
  "CallOnDrop_drop X index ex =
     andThen (ts_lock ex) (\<lambda>ex1.
     Inr (ts_unlock (ex1\<lparr>ts_active := snd (sl_try_remove X index (ts_active ex1))\<rparr>)))"

section \<open>Ticking\<close>

text \<open>
  \<open>Executor::try_tick\<close> up to \<open>runnable.run()\<close>: the runnable to run, if any. Running it is
  left to the environment, which may do anything with the executor meanwhile.
\<close>

definition try_tick ::
  "('q, 'a, 's, 'r, 'w) externs \<Rightarrow> 'th \<Rightarrow> ('q, 'a, 's, 'r, 'w, 'th) Executor
     \<Rightarrow> ('r option \<times> ('q, 'a, 's, 'r, 'w, 'th) Executor) outcome" where
  "try_tick X th ex =
     andThen (ts_lock ex) (\<lambda>ex1.
     case ts_task_queue ex1 of
       r # rs \<Rightarrow>
         \<comment> \<open>Wake up another runner in case we take a while.\<close>
         andThen (notify_thread X (scheduler X th) no_item () (ex1\<lparr>ts_task_queue := rs\<rparr>)) (\<lambda>(_, ex2).
         Inr (Some r, ts_unlock ex2))
     | [] \<Rightarrow>
         let ex2 = ts_unlock ex1 in
         case cq_pop X (ex_task_queue ex2) of
           (Some r, q) \<Rightarrow>
             andThen (wake_mainstream X (scheduler X th) (ex2\<lparr>ex_task_queue := q\<rparr>)) (\<lambda>ex3. Inr (Some r, ex3))
         | (None, q) \<Rightarrow> Inr (None, ex2\<lparr>ex_task_queue := q\<rparr>))"

text \<open>
  A ticker and its current \<open>tick\<close> future: not polled yet; waiting for a runnable; running one
  popped from the local queue (or the last one) and about to return; running one it waited for,
  after which the listener is polled once more; returned.
\<close>

datatype tick_pc = TUnresumed | TWaiting | TLast | TRunning | TReturned

record tick_fut =
  tf_pc :: tick_pc
  tf_is_mainstream :: bool

definition Ticker_new :: tick_fut where
  "Ticker_new = \<lparr>tf_pc = TUnresumed, tf_is_mainstream = False\<rparr>"

text \<open>A poll suspends, runs a runnable (and goes on when that has returned), or returns.\<close>

datatype 'r tick_step = Suspends | Runs 'r | Returns

text \<open>The closure polled in tandem: pop, else register and pop again.\<close>

definition poll_mainstream ::
  "('q, 'a, 's, 'r, 'w) externs \<Rightarrow> 'w \<Rightarrow> ('q, 'a, 's, 'r, 'w, 'th) Executor
     \<Rightarrow> 'r option \<times> ('q, 'a, 's, 'r, 'w, 'th) Executor" where
  "poll_mainstream X w ex =
     (case cq_pop X (ex_task_queue ex) of
        (Some r, q) \<Rightarrow> (Some r, ex\<lparr>ex_task_queue := q\<rparr>)
      | (None, q) \<Rightarrow>
          (let a = aw_register X w (ex_mainstream_waker ex) in
           case cq_pop X q of
             (Some r, q') \<Rightarrow> (Some r, ex\<lparr>ex_task_queue := q', ex_mainstream_waker := snd (aw_take X a)\<rparr>)
           | (None, q') \<Rightarrow> (None, ex\<lparr>ex_task_queue := q', ex_mainstream_waker := a\<rparr>)))"

text \<open>
  One poll of the future that is awaited: the listener at \<open>a\<close> first, and if it is pending
  and this is the mainstream runner, the mainstream queue.
\<close>

definition tick_wait ::
  "('q, 'a, 's, 'r, 'w) externs \<Rightarrow> bool \<Rightarrow> addr \<Rightarrow> 'w \<Rightarrow> ('q, 'a, 's, 'r, 'w, 'th) Executor
     \<Rightarrow> ('r option poll \<times> ('q, 'a, 's, 'r, 'w, 'th) Executor) outcome" where
  "tick_wait X is_mainstream a w ex =
     andThen (Listener_poll a w (ts_thread_waker ex)) (\<lambda>(p, e).
     let ex1 = ex\<lparr>ts_thread_waker := e\<rparr> in
     case p of
       Ready t \<Rightarrow> Inr (Ready t, ex1)
     | Pending \<Rightarrow>
         if is_mainstream then
           (case poll_mainstream X w ex1 of
              (Some r, ex2) \<Rightarrow> Inr (Ready (Some r), ex2)
            | (None, ex2) \<Rightarrow> Inr (Pending, ex2))
         else Inr (Pending, ex1))"

text \<open>The loop of \<open>tick\<close>, bounded by fuel like the loops of theory \<open>Async\<close>.\<close>

fun tick_loop ::
  "('q, 'a, 's, 'r, 'w) externs \<Rightarrow> 'th \<Rightarrow> nat \<Rightarrow> bool \<Rightarrow> addr \<Rightarrow> 'w \<Rightarrow> ('q, 'a, 's, 'r, 'w, 'th) Executor
     \<Rightarrow> ('r tick_step \<times> tick_fut \<times> ('q, 'a, 's, 'r, 'w, 'th) Executor) outcome" where
  "tick_loop X th 0 is_mainstream a w ex = Inl Out_of_fuel"
| "tick_loop X th (Suc n) is_mainstream a w ex =
     andThen (ts_lock ex) (\<lambda>ex1.
     case ts_task_queue ex1 of
       r # rs \<Rightarrow>
         \<comment> \<open>Wake up another runner in case we take a while.\<close>
         andThen (notify_thread X (scheduler X th) no_item () (ex1\<lparr>ts_task_queue := rs\<rparr>)) (\<lambda>(_, ex2).
         Inr (Runs r, \<lparr>tf_pc = TLast, tf_is_mainstream = is_mainstream\<rparr>, ts_unlock ex2))
     | [] \<Rightarrow>
         \<comment> \<open>Acquire the mainstream runner if it hasn't been acquired yet.\<close>
         let m = (is_mainstream \<or> \<not> ts_is_mainstream_listening ex1);
             ex2 = ts_unlock (ex1\<lparr>ts_is_mainstream_listening := True\<rparr>) in
         andThen (tick_wait X m a w ex2) (\<lambda>(p, ex3).
         case p of
           Pending \<Rightarrow> Inr (Suspends, \<lparr>tf_pc = TWaiting, tf_is_mainstream = m\<rparr>, ex3)
         | Ready (Some r) \<Rightarrow> Inr (Runs r, \<lparr>tf_pc = TRunning, tf_is_mainstream = m\<rparr>, ex3)
         | Ready None \<Rightarrow> tick_loop X th n m a w ex3))"

text \<open>Dropping the listener, at the end of a tick and when its future is dropped.\<close>

definition drop_listener ::
  "('q, 'a, 's, 'r, 'w) externs \<Rightarrow> 'th \<Rightarrow> addr \<Rightarrow> ('q, 'a, 's, 'r, 'w, 'th) Executor
     \<Rightarrow> ('q, 'a, 's, 'r, 'w, 'th) Executor outcome" where
  "drop_listener X th a ex =
     andThen (ev_lock ex) (\<lambda>ex1.
     andThen (Listener_drop a (ts_thread_waker ex1)) (\<lambda>(woken, e).
     andThen (wake_all X (scheduler X th) woken (ex1\<lparr>ts_thread_waker := e\<rparr>)) (\<lambda>ex2.
     Inr (ev_unlock ex2))))"

definition tick_return ::
  "('q, 'a, 's, 'r, 'w) externs \<Rightarrow> 'th \<Rightarrow> tick_fut \<Rightarrow> addr \<Rightarrow> ('q, 'a, 's, 'r, 'w, 'th) Executor
     \<Rightarrow> ('r tick_step \<times> tick_fut \<times> ('q, 'a, 's, 'r, 'w, 'th) Executor) outcome" where
  "tick_return X th f a ex =
     andThen (drop_listener X th a ex) (\<lambda>ex1. Inr (Returns, f\<lparr>tf_pc := TReturned\<rparr>, ex1))"

text \<open>\<open>Ticker::tick\<close>, whose listener lives at \<open>a\<close>, from one point to the next.\<close>

definition Ticker_tick ::
  "('q, 'a, 's, 'r, 'w) externs \<Rightarrow> 'th \<Rightarrow> tick_fut \<Rightarrow> addr \<Rightarrow> 'w \<Rightarrow> ('q, 'a, 's, 'r, 'w, 'th) Executor
     \<Rightarrow> ('r tick_step \<times> tick_fut \<times> ('q, 'a, 's, 'r, 'w, 'th) Executor) outcome" where
  "Ticker_tick X th f a w ex =
     (case tf_pc f of
        TUnresumed \<Rightarrow>
          andThen (ts_lock ex) (\<lambda>ex1.
          tick_loop X th poll_fuel (tf_is_mainstream f) a w
            (ts_unlock (ex1\<lparr>ts_thread_waker := Listener_new a (ts_thread_waker ex1)\<rparr>)))
      | TWaiting \<Rightarrow>
          andThen (tick_wait X (tf_is_mainstream f) a w ex) (\<lambda>(p, ex1).
          case p of
            Pending \<Rightarrow> Inr (Suspends, f, ex1)
          | Ready (Some r) \<Rightarrow> Inr (Runs r, f\<lparr>tf_pc := TRunning\<rparr>, ex1)
          | Ready None \<Rightarrow> tick_loop X th poll_fuel (tf_is_mainstream f) a w ex1)
      | TRunning \<Rightarrow>
          \<comment> \<open>Poll the listener to see if there are more runnables.\<close>
          andThen (Listener_poll a w (ts_thread_waker ex)) (\<lambda>(p, e).
          let ex1 = ex\<lparr>ts_thread_waker := e\<rparr> in
          case p of
            Ready (Some r) \<Rightarrow> Inr (Runs r, f\<lparr>tf_pc := TLast\<rparr>, ex1)
          | _ \<Rightarrow> tick_return X th f a ex1)
      | TLast \<Rightarrow> tick_return X th f a ex
      | TReturned \<Rightarrow> Inl (Panic Resumed_after_completion))"

text \<open>\<open>Drop for Ticker\<close>, after the drop of its \<open>tick\<close> future.\<close>

definition Ticker_drop ::
  "('q, 'a, 's, 'r, 'w) externs \<Rightarrow> 'th \<Rightarrow> tick_fut \<Rightarrow> ('q, 'a, 's, 'r, 'w, 'th) Executor
     \<Rightarrow> ('q, 'a, 's, 'r, 'w, 'th) Executor outcome" where
  "Ticker_drop X th f ex =
     (if tf_is_mainstream f then
        andThen (ts_lock (ex\<lparr>ex_mainstream_waker := snd (aw_take X (ex_mainstream_waker ex))\<rparr>)) (\<lambda>ex1.
        andThen (notify_thread X (scheduler X th) no_item () (ex1\<lparr>ts_is_mainstream_listening := False\<rparr>)) (\<lambda>(_, ex2).
        Inr (ts_unlock ex2)))
      else Inr ex)"

definition tick_drop ::
  "('q, 'a, 's, 'r, 'w) externs \<Rightarrow> 'th \<Rightarrow> tick_fut \<Rightarrow> addr \<Rightarrow> ('q, 'a, 's, 'r, 'w, 'th) Executor
     \<Rightarrow> ('q, 'a, 's, 'r, 'w, 'th) Executor outcome" where
  "tick_drop X th f a ex =
     andThen (if tf_pc f = TUnresumed \<or> tf_pc f = TReturned then Inr ex else drop_listener X th a ex) (\<lambda>ex1.
     Ticker_drop X th f ex1)"

section \<open>Dropping the executor\<close>

text \<open>The first loop of \<open>Drop for Executor\<close>; the drain empties the slab.\<close>

fun drop_wake ::
  "('q, 'a, 's, 'r, 'w) externs \<Rightarrow> 'th \<Rightarrow> nat \<Rightarrow> ('q, 'a, 's, 'r, 'w, 'th) Executor
     \<Rightarrow> ('q, 'a, 's, 'r, 'w, 'th) Executor outcome" where
  "drop_wake X th 0 ex = Inl Out_of_fuel"
| "drop_wake X th (Suc n) ex =
     andThen (ts_lock ex) (\<lambda>ex1.
     case sl_drain X (ts_active ex1) of
       (drained, s) \<Rightarrow>
         let ex2 = ts_unlock (ex1\<lparr>ts_active := s\<rparr>) in
         (case drained of
            [] \<Rightarrow> Inr ex2
          | waker # _ \<Rightarrow> andThen (wake_all X (scheduler X th) [waker] ex2) (drop_wake X th n)))"

text \<open>
  Dropping a runnable drops the future of its task. \<open>armed r\<close> is the index in the guard of the
  task's future; there is none in a future that has never been polled.
\<close>

fun drop_runnables ::
  "('q, 'a, 's, 'r, 'w) externs \<Rightarrow> ('r \<Rightarrow> usize option) \<Rightarrow> 'r list \<Rightarrow> ('q, 'a, 's, 'r, 'w, 'th) Executor
     \<Rightarrow> ('q, 'a, 's, 'r, 'w, 'th) Executor outcome" where
  "drop_runnables X armed [] ex = Inr ex"
| "drop_runnables X armed (r # rs) ex =
     andThen (case armed r of None \<Rightarrow> Inr ex | Some index \<Rightarrow> CallOnDrop_drop X index ex)
       (drop_runnables X armed rs)"

text \<open>
  The second loop: it pops from both queues and stops when one is empty. The runnable of the
  mainstream queue is a temporary of the first operand of \<open>&&\<close> and dropped when that has been evaluated (since Rust
  1.67), that of the local queue before the guard of the borrow it was popped through.
\<close>

fun drop_queues ::
  "('q, 'a, 's, 'r, 'w) externs \<Rightarrow> ('r \<Rightarrow> usize option) \<Rightarrow> nat \<Rightarrow> ('q, 'a, 's, 'r, 'w, 'th) Executor
     \<Rightarrow> ('q, 'a, 's, 'r, 'w, 'th) Executor outcome" where
  "drop_queues X armed 0 ex = Inl Out_of_fuel"
| "drop_queues X armed (Suc n) ex =
     (case cq_pop X (ex_task_queue ex) of
        (None, q) \<Rightarrow> Inr (ex\<lparr>ex_task_queue := q\<rparr>)
      | (Some r, q) \<Rightarrow>
          andThen (drop_runnables X armed [r] (ex\<lparr>ex_task_queue := q\<rparr>)) (\<lambda>ex1.
          andThen (ts_lock ex1) (\<lambda>ex2.
          case ts_task_queue ex2 of
            [] \<Rightarrow> Inr (ts_unlock ex2)
          | x # xs \<Rightarrow>
              andThen (drop_runnables X armed [x] (ex2\<lparr>ts_task_queue := xs\<rparr>)) (\<lambda>ex3.
              drop_queues X armed n (ts_unlock ex3)))))"

text \<open>
  \<open>Drop for Executor\<close>; the thread state, with the runnables still in the local queue, is
  destroyed while it is borrowed. The second loop runs at most once for each of these runnables.
\<close>

definition Executor_drop ::
  "('q, 'a, 's, 'r, 'w) externs \<Rightarrow> ('r \<Rightarrow> usize option) \<Rightarrow> 'th \<Rightarrow> ('q, 'a, 's, 'r, 'w, 'th) Executor
     \<Rightarrow> ('q, 'a, 's, 'r, 'w, 'th) Executor outcome" where
  "Executor_drop X armed th ex =
     andThen (drop_wake X th poll_fuel ex) (\<lambda>ex1.
     andThen (drop_queues X armed (Suc (length (ts_task_queue ex1))) ex1) (\<lambda>ex2.
     andThen (ts_lock ex2) (\<lambda>ex3.
     andThen (drop_runnables X armed (ts_task_queue ex3) ex3) (\<lambda>ex4.
     Inr (ts_unlock (ex4\<lparr>ts_task_queue := [], ex_dropped := True\<rparr>))))))"

declare StdThreadId_id_def [evals] NoThreadId_id_def [evals] DefaultThreadId_id_def [evals]
  with_thread_id_def [evals] Executor_new_def [evals] ts_lock_def [evals] ts_unlock_def [evals] ev_lock_def [evals]
  ev_unlock_def [evals] is_empty_def [evals] notify_thread_def [evals] wake_mainstream_def [evals]
  same_thread_def [evals] sched_fuel_def [evals] spawn_def [evals] CallOnDrop_drop_def [evals]
  try_tick_def [evals] Ticker_new_def [evals] poll_mainstream_def [evals] tick_wait_def [evals]
  drop_listener_def [evals] tick_return_def [evals] Ticker_tick_def [evals] Ticker_drop_def [evals]
  tick_drop_def [evals] Executor_drop_def [evals]

end
