(* ===== verification/ExecutorLaws.thy ===== *)
theory ExecutorLaws
  imports Executor "HOL-Library.Sublist"
begin

text \<open>
  What the operations of the executor do to its tasks, its tickers and its wakers, under the
  documented behaviour of the crates it is built on (the locale \<open>crates\<close>).
\<close>

section \<open>The crates\<close>

text \<open>
  An unbounded queue is a FIFO list whose \<open>push\<close> never fails while it is not closed
  (nobody closes it); an atomic waker holds the waker registered last until it is taken or woken; a
  slab maps keys to values, \<open>vacant_key\<close> is the key of the next insertion, and \<open>drain\<close>
  removes all values even if the iterator is not consumed.
\<close>

locale crates =
  fixes X :: "('q, 'a, 's, 'r, 'w) externs"
    and absQ :: "'q \<Rightarrow> 'r list"
    and absA :: "'a \<Rightarrow> 'w option"
    and absS :: "'s \<Rightarrow> usize \<rightharpoonup> 'w"
  assumes queue_new: "absQ (cq_unbounded X) = []"
    and queue_push: "\<exists>q'. cq_push X r q = (Inr (), q') \<and> absQ q' = absQ q @ [r]"
    and queue_pop: "\<exists>q'. cq_pop X q = (case absQ q of [] \<Rightarrow> None | x # xs \<Rightarrow> Some x, q') \<and> absQ q' = tl (absQ q)"
    and queue_empty: "cq_is_empty X q \<longleftrightarrow> absQ q = []"
    and waker_new: "absA (aw_new X) = None"
    and waker_register: "absA (aw_register X w a) = Some w"
    and waker_take: "\<exists>a'. aw_take X a = (absA a, a') \<and> absA a' = None"
    and waker_wake: "\<exists>a'. aw_wake X a = (case absA a of None \<Rightarrow> [] | Some w \<Rightarrow> [w], a') \<and> absA a' = None"
    and slab_new: "absS (sl_new X) = Map.empty"
    and slab_vacant: "absS s (sl_vacant_key X s) = None"
    and slab_insert: "\<exists>s'. sl_insert X w s = (sl_vacant_key X s, s') \<and> absS s' = (absS s)(sl_vacant_key X s \<mapsto> w)"
    and slab_remove: "\<exists>s'. sl_try_remove X k s = (absS s k, s') \<and> absS s' = (absS s)(k := None)"
    and slab_drain: "\<exists>ws s'. sl_drain X s = (ws, s') \<and> absS s' = Map.empty \<and> set ws = ran (absS s)"

section \<open>The queue of the event\<close>

text \<open>The listeners that wait have wakers that are not those of tasks of this executor.\<close>

definition foreign :: "('q, 'a, 's, 'r, 'w) externs \<Rightarrow> ('r option, 'w) queue \<Rightarrow> bool" where
  "foreign X q \<longleftrightarrow> (\<forall>a w. (a, Some w) \<in> set (q_waiting q) \<longrightarrow> rn_task X w = None)"

text \<open>What an offer of a tag wakes and leaves.\<close>

definition offer_wakes :: "('t, 'w) queue \<Rightarrow> 'w list" where
  "offer_wakes q = (if hands_over q then wakers_of (take 1 (q_waiting q)) else [])"

definition offered :: "'t \<Rightarrow> ('t, 'w) queue \<Rightarrow> ('t, 'w) queue" where
  "offered t q = q_mark (if hands_over q then [t] else []) False q"

lemma foreign_wakes: "foreign X q \<Longrightarrow> w \<in> set (wakers_of (take k (q_waiting q))) \<Longrightarrow> rn_task X w = None"
  unfolding foreign_def wakers_of_def
  by (auto simp: map_filter_def split: option.splits dest!: in_set_takeD)

lemma foreign_offer_wakes: "foreign X q \<Longrightarrow> w \<in> set (offer_wakes q) \<Longrightarrow> rn_task X w = None"
  using foreign_wakes by (auto simp: offer_wakes_def split: if_splits)

lemma foreign_mark: "foreign X q \<Longrightarrow> foreign X (q_mark ts b q)"
  by (auto simp: foreign_def dest!: in_set_dropD)

lemma foreign_del: "foreign X q \<Longrightarrow> foreign X (q_del a q)"
  by (auto simp: foreign_def)

lemma foreign_remove: "foreign X q \<Longrightarrow> foreign X (q_remove a q)"
  by (auto simp: foreign_def)

lemma foreign_idle [simp]: "foreign X (q\<lparr>q_idle := I\<rparr>) = foreign X q"
  by (simp add: foreign_def)

lemma foreign_insert: "foreign X q \<Longrightarrow> rn_task X w = None \<Longrightarrow> foreign X (q_insert a (Some w) q)"
  by (auto simp: foreign_def)

lemma foreign_set_waker: "foreign X q \<Longrightarrow> rn_task X w = None \<Longrightarrow> foreign X (q_set_waker a w q)"
  unfolding foreign_def q_set_waker_def by (fastforce split: if_splits)

lemma foreign_new: "foreign X (q_new a q) = foreign X q"
  by (simp add: foreign_def)

lemma foreign_drop: "foreign X q \<Longrightarrow> foreign X (snd (q_drop a q))"
  by (auto simp: q_drop_eq q_forward_def Let_def foreign_remove foreign_mark foreign_del split: option.split)

lemma foreign_drop_wakes: "foreign X q \<Longrightarrow> w \<in> set (fst (q_drop a q)) \<Longrightarrow> rn_task X w = None"
  using foreign_wakes [OF foreign_del]
  by (fastforce simp: q_drop_def q_forward_def Let_def split: option.splits prod.splits)

lemma offered_sel [simp]:
  "q_addrs (offered t q) = q_addrs q" "q_idle (offered t q) = q_idle q"
  by (simp_all add: offered_def)

lemma foreign_offered: "foreign X q \<Longrightarrow> foreign X (offered t q)"
  unfolding offered_def by (rule foreign_mark)

lemma q_items_offered:
  "q_items (offered t q) = q_items q @ (if hands_over q then somes [t] else [])"
proof -
  have "length (if hands_over q then [t] else []) \<le> length (q_waiting q)"
    by (auto simp: hands_over_def Suc_le_eq)
  from q_items_mark [OF this] show ?thesis unfolding offered_def by simp
qed

lemma wake_all_foreign:
  "\<forall>w \<in> set ws. rn_task X w = None \<Longrightarrow>
    wake_all X sched ws ex = Inr (ex\<lparr>ex_woken := ex_woken ex @ ws\<rparr>)"
  by (induction ws arbitrary: ex) simp_all

section \<open>The state between operations\<close>

text \<open>
  Nothing is borrowed, no waker the executor holds is one of its own tasks', and while a waker
  is registered for the mainstream queue that queue is empty.
\<close>

definition ex_ok ::
  "('q, 'a, 's, 'r, 'w) externs \<Rightarrow> ('q \<Rightarrow> 'r list) \<Rightarrow> ('a \<Rightarrow> 'w option) \<Rightarrow> ('q, 'a, 's, 'r, 'w, 'th) Executor
     \<Rightarrow> ('r option, 'w) queue \<Rightarrow> bool" where
  "ex_ok X absQ absA ex q \<longleftrightarrow>
     refines (ts_thread_waker ex) q \<and> foreign X q \<and> ex_borrow ex = Unused \<and> ev_borrow ex = Unused \<and>
     \<not> ex_dropped ex \<and>
     (\<forall>w. absA (ex_mainstream_waker ex) = Some w \<longrightarrow> rn_task X w = None \<and> absQ (ex_task_queue ex) = [])"

text \<open>The tasks that are scheduled: queued, or handed to a ticker that has not been polled since.\<close>

definition ex_tasks ::
  "('q \<Rightarrow> 'r list) \<Rightarrow> ('q, 'a, 's, 'r, 'w, 'th) Executor \<Rightarrow> ('r option, 'w) queue \<Rightarrow> 'r multiset" where
  "ex_tasks absQ ex q =
     mset (ts_task_queue ex) + mset (absQ (ex_task_queue ex)) + mset (q_items q)"

text \<open>The queued tasks, in the order in which \<open>try_tick\<close> takes them.\<close>

definition ready_tasks ::
  "('q \<Rightarrow> 'r list) \<Rightarrow> ('q, 'a, 's, 'r, 'w, 'th) Executor \<Rightarrow> 'r list" where
  "ready_tasks absQ ex = ts_task_queue ex @ absQ (ex_task_queue ex)"

text \<open>What a ticker has to be awake for: a task in the local queue, or nobody minds the mainstream.\<close>

definition work :: "('q, 'a, 's, 'r, 'w, 'th) Executor \<Rightarrow> bool" where
  "work ex \<longleftrightarrow> ts_task_queue ex \<noteq> [] \<or> \<not> ts_is_mainstream_listening ex"

text \<open>The identity of the executor does not change, and wakers are only added to the log.\<close>

definition grows ::
  "('q, 'a, 's, 'r, 'w, 'th) Executor \<Rightarrow> ('q, 'a, 's, 'r, 'w, 'th) Executor \<Rightarrow> bool" where
  "grows ex ex' \<longleftrightarrow>
     ex_thread_id ex' = ex_thread_id ex \<and> ex_origin_thread ex' = ex_origin_thread ex \<and>
     (\<exists>ws. ex_woken ex' = ex_woken ex @ ws)"

text \<open>A registered waker stays registered, or has been woken.\<close>

definition woken_since :: "'w \<Rightarrow> nat \<Rightarrow> ('q, 'a, 's, 'r, 'w, 'th) Executor \<Rightarrow> bool" where
  "woken_since w n ex \<longleftrightarrow> w \<in> set (drop n (ex_woken ex))"

definition keeps_waker ::
  "('a \<Rightarrow> 'w option) \<Rightarrow> ('q, 'a, 's, 'r, 'w, 'th) Executor \<Rightarrow> ('q, 'a, 's, 'r, 'w, 'th) Executor
     \<Rightarrow> bool" where
  "keeps_waker absA ex ex' \<longleftrightarrow>
     (\<forall>w. absA (ex_mainstream_waker ex) = Some w \<longrightarrow>
        absA (ex_mainstream_waker ex') = Some w \<or> woken_since w (length (ex_woken ex)) ex')"

lemma grows_refl [simp]: "grows ex ex"
  by (simp add: grows_def)

lemma grows_trans: "grows ex ex1 \<Longrightarrow> grows ex1 ex2 \<Longrightarrow> grows ex ex2"
  by (auto simp: grows_def)

lemma woken_since_grows: "woken_since w n ex \<Longrightarrow> grows ex ex' \<Longrightarrow> woken_since w n ex'"
  by (auto simp: woken_since_def grows_def)

lemma woken_since_le: "woken_since w n ex \<Longrightarrow> m \<le> n \<Longrightarrow> woken_since w m ex"
  using set_drop_subset_set_drop by (fastforce simp: woken_since_def)

lemma keeps_waker_trans:
  assumes "keeps_waker absA ex ex1" and "keeps_waker absA ex1 ex2" and "grows ex ex1" "grows ex1 ex2"
  shows "keeps_waker absA ex ex2"
  unfolding keeps_waker_def
proof (intro allI impI)
  fix w assume "absA (ex_mainstream_waker ex) = Some w"
  with assms(1) consider "absA (ex_mainstream_waker ex1) = Some w" | "woken_since w (length (ex_woken ex)) ex1"
    unfolding keeps_waker_def by blast
  then show "absA (ex_mainstream_waker ex2) = Some w \<or> woken_since w (length (ex_woken ex)) ex2"
  proof cases
    case 1
    have "length (ex_woken ex) \<le> length (ex_woken ex1)" using assms(3) by (auto simp: grows_def)
    moreover have "absA (ex_mainstream_waker ex2) = Some w \<or> woken_since w (length (ex_woken ex1)) ex2"
      using 1 assms(2) unfolding keeps_waker_def by simp
    ultimately show ?thesis by (auto dest: woken_since_le)
  next
    case 2
    then show ?thesis using woken_since_grows [OF _ assms(4)] by simp
  qed
qed

lemma ts_lock_Unused: "ex_borrow ex = Unused \<Longrightarrow> \<not> ex_dropped ex \<Longrightarrow> ts_lock ex = Inr (ex\<lparr>ex_borrow := Writing\<rparr>)"
  by (simp add: ts_lock_def)

lemma ev_lock_Unused: "ev_borrow ex = Unused \<Longrightarrow> ev_lock ex = Inr (ex\<lparr>ev_borrow := Writing\<rparr>)"
  by (simp add: ev_lock_def)

text \<open>Notifying with the thread state borrowed or not.\<close>

lemma notify_offer:
  assumes r: "refines (ts_thread_waker ex) q" and f: "foreign X q" and b: "ev_borrow ex = Unused"
  shows "\<exists>e. notify_thread X sched take_item (Some v) ex =
      Inr (if hands_over q then None else Some v,
        ex\<lparr>ts_thread_waker := e, ex_woken := ex_woken ex @ offer_wakes q, ev_borrow := Unused\<rparr>) \<and>
    refines e (offered (Some v) q)"
proof -
  have r': "refines (ts_thread_waker (ex\<lparr>ev_borrow := Writing\<rparr>)) q" using r by simp
  from offer_ok [OF r', of v] obtain e where
    e: "notify_int_with 1 take_item (Some v) (ts_thread_waker (ex\<lparr>ev_borrow := Writing\<rparr>)) =
        Inr (if hands_over q then None else Some v, offer_wakes q, e)"
      "refines e (offered (Some v) q)"
    unfolding offer_wakes_def offered_def by blast
  have "\<forall>w \<in> set (offer_wakes q). rn_task X w = None" using foreign_offer_wakes [OF f] by blast
  from wake_all_foreign [OF this, of sched "ex\<lparr>ev_borrow := Writing, ts_thread_waker := e\<rparr>"] e b show ?thesis
    by (intro exI [of _ e]) (simp add: notify_thread_def ev_lock_Unused ev_unlock_def)
qed

lemma notify_ping:
  assumes r: "refines (ts_thread_waker ex) q" and f: "foreign X q" and b: "ev_borrow ex = Unused"
  shows "\<exists>e. notify_thread X sched no_item () ex =
      Inr ((), ex\<lparr>ts_thread_waker := e, ex_woken := ex_woken ex @ offer_wakes q, ev_borrow := Unused\<rparr>) \<and>
    refines e (offered None q)"
proof -
  have r': "refines (ts_thread_waker (ex\<lparr>ev_borrow := Writing\<rparr>)) q" using r by simp
  from ping_ok [OF r'] obtain e where
    e: "notify_int_with 1 no_item () (ts_thread_waker (ex\<lparr>ev_borrow := Writing\<rparr>)) = Inr ((), offer_wakes q, e)"
      "refines e (offered None q)"
    unfolding offer_wakes_def offered_def by blast
  have "\<forall>w \<in> set (offer_wakes q). rn_task X w = None" using foreign_offer_wakes [OF f] by blast
  from wake_all_foreign [OF this, of sched "ex\<lparr>ev_borrow := Writing, ts_thread_waker := e\<rparr>"] e b show ?thesis
    by (intro exI [of _ e]) (simp add: notify_thread_def ev_lock_Unused ev_unlock_def)
qed


text \<open>What an operation that is not a tick may change.\<close>

definition ex_step ::
  "('q, 'a, 's, 'r, 'w) externs \<Rightarrow> ('q \<Rightarrow> 'r list) \<Rightarrow> ('a \<Rightarrow> 'w option) \<Rightarrow> ('q, 'a, 's, 'r, 'w, 'th) Executor
     \<Rightarrow> ('r option, 'w) queue \<Rightarrow> ('q, 'a, 's, 'r, 'w, 'th) Executor \<Rightarrow> ('r option, 'w) queue \<Rightarrow> bool" where
  "ex_step X absQ absA ex q ex' q' \<longleftrightarrow>
     ex_ok X absQ absA ex' q' \<and> grows ex ex' \<and> keeps_waker absA ex ex' \<and>
     ts_is_mainstream_listening ex' = ts_is_mainstream_listening ex \<and>
     q_addrs q' = q_addrs q \<and> q_idle q' = q_idle q \<and>
     (nothing_lost (work ex) q \<longrightarrow> nothing_lost (work ex') q')"

lemma nothing_lost_offered: "nothing_lost b (offered t q)"
  unfolding offered_def
  by (rule nothing_lost_mark [where c = 1]) (simp_all add: notify_amount_one del: One_nat_def)

lemma nothing_lost_queued: "\<not> hands_over q \<Longrightarrow> nothing_lost b q"
  by (auto simp: nothing_lost_def hands_over_def)

text \<open>Scheduling on the origin thread.\<close>

lemma schedule_local:
  assumes ok: "ex_ok X absQ absA ex q" and th: "same_thread ex th"
  shows "\<exists>e. schedule X (Suc n) th r ex =
      Inr (ex\<lparr>ts_thread_waker := e, ex_woken := ex_woken ex @ offer_wakes q,
        ts_task_queue := ts_task_queue ex @ (if hands_over q then [] else [r])\<rparr>) \<and>
    refines e (offered (Some r) q)"
proof -
  let ?ex = "ex\<lparr>ex_borrow := Writing\<rparr>"
  have b: "ex_borrow ex = Unused" "ev_borrow ex = Unused" using ok by (simp_all add: ex_ok_def)
  have "refines (ts_thread_waker ?ex) q" "foreign X q" "ev_borrow ?ex = Unused"
    using ok by (simp_all add: ex_ok_def)
  from notify_offer [OF this, of "schedule X n th" r] obtain e where
    e: "notify_thread X (schedule X n th) take_item (Some r) ?ex =
        Inr (if hands_over q then None else Some r,
          ?ex\<lparr>ts_thread_waker := e, ex_woken := ex_woken ?ex @ offer_wakes q, ev_borrow := Unused\<rparr>)"
      "refines e (offered (Some r) q)" by blast
  have l: "ts_lock ex = Inr ?ex" using ok by (intro ts_lock_Unused) (simp_all add: ex_ok_def)
  show ?thesis
    using th l e b by (intro exI [of _ e]; cases "hands_over q"; cases ex) (simp_all add: ts_unlock_def)
qed

lemma offered_ok:
  assumes ok: "ex_ok X absQ absA ex q" and e: "refines e (offered t q)"
  shows "ex_step X absQ absA ex q
      (ex\<lparr>ts_thread_waker := e, ex_woken := ex_woken ex @ ws, ts_task_queue := rs\<rparr>) (offered t q)"
  using ok e
  by (auto simp: ex_step_def ex_ok_def foreign_offered grows_def keeps_waker_def nothing_lost_offered)

text \<open>Popping from the local queue, where another runner is woken: \<open>ex\<close> with the queue borrowed.\<close>

lemma ping_locked:
  assumes ok: "ex_ok X absQ absA ex q"
  shows "\<exists>e. notify_thread X sched no_item () (ex\<lparr>ex_borrow := Writing, ts_task_queue := rs\<rparr>) =
      Inr ((), ex\<lparr>ex_borrow := Writing, ts_thread_waker := e, ex_woken := ex_woken ex @ offer_wakes q,
        ts_task_queue := rs\<rparr>) \<and>
    refines e (offered None q)"
proof -
  let ?ex = "ex\<lparr>ex_borrow := Writing, ts_task_queue := rs\<rparr>"
  have b: "ev_borrow ex = Unused" using ok by (simp add: ex_ok_def)
  have "refines (ts_thread_waker ?ex) q" "foreign X q" "ev_borrow ?ex = Unused"
    using ok by (simp_all add: ex_ok_def)
  from notify_ping [OF this, of sched] obtain e where
    "notify_thread X sched no_item () ?ex =
        Inr ((), ?ex\<lparr>ts_thread_waker := e, ex_woken := ex_woken ?ex @ offer_wakes q, ev_borrow := Unused\<rparr>)"
    "refines e (offered None q)" by blast
  with b show ?thesis by (intro exI [of _ e]; cases ex) simp
qed

section \<open>The listener of a ticker\<close>

text \<open>Where the listener of a ticker is.\<close>

fun place_ok :: "tick_pc \<Rightarrow> addr \<Rightarrow> ('t, 'w) queue \<Rightarrow> bool" where
  "place_ok TUnresumed a q \<longleftrightarrow> a \<notin> q_listeners q"
| "place_ok TWaiting a q \<longleftrightarrow> a \<in> set (q_addrs q)"
| "place_ok TLast a q \<longleftrightarrow> a \<in> q_idle q"
| "place_ok TRunning a q \<longleftrightarrow> a \<in> q_listeners q"
| "place_ok TReturned a q \<longleftrightarrow> a \<notin> q_listeners q"

definition others :: "addr \<Rightarrow> ('t, 'w) queue \<Rightarrow> ('t, 'w) queue \<Rightarrow> bool" where
  "others a q q' \<longleftrightarrow>
     (\<forall>b. b \<noteq> a \<longrightarrow> (b \<in> set (q_addrs q') \<longleftrightarrow> b \<in> set (q_addrs q)) \<and> (b \<in> q_idle q' \<longleftrightarrow> b \<in> q_idle q))"

lemma others_refl [simp]: "others a q q"
  by (simp add: others_def)

lemma others_trans: "others a q q1 \<Longrightarrow> others a q1 q2 \<Longrightarrow> others a q q2"
  by (simp add: others_def)

lemma others_same: "q_addrs q' = q_addrs q \<Longrightarrow> q_idle q' = q_idle q \<Longrightarrow> others a q q'"
  by (simp add: others_def)

lemma place_others: "others a q q' \<Longrightarrow> b \<noteq> a \<Longrightarrow> place_ok pc b q' = place_ok pc b q"
  by (cases pc) (auto simp: others_def q_listeners_def)

text \<open>One poll of it.\<close>

definition polled :: "addr \<Rightarrow> ('r option, 'w) queue \<Rightarrow> 'r option poll \<Rightarrow> ('r option, 'w) queue \<Rightarrow> bool" where
  "polled a q p q' \<longleftrightarrow> others a q q' \<and>
     (case p of
        Pending \<Rightarrow> a \<in> set (q_addrs q') \<and> q_items q' = q_items q \<and> notified_tag a q' = None \<and>
          (a \<notin> q_idle q \<longrightarrow> (\<forall>b. nothing_lost b q \<longrightarrow> nothing_lost b q'))
      | Ready t \<Rightarrow> a \<in> q_idle q' \<and> a \<notin> q_idle q \<and> mset (q_items q) = mset (somes [t]) + mset (q_items q'))"

lemma q_del_addrs [simp]: "set (q_addrs (q_del a q)) = set (q_addrs q) - {a}"
  by (auto simp: q_addrs_def)

lemma polled_ok:
  assumes r: "refines ev q" and a: "a \<in> q_listeners q"
  shows "polled a q (fst (q_poll a w q)) (snd (q_poll a w q))"
  using r a
proof (cases rule: listener_cases)
  case idle
  then have "map_of (q_notified q) a = None" by (auto simp: map_of_eq_None_iff q_addrs_def)
  with idle show ?thesis by (auto simp: polled_def q_poll_def others_def notified_tag_def)
next
  case (notified t b)
  then have m: "map_of (q_notified q) a = Some (t, b)" using map_of_notified(1) [OF r] by blast
  then have "notified_tag a q = Some t" by (simp add: notified_tag_def)
  from q_items_remove [OF r this] have "mset (q_items q) = mset (somes [t]) + mset (q_items (q_del a q))"
    by (simp add: q_items_def)
  moreover have "others a q (q_del a q)" by (auto simp: others_def)
  ultimately show ?thesis using m notified by (simp add: polled_def q_poll_def)
next
  case (waiting v)
  then have "is_waiting a q" by (force simp: is_waiting_def)
  then have m: "map_of (q_notified q) a = None" by (rule refines_waiting(3) [OF r])
  have "a \<in> set (q_addrs q)" using waiting by (force simp: q_addrs_def)
  with m waiting show ?thesis
    by (simp add: polled_def q_poll_def others_def nothing_lost_set_waker notified_tag_def)
qed

lemma foreign_poll: "foreign X q \<Longrightarrow> rn_task X w = None \<Longrightarrow> foreign X (snd (q_poll a w q))"
  by (auto simp: q_poll_def foreign_del foreign_insert foreign_set_waker split: option.split)

lemma poll_listener:
  assumes ok: "ex_ok X absQ absA ex q" and a: "a \<in> q_listeners q" and w: "rn_task X w = None"
  shows "\<exists>p e q'. Listener_poll a w (ts_thread_waker ex) = Inr (p, e) \<and>
    ex_ok X absQ absA (ex\<lparr>ts_thread_waker := e\<rparr>) q' \<and> polled a q p q'"
proof -
  have r: "refines (ts_thread_waker ex) q" and f: "foreign X q" using ok by (simp_all add: ex_ok_def)
  from refines_poll [OF r a, of w] obtain e where
    "Listener_poll a w (ts_thread_waker ex) = Inr (fst (q_poll a w q), e)"
    "refines e (snd (q_poll a w q))" by blast
  with ok foreign_poll [OF f w, of a] polled_ok [OF r a, of w] show ?thesis
    by (intro exI [of _ "fst (q_poll a w q)"] exI [of _ e] exI [of _ "snd (q_poll a w q)"])
      (simp add: ex_ok_def)
qed

text \<open>Tasks leave the two queues at the front, and in the order in which they are in them.\<close>

definition drained ::
  "('q \<Rightarrow> 'r list) \<Rightarrow> ('q, 'a, 's, 'r, 'w, 'th) Executor \<Rightarrow> ('q, 'a, 's, 'r, 'w, 'th) Executor \<Rightarrow> bool" where
  "drained absQ ex ex' \<longleftrightarrow>
     suffix (ts_task_queue ex') (ts_task_queue ex) \<and> suffix (absQ (ex_task_queue ex')) (absQ (ex_task_queue ex))"

lemma drained_trans: "drained absQ ex ex1 \<Longrightarrow> drained absQ ex1 ex2 \<Longrightarrow> drained absQ ex ex2"
  by (auto simp: drained_def intro: suffix_order.trans)

lemma drained_same:
  "ts_task_queue ex' = ts_task_queue ex \<Longrightarrow> ex_task_queue ex' = ex_task_queue ex \<Longrightarrow> drained absQ ex ex'"
  by (simp add: drained_def)

text \<open>Those of \<open>rs\<close> that are queued go to the end.\<close>

definition queued ::
  "('q \<Rightarrow> 'r list) \<Rightarrow> 'r list \<Rightarrow> ('q, 'a, 's, 'r, 'w, 'th) Executor \<Rightarrow> ('q, 'a, 's, 'r, 'w, 'th) Executor \<Rightarrow> bool" where
  "queued absQ rs ex ex' \<longleftrightarrow>
     subseq (ts_task_queue ex') (ts_task_queue ex @ rs) \<and>
     subseq (absQ (ex_task_queue ex')) (absQ (ex_task_queue ex) @ rs)"

lemma drained_queued: "drained absQ ex ex' \<Longrightarrow> queued absQ rs ex ex'"
  unfolding drained_def queued_def by (blast intro: list_emb_append2 suffix_imp_subseq subseq_order.trans subseq_rev_drop_many)

text \<open>What waiting for it, and for the mainstream queue, changes.\<close>

definition waited ::
  "('q, 'a, 's, 'r, 'w) externs \<Rightarrow> ('q \<Rightarrow> 'r list) \<Rightarrow> ('a \<Rightarrow> 'w option) \<Rightarrow> bool \<Rightarrow> addr \<Rightarrow> 'w
     \<Rightarrow> ('q, 'a, 's, 'r, 'w, 'th) Executor \<Rightarrow> ('r option, 'w) queue \<Rightarrow> 'r option poll
     \<Rightarrow> ('q, 'a, 's, 'r, 'w, 'th) Executor \<Rightarrow> ('r option, 'w) queue \<Rightarrow> bool" where
  "waited X absQ absA m a w ex q p ex' q' \<longleftrightarrow>
     ex_ok X absQ absA ex' q' \<and> grows ex ex' \<and> (m \<or> keeps_waker absA ex ex') \<and> others a q q' \<and>
     ts_task_queue ex' = ts_task_queue ex \<and> drained absQ ex ex' \<and>
     ts_is_mainstream_listening ex' = ts_is_mainstream_listening ex \<and>
     (case p of
        Pending \<Rightarrow> a \<in> set (q_addrs q') \<and> ex_tasks absQ ex' q' = ex_tasks absQ ex q \<and>
          (m \<longrightarrow> absA (ex_mainstream_waker ex') = Some w) \<and>
          (a \<notin> q_idle q \<longrightarrow> (\<forall>b. nothing_lost b q \<longrightarrow> nothing_lost b q'))
      | Ready None \<Rightarrow> a \<in> q_idle q' \<and> a \<notin> q_idle q \<and> keeps_waker absA ex ex' \<and>
          ex_tasks absQ ex' q' = ex_tasks absQ ex q
      | Ready (Some r) \<Rightarrow> a \<in> q_listeners q' \<and> add_mset r (ex_tasks absQ ex' q') = ex_tasks absQ ex q)"

text \<open>What one step of a tick changes; \<open>m\<close> tells whether its ticker was the mainstream runner.\<close>

definition ticked ::
  "('q, 'a, 's, 'r, 'w) externs \<Rightarrow> ('q \<Rightarrow> 'r list) \<Rightarrow> ('a \<Rightarrow> 'w option) \<Rightarrow> bool \<Rightarrow> addr \<Rightarrow> 'w
     \<Rightarrow> ('q, 'a, 's, 'r, 'w, 'th) Executor \<Rightarrow> ('r option, 'w) queue \<Rightarrow> 'r tick_step \<Rightarrow> tick_fut
     \<Rightarrow> ('q, 'a, 's, 'r, 'w, 'th) Executor \<Rightarrow> ('r option, 'w) queue \<Rightarrow> bool" where
  "ticked X absQ absA m a w ex q st f ex' q' \<longleftrightarrow>
     ex_ok X absQ absA ex' q' \<and> grows ex ex' \<and> drained absQ ex ex' \<and> others a q q' \<and> place_ok (tf_pc f) a q' \<and>
     ex_tasks absQ ex q =
       (case st of Runs r \<Rightarrow> add_mset r (ex_tasks absQ ex' q') | _ \<Rightarrow> ex_tasks absQ ex' q') \<and>
     (tf_is_mainstream f = m \<and> ts_is_mainstream_listening ex' = ts_is_mainstream_listening ex \<or>
      \<not> ts_is_mainstream_listening ex \<and> ts_is_mainstream_listening ex' \<and> tf_is_mainstream f) \<and>
     (tf_is_mainstream f \<or> keeps_waker absA ex ex') \<and>
     (case st of
        Suspends \<Rightarrow> tf_pc f = TWaiting \<and>
          (tf_is_mainstream f \<longrightarrow> absA (ex_mainstream_waker ex') = Some w) \<and>
          (nothing_lost (work ex) q \<longrightarrow> nothing_lost (work ex') q')
      | Runs r \<Rightarrow> tf_pc f = TLast \<or> tf_pc f = TRunning
      | Returns \<Rightarrow> tf_pc f = TReturned)"

text \<open>What is left when a ticker is gone; \<open>m\<close> tells whether it was the mainstream runner.\<close>

definition gone ::
  "('q, 'a, 's, 'r, 'w) externs \<Rightarrow> ('q \<Rightarrow> 'r list) \<Rightarrow> ('a \<Rightarrow> 'w option) \<Rightarrow> bool
     \<Rightarrow> ('q, 'a, 's, 'r, 'w, 'th) Executor \<Rightarrow> ('r option, 'w) queue
     \<Rightarrow> ('q, 'a, 's, 'r, 'w, 'th) Executor \<Rightarrow> ('r option, 'w) queue \<Rightarrow> bool" where
  "gone X absQ absA m ex q ex' q' \<longleftrightarrow>
     ex_ok X absQ absA ex' q' \<and> grows ex ex' \<and> ts_task_queue ex' = ts_task_queue ex \<and>
     ex_task_queue ex' = ex_task_queue ex \<and> (m \<or> keeps_waker absA ex ex') \<and>
     ts_is_mainstream_listening ex' = (\<not> m \<and> ts_is_mainstream_listening ex) \<and>
     (nothing_lost (work ex) q \<longrightarrow> nothing_lost (work ex') q')"

text \<open>A step after a change that only concerns the listener.\<close>

lemma ticked_after:
  assumes t: "ticked X absQ absA m a w ex1 q1 st f ex' q'"
    and "others a q q1" "grows ex ex1" "keeps_waker absA ex ex1" "ex_tasks absQ ex1 q1 = ex_tasks absQ ex q"
    and "drained absQ ex ex1"
    and "ts_is_mainstream_listening ex1 = ts_is_mainstream_listening ex"
    and lost: "st = Suspends \<longrightarrow> \<not> work ex'"
  shows "ticked X absQ absA m a w ex q st f ex' q'"
proof -
  have g: "grows ex1 ex'" using t by (simp add: ticked_def)
  have "keeps_waker absA ex1 ex' \<Longrightarrow> keeps_waker absA ex ex'"
    using keeps_waker_trans [OF assms(4) _ assms(3) g] by simp
  moreover have "grows ex ex'" by (rule grows_trans [OF assms(3) g])
  moreover have "others a q q'" using t assms(2) by (auto simp: ticked_def intro: others_trans)
  moreover have "drained absQ ex ex'" using t drained_trans [OF assms(6)] by (simp add: ticked_def)
  ultimately show ?thesis using t assms(5,7) lost by (cases st) (auto simp: ticked_def)
qed

lemma foreign_dropped: "foreign X q \<Longrightarrow> \<forall>w \<in> set (fst (q_drop a q)). rn_task X w = None"
  by (intro ballI) (rule foreign_drop_wakes)

lemma drop_listener_ok:
  assumes ok: "ex_ok X absQ absA ex q" and a: "a \<in> q_listeners q"
  shows "\<exists>e. drop_listener X th a ex =
      Inr (ex\<lparr>ts_thread_waker := e, ex_woken := ex_woken ex @ fst (q_drop a q)\<rparr>) \<and>
    ex_ok X absQ absA (ex\<lparr>ts_thread_waker := e, ex_woken := ex_woken ex @ fst (q_drop a q)\<rparr>) (snd (q_drop a q))"
proof -
  have r: "refines (ts_thread_waker ex) q" and f: "foreign X q" and b: "ev_borrow ex = Unused"
    using ok by (simp_all add: ex_ok_def)
  from refines_drop [OF r a] obtain e where
    e: "Listener_drop a (ts_thread_waker ex) = Inr (fst (q_drop a q), e)" "refines e (snd (q_drop a q))" by blast
  from wake_all_foreign [OF foreign_dropped [OF f, of a], of "scheduler X th" "ex\<lparr>ev_borrow := Writing, ts_thread_waker := e\<rparr>"]
  have "drop_listener X th a ex =
      Inr (ex\<lparr>ts_thread_waker := e, ex_woken := ex_woken ex @ fst (q_drop a q)\<rparr>)"
    using e(1) b by (cases ex) (simp add: drop_listener_def ev_lock_Unused ev_unlock_def)
  with ok e(2) foreign_drop [OF f] show ?thesis by (intro exI [of _ e]) (simp add: ex_ok_def)
qed

text \<open>A tick returns with a listener that is not notified.\<close>

lemma tick_return_ok:
  assumes ok: "ex_ok X absQ absA ex q" and a: "a \<in> q_listeners q" and n: "notified_tag a q = None"
  shows "\<exists>f' ex' q'. tick_return X th f a ex = Inr (Returns, f', ex') \<and>
    ticked X absQ absA (tf_is_mainstream f) a w ex q Returns f' ex' q'"
proof -
  from drop_listener_ok [OF ok a, of th] obtain e where
    e: "drop_listener X th a ex = Inr (ex\<lparr>ts_thread_waker := e, ex_woken := ex_woken ex @ fst (q_drop a q)\<rparr>)"
      "ex_ok X absQ absA (ex\<lparr>ts_thread_waker := e, ex_woken := ex_woken ex @ fst (q_drop a q)\<rparr>) (snd (q_drop a q))"
    by blast
  let ?ex = "ex\<lparr>ts_thread_waker := e, ex_woken := ex_woken ex @ fst (q_drop a q)\<rparr>"
  have r: "refines (ts_thread_waker ex) q" using ok by (simp add: ex_ok_def)
  have "q_items (snd (q_drop a q)) = q_items q" by (rule q_items_drop(1) [OF r n])
  then have "ticked X absQ absA (tf_is_mainstream f) a w ex q Returns (f\<lparr>tf_pc := TReturned\<rparr>) ?ex (snd (q_drop a q))"
    using e(2) by (auto simp: ticked_def grows_def keeps_waker_def drained_same others_def q_drop_addrs q_drop_idle
        ex_tasks_def q_listeners_def)
  with e(1) show ?thesis by (auto simp: tick_return_def)
qed

context crates
begin

lemma wake_mainstream_ok:
  assumes ok: "ex_ok X absQ absA ex q"
  shows "\<exists>a ws. wake_mainstream X sched (ex\<lparr>ex_task_queue := mq\<rparr>) =
      Inr (ex\<lparr>ex_task_queue := mq, ex_mainstream_waker := a, ex_woken := ex_woken ex @ ws\<rparr>) \<and>
    absA a = None \<and> (\<forall>w. absA (ex_mainstream_waker ex) = Some w \<longrightarrow> w \<in> set ws)"
proof -
  let ?ws = "case absA (ex_mainstream_waker ex) of None \<Rightarrow> [] | Some w \<Rightarrow> [w]"
  from waker_wake [of "ex_mainstream_waker ex"] obtain a where
    a: "aw_wake X (ex_mainstream_waker ex) = (?ws, a)" "absA a = None" by blast
  have "\<forall>w \<in> set ?ws. rn_task X w = None"
    using ok by (auto simp: ex_ok_def split: option.split)
  from wake_all_foreign [OF this, of sched "ex\<lparr>ex_task_queue := mq, ex_mainstream_waker := a\<rparr>"] a
  show ?thesis by (intro exI [of _ a] exI [of _ ?ws]) (simp add: wake_mainstream_def)
qed

lemma mainstream_step:
  assumes "ex_ok X absQ absA ex q" and "absA a = None"
    and "\<forall>w. absA (ex_mainstream_waker ex) = Some w \<longrightarrow> w \<in> set ws"
  shows "ex_step X absQ absA ex q
      (ex\<lparr>ex_task_queue := mq, ex_mainstream_waker := a, ex_woken := ex_woken ex @ ws\<rparr>) q"
  using assms by (auto simp: ex_step_def ex_ok_def grows_def keeps_waker_def woken_since_def work_def)

text \<open>Scheduling from another thread.\<close>

lemma schedule_remote:
  assumes ok: "ex_ok X absQ absA ex q" and th: "\<not> same_thread ex th"
  shows "\<exists>mq a ws. schedule X (Suc n) th r ex =
      Inr (ex\<lparr>ex_task_queue := mq, ex_mainstream_waker := a, ex_woken := ex_woken ex @ ws\<rparr>) \<and>
    absQ mq = absQ (ex_task_queue ex) @ [r] \<and> absA a = None \<and>
    (\<forall>w. absA (ex_mainstream_waker ex) = Some w \<longrightarrow> w \<in> set ws)"
proof -
  from queue_push [of r "ex_task_queue ex"] obtain mq where
    mq: "cq_push X r (ex_task_queue ex) = (Inr (), mq)" "absQ mq = absQ (ex_task_queue ex) @ [r]" by blast
  from wake_mainstream_ok [OF ok, of "schedule X n th" mq] th mq show ?thesis by fastforce
qed

text \<open>The scheduler, on any thread.\<close>

lemma schedule_ok:
  assumes ok: "ex_ok X absQ absA ex q"
  shows "\<exists>ex' q'. schedule X (Suc n) th r ex = Inr ex' \<and> ex_step X absQ absA ex q ex' q' \<and>
    ex_tasks absQ ex' q' = add_mset r (ex_tasks absQ ex q) \<and> queued absQ [r] ex ex'"
proof (cases "same_thread ex th")
  case True
  from schedule_local [OF ok this, of n r] obtain e where
    e: "schedule X (Suc n) th r ex = Inr (ex\<lparr>ts_thread_waker := e, ex_woken := ex_woken ex @ offer_wakes q,
        ts_task_queue := ts_task_queue ex @ (if hands_over q then [] else [r])\<rparr>)"
      "refines e (offered (Some r) q)" by blast
  show ?thesis
    by (intro exI [of _ "offered (Some r) q"] exI conjI, rule e(1), rule offered_ok [OF ok e(2)])
      (simp_all add: ex_tasks_def q_items_offered queued_def subseq_rev_drop_many)
next
  case False
  from schedule_remote [OF ok this, of n r] obtain mq a ws where
    w: "schedule X (Suc n) th r ex =
        Inr (ex\<lparr>ex_task_queue := mq, ex_mainstream_waker := a, ex_woken := ex_woken ex @ ws\<rparr>)"
      "absQ mq = absQ (ex_task_queue ex) @ [r]" "absA a = None"
      "\<forall>w. absA (ex_mainstream_waker ex) = Some w \<longrightarrow> w \<in> set ws" by blast
  let ?ex = "ex\<lparr>ex_task_queue := mq, ex_mainstream_waker := a, ex_woken := ex_woken ex @ ws\<rparr>"
  have "ex_tasks absQ ?ex q = add_mset r (ex_tasks absQ ex q)" using w(2) by (simp add: ex_tasks_def)
  moreover have "queued absQ [r] ex ?ex" using w(2) by (simp add: queued_def subseq_rev_drop_many)
  ultimately show ?thesis using mainstream_step [OF ok w(3,4)] w(1) by blast
qed

lemma slab_step:
  assumes ok: "ex_ok X absQ absA ex q"
  shows "ex_step X absQ absA ex q (ex\<lparr>ts_active := s\<rparr>) q"
  using ok by (simp add: ex_step_def ex_ok_def grows_def keeps_waker_def work_def)

lemma locked_ok:
  assumes ok: "ex_ok X absQ absA ex q"
  shows "ts_lock ex = Inr (ex\<lparr>ex_borrow := Writing\<rparr>)" and "ex_borrow ex = Unused" and "ev_borrow ex = Unused"
  using ok by (simp_all add: ex_ok_def ts_lock_def)

lemma CallOnDrop_ok:
  assumes ok: "ex_ok X absQ absA ex q"
  shows "\<exists>s. CallOnDrop_drop X index ex = Inr (ex\<lparr>ts_active := s\<rparr>) \<and>
    absS s = (absS (ts_active ex))(index := None)"
proof -
  from slab_remove [of index "ts_active ex"] obtain s where
    s: "sl_try_remove X index (ts_active ex) = (absS (ts_active ex) index, s)"
      "absS s = (absS (ts_active ex))(index := None)" by blast
  with locked_ok [OF ok] show ?thesis
    by (intro exI [of _ s]; cases ex) (simp add: CallOnDrop_drop_def ts_unlock_def)
qed

lemma spawn_ok:
  assumes ok: "ex_ok X absQ absA ex q"
  shows "\<exists>ex' q'. spawn X th r ex = Inr (sl_vacant_key X (ts_active ex), ex') \<and>
    ex_step X absQ absA ex q ex' q' \<and> ex_tasks absQ ex' q' = add_mset r (ex_tasks absQ ex q) \<and>
    queued absQ [r] ex ex'"
proof -
  from slab_insert [of "rn_waker X r" "ts_active ex"] obtain s where
    s: "sl_insert X (rn_waker X r) (ts_active ex) = (sl_vacant_key X (ts_active ex), s)" by blast
  let ?ex = "ex\<lparr>ts_active := s\<rparr>"
  have st: "ex_step X absQ absA ex q ?ex q" by (rule slab_step [OF ok])
  then have "ex_ok X absQ absA ?ex q" by (simp add: ex_step_def)
  from schedule_ok [OF this, of "Suc (Suc 0)" th r] obtain ex' q' where
    e: "scheduler X th r ?ex = Inr ex'" "ex_step X absQ absA ?ex q ex' q'"
      "ex_tasks absQ ex' q' = add_mset r (ex_tasks absQ ?ex q)" "queued absQ [r] ?ex ex'" by (auto simp: sched_fuel_def)
  have "ts_unlock (ex\<lparr>ex_borrow := Writing, ts_active := s\<rparr>) = ?ex"
    using locked_ok [OF ok] by (cases ex) (simp add: ts_unlock_def)
  with s e(1) locked_ok [OF ok] have "spawn X th r ex = Inr (sl_vacant_key X (ts_active ex), ex')"
    by (simp add: spawn_def)
  moreover have "ex_step X absQ absA ex q ex' q'"
    using st e(2) by (auto simp: ex_step_def grows_def keeps_waker_def work_def woken_since_def)
  moreover have "ex_tasks absQ ?ex q = ex_tasks absQ ex q" by (simp add: ex_tasks_def)
  moreover have "queued absQ [r] ex ex'" using e(4) by (simp add: queued_def)
  ultimately show ?thesis using e(3) by metis
qed

text \<open>\<open>try_tick\<close>, and the pop a tick begins with.\<close>

lemma pop_local:
  assumes ok: "ex_ok X absQ absA ex q" and l: "ts_task_queue ex = r # rs"
  shows "\<exists>ex'. andThen (notify_thread X sched no_item () (ex\<lparr>ex_borrow := Writing, ts_task_queue := rs\<rparr>))
        (\<lambda>(_, ex2). k (ts_unlock ex2)) = k ex' \<and>
    ex_step X absQ absA ex q ex' (offered None q) \<and>
    add_mset r (ex_tasks absQ ex' (offered None q)) = ex_tasks absQ ex q \<and>
    ready_tasks absQ ex = r # ready_tasks absQ ex' \<and> drained absQ ex ex'"
proof -
  from ping_locked [OF ok, of sched rs] obtain e where
    e: "notify_thread X sched no_item () (ex\<lparr>ex_borrow := Writing, ts_task_queue := rs\<rparr>) =
      Inr ((), ex\<lparr>ex_borrow := Writing, ts_thread_waker := e, ex_woken := ex_woken ex @ offer_wakes q,
        ts_task_queue := rs\<rparr>)"
    "refines e (offered None q)" by blast
  let ?ex = "ex\<lparr>ts_thread_waker := e, ex_woken := ex_woken ex @ offer_wakes q, ts_task_queue := rs\<rparr>"
  have "ts_unlock (ex\<lparr>ex_borrow := Writing, ts_thread_waker := e, ex_woken := ex_woken ex @ offer_wakes q,
      ts_task_queue := rs\<rparr>) = ?ex"
    using locked_ok [OF ok] by (cases ex) (simp add: ts_unlock_def)
  moreover have "add_mset r (ex_tasks absQ ?ex (offered None q)) = ex_tasks absQ ex q"
    using l by (simp add: ex_tasks_def q_items_offered)
  moreover have "ready_tasks absQ ex = r # ready_tasks absQ ?ex" using l by (simp add: ready_tasks_def)
  moreover have "drained absQ ex ?ex" using l by (simp add: drained_def suffix_ConsI)
  ultimately show ?thesis
    using e(1) offered_ok [OF ok e(2)] by (intro exI [of _ ?ex]) simp
qed

lemma try_tick_ok:
  assumes ok: "ex_ok X absQ absA ex q"
  shows "\<exists>p ex' q'. try_tick X th ex = Inr (p, ex') \<and> ex_step X absQ absA ex q ex' q' \<and>
    (case p of Some r \<Rightarrow> add_mset r (ex_tasks absQ ex' q') = ex_tasks absQ ex q
     | None \<Rightarrow> ts_task_queue ex = [] \<and> absQ (ex_task_queue ex) = [] \<and>
         ex_tasks absQ ex' q' = ex_tasks absQ ex q) \<and>
    ready_tasks absQ ex = (case p of Some r \<Rightarrow> r # ready_tasks absQ ex' | None \<Rightarrow> []) \<and>
    (p = None \<longrightarrow> ready_tasks absQ ex' = []) \<and> drained absQ ex ex'"
proof (cases "ts_task_queue ex")
  case (Cons r rs)
  let ?k = "\<lambda>ex'. Inr (Some r, ex')"
  from pop_local [OF ok Cons, of "scheduler X th" ?k] obtain ex' where
    e: "andThen (notify_thread X (scheduler X th) no_item () (ex\<lparr>ex_borrow := Writing, ts_task_queue := rs\<rparr>))
        (\<lambda>(_, ex2). ?k (ts_unlock ex2)) = ?k ex'"
      "ex_step X absQ absA ex q ex' (offered None q)"
      "add_mset r (ex_tasks absQ ex' (offered None q)) = ex_tasks absQ ex q"
      "ready_tasks absQ ex = r # ready_tasks absQ ex'" "drained absQ ex ex'" by blast
  have "try_tick X th ex = ?k ex'"
    using e(1) locked_ok [OF ok] Cons by (simp add: try_tick_def)
  with e(2-5) show ?thesis by (intro exI [of _ "Some r"] exI [of _ ex'] exI [of _ "offered None q"]) simp
next
  case Nil
  have u: "ts_unlock (ex\<lparr>ex_borrow := Writing\<rparr>) = ex"
    using locked_ok [OF ok] by (cases ex) (simp add: ts_unlock_def)
  from queue_pop [of "ex_task_queue ex"] obtain mq where
    mq: "cq_pop X (ex_task_queue ex) = (case absQ (ex_task_queue ex) of [] \<Rightarrow> None | x # xs \<Rightarrow> Some x, mq)"
      "absQ mq = tl (absQ (ex_task_queue ex))" by blast
  show ?thesis
  proof (cases "absQ (ex_task_queue ex)")
    case q: Nil
    let ?ex = "ex\<lparr>ex_task_queue := mq\<rparr>"
    have "try_tick X th ex = Inr (None, ?ex)"
      using Nil q mq u locked_ok [OF ok] by (simp add: try_tick_def)
    moreover have "ex_step X absQ absA ex q ?ex q"
      using ok mq(2) q by (simp add: ex_step_def ex_ok_def grows_def keeps_waker_def work_def)
    moreover have "ex_tasks absQ ?ex q = ex_tasks absQ ex q" using mq(2) q by (simp add: ex_tasks_def)
    moreover have "drained absQ ex ?ex" using mq(2) q by (simp add: drained_def)
    ultimately show ?thesis
      using Nil q mq(2) by (intro exI [of _ None] exI [of _ ?ex] exI [of _ q]) (simp add: ready_tasks_def)
  next
    case q: (Cons r rs)
    from wake_mainstream_ok [OF ok, of "scheduler X th" mq] obtain a ws where
      w: "wake_mainstream X (scheduler X th) (ex\<lparr>ex_task_queue := mq\<rparr>) =
        Inr (ex\<lparr>ex_task_queue := mq, ex_mainstream_waker := a, ex_woken := ex_woken ex @ ws\<rparr>)"
        "absA a = None" "\<forall>w. absA (ex_mainstream_waker ex) = Some w \<longrightarrow> w \<in> set ws" by blast
    let ?ex = "ex\<lparr>ex_task_queue := mq, ex_mainstream_waker := a, ex_woken := ex_woken ex @ ws\<rparr>"
    have "try_tick X th ex = Inr (Some r, ?ex)"
      using Nil q mq u locked_ok [OF ok] w(1) by (simp add: try_tick_def)
    moreover have "add_mset r (ex_tasks absQ ?ex q) = ex_tasks absQ ex q"
      using mq(2) q by (simp add: ex_tasks_def)
    moreover have "ready_tasks absQ ex = r # ready_tasks absQ ?ex" using Nil q mq(2) by (simp add: ready_tasks_def)
    moreover have "drained absQ ex ?ex" using mq(2) q by (simp add: drained_def suffix_ConsI)
    ultimately show ?thesis
      using mainstream_step [OF ok w(2,3)] by (intro exI [of _ "Some r"] exI [of _ ?ex] exI [of _ q]) simp
  qed
qed

text \<open>The closure over the mainstream queue: while no other thread interferes its second pop fails.\<close>

lemma poll_mainstream_ok:
  assumes w: "rn_task X w = None" and ok: "ex_ok X absQ absA ex q"
  shows "\<exists>p ex'. poll_mainstream X w ex = (p, ex') \<and> ex_ok X absQ absA ex' q \<and> grows ex ex' \<and>
    ts_task_queue ex' = ts_task_queue ex \<and> drained absQ ex ex' \<and>
    ts_is_mainstream_listening ex' = ts_is_mainstream_listening ex \<and>
    (case p of Some r \<Rightarrow> add_mset r (ex_tasks absQ ex' q) = ex_tasks absQ ex q
     | None \<Rightarrow> ex_tasks absQ ex' q = ex_tasks absQ ex q \<and> absA (ex_mainstream_waker ex') = Some w)"
proof -
  from queue_pop [of "ex_task_queue ex"] obtain mq where
    mq: "cq_pop X (ex_task_queue ex) = (case absQ (ex_task_queue ex) of [] \<Rightarrow> None | x # xs \<Rightarrow> Some x, mq)"
      "absQ mq = tl (absQ (ex_task_queue ex))" by blast
  show ?thesis
  proof (cases "absQ (ex_task_queue ex)")
    case (Cons r rs)
    with mq have "poll_mainstream X w ex = (Some r, ex\<lparr>ex_task_queue := mq\<rparr>)"
      by (simp add: poll_mainstream_def)
    with ok mq Cons show ?thesis
      by (intro exI conjI) (assumption, auto simp: ex_ok_def grows_def ex_tasks_def drained_def suffix_ConsI)
  next
    case Nil
    from queue_pop [of mq] mq Nil obtain mq' where
      mq': "cq_pop X mq = (None, mq')" "absQ mq' = []" by auto
    let ?a = "aw_register X w (ex_mainstream_waker ex)"
    have "poll_mainstream X w ex = (None, ex\<lparr>ex_task_queue := mq', ex_mainstream_waker := ?a\<rparr>)"
      using mq(1) mq'(1) Nil by (simp add: poll_mainstream_def)
    moreover have "ex_ok X absQ absA (ex\<lparr>ex_task_queue := mq', ex_mainstream_waker := ?a\<rparr>) q"
      using ok w waker_register [of w] mq'(2) by (simp add: ex_ok_def)
    ultimately show ?thesis
      using mq'(2) Nil waker_register [of w] by (intro exI conjI) (assumption, auto simp: grows_def ex_tasks_def drained_def)
  qed
qed

lemma tick_wait_ok:
  assumes ok: "ex_ok X absQ absA ex q" and a: "a \<in> q_listeners q" and w: "rn_task X w = None"
  shows "\<exists>p ex' q'. tick_wait X m a w ex = Inr (p, ex') \<and> waited X absQ absA m a w ex q p ex' q'"
proof -
  from poll_listener [OF assms] obtain p e q' where
    e: "Listener_poll a w (ts_thread_waker ex) = Inr (p, e)"
      "ex_ok X absQ absA (ex\<lparr>ts_thread_waker := e\<rparr>) q'" "polled a q p q'" by blast
  let ?ex = "ex\<lparr>ts_thread_waker := e\<rparr>"
  have k: "keeps_waker absA ex ?ex" "grows ex ?ex" "drained absQ ex ?ex"
    by (simp_all add: keeps_waker_def grows_def drained_same)
  have listed: "x \<in> q_idle q' \<or> x \<in> set (q_addrs q') \<Longrightarrow> x \<in> q_listeners q'" for x
    by (auto simp: q_listeners_def)
  show ?thesis
  proof (cases p)
    case (Ready t)
    with e(1) have "tick_wait X m a w ex = Inr (Ready t, ?ex)" by (simp add: tick_wait_def)
    moreover have "waited X absQ absA m a w ex q (Ready t) ?ex q'"
      using e(2,3) k Ready listed by (cases t) (auto simp: waited_def polled_def ex_tasks_def)
    ultimately show ?thesis by blast
  next
    case Pending
    then have t: "ex_tasks absQ ?ex q' = ex_tasks absQ ex q" using e(3) by (simp add: polled_def ex_tasks_def)
    show ?thesis
    proof (cases m)
      case False
      with e(1) Pending have "tick_wait X m a w ex = Inr (Pending, ?ex)" by (simp add: tick_wait_def)
      moreover have "waited X absQ absA m a w ex q Pending ?ex q'"
        using e(2,3) k Pending False t by (simp add: waited_def polled_def)
      ultimately show ?thesis by blast
    next
      case True
      from poll_mainstream_ok [OF w e(2)] obtain p' ex' where
        p': "poll_mainstream X w ?ex = (p', ex')" "ex_ok X absQ absA ex' q'" "grows ?ex ex'"
          "ts_task_queue ex' = ts_task_queue ?ex" "drained absQ ?ex ex'"
          "ts_is_mainstream_listening ex' = ts_is_mainstream_listening ?ex"
          "case p' of Some r \<Rightarrow> add_mset r (ex_tasks absQ ex' q') = ex_tasks absQ ex q
           | None \<Rightarrow> ex_tasks absQ ex' q' = ex_tasks absQ ex q \<and> absA (ex_mainstream_waker ex') = Some w"
        unfolding t by blast
      have g: "grows ex ex'" "drained absQ ex ex'"
        using grows_trans [OF k(2) p'(3)] drained_trans [OF k(3) p'(5)] by blast+
      have "tick_wait X m a w ex = Inr (case p' of Some r \<Rightarrow> Ready (Some r) | None \<Rightarrow> Pending, ex')"
        using e(1) Pending True p'(1) by (simp add: tick_wait_def split: option.split)
      moreover have "waited X absQ absA m a w ex q (case p' of Some r \<Rightarrow> Ready (Some r) | None \<Rightarrow> Pending) ex' q'"
        using p' g e(3) Pending True listed by (cases p') (auto simp: waited_def polled_def)
      ultimately show ?thesis by blast
    qed
  qed
qed

text \<open>One turn of the loop, with a listener that is not in the list.\<close>

lemma tick_loop_ok:
  assumes ok: "ex_ok X absQ absA ex q" and a: "a \<in> q_idle q" and w: "rn_task X w = None"
    and m: "m \<longrightarrow> ts_is_mainstream_listening ex"
  shows "\<exists>st f ex' q'. tick_loop X th (Suc n) m a w ex = Inr (st, f, ex') \<and>
    ticked X absQ absA m a w ex q st f ex' q' \<and> (st = Suspends \<longrightarrow> \<not> work ex')"
proof (cases "ts_task_queue ex")
  case (Cons r rs)
  let ?f = "\<lparr>tf_pc = TLast, tf_is_mainstream = m\<rparr>"
  let ?k = "\<lambda>ex'. Inr (Runs r, ?f, ex')"
  from pop_local [OF ok Cons, of "scheduler X th" ?k] obtain ex' where
    e: "andThen (notify_thread X (scheduler X th) no_item () (ex\<lparr>ex_borrow := Writing, ts_task_queue := rs\<rparr>))
        (\<lambda>(_, ex2). ?k (ts_unlock ex2)) = ?k ex'"
      "ex_step X absQ absA ex q ex' (offered None q)"
      "add_mset r (ex_tasks absQ ex' (offered None q)) = ex_tasks absQ ex q" "drained absQ ex ex'" by blast
  have "tick_loop X th (Suc n) m a w ex = ?k ex'"
    using e(1) locked_ok [OF ok] Cons by simp
  moreover have "ticked X absQ absA m a w ex q (Runs r) ?f ex' (offered None q)"
    using e(2-4) a by (simp add: ticked_def ex_step_def others_same)
  ultimately show ?thesis by blast
next
  case Nil
  let ?m = "m \<or> \<not> ts_is_mainstream_listening ex"
  let ?ex = "ex\<lparr>ts_is_mainstream_listening := True\<rparr>"
  have u: "ts_unlock (ex\<lparr>ex_borrow := Writing, ts_is_mainstream_listening := True\<rparr>) = ?ex"
    using locked_ok [OF ok] by (cases ex) (simp add: ts_unlock_def)
  have "ex_ok X absQ absA ?ex q" using ok by (simp add: ex_ok_def)
  moreover have "a \<in> q_listeners q" using a by (simp add: q_listeners_def)
  ultimately obtain p ex' q' where
    e: "tick_wait X ?m a w ?ex = Inr (p, ex')" "waited X absQ absA ?m a w ?ex q p ex' q'"
    using tick_wait_ok [of ?ex q a w ?m] w by blast
  have k: "keeps_waker absA ?ex ex' = keeps_waker absA ex ex'" "grows ?ex ex' = grows ex ex'"
    "ex_tasks absQ ?ex q = ex_tasks absQ ex q" "drained absQ ?ex ex' = drained absQ ex ex'"
    by (simp_all add: keeps_waker_def grows_def ex_tasks_def drained_def)
  show ?thesis
  proof (cases p)
    case Pending
    let ?f = "\<lparr>tf_pc = TWaiting, tf_is_mainstream = ?m\<rparr>"
    have "tick_loop X th (Suc n) m a w ex = Inr (Suspends, ?f, ex')"
      using e(1) locked_ok [OF ok] Nil u Pending by simp
    moreover have "ticked X absQ absA m a w ex q Suspends ?f ex' q'" "\<not> work ex'"
      using e(2) Nil m Pending k by (auto simp: ticked_def waited_def work_def)
    ultimately show ?thesis by blast
  next
    case (Ready t)
    then obtain r where t: "t = Some r" using e(2) a by (cases t) (auto simp: waited_def)
    let ?f = "\<lparr>tf_pc = TRunning, tf_is_mainstream = ?m\<rparr>"
    have "tick_loop X th (Suc n) m a w ex = Inr (Runs r, ?f, ex')"
      using e(1) locked_ok [OF ok] Nil u Ready t by simp
    moreover have "ticked X absQ absA m a w ex q (Runs r) ?f ex' q'"
      using e(2) Nil m Ready t k by (auto simp: ticked_def waited_def work_def)
    ultimately show ?thesis by blast
  qed
qed

text \<open>A poll of the future of \<open>tick\<close>, from one point to the next.\<close>

lemma tick_first:
  assumes ok: "ex_ok X absQ absA ex q" and a: "a \<notin> q_listeners q" "a \<noteq> 0" and w: "rn_task X w = None"
    and m: "tf_is_mainstream f \<longrightarrow> ts_is_mainstream_listening ex" and pc: "tf_pc f = TUnresumed"
  shows "\<exists>st f' ex' q'. Ticker_tick X th f a w ex = Inr (st, f', ex') \<and>
    ticked X absQ absA (tf_is_mainstream f) a w ex q st f' ex' q' \<and>
    (st = Suspends \<longrightarrow> tf_pc f = TWaiting \<or> \<not> work ex')"
proof -
  let ?ex = "ex\<lparr>ts_thread_waker := Listener_new a (ts_thread_waker ex)\<rparr>"
  have r: "refines (ts_thread_waker ex) q" using ok by (simp add: ex_ok_def)
  have u: "ts_unlock (ex\<lparr>ex_borrow := Writing, ts_thread_waker := Listener_new a (ts_thread_waker ex)\<rparr>) = ?ex"
    using locked_ok [OF ok] by (cases ex) (simp add: ts_unlock_def)
  have ok': "ex_ok X absQ absA ?ex (q_new a q)"
    using ok refines_new [OF r a] by (simp add: ex_ok_def foreign_new)
  have "a \<in> q_idle (q_new a q)" "tf_is_mainstream f \<longrightarrow> ts_is_mainstream_listening ?ex" using m by simp_all
  from tick_loop_ok [OF ok' this(1) w this(2), of th 1] obtain st f' ex' q' where
    e: "tick_loop X th poll_fuel (tf_is_mainstream f) a w ?ex = Inr (st, f', ex')"
      "ticked X absQ absA (tf_is_mainstream f) a w ?ex (q_new a q) st f' ex' q'" "st = Suspends \<longrightarrow> \<not> work ex'"
    by (auto simp: poll_fuel_def numeral_2_eq_2)
  have "Ticker_tick X th f a w ex = Inr (st, f', ex')"
    using e(1) locked_ok [OF ok] u pc by (simp add: Ticker_tick_def)
  moreover have "ticked X absQ absA (tf_is_mainstream f) a w ex q st f' ex' q'"
    by (rule ticked_after [OF e(2)])
      (use e(3) in \<open>auto simp: others_def grows_def keeps_waker_def drained_same ex_tasks_def q_items_def q_addrs_def\<close>)
  ultimately show ?thesis using e(3) by blast
qed

lemma tick_resume:
  assumes ok: "ex_ok X absQ absA ex q" and a: "a \<in> set (q_addrs q)" and w: "rn_task X w = None"
    and m: "tf_is_mainstream f \<longrightarrow> ts_is_mainstream_listening ex" and pc: "tf_pc f = TWaiting"
  shows "\<exists>st f' ex' q'. Ticker_tick X th f a w ex = Inr (st, f', ex') \<and>
    ticked X absQ absA (tf_is_mainstream f) a w ex q st f' ex' q'"
proof -
  let ?m = "tf_is_mainstream f"
  have r: "refines (ts_thread_waker ex) q" using ok by (simp add: ex_ok_def)
  have l: "a \<in> q_listeners q" "a \<notin> q_idle q" using a refines_wf(2) [OF r] by (auto simp: q_listeners_def)
  from tick_wait_ok [OF ok l(1) w, of ?m] obtain p ex1 q1 where
    e: "tick_wait X ?m a w ex = Inr (p, ex1)" "waited X absQ absA ?m a w ex q p ex1 q1" by blast
  show ?thesis
  proof (cases p)
    case Pending
    with e(1) pc have "Ticker_tick X th f a w ex = Inr (Suspends, f, ex1)" by (simp add: Ticker_tick_def)
    moreover have "ticked X absQ absA ?m a w ex q Suspends f ex1 q1"
      using e(2) Pending pc l by (auto simp: ticked_def waited_def work_def)
    ultimately show ?thesis by blast
  next
    case (Ready t)
    show ?thesis
    proof (cases t)
      case (Some v)
      with e(1) pc Ready have "Ticker_tick X th f a w ex = Inr (Runs v, f\<lparr>tf_pc := TRunning\<rparr>, ex1)"
        by (simp add: Ticker_tick_def)
      moreover have "ticked X absQ absA ?m a w ex q (Runs v) (f\<lparr>tf_pc := TRunning\<rparr>) ex1 q1"
        using e(2) Ready Some by (auto simp: ticked_def waited_def)
      ultimately show ?thesis by blast
    next
      case None
      with e(2) Ready have i: "a \<in> q_idle q1" "ex_ok X absQ absA ex1 q1" "ts_is_mainstream_listening ex1 = ts_is_mainstream_listening ex"
        by (simp_all add: waited_def)
      from i(3) m have "?m \<longrightarrow> ts_is_mainstream_listening ex1" by simp
      from tick_loop_ok [OF i(2,1) w this, of th 1] obtain st f' ex' q' where
        e': "tick_loop X th poll_fuel ?m a w ex1 = Inr (st, f', ex')"
          "ticked X absQ absA ?m a w ex1 q1 st f' ex' q'" "st = Suspends \<longrightarrow> \<not> work ex'"
        by (auto simp: poll_fuel_def numeral_2_eq_2)
      have "Ticker_tick X th f a w ex = Inr (st, f', ex')"
        using e(1) e'(1) pc Ready None by (simp add: Ticker_tick_def)
      moreover have "ticked X absQ absA ?m a w ex q st f' ex' q'"
        by (rule ticked_after [OF e'(2)]) (use e(2) e'(3) Ready None in \<open>auto simp: waited_def\<close>)
      ultimately show ?thesis by blast
    qed
  qed
qed

lemma idle_not_notified:
  assumes "ex_ok X absQ absA ex q" and "a \<in> q_idle q"
  shows "a \<in> q_listeners q" and "notified_tag a q = None"
proof -
  have r: "refines (ts_thread_waker ex) q" using assms(1) by (simp add: ex_ok_def)
  show "a \<in> q_listeners q" using assms(2) by (simp add: q_listeners_def)
  show "notified_tag a q = None" using refines_notified(2) [OF r, of a] assms(2) by (cases "notified_tag a q") auto
qed

lemma tick_last:
  assumes ok: "ex_ok X absQ absA ex q" and a: "a \<in> q_idle q" and pc: "tf_pc f = TLast"
  shows "\<exists>st f' ex' q'. Ticker_tick X th f a w ex = Inr (st, f', ex') \<and>
    ticked X absQ absA (tf_is_mainstream f) a w ex q st f' ex' q' \<and>
    (st = Suspends \<longrightarrow> tf_pc f = TWaiting \<or> \<not> work ex')"
  using tick_return_ok [OF ok idle_not_notified [OF ok a], of th f w] pc by (auto simp: Ticker_tick_def)

lemma tick_running:
  assumes ok: "ex_ok X absQ absA ex q" and a: "a \<in> q_listeners q" and w: "rn_task X w = None"
    and pc: "tf_pc f = TRunning"
  shows "\<exists>st f' ex' q'. Ticker_tick X th f a w ex = Inr (st, f', ex') \<and>
    ticked X absQ absA (tf_is_mainstream f) a w ex q st f' ex' q' \<and>
    (st = Suspends \<longrightarrow> tf_pc f = TWaiting \<or> \<not> work ex')"
proof -
  from poll_listener [OF ok a w] obtain p e q1 where
    e: "Listener_poll a w (ts_thread_waker ex) = Inr (p, e)"
      "ex_ok X absQ absA (ex\<lparr>ts_thread_waker := e\<rparr>) q1" "polled a q p q1" by blast
  let ?ex = "ex\<lparr>ts_thread_waker := e\<rparr>"
  have k: "grows ex ?ex" "keeps_waker absA ex ?ex" "ts_is_mainstream_listening ?ex = ts_is_mainstream_listening ex"
    "drained absQ ex ?ex" by (simp_all add: grows_def keeps_waker_def drained_same)
  have oth: "others a q q1" using e(3) by (simp add: polled_def)
  show ?thesis
  proof (cases "\<exists>r. p = Ready (Some r)")
    case True
    then obtain r where r: "p = Ready (Some r)" by blast
    have "Ticker_tick X th f a w ex = Inr (Runs r, f\<lparr>tf_pc := TLast\<rparr>, ?ex)"
      using e(1) r pc by (simp add: Ticker_tick_def)
    moreover have "ticked X absQ absA (tf_is_mainstream f) a w ex q (Runs r) (f\<lparr>tf_pc := TLast\<rparr>) ?ex q1"
      using e(2,3) r k by (simp add: ticked_def polled_def ex_tasks_def)
    ultimately show ?thesis by blast
  next
    case False
    have n: "a \<in> q_listeners q1" "notified_tag a q1 = None" "mset (q_items q1) = mset (q_items q)"
      using e(3) False idle_not_notified [OF e(2), of a]
      by (auto simp: polled_def q_listeners_def split: poll.splits option.splits)
    from tick_return_ok [OF e(2) n(1,2), of th f w] obtain f' ex' q' where
      t: "tick_return X th f a ?ex = Inr (Returns, f', ex')"
        "ticked X absQ absA (tf_is_mainstream f) a w ?ex q1 Returns f' ex' q'" by blast
    have "Ticker_tick X th f a w ex = Inr (Returns, f', ex')"
      using e(1) t(1) pc False by (cases p) (auto simp: Ticker_tick_def split: option.splits)
    moreover have "ticked X absQ absA (tf_is_mainstream f) a w ex q Returns f' ex' q'"
      by (rule ticked_after [OF t(2) oth k(1,2) _ k(4,3)]) (use n in \<open>auto simp: ex_tasks_def\<close>)
    ultimately show ?thesis by blast
  qed
qed

lemma Ticker_tick_ok:
  assumes ok: "ex_ok X absQ absA ex q" and a: "place_ok (tf_pc f) a q" "a \<noteq> 0" and w: "rn_task X w = None"
    and m: "tf_is_mainstream f \<longrightarrow> ts_is_mainstream_listening ex" and pc: "tf_pc f \<noteq> TReturned"
  shows "\<exists>st f' ex' q'. Ticker_tick X th f a w ex = Inr (st, f', ex') \<and>
    ticked X absQ absA (tf_is_mainstream f) a w ex q st f' ex' q' \<and>
    (st = Suspends \<longrightarrow> tf_pc f = TWaiting \<or> \<not> work ex')"
proof (cases "tf_pc f")
  case TUnresumed
  with tick_first [OF ok _ a(2) w m] a(1) show ?thesis by simp
next
  case TWaiting
  with tick_resume [OF ok _ w m] a(1) show ?thesis by simp
next
  case TLast
  with tick_last [OF ok] a(1) show ?thesis by simp
next
  case TRunning
  with tick_running [OF ok _ w] a(1) show ?thesis by simp
qed (use pc in simp)

section \<open>Dropping a ticker\<close>

lemma Ticker_drop_ok:
  assumes ok: "ex_ok X absQ absA ex q"
  shows "\<exists>ex' q'. Ticker_drop X th f ex = Inr ex' \<and> gone X absQ absA (tf_is_mainstream f) ex q ex' q' \<and>
    q_addrs q' = q_addrs q \<and> q_idle q' = q_idle q \<and> ex_tasks absQ ex' q' = ex_tasks absQ ex q"
proof (cases "tf_is_mainstream f")
  case False
  with ok show ?thesis
    by (intro exI [of _ ex] exI [of _ q]) (simp add: Ticker_drop_def gone_def keeps_waker_def)
next
  case True
  from waker_take [of "ex_mainstream_waker ex"] obtain a where
    a: "aw_take X (ex_mainstream_waker ex) = (absA (ex_mainstream_waker ex), a)" "absA a = None" by blast
  let ?ex1 = "ex\<lparr>ex_mainstream_waker := a, ts_is_mainstream_listening := False\<rparr>"
  have ok1: "ex_ok X absQ absA ?ex1 q" using ok a(2) by (simp add: ex_ok_def)
  from ping_locked [OF ok1, of "scheduler X th" "ts_task_queue ex"] obtain e where
    e: "notify_thread X (scheduler X th) no_item () (?ex1\<lparr>ex_borrow := Writing, ts_task_queue := ts_task_queue ex\<rparr>) =
      Inr ((), ?ex1\<lparr>ex_borrow := Writing, ts_thread_waker := e, ex_woken := ex_woken ex @ offer_wakes q,
        ts_task_queue := ts_task_queue ex\<rparr>)"
      "refines e (offered None q)" by auto
  let ?ex = "?ex1\<lparr>ts_thread_waker := e, ex_woken := ex_woken ex @ offer_wakes q\<rparr>"
  have "Ticker_drop X th f ex = Inr ?ex"
    using True a(1) e(1) locked_ok [OF ok] ok
    by (cases ex) (simp add: Ticker_drop_def ts_lock_def ex_ok_def ts_unlock_def)
  moreover have "ex_ok X absQ absA ?ex (offered None q)"
    using ok1 e(2) by (simp add: ex_ok_def foreign_offered)
  moreover have "ex_tasks absQ ?ex (offered None q) = ex_tasks absQ ex q"
    by (simp add: ex_tasks_def q_items_offered)
  ultimately show ?thesis
    using True by (intro exI [of _ ?ex] exI [of _ "offered None q"])
      (simp add: gone_def grows_def nothing_lost_offered)
qed

lemma tick_drop_ok:
  assumes ok: "ex_ok X absQ absA ex q" and a: "place_ok (tf_pc f) a q"
    and pc: "tf_pc f = TUnresumed \<or> tf_pc f = TWaiting \<or> tf_pc f = TReturned"
  shows "\<exists>ex' q'. tick_drop X th f a ex = Inr ex' \<and> gone X absQ absA (tf_is_mainstream f) ex q ex' q' \<and>
    others a q q' \<and> a \<notin> q_listeners q' \<and> ex_tasks absQ ex' q' \<subseteq># ex_tasks absQ ex q \<and>
    (notified_tag a q = None \<longrightarrow> ex_tasks absQ ex' q' = ex_tasks absQ ex q) \<and>
    mset (q_items q') = mset (q_items (if tf_pc f = TWaiting then snd (q_drop a q) else q))"
proof (cases "tf_pc f = TWaiting")
  case False
  then have s: "tick_drop X th f a ex = Ticker_drop X th f ex" "a \<notin> q_listeners q"
    using pc a by (auto simp: tick_drop_def)
  from Ticker_drop_ok [OF ok, of th f] obtain ex' q' where
    "Ticker_drop X th f ex = Inr ex'" "gone X absQ absA (tf_is_mainstream f) ex q ex' q'"
    "q_addrs q' = q_addrs q" "q_idle q' = q_idle q" "ex_tasks absQ ex' q' = ex_tasks absQ ex q" by blast
  with s False show ?thesis
    by (intro exI [of _ ex'] exI [of _ q']) (simp add: others_same q_listeners_def gone_def ex_tasks_def)
next
  case True
  have r: "refines (ts_thread_waker ex) q" using ok by (simp add: ex_ok_def)
  have "a \<in> q_listeners q" using True a by (simp add: q_listeners_def)
  from drop_listener_ok [OF ok this, of th] obtain e where
    e: "drop_listener X th a ex = Inr (ex\<lparr>ts_thread_waker := e, ex_woken := ex_woken ex @ fst (q_drop a q)\<rparr>)"
      "ex_ok X absQ absA (ex\<lparr>ts_thread_waker := e, ex_woken := ex_woken ex @ fst (q_drop a q)\<rparr>) (snd (q_drop a q))"
    by blast
  let ?ex = "ex\<lparr>ts_thread_waker := e, ex_woken := ex_woken ex @ fst (q_drop a q)\<rparr>" and ?q = "snd (q_drop a q)"
  from Ticker_drop_ok [OF e(2), of th f] obtain ex' q' where
    d: "Ticker_drop X th f ?ex = Inr ex'" "gone X absQ absA (tf_is_mainstream f) ?ex ?q ex' q'" "q_addrs q' = q_addrs ?q"
      "q_idle q' = q_idle ?q" "ex_tasks absQ ex' q' = ex_tasks absQ ?ex ?q" by blast
  have g: "grows ex ?ex" "keeps_waker absA ex ?ex" by (simp_all add: grows_def keeps_waker_def)
  have d': "grows ?ex ex'" "tf_is_mainstream f \<or> keeps_waker absA ?ex ex'" using d(2) by (simp_all add: gone_def)
  have "tf_is_mainstream f \<or> keeps_waker absA ex ex'"
    using keeps_waker_trans [OF g(2) _ g(1) d'(1)] d'(2) by blast
  moreover have "work ?ex = work ex" by (simp add: work_def)
  then have "nothing_lost (work ex) q \<Longrightarrow> nothing_lost (work ex') q'"
    using d(2) nothing_lost_drop [of "work ex" q a] by (simp add: gone_def)
  ultimately have "gone X absQ absA (tf_is_mainstream f) ex q ex' q'"
    using d(2) grows_trans [OF g(1) d'(1)] by (simp add: gone_def)
  moreover have "tick_drop X th f a ex = Inr ex'" using True e(1) d(1) by (simp add: tick_drop_def)
  moreover have "others a q q'" "a \<notin> q_listeners q'"
    using d(3,4) by (auto simp: others_def q_drop_addrs q_drop_idle q_listeners_def)
  moreover have "ex_tasks absQ ex' q' \<subseteq># ex_tasks absQ ex q"
    "notified_tag a q = None \<longrightarrow> ex_tasks absQ ex' q' = ex_tasks absQ ex q"
    using d(5) q_items_drop [OF r, of a] by (simp_all add: ex_tasks_def)
  moreover have "mset (q_items q') = mset (q_items (if tf_pc f = TWaiting then snd (q_drop a q) else q))"
    using d(2,5) True by (simp add: gone_def ex_tasks_def)
  ultimately show ?thesis by (intro exI [of _ ex'] exI [of _ q'] conjI)
qed

end

section \<open>An instance\<close>

text \<open>
  The crates as lists: an atomic waker is the waker it holds, a slab a list of slots. Tasks are
  numbers with one runnable each; a waker is that of a task (\<open>Inr\<close>) or not (\<open>Inl\<close>).
\<close>

definition slots_vacant :: "'w option list \<Rightarrow> usize" where
  "slots_vacant s = length (takeWhile (\<lambda>x. x \<noteq> None) s)"

definition slots_insert :: "'w \<Rightarrow> 'w option list \<Rightarrow> usize \<times> 'w option list" where
  "slots_insert w s =
     (slots_vacant s, if slots_vacant s < length s then s[slots_vacant s := Some w] else s @ [Some w])"

definition slots_map :: "'w option list \<Rightarrow> usize \<rightharpoonup> 'w" where
  "slots_map s k = (if k < length s then s ! k else None)"

definition list_crates :: "(nat list, (nat + nat) option, (nat + nat) option list, nat, nat + nat) externs" where
  "list_crates =
     \<lparr>cq_unbounded = [],
      cq_push = (\<lambda>r q. (Inr (), q @ [r])),
      cq_pop = (\<lambda>q. (case q of [] \<Rightarrow> None | x # xs \<Rightarrow> Some x, tl q)),
      cq_is_empty = (\<lambda>q. q = []),
      aw_new = None,
      aw_register = (\<lambda>w a. Some w),
      aw_take = (\<lambda>a. (a, None)),
      aw_wake = (\<lambda>a. (case a of None \<Rightarrow> [] | Some w \<Rightarrow> [w], None)),
      sl_new = [],
      sl_vacant_key = slots_vacant,
      sl_insert = slots_insert,
      sl_try_remove = (\<lambda>k s. (slots_map s k, s[k := None])),
      sl_drain = (\<lambda>s. (List.map_filter (\<lambda>x. x) s, [])),
      rn_waker = Inr,
      rn_task = (\<lambda>w. case w of Inl n \<Rightarrow> None | Inr r \<Rightarrow> Some r)\<rparr>"

declare slots_vacant_def [evals] slots_insert_def [evals] slots_map_def [evals] list_crates_def [evals]

lemma slots_vacant_le: "slots_vacant s \<le> length s"
  unfolding slots_vacant_def by (rule length_takeWhile_le)

lemma slots_vacant_None: "slots_map s (slots_vacant s) = None"
  using nth_length_takeWhile [of "\<lambda>x. x \<noteq> None" s] by (auto simp: slots_map_def slots_vacant_def)

lemma slots_insert_map: "slots_map (snd (slots_insert w s)) = (slots_map s)(slots_vacant s \<mapsto> w)"
  using slots_vacant_le [of s]
  by (auto simp: slots_map_def slots_insert_def nth_append nth_list_update intro!: ext)

lemma slots_ran: "set (List.map_filter (\<lambda>x. x) s) = ran (slots_map s)"
proof -
  have "set (List.map_filter (\<lambda>x. x) s) = {w. Some w \<in> set s}"
    by (induction s) (auto simp: map_filter_simps split: option.splits)
  also have "\<dots> = ran (slots_map s)" by (auto simp: ran_def slots_map_def in_set_conv_nth split: if_splits)
  finally show ?thesis .
qed

interpretation listed: crates list_crates "\<lambda>q. q" "\<lambda>a. a" slots_map
proof unfold_locales
  show "\<exists>s'. sl_insert list_crates w s = (sl_vacant_key list_crates s, s') \<and>
      slots_map s' = (slots_map s)(sl_vacant_key list_crates s \<mapsto> w)" for w s
    using slots_insert_map [of w s] by (simp add: list_crates_def slots_insert_def)
  show "\<exists>s'. sl_try_remove list_crates k s = (slots_map s k, s') \<and> slots_map s' = (slots_map s)(k := None)" for k s
    by (auto simp: list_crates_def slots_map_def nth_list_update intro!: ext)
  show "\<exists>ws s'. sl_drain list_crates s = (ws, s') \<and> slots_map s' = Map.empty \<and> set ws = ran (slots_map s)" for s
    by (auto simp: list_crates_def slots_ran slots_map_def [abs_def])
qed (simp_all add: list_crates_def slots_map_def [abs_def] slots_vacant_None [unfolded slots_map_def])

end
