(* ===== verification/ExecutorSystem.thy ===== *)
theory ExecutorSystem
  imports ExecutorLaws
begin

text \<open>
  An executor with its tickers, used from the origin thread and scheduled to from any thread:
  the invariants that hold under every interleaving of its operations.
\<close>

section \<open>The system\<close>

text \<open>
  \<open>es_ticks\<close> are the tickers with their current \<open>tick\<close>, by the address of its listener,
  \<open>es_polls\<close> the waker of the last poll of each and how many wakers had been woken before
  that poll, \<open>es_scheduled\<close> and \<open>es_ran\<close> the runnables passed to the scheduler and those
  taken to be run. \<open>es_lossy\<close> tells whether a ticker was ever dropped after it had been
  notified, \<open>es_single\<close> whether one was dropped that had returned (\<open>Executor::tick\<close>).
\<close>

record ('q, 'a, 's, 'r, 'w, 'th) exec_sys =
  es_ex :: "('q, 'a, 's, 'r, 'w, 'th) Executor"
  es_ticks :: "addr \<rightharpoonup> tick_fut"
  es_polls :: "addr \<rightharpoonup> 'w \<times> nat"
  es_scheduled :: "'r list"
  es_ran :: "'r list"
  es_lossy :: bool
  es_single :: bool

definition exec_init ::
  "('q, 'a, 's, 'r, 'w) externs \<Rightarrow> 'th ThreadId \<Rightarrow> 'th \<Rightarrow> ('q, 'a, 's, 'r, 'w, 'th) exec_sys" where
  "exec_init X tid th0 =
     \<lparr>es_ex = with_thread_id X tid th0, es_ticks = Map.empty, es_polls = Map.empty,
      es_scheduled = [], es_ran = [], es_lossy = False, es_single = False\<rparr>"

text \<open>
  \<open>Executor::run\<close>: its runner is polled from one point to the next; when a tick has returned,
  the loop begins the next one. With \<open>ETicker\<close> a ticker is created (the runner of \<open>run\<close>, or
  the one of a single \<open>tick\<close>), and it is dropped with \<open>EDrop\<close>, which cannot happen in the
  middle of a poll.
\<close>

definition run_step ::
  "('q, 'a, 's, 'r, 'w) externs \<Rightarrow> 'th \<Rightarrow> tick_fut \<Rightarrow> addr \<Rightarrow> 'w \<Rightarrow> ('q, 'a, 's, 'r, 'w, 'th) Executor
     \<Rightarrow> ('r tick_step \<times> tick_fut \<times> ('q, 'a, 's, 'r, 'w, 'th) Executor) outcome" where
  "run_step X th f a w ex =
     Ticker_tick X th (if tf_pc f = TReturned then f\<lparr>tf_pc := TUnresumed\<rparr> else f) a w ex"

datatype ('r, 'w, 'th) exec_op =
    ESchedule 'th 'r
  | ESpawn 'r
  | EFinish usize
  | EIs_empty
  | ETry_tick
  | ETicker addr
  | EPoll addr 'w
  | EDrop addr

text \<open>
  The wakers of the runners are not those of tasks of this executor: it is not run inside one of
  its own tasks.
\<close>

fun exec_enabled ::
  "('q, 'a, 's, 'r, 'w) externs \<Rightarrow> ('r, 'w, 'th) exec_op \<Rightarrow> ('q, 'a, 's, 'r, 'w, 'th) exec_sys \<Rightarrow> bool" where
  "exec_enabled X (ETicker a) s \<longleftrightarrow> es_ticks s a = None \<and> a \<noteq> 0"
| "exec_enabled X (EPoll a w) s \<longleftrightarrow> es_ticks s a \<noteq> None \<and> rn_task X w = None"
| "exec_enabled X (EDrop a) s \<longleftrightarrow>
     (case es_ticks s a of
        None \<Rightarrow> False
      | Some f \<Rightarrow> tf_pc f = TUnresumed \<or> tf_pc f = TWaiting \<or> tf_pc f = TReturned)"
| "exec_enabled X op s \<longleftrightarrow> True"

fun tick_ran :: "'r tick_step \<Rightarrow> 'r list" where
  "tick_ran (Runs r) = [r]"
| "tick_ran _ = []"

fun exec_exec ::
  "('q, 'a, 's, 'r, 'w) externs \<Rightarrow> 'th \<Rightarrow> ('r, 'w, 'th) exec_op \<Rightarrow> ('q, 'a, 's, 'r, 'w, 'th) exec_sys
     \<Rightarrow> ('q, 'a, 's, 'r, 'w, 'th) exec_sys outcome" where
  "exec_exec X th0 (ESchedule th r) s =
     andThen (scheduler X th r (es_ex s)) (\<lambda>ex.
     Inr (s\<lparr>es_ex := ex, es_scheduled := es_scheduled s @ [r]\<rparr>))"
| "exec_exec X th0 (ESpawn r) s =
     andThen (spawn X th0 r (es_ex s)) (\<lambda>(_, ex).
     Inr (s\<lparr>es_ex := ex, es_scheduled := es_scheduled s @ [r]\<rparr>))"
| "exec_exec X th0 (EFinish index) s =
     andThen (CallOnDrop_drop X index (es_ex s)) (\<lambda>ex. Inr (s\<lparr>es_ex := ex\<rparr>))"
| "exec_exec X th0 EIs_empty s = andThen (is_empty X (es_ex s)) (\<lambda>(_, ex). Inr (s\<lparr>es_ex := ex\<rparr>))"
| "exec_exec X th0 ETry_tick s =
     andThen (try_tick X th0 (es_ex s)) (\<lambda>(p, ex).
     Inr (s\<lparr>es_ex := ex, es_ran := (case p of Some r \<Rightarrow> es_ran s @ [r] | None \<Rightarrow> es_ran s)\<rparr>))"
| "exec_exec X th0 (ETicker a) s = Inr (s\<lparr>es_ticks := (es_ticks s)(a \<mapsto> Ticker_new)\<rparr>)"
| "exec_exec X th0 (EPoll a w) s =
     andThen (run_step X th0 (the (es_ticks s a)) a w (es_ex s)) (\<lambda>(st, f, ex).
     Inr (s\<lparr>es_ex := ex, es_ticks := (es_ticks s)(a \<mapsto> f),
       es_polls := (es_polls s)(a \<mapsto> (w, length (ex_woken ex))), es_ran := es_ran s @ tick_ran st\<rparr>))"
| "exec_exec X th0 (EDrop a) s =
     andThen (tick_drop X th0 (the (es_ticks s a)) a (es_ex s)) (\<lambda>ex.
     Inr (s\<lparr>es_ex := ex, es_ticks := (es_ticks s)(a := None),
       es_lossy := (es_lossy s \<or> is_notified (ts_thread_waker (es_ex s)) a),
       es_single := (es_single s \<or> tf_pc (the (es_ticks s a)) = TReturned)\<rparr>))"

definition exec_reach ::
  "('q, 'a, 's, 'r, 'w) externs \<Rightarrow> 'th ThreadId \<Rightarrow> 'th \<Rightarrow> ('q, 'a, 's, 'r, 'w, 'th) exec_sys \<Rightarrow> bool" where
  "exec_reach X tid th0 = reach (exec_enabled X) (exec_exec X th0) (exec_init X tid th0)"

declare exec_init_def [evals] run_step_def [evals]

section \<open>The invariant\<close>

text \<open>The listeners of the event are those of the tickers, each where its tick expects it.\<close>

definition ticks_ok :: "(addr \<rightharpoonup> tick_fut) \<Rightarrow> ('t, 'w) queue \<Rightarrow> bool" where
  "ticks_ok ticks q \<longleftrightarrow>
     0 \<notin> dom ticks \<and> q_listeners q \<subseteq> dom ticks \<and> (\<forall>a f. ticks a = Some f \<longrightarrow> place_ok (tf_pc f) a q)"

text \<open>Exactly one ticker is the mainstream runner, if the executor has recorded that there is one.\<close>

definition mainstream_runners :: "(addr \<rightharpoonup> tick_fut) \<Rightarrow> addr set" where
  "mainstream_runners ticks = {a. \<exists>f. ticks a = Some f \<and> tf_is_mainstream f}"

definition one_mainstream :: "(addr \<rightharpoonup> tick_fut) \<Rightarrow> bool \<Rightarrow> bool" where
  "one_mainstream ticks listening \<longleftrightarrow>
     (if listening then \<exists>a. mainstream_runners ticks = {a} else mainstream_runners ticks = {})"

text \<open>The mainstream runner, when it waits, is registered or has been woken since its last poll.\<close>

definition main_awake ::
  "('a \<Rightarrow> 'w option) \<Rightarrow> (addr \<rightharpoonup> tick_fut) \<Rightarrow> (addr \<rightharpoonup> 'w \<times> nat)
     \<Rightarrow> ('q, 'a, 's, 'r, 'w, 'th) Executor \<Rightarrow> bool" where
  "main_awake absA ticks polls ex \<longleftrightarrow>
     (\<forall>a f. ticks a = Some f \<and> tf_is_mainstream f \<and> tf_pc f = TWaiting \<longrightarrow>
        (\<exists>w n. polls a = Some (w, n) \<and> n \<le> length (ex_woken ex) \<and>
           (absA (ex_mainstream_waker ex) = Some w \<or> woken_since w n ex)))"

text \<open>A ticker in the middle of a poll.\<close>

definition busy :: "(addr \<rightharpoonup> tick_fut) \<Rightarrow> bool" where
  "busy ticks \<longleftrightarrow> (\<exists>a f. ticks a = Some f \<and> tf_pc f \<noteq> TUnresumed \<and> tf_pc f \<noteq> TWaiting)"

text \<open>Each queue is in the order of scheduling.\<close>

definition in_order :: "('q \<Rightarrow> 'r list) \<Rightarrow> 'r list \<Rightarrow> ('q, 'a, 's, 'r, 'w, 'th) Executor \<Rightarrow> bool" where
  "in_order absQ rs ex \<longleftrightarrow> subseq (ts_task_queue ex) rs \<and> subseq (absQ (ex_task_queue ex)) rs"

lemma in_order_queued: "in_order absQ rs ex \<Longrightarrow> queued absQ ps ex ex' \<Longrightarrow> in_order absQ (rs @ ps) ex'"
  unfolding in_order_def queued_def by (blast intro: subseq_order.trans list_emb_append_mono)

lemma in_order_drained: "in_order absQ rs ex \<Longrightarrow> drained absQ ex ex' \<Longrightarrow> in_order absQ rs ex'"
  unfolding in_order_def drained_def by (blast intro: subseq_order.trans suffix_imp_subseq)

definition exec_inv ::
  "('q, 'a, 's, 'r, 'w) externs \<Rightarrow> ('q \<Rightarrow> 'r list) \<Rightarrow> ('a \<Rightarrow> 'w option)
     \<Rightarrow> ('q, 'a, 's, 'r, 'w, 'th) exec_sys \<Rightarrow> ('r option, 'w) queue \<Rightarrow> bool" where
  "exec_inv X absQ absA s q \<longleftrightarrow>
     ex_ok X absQ absA (es_ex s) q \<and> ticks_ok (es_ticks s) q \<and>
     one_mainstream (es_ticks s) (ts_is_mainstream_listening (es_ex s)) \<and>
     main_awake absA (es_ticks s) (es_polls s) (es_ex s) \<and>
     items_ok (es_scheduled s) (mset (es_ran s) + ex_tasks absQ (es_ex s) q) (es_lossy s) \<and>
     (es_single s \<or> busy (es_ticks s) \<or> nothing_lost (work (es_ex s)) q) \<and>
     in_order absQ (es_scheduled s) (es_ex s)"

lemma exec_invD:
  assumes "exec_inv X absQ absA s q"
  shows "ex_ok X absQ absA (es_ex s) q" "ticks_ok (es_ticks s) q"
    "one_mainstream (es_ticks s) (ts_is_mainstream_listening (es_ex s))"
    "main_awake absA (es_ticks s) (es_polls s) (es_ex s)"
    "items_ok (es_scheduled s) (mset (es_ran s) + ex_tasks absQ (es_ex s) q) (es_lossy s)"
    "es_single s \<or> busy (es_ticks s) \<or> nothing_lost (work (es_ex s)) q"
    "in_order absQ (es_scheduled s) (es_ex s)"
  using assms unfolding exec_inv_def by blast+

lemma ticks_ok_same:
  "q_addrs q' = q_addrs q \<Longrightarrow> q_idle q' = q_idle q \<Longrightarrow> ticks_ok ticks q' = ticks_ok ticks q"
proof -
  assume a: "q_addrs q' = q_addrs q" "q_idle q' = q_idle q"
  then have "place_ok pc b q' = place_ok pc b q" for pc b by (cases pc) (simp_all add: q_listeners_def)
  with a show ?thesis by (simp add: ticks_ok_def q_listeners_def)
qed

lemma main_awake_keeps:
  assumes "main_awake absA ticks polls ex" and k: "keeps_waker absA ex ex'" and g: "grows ex ex'"
  shows "main_awake absA ticks polls ex'"
  unfolding main_awake_def
proof (intro allI impI)
  fix a f assume "ticks a = Some f \<and> tf_is_mainstream f \<and> tf_pc f = TWaiting"
  with assms(1) obtain w n where w: "polls a = Some (w, n)" "n \<le> length (ex_woken ex)"
    "absA (ex_mainstream_waker ex) = Some w \<or> woken_since w n ex" unfolding main_awake_def by blast
  have len: "length (ex_woken ex) \<le> length (ex_woken ex')" using g by (auto simp: grows_def)
  from w(3) have "absA (ex_mainstream_waker ex') = Some w \<or> woken_since w n ex'"
  proof
    assume "absA (ex_mainstream_waker ex) = Some w"
    then have "absA (ex_mainstream_waker ex') = Some w \<or> woken_since w (length (ex_woken ex)) ex'"
      using k unfolding keeps_waker_def by simp
    then show ?thesis by (auto dest: woken_since_le [OF _ w(2)])
  next
    assume "woken_since w n ex"
    then show ?thesis by (intro disjI2 woken_since_grows [OF _ g])
  qed
  with w(1,2) len show "\<exists>w n. polls a = Some (w, n) \<and> n \<le> length (ex_woken ex') \<and>
      (absA (ex_mainstream_waker ex') = Some w \<or> woken_since w n ex')"
    by (intro exI [of _ w] exI [of _ n]) simp
qed

text \<open>An operation that is not a tick: \<open>rs\<close> are scheduled, \<open>ps\<close> are run.\<close>

lemma exec_inv_step:
  assumes inv: "exec_inv X absQ absA s q" and st: "ex_step X absQ absA (es_ex s) q ex' q'"
    and t: "mset ps + ex_tasks absQ ex' q' = mset rs + ex_tasks absQ (es_ex s) q"
    and o: "queued absQ rs (es_ex s) ex'"
  shows "exec_inv X absQ absA
      (s\<lparr>es_ex := ex', es_scheduled := es_scheduled s @ rs, es_ran := es_ran s @ ps\<rparr>) q'"
proof -
  note i = exec_invD [OF inv]
  have g: "grows (es_ex s) ex'" "keeps_waker absA (es_ex s) ex'" using st by (simp_all add: ex_step_def)
  have "ticks_ok (es_ticks s) q'" using st i(2) ticks_ok_same [of q' q] by (simp add: ex_step_def)
  moreover have "main_awake absA (es_ticks s) (es_polls s) ex'" by (rule main_awake_keeps [OF i(4) g(2,1)])
  moreover have "items_ok (es_scheduled s @ rs) (mset (es_ran s @ ps) + ex_tasks absQ ex' q') (es_lossy s)"
    by (rule items_ok_add [OF i(5)]) (use t in \<open>simp add: union_ac\<close>)
  ultimately show ?thesis
    using i(3,6) st in_order_queued [OF i(7) o] unfolding exec_inv_def by (auto simp: ex_step_def)
qed

lemma ex_step_grows: "ex_step X absQ absA ex q ex' q' \<Longrightarrow> grows ex ex'"
  by (simp add: ex_step_def)

section \<open>Preservation\<close>

lemma ticks_ok_update:
  assumes "ticks_ok ticks q" and "others a q q'" and "place_ok (tf_pc f) a q'" and "a \<in> dom ticks"
  shows "ticks_ok (ticks(a \<mapsto> f)) q'"
  unfolding ticks_ok_def
proof (intro conjI allI impI)
  show "0 \<notin> dom (ticks(a \<mapsto> f))" using assms(1,4) by (auto simp: ticks_ok_def)
  show "q_listeners q' \<subseteq> dom (ticks(a \<mapsto> f))"
    using assms(1,2) by (auto simp: ticks_ok_def others_def q_listeners_def)
  fix b g assume "(ticks(a \<mapsto> f)) b = Some g"
  then show "place_ok (tf_pc g) b q'"
    using assms(1,3) place_others [OF assms(2), of b] by (auto simp: ticks_ok_def split: if_splits)
qed

lemma ticks_ok_remove:
  assumes "ticks_ok ticks q" and "others a q q'" and "a \<notin> q_listeners q'"
  shows "ticks_ok (ticks(a := None)) q'"
  unfolding ticks_ok_def
proof (intro conjI allI impI)
  show "0 \<notin> dom (ticks(a := None))" using assms(1) by (auto simp: ticks_ok_def)
  show "q_listeners q' \<subseteq> dom (ticks(a := None))"
    using assms by (auto simp: ticks_ok_def others_def q_listeners_def)
  fix b g assume "(ticks(a := None)) b = Some g"
  then show "place_ok (tf_pc g) b q'"
    using assms(1) place_others [OF assms(2), of b] by (auto simp: ticks_ok_def split: if_splits)
qed

lemma runners_update [simp]:
  "mainstream_runners (ticks(a \<mapsto> f)) =
     (if tf_is_mainstream f then insert a (mainstream_runners ticks) else mainstream_runners ticks - {a})"
  "mainstream_runners (ticks(a := None)) = mainstream_runners ticks - {a}"
  by (auto simp: mainstream_runners_def split: if_splits)

lemma runner_iff: "ticks a = Some f \<Longrightarrow> a \<in> mainstream_runners ticks \<longleftrightarrow> tf_is_mainstream f"
  by (simp add: mainstream_runners_def)

lemma one_mainstream_unique:
  "one_mainstream ticks l \<Longrightarrow> a \<in> mainstream_runners ticks \<Longrightarrow> l \<and> mainstream_runners ticks = {a}"
  by (auto simp: one_mainstream_def split: if_splits)

lemma one_mainstream_update:
  assumes "one_mainstream ticks l" and "ticks a = Some f"
    and "tf_is_mainstream f' = tf_is_mainstream f \<and> l' = l \<or> \<not> l \<and> l' \<and> tf_is_mainstream f'"
  shows "one_mainstream (ticks(a \<mapsto> f')) l'"
  using assms(1,3) runner_iff [of ticks, OF assms(2)]
  by (auto simp: one_mainstream_def insert_absorb)

lemma one_mainstream_remove:
  assumes "one_mainstream ticks l" and "ticks a = Some f"
  shows "one_mainstream (ticks(a := None)) (\<not> tf_is_mainstream f \<and> l)"
  using assms(1) runner_iff [of ticks, OF assms(2)]
  by (auto simp: one_mainstream_def split: if_splits)

lemma busy_update:
  "ticks a = Some f \<Longrightarrow> tf_pc f' = TLast \<or> tf_pc f' = TRunning \<or> tf_pc f' = TReturned \<Longrightarrow> busy (ticks(a \<mapsto> f'))"
  by (auto simp: busy_def)

lemma main_awake_others:
  assumes "main_awake absA ticks polls ex" and k: "keeps_waker absA ex ex'" and g: "grows ex ex'"
    and t: "\<And>b. b \<noteq> a \<Longrightarrow> ticks' b = ticks b \<and> polls' b = polls b"
    and a: "\<And>f. ticks' a = Some f \<Longrightarrow> \<not> tf_is_mainstream f"
  shows "main_awake absA ticks' polls' ex'"
  using main_awake_keeps [OF assms(1-3)] t a unfolding main_awake_def by metis

lemma main_awake_only:
  assumes "\<And>b f. ticks' b = Some f \<Longrightarrow> tf_is_mainstream f \<Longrightarrow> b = a"
    and "\<And>f. ticks' a = Some f \<Longrightarrow> tf_pc f = TWaiting \<Longrightarrow>
      polls' a = Some (w, length (ex_woken ex')) \<and> absA (ex_mainstream_waker ex') = Some w"
  shows "main_awake absA ticks' polls' ex'"
  unfolding main_awake_def using assms by blast

text \<open>A step of the ticker at \<open>a\<close>: the mainstream runner, and the runners that have to be awake.\<close>

lemma poll_main_awake:
  assumes m: "main_awake absA ticks polls ex" and one: "one_mainstream (ticks(a \<mapsto> f')) l"
    and t: "ticked X absQ absA b a w ex q st f' ex' q'"
  shows "main_awake absA (ticks(a \<mapsto> f')) (polls(a \<mapsto> (w, length (ex_woken ex')))) ex'"
proof (cases "tf_is_mainstream f'")
  case True
  then have "mainstream_runners (ticks(a \<mapsto> f')) = {a}" using one_mainstream_unique [OF one, of a] by simp
  then have only: "c = a" if "(ticks(a \<mapsto> f')) c = Some g" "tf_is_mainstream g" for c g
    using that by (auto simp: mainstream_runners_def)
  have "tf_pc f' = TWaiting \<Longrightarrow> absA (ex_mainstream_waker ex') = Some w"
    using t True by (cases st) (auto simp: ticked_def)
  then show ?thesis by (intro main_awake_only [where a = a and w = w]) (rule only, simp_all)
next
  case False
  then have "keeps_waker absA ex ex'" "grows ex ex'" using t by (simp_all add: ticked_def)
  with False show ?thesis by (intro main_awake_others [where a = a, OF m]) simp_all
qed

lemma poll_nothing_lost:
  assumes f: "ticks a = Some f" and n: "single \<or> busy ticks \<or> nothing_lost (work ex) q"
    and t: "ticked X absQ absA b a w ex q st f' ex' q'"
    and d: "st = Suspends \<longrightarrow> tf_pc f = TWaiting \<or> \<not> work ex'"
  shows "single \<or> busy (ticks(a \<mapsto> f')) \<or> nothing_lost (work ex') q'"
proof (cases "st = Suspends")
  case False
  then have "tf_pc f' = TLast \<or> tf_pc f' = TRunning \<or> tf_pc f' = TReturned"
    using t by (cases st) (auto simp: ticked_def)
  with busy_update [of ticks, OF f] show ?thesis by blast
next
  case True
  show ?thesis
  proof (cases "tf_pc f = TWaiting \<and> work ex'")
    case False
    with d True show ?thesis by (cases "work ex'") auto
  next
    case pc: True
    have "busy ticks \<Longrightarrow> busy (ticks(a \<mapsto> f'))"
      using pc f unfolding busy_def by (metis fun_upd_apply option.inject)
    moreover have "nothing_lost (work ex) q \<Longrightarrow> nothing_lost (work ex') q'"
      using t True by (simp add: ticked_def)
    ultimately show ?thesis using n by blast
  qed
qed

lemma exec_inv_poll:
  assumes inv: "exec_inv X absQ absA s q" and f: "es_ticks s a = Some f"
    and t: "ticked X absQ absA (tf_is_mainstream f) a w (es_ex s) q st f' ex' q'"
    and d: "st = Suspends \<longrightarrow> tf_pc f = TWaiting \<or> \<not> work ex'"
  shows "exec_inv X absQ absA (s\<lparr>es_ex := ex', es_ticks := (es_ticks s)(a \<mapsto> f'),
      es_polls := (es_polls s)(a \<mapsto> (w, length (ex_woken ex'))), es_ran := es_ran s @ tick_ran st\<rparr>) q'"
proof -
  note i = exec_invD [OF inv]
  let ?ticks = "(es_ticks s)(a \<mapsto> f')"
  have t': "ex_ok X absQ absA ex' q'" "grows (es_ex s) ex'" "others a q q'" "place_ok (tf_pc f') a q'"
    "tf_is_mainstream f' \<or> keeps_waker absA (es_ex s) ex'"
    "tf_is_mainstream f' = tf_is_mainstream f \<and> ts_is_mainstream_listening ex' = ts_is_mainstream_listening (es_ex s) \<or>
      \<not> ts_is_mainstream_listening (es_ex s) \<and> ts_is_mainstream_listening ex' \<and> tf_is_mainstream f'"
    using t unfolding ticked_def by blast+
  have ticks: "ticks_ok ?ticks q'"
    by (rule ticks_ok_update [OF i(2) t'(3,4)]) (use f in blast)
  have one: "one_mainstream ?ticks (ts_is_mainstream_listening ex')"
    by (rule one_mainstream_update [where ticks = "es_ticks s", OF i(3) f t'(6)])
  have awake: "main_awake absA ?ticks ((es_polls s)(a \<mapsto> (w, length (ex_woken ex')))) ex'"
    by (rule poll_main_awake [OF i(4) one t])
  have "mset (es_ran s @ tick_ran st) + ex_tasks absQ ex' q' = mset (es_ran s) + ex_tasks absQ (es_ex s) q"
    using t by (cases st) (auto simp: ticked_def)
  then have items: "items_ok (es_scheduled s) (mset (es_ran s @ tick_ran st) + ex_tasks absQ ex' q') (es_lossy s)"
    using i(5) by (simp only:)
  have "es_single s \<or> busy ?ticks \<or> nothing_lost (work ex') q'"
    by (rule poll_nothing_lost [OF f i(6) t d])
  moreover have "in_order absQ (es_scheduled s) ex'"
    using in_order_drained [OF i(7)] t by (simp add: ticked_def)
  ultimately show ?thesis using t'(1) ticks one awake items by (simp add: exec_inv_def)
qed

lemma exec_inv_drop:
  assumes inv: "exec_inv X absQ absA s q" and f: "es_ticks s a = Some f"
    and pc: "tf_pc f = TUnresumed \<or> tf_pc f = TWaiting \<or> tf_pc f = TReturned"
    and g: "gone X absQ absA (tf_is_mainstream f) (es_ex s) q ex' q'"
    and o: "others a q q'" "a \<notin> q_listeners q'"
    and t: "ex_tasks absQ ex' q' \<subseteq># ex_tasks absQ (es_ex s) q"
      "notified_tag a q = None \<longrightarrow> ex_tasks absQ ex' q' = ex_tasks absQ (es_ex s) q"
  shows "exec_inv X absQ absA (s\<lparr>es_ex := ex', es_ticks := (es_ticks s)(a := None),
      es_lossy := (es_lossy s \<or> is_notified (ts_thread_waker (es_ex s)) a),
      es_single := (es_single s \<or> tf_pc f = TReturned)\<rparr>) q'"
proof -
  note i = exec_invD [OF inv]
  let ?ticks = "(es_ticks s)(a := None)"
  have g': "ex_ok X absQ absA ex' q'" "grows (es_ex s) ex'"
    "tf_is_mainstream f \<or> keeps_waker absA (es_ex s) ex'"
    "ts_is_mainstream_listening ex' = (\<not> tf_is_mainstream f \<and> ts_is_mainstream_listening (es_ex s))"
    "nothing_lost (work (es_ex s)) q \<Longrightarrow> nothing_lost (work ex') q'"
    using g unfolding gone_def by blast+
  have ticks: "ticks_ok ?ticks q'" by (rule ticks_ok_remove [OF i(2) o])
  have one: "one_mainstream ?ticks (ts_is_mainstream_listening ex')"
    unfolding g'(4) by (rule one_mainstream_remove [where ticks = "es_ticks s", OF i(3) f])
  have awake: "main_awake absA ?ticks (es_polls s) ex'"
  proof (cases "tf_is_mainstream f")
    case True
    then have "mainstream_runners ?ticks = {}" using one g'(4) by (simp add: one_mainstream_def)
    then show ?thesis unfolding mainstream_runners_def by (intro main_awake_only [where a = a]) auto
  next
    case False
    with g'(3) have "keeps_waker absA (es_ex s) ex'" by blast
    then show ?thesis by (intro main_awake_others [where a = a, OF i(4) _ g'(2)]) simp_all
  qed
  have r: "refines (ts_thread_waker (es_ex s)) q" using i(1) by (simp add: ex_ok_def)
  have items: "items_ok (es_scheduled s) (mset (es_ran s) + ex_tasks absQ ex' q')
      (es_lossy s \<or> is_notified (ts_thread_waker (es_ex s)) a)"
  proof (cases "is_notified (ts_thread_waker (es_ex s)) a")
    case True
    with items_ok_lose [OF i(5)] t(1) show ?thesis by simp
  next
    case False
    with notified_iff [OF r] t(2) i(5) show ?thesis by simp
  qed
  have "tf_pc f \<noteq> TReturned \<Longrightarrow> busy (es_ticks s) \<Longrightarrow> busy ?ticks"
    using pc f unfolding busy_def by (metis fun_upd_apply option.inject)
  then have "es_single s \<or> tf_pc f = TReturned \<or> busy ?ticks \<or> nothing_lost (work ex') q'"
    using i(6) g'(5) by blast
  moreover have "in_order absQ (es_scheduled s) ex'"
    using i(7) g by (simp add: gone_def in_order_def)
  ultimately show ?thesis using g'(1) ticks one awake items by (simp add: exec_inv_def)
qed

lemma exec_inv_ticker:
  assumes inv: "exec_inv X absQ absA s q" and "es_ticks s a = None" and "a \<noteq> 0"
  shows "exec_inv X absQ absA (s\<lparr>es_ticks := (es_ticks s)(a \<mapsto> Ticker_new)\<rparr>) q"
proof -
  note i = exec_invD [OF inv]
  have "a \<notin> q_listeners q" using i(2) assms(2) by (auto simp: ticks_ok_def)
  then have "ticks_ok ((es_ticks s)(a \<mapsto> Ticker_new)) q"
    using i(2) assms(3) by (auto simp: ticks_ok_def Ticker_new_def)
  moreover have "a \<notin> mainstream_runners (es_ticks s)" using assms(2) by (simp add: mainstream_runners_def)
  then have "one_mainstream ((es_ticks s)(a \<mapsto> Ticker_new)) (ts_is_mainstream_listening (es_ex s))"
    using i(3) by (simp add: one_mainstream_def Ticker_new_def)
  moreover have "main_awake absA ((es_ticks s)(a \<mapsto> Ticker_new)) (es_polls s) (es_ex s)"
    using i(4) by (auto simp: main_awake_def Ticker_new_def)
  moreover have "busy (es_ticks s) \<Longrightarrow> busy ((es_ticks s)(a \<mapsto> Ticker_new))"
    using assms(2) unfolding busy_def by (metis fun_upd_apply option.distinct(1))
  ultimately show ?thesis using i(1,5-7) unfolding exec_inv_def by auto
qed

context crates
begin

lemma exec_start: "exec_inv X absQ absA (exec_init X tid th0) q_empty"
proof -
  have "ex_ok X absQ absA (with_thread_id X tid th0) q_empty"
    by (simp add: ex_ok_def with_thread_id_def refines_empty foreign_def waker_new) (simp add: q_empty_def)
  moreover have "ex_tasks absQ (with_thread_id X tid th0) q_empty = {#}"
    by (simp add: ex_tasks_def with_thread_id_def queue_new) (simp add: q_items_def q_empty_def)
  ultimately show ?thesis
    by (simp add: exec_inv_def exec_init_def ticks_ok_def one_mainstream_def main_awake_def items_ok_def
        mainstream_runners_def q_listeners_def q_addrs_def) (simp add: q_empty_def with_thread_id_def in_order_def queue_new)
qed

lemma run_step_ok:
  assumes inv: "exec_inv X absQ absA s q" and f: "es_ticks s a = Some f" and w: "rn_task X w = None"
  shows "\<exists>st f' ex' q'. run_step X th0 f a w (es_ex s) = Inr (st, f', ex') \<and>
    ticked X absQ absA (tf_is_mainstream f) a w (es_ex s) q st f' ex' q' \<and>
    (st = Suspends \<longrightarrow> tf_pc f = TWaiting \<or> \<not> work ex')"
proof -
  note i = exec_invD [OF inv]
  let ?f = "if tf_pc f = TReturned then f\<lparr>tf_pc := TUnresumed\<rparr> else f"
  have pl: "place_ok (tf_pc f) a q" and a: "a \<noteq> 0" using i(2) f by (auto simp: ticks_ok_def)
  have p': "place_ok (tf_pc ?f) a q" using pl by auto
  have m: "tf_is_mainstream ?f \<longrightarrow> ts_is_mainstream_listening (es_ex s)"
    using one_mainstream_unique [OF i(3), of a] runner_iff [of "es_ticks s", OF f] by auto
  have pc: "tf_pc ?f \<noteq> TReturned" "tf_pc ?f = TWaiting \<longleftrightarrow> tf_pc f = TWaiting"
    "tf_is_mainstream ?f = tf_is_mainstream f" by simp_all
  from Ticker_tick_ok [OF i(1) p' a w m pc(1), of th0] show ?thesis
    unfolding run_step_def pc(2,3) by simp
qed

lemma exec_poll_ok:
  assumes inv: "exec_inv X absQ absA s q" and e: "exec_enabled X (EPoll a w) s"
  shows "\<exists>s'. exec_exec X th0 (EPoll a w) s = Inr s' \<and> grows (es_ex s) (es_ex s') \<and> (\<exists>q. exec_inv X absQ absA s' q)"
proof -
  from e obtain f where f: "es_ticks s a = Some f" and w: "rn_task X w = None" by auto
  from run_step_ok [OF inv f w, of th0] obtain st f' ex' q' where
    r: "run_step X th0 f a w (es_ex s) = Inr (st, f', ex')"
      "ticked X absQ absA (tf_is_mainstream f) a w (es_ex s) q st f' ex' q'"
      "st = Suspends \<longrightarrow> tf_pc f = TWaiting \<or> \<not> work ex'" by blast
  have "grows (es_ex s) ex'" using r(2) by (simp add: ticked_def)
  with exec_inv_poll [OF inv f r(2,3)] r(1) f show ?thesis by auto
qed

lemma exec_drop_ok:
  assumes inv: "exec_inv X absQ absA s q" and e: "exec_enabled X (EDrop a) s"
  shows "\<exists>s'. exec_exec X th0 (EDrop a) s = Inr s' \<and> grows (es_ex s) (es_ex s') \<and> (\<exists>q. exec_inv X absQ absA s' q)"
proof -
  from e obtain f where f: "es_ticks s a = Some f"
    and pc: "tf_pc f = TUnresumed \<or> tf_pc f = TWaiting \<or> tf_pc f = TReturned" by (auto split: option.splits)
  have "place_ok (tf_pc f) a q" using exec_invD(2) [OF inv] f by (simp add: ticks_ok_def)
  from tick_drop_ok [OF exec_invD(1) [OF inv] this pc, of th0] obtain ex' q' where
    d: "tick_drop X th0 f a (es_ex s) = Inr ex'" "gone X absQ absA (tf_is_mainstream f) (es_ex s) q ex' q'"
      "others a q q'" "a \<notin> q_listeners q'" "ex_tasks absQ ex' q' \<subseteq># ex_tasks absQ (es_ex s) q"
      "notified_tag a q = None \<longrightarrow> ex_tasks absQ ex' q' = ex_tasks absQ (es_ex s) q"
      "mset (q_items q') = mset (q_items (if tf_pc f = TWaiting then snd (q_drop a q) else q))"
    by (elim exE conjE) (rule that)
  have "grows (es_ex s) ex'" using d(2) by (simp add: gone_def)
  with exec_inv_drop [OF inv f pc d(2-6)] d(1) f show ?thesis by auto
qed

lemma exec_try_tick_ok:
  assumes inv: "exec_inv X absQ absA s q"
  shows "\<exists>s'. exec_exec X th0 ETry_tick s = Inr s' \<and> grows (es_ex s) (es_ex s') \<and> (\<exists>q. exec_inv X absQ absA s' q)"
proof -
  from try_tick_ok [OF exec_invD(1) [OF inv], of th0] obtain p ex' q' where
    e: "try_tick X th0 (es_ex s) = Inr (p, ex')" "ex_step X absQ absA (es_ex s) q ex' q'"
      "case p of Some r \<Rightarrow> add_mset r (ex_tasks absQ ex' q') = ex_tasks absQ (es_ex s) q
       | None \<Rightarrow> ts_task_queue (es_ex s) = [] \<and> absQ (ex_task_queue (es_ex s)) = [] \<and>
           ex_tasks absQ ex' q' = ex_tasks absQ (es_ex s) q"
      "queued absQ [] (es_ex s) ex'" using drained_queued by blast
  from exec_inv_step [OF inv e(2), of "case p of Some r \<Rightarrow> [r] | None \<Rightarrow> []" "[]"] e(1,3,4) ex_step_grows [OF e(2)]
  show ?thesis by (cases p) auto
qed

lemma exec_exec_ok:
  assumes "\<exists>q. exec_inv X absQ absA s q" and "exec_enabled X op s"
  shows "\<exists>s'. exec_exec X th0 op s = Inr s' \<and> grows (es_ex s) (es_ex s') \<and> (\<exists>q. exec_inv X absQ absA s' q)"
proof -
  from assms(1) obtain q where inv: "exec_inv X absQ absA s q" by blast
  note ok = exec_invD(1) [OF inv] and step = exec_inv_step [OF inv]
  show ?thesis
  proof (cases op)
    case (ESchedule th r)
    from schedule_ok [OF ok, of "Suc (Suc 0)" th r] obtain ex' q' where
      e: "scheduler X th r (es_ex s) = Inr ex'" "ex_step X absQ absA (es_ex s) q ex' q'"
        "ex_tasks absQ ex' q' = add_mset r (ex_tasks absQ (es_ex s) q)" "queued absQ [r] (es_ex s) ex'"
      unfolding sched_fuel_def by blast
    from step [OF e(2), of "[]" "[r]"] e(1,3,4) ex_step_grows [OF e(2)] ESchedule show ?thesis by auto
  next
    case (ESpawn r)
    from spawn_ok [OF ok, of th0 r] obtain k ex' q' where
      e: "spawn X th0 r (es_ex s) = Inr (k, ex')" "ex_step X absQ absA (es_ex s) q ex' q'"
        "ex_tasks absQ ex' q' = add_mset r (ex_tasks absQ (es_ex s) q)" "queued absQ [r] (es_ex s) ex'" by blast
    from step [OF e(2), of "[]" "[r]"] e(1,3,4) ex_step_grows [OF e(2)] ESpawn show ?thesis by auto
  next
    case (EFinish index)
    from CallOnDrop_ok [OF ok, of index] obtain sl where
      e: "CallOnDrop_drop X index (es_ex s) = Inr (es_ex s\<lparr>ts_active := sl\<rparr>)" by blast
    have "ex_tasks absQ (es_ex s\<lparr>ts_active := sl\<rparr>) q = ex_tasks absQ (es_ex s) q" by (simp add: ex_tasks_def)
    moreover have "queued absQ [] (es_ex s) (es_ex s\<lparr>ts_active := sl\<rparr>)"
      by (intro drained_queued drained_same) simp_all
    ultimately show ?thesis
      using step [OF slab_step [OF ok, of sl], of "[]" "[]"] ex_step_grows [OF slab_step [OF ok, of sl]] e EFinish
      by auto
  next
    case EIs_empty
    have "ts_unlock (es_ex s\<lparr>ex_borrow := Writing\<rparr>) = es_ex s"
      using locked_ok [OF ok] by (cases "es_ex s") (simp add: ts_unlock_def)
    with locked_ok [OF ok] have "exec_exec X th0 op s = Inr (s\<lparr>es_ex := es_ex s\<rparr>)"
      using EIs_empty by (simp add: is_empty_def Let_def)
    with inv show ?thesis by auto
  next
    case ETry_tick
    with exec_try_tick_ok [OF inv] show ?thesis by simp
  next
    case (ETicker a)
    with assms(2) exec_inv_ticker [OF inv] show ?thesis by auto
  next
    case (EPoll a w)
    with exec_poll_ok [OF inv] assms(2) show ?thesis by blast
  next
    case (EDrop a)
    with exec_drop_ok [OF inv] assms(2) show ?thesis by blast
  qed
qed

end

text \<open>The invariant of the system, with the identity of the executor.\<close>

definition exec_good ::
  "('q, 'a, 's, 'r, 'w) externs \<Rightarrow> ('q \<Rightarrow> 'r list) \<Rightarrow> ('a \<Rightarrow> 'w option) \<Rightarrow> 'th ThreadId \<Rightarrow> 'th
     \<Rightarrow> ('q, 'a, 's, 'r, 'w, 'th) exec_sys \<Rightarrow> bool" where
  "exec_good X absQ absA tid th0 s \<longleftrightarrow>
     (\<exists>q. exec_inv X absQ absA s q) \<and> ex_thread_id (es_ex s) = tid \<and> ex_origin_thread (es_ex s) = tid th0"

context crates
begin

lemma good_start: "exec_good X absQ absA tid th0 (exec_init X tid th0)"
  unfolding exec_good_def using exec_start [of tid th0] by (auto simp: exec_init_def with_thread_id_def)

lemma good_step:
  assumes g: "exec_good X absQ absA tid th0 s" and e: "exec_enabled X op s"
  shows "\<exists>s'. exec_exec X th0 op s = Inr s' \<and> exec_good X absQ absA tid th0 s'"
proof -
  from g have "\<exists>q. exec_inv X absQ absA s q" by (simp add: exec_good_def)
  from exec_exec_ok [OF this e, of th0] g show ?thesis by (auto simp: exec_good_def grows_def)
qed

end

sublocale crates \<subseteq> tickers: machine "exec_enabled X" "exec_exec X th0" "exec_init X tid th0"
    "exec_good X absQ absA tid th0" for tid and th0
  by unfold_locales (rule good_start, rule good_step)

context crates
begin

lemma reach_good: "exec_reach X tid th0 s \<Longrightarrow> exec_good X absQ absA tid th0 s"
  unfolding exec_reach_def by (rule tickers.reach_inv)

lemma reach_no_fault:
  "exec_reach X tid th0 s \<Longrightarrow> exec_enabled X op s \<Longrightarrow> \<exists>s'. exec_exec X th0 op s = Inr s' \<and> exec_reach X tid th0 s'"
  unfolding exec_reach_def by (rule tickers.no_fault)

end

lemma exec_reach_good:
  assumes "crates X absQ absA absS" and "exec_reach X tid th0 s"
  obtains q where "exec_inv X absQ absA s q" "ex_thread_id (es_ex s) = tid" "ex_origin_thread (es_ex s) = tid th0"
  using crates.reach_good [OF assms] that unfolding exec_good_def by blast

section \<open>Properties\<close>

lemma exec_inv_items:
  assumes "exec_inv X absQ absA s q"
  shows "items_ok (es_scheduled s)
      (mset (es_ran s) + mset (ts_task_queue (es_ex s)) + mset (absQ (ex_task_queue (es_ex s))) +
       mset (in_flight (ts_thread_waker (es_ex s)))) (es_lossy s)"
proof -
  have "in_flight (ts_thread_waker (es_ex s)) = q_items q"
    using exec_invD(1) [OF assms] by (intro refines_in_flight) (simp add: ex_ok_def)
  with exec_invD(5) [OF assms] show ?thesis by (simp add: ex_tasks_def add.assoc)
qed

text \<open>A listener in the list belongs to a waiting ticker, when no ticker is in the middle of a poll.\<close>

lemma listener_waits:
  assumes "ticks_ok ticks q" and "\<not> busy ticks" and "a \<in> set (q_addrs q)"
  shows "\<exists>f. ticks a = Some f \<and> tf_pc f = TWaiting"
proof -
  have l: "a \<in> q_listeners q" using assms(3) by (simp add: q_listeners_def)
  then obtain f where f: "ticks a = Some f" using assms(1) by (auto simp: ticks_ok_def)
  then have "place_ok (tf_pc f) a q" using assms(1) by (simp add: ticks_ok_def)
  moreover have "tf_pc f = TUnresumed \<or> tf_pc f = TWaiting" using assms(2) f by (auto simp: busy_def)
  ultimately show ?thesis using f l by auto
qed

text \<open>Runs on the instance with lists.\<close>

abbreviation listed_after where
  "listed_after tid ops P \<equiv>
     after (exec_enabled list_crates) (exec_exec list_crates ()) ops (exec_init list_crates tid ()) P"

abbreviation listed_run where
  "listed_run tid ops \<equiv>
     run (exec_enabled list_crates) (exec_exec list_crates ()) ops (exec_init list_crates tid ())"

lemma listed_reach:
  assumes "listed_after tid ops P" and "\<And>s. exec_reach list_crates tid () s \<Longrightarrow> P s \<Longrightarrow> Q s"
  shows "\<exists>s. listed_run tid ops = Some (Inr s) \<and> Q s"
  using after_reach [OF assms(1)] assms(2) unfolding exec_reach_def by blast

text \<open>
  C9: Under every interleaving of scheduling (on any thread), spawning, \<open>try_tick\<close>, and the polls
  and drops of any number of tickers, no operation of the executor panics (no double borrow of the thread state
  or of its event), touches freed memory or loops, provided the wakers of its runners are not those
  of its own tasks.
\<close>

theorem exec_no_fault:
  assumes "crates X absQ absA absS" and "exec_reach X tid th0 s" and "exec_enabled X op s"
  shows "\<exists>s'. exec_exec X th0 op s = Inr s'"
  using crates.reach_no_fault [OF assms] by blast

theorem exec_no_fault_witness:
  "\<exists>s. listed_run (\<lambda>th. Some 8) [ETicker 8, ESpawn 3, EPoll 8 (Inl 1)] = Some (Inr s) \<and>
     (\<exists>s'. exec_exec list_crates () (EPoll 8 (Inl 1)) s = Inr s')"
proof (rule listed_reach)
  show "listed_after (\<lambda>th. Some 8) [ETicker 8, ESpawn 3, EPoll 8 (Inl 1)]
      (exec_enabled list_crates (EPoll 8 (Inl 1)))"
    by (simp add: evals)
qed (rule exec_no_fault [OF listed.crates_axioms])

text \<open>
  C10: No task is lost or run twice: the runnables passed to the scheduler are those taken to
  be run, those in the two queues and those handed to a ticker that has not been polled since,
  unless a ticker was dropped after it had been notified; then some may be missing.
\<close>

theorem exec_tasks:
  assumes "crates X absQ absA absS" and "exec_reach X tid th0 s"
  shows "let here = mset (es_ran s) + mset (ts_task_queue (es_ex s)) + mset (absQ (ex_task_queue (es_ex s))) +
           mset (in_flight (ts_thread_waker (es_ex s)))
         in here \<subseteq># mset (es_scheduled s) \<and> (es_lossy s \<or> mset (es_scheduled s) = here)"
proof -
  from exec_reach_good [OF assms] obtain q where "exec_inv X absQ absA s q" .
  from exec_inv_items [OF this] show ?thesis unfolding items_ok_def Let_def .
qed

theorem exec_tasks_witness:
  "\<exists>s. listed_run (\<lambda>th. Some 8) [ETicker 8, EPoll 8 (Inl 1), ESchedule () 3, ESchedule () 4, EPoll 8 (Inl 1)] =
       Some (Inr s) \<and>
     mset (es_scheduled s) = mset [3, 4] \<and> es_ran s = [3] \<and> ts_task_queue (es_ex s) = [4] \<and>
     mset (es_ran s) + mset (ts_task_queue (es_ex s)) + mset (ex_task_queue (es_ex s)) +
       mset (in_flight (ts_thread_waker (es_ex s))) = mset (es_scheduled s)"
proof (rule listed_reach)
  show "listed_after (\<lambda>th. Some 8) [ETicker 8, EPoll 8 (Inl 1), ESchedule () 3, ESchedule () 4, EPoll 8 (Inl 1)]
      (\<lambda>s. \<not> es_lossy s \<and> es_scheduled s = [3, 4] \<and> es_ran s = [3] \<and> ts_task_queue (es_ex s) = [4])"
    by (simp add: evals)
  fix s assume "exec_reach list_crates (\<lambda>th. Some 8) () s"
    and p: "\<not> es_lossy s \<and> es_scheduled s = [3, 4] \<and> es_ran s = [3] \<and> ts_task_queue (es_ex s) = [4]"
  from exec_tasks [OF listed.crates_axioms this(1)] p
  show "mset (es_scheduled s) = mset [3, 4] \<and> es_ran s = [3] \<and> ts_task_queue (es_ex s) = [4] \<and>
     mset (es_ran s) + mset (ts_task_queue (es_ex s)) + mset (ex_task_queue (es_ex s)) +
       mset (in_flight (ts_thread_waker (es_ex s))) = mset (es_scheduled s)"
    unfolding Let_def by (metis (no_types, lifting))
qed

text \<open>
  The executor has recorded a mainstream runner exactly when there is one, there is never a second one,
  and whenever a waker is registered for the mainstream queue that queue is empty.
\<close>

theorem exec_mainstream:
  assumes "crates X absQ absA absS" and "exec_reach X tid th0 s"
  shows "(if ts_is_mainstream_listening (es_ex s) then \<exists>a. mainstream_runners (es_ticks s) = {a}
          else mainstream_runners (es_ticks s) = {}) \<and>
    (absA (ex_mainstream_waker (es_ex s)) = None \<or> absQ (ex_task_queue (es_ex s)) = [])"
proof -
  from exec_reach_good [OF assms] obtain q where inv: "exec_inv X absQ absA s q" .
  have "absA (ex_mainstream_waker (es_ex s)) = None \<or> absQ (ex_task_queue (es_ex s)) = []"
    using exec_invD(1) [OF inv] unfolding ex_ok_def by (cases "absA (ex_mainstream_waker (es_ex s))") auto
  with exec_invD(3) [OF inv] show ?thesis unfolding one_mainstream_def by blast
qed

theorem exec_mainstream_witness:
  "\<exists>s. listed_run (\<lambda>th. None) [ETicker 8, EPoll 8 (Inl 1), ETicker 16, EPoll 16 (Inl 2), ESchedule () 3] =
       Some (Inr s) \<and>
     (\<exists>a. mainstream_runners (es_ticks s) = {a}) \<and> ex_task_queue (es_ex s) = [3] \<and>
     ex_mainstream_waker (es_ex s) = None"
proof (rule listed_reach)
  show "listed_after (\<lambda>th. None) [ETicker 8, EPoll 8 (Inl 1), ETicker 16, EPoll 16 (Inl 2), ESchedule () 3]
      (\<lambda>s. ts_is_mainstream_listening (es_ex s) \<and> ex_task_queue (es_ex s) = [3])"
    by (simp add: evals)
  fix s assume "exec_reach list_crates (\<lambda>th. None) () s"
    and p: "ts_is_mainstream_listening (es_ex s) \<and> ex_task_queue (es_ex s) = [3]"
  from exec_mainstream [OF listed.crates_axioms this(1)] p
  show "(\<exists>a. mainstream_runners (es_ticks s) = {a}) \<and> ex_task_queue (es_ex s) = [3] \<and>
     ex_mainstream_waker (es_ex s) = None" by auto
qed

text \<open>
  C11: No wakeup is lost between runners of \<open>run\<close> (no ticker of a single \<open>tick\<close> was dropped after it
  returned). Outside of polls: if a runner waits while a task is in the local queue, or while there
  is no mainstream runner, some waiting runner has been notified; if the mainstream runner waits
  while a task is in the mainstream queue, the waker of its last poll has been woken since.
\<close>

theorem exec_no_lost_wakeup:
  assumes "crates X absQ absA absS" and "exec_reach X tid th0 s"
    and "\<not> es_single s" and "\<not> busy (es_ticks s)"
    and "es_ticks s a = Some f" and "tf_pc f = TWaiting"
  shows "(ts_task_queue (es_ex s) = [] \<and> ts_is_mainstream_listening (es_ex s) \<or>
     (\<exists>b g. es_ticks s b = Some g \<and> tf_pc g = TWaiting \<and> is_notified (ts_thread_waker (es_ex s)) b)) \<and>
    (\<not> tf_is_mainstream f \<or> absQ (ex_task_queue (es_ex s)) = [] \<or>
     (\<exists>w n. es_polls s a = Some (w, n) \<and> woken_since w n (es_ex s)))"
proof
  from exec_reach_good [OF assms(1,2)] obtain q where inv: "exec_inv X absQ absA s q" .
  note i = exec_invD [OF inv]
  have r: "refines (ts_thread_waker (es_ex s)) q" using i(1) by (simp add: ex_ok_def)
  have n: "nothing_lost (work (es_ex s)) q" using i(6) assms(3,4) by blast
  have "place_ok (tf_pc f) a q" using i(2) assms(5) by (simp add: ticks_ok_def)
  then have a: "a \<in> set (q_addrs q)" using assms(6) by simp
  show "ts_task_queue (es_ex s) = [] \<and> ts_is_mainstream_listening (es_ex s) \<or>
     (\<exists>b g. es_ticks s b = Some g \<and> tf_pc g = TWaiting \<and> is_notified (ts_thread_waker (es_ex s)) b)"
  proof (cases "work (es_ex s)")
    case True
    have "q_notified q \<noteq> []" using n a True by (auto simp: nothing_lost_def q_addrs_def)
    then obtain b where b: "b \<in> fst ` set (q_notified q)" by (cases "q_notified q") auto
    then have "b \<in> set (q_addrs q)" by (auto simp: q_addrs_def)
    with listener_waits [OF i(2) assms(4)] b refines_is_notified [OF r] show ?thesis by blast
  qed (simp add: work_def)
  show "\<not> tf_is_mainstream f \<or> absQ (ex_task_queue (es_ex s)) = [] \<or>
     (\<exists>w n. es_polls s a = Some (w, n) \<and> woken_since w n (es_ex s))"
  proof (cases "tf_is_mainstream f \<and> absQ (ex_task_queue (es_ex s)) \<noteq> []")
    case True
    with i(4) assms(5,6) obtain w n where w: "es_polls s a = Some (w, n)"
      "absA (ex_mainstream_waker (es_ex s)) = Some w \<or> woken_since w n (es_ex s)"
      unfolding main_awake_def by blast
    moreover have "absA (ex_mainstream_waker (es_ex s)) \<noteq> Some w" using i(1) True by (auto simp: ex_ok_def)
    ultimately show ?thesis by blast
  qed blast
qed

theorem exec_no_lost_wakeup_witness:
  "\<exists>s. listed_run (\<lambda>th. Some 8) [ETicker 8, EPoll 8 (Inl 1), ETicker 16, EPoll 16 (Inl 2),
       ESchedule () 3, ESchedule () 4] = Some (Inr s) \<and> ts_task_queue (es_ex s) = [4] \<and>
     (\<exists>b g. es_ticks s b = Some g \<and> tf_pc g = TWaiting \<and> is_notified (ts_thread_waker (es_ex s)) b)"
proof (rule listed_reach)
  let ?f = "\<lparr>tf_pc = TWaiting, tf_is_mainstream = False\<rparr>"
  let ?g = "\<lparr>tf_pc = TWaiting, tf_is_mainstream = True\<rparr>"
  let ?P = "\<lambda>s. \<not> es_single s \<and> es_ticks s = [8 \<mapsto> ?g, 16 \<mapsto> ?f] \<and> ts_task_queue (es_ex s) = [4]"
  show "listed_after (\<lambda>th. Some 8) [ETicker 8, EPoll 8 (Inl 1), ETicker 16, EPoll 16 (Inl 2),
       ESchedule () 3, ESchedule () 4] ?P"
    by (simp add: evals)
  fix s assume r: "exec_reach list_crates (\<lambda>th. Some 8) () s" and p: "?P s"
  have "\<not> busy (es_ticks s)" "es_ticks s 16 = Some ?f" using p by (auto simp: busy_def split: if_splits)
  from exec_no_lost_wakeup [OF listed.crates_axioms r _ this] p
  show "ts_task_queue (es_ex s) = [4] \<and>
     (\<exists>b g. es_ticks s b = Some g \<and> tf_pc g = TWaiting \<and> is_notified (ts_thread_waker (es_ex s)) b)" by simp
qed

text \<open>
  Where the scheduler sends a runnable, if no two threads have the same identifier: on the thread of the
  executor (when that has an identifier) to the thread state, as the tag of a notification or into
  the local queue, never to the mainstream queue; on any other thread it only appends to the
  mainstream queue, does not touch the thread state, and wakes the waker registered for it.
\<close>

theorem schedule_routing:
  assumes "crates X absQ absA absS" and "exec_reach X tid th0 s"
    and "\<forall>t. tid t \<noteq> None \<longrightarrow> tid t = tid th0 \<longrightarrow> t = th0"
  shows "\<exists>ex'. scheduler X th r (es_ex s) = Inr ex' \<and>
    (if th = th0 \<and> tid th0 \<noteq> None
     then ex_task_queue ex' = ex_task_queue (es_ex s) \<and> ex_mainstream_waker ex' = ex_mainstream_waker (es_ex s) \<and>
       (ts_task_queue ex' = ts_task_queue (es_ex s) @ [r] \<and>
          in_flight (ts_thread_waker ex') = in_flight (ts_thread_waker (es_ex s)) \<or>
        ts_task_queue ex' = ts_task_queue (es_ex s) \<and>
          in_flight (ts_thread_waker ex') = in_flight (ts_thread_waker (es_ex s)) @ [r])
     else absQ (ex_task_queue ex') = absQ (ex_task_queue (es_ex s)) @ [r] \<and>
       (\<exists>mq a ws. ex' = es_ex s\<lparr>ex_task_queue := mq, ex_mainstream_waker := a, ex_woken := ex_woken (es_ex s) @ ws\<rparr> \<and>
          absA a = None \<and> (absA (ex_mainstream_waker (es_ex s)) = None \<or>
            (\<exists>w \<in> set ws. absA (ex_mainstream_waker (es_ex s)) = Some w))))"
proof -
  from exec_reach_good [OF assms(1,2)] obtain q where inv: "exec_inv X absQ absA s q"
    and tid: "ex_thread_id (es_ex s) = tid" "ex_origin_thread (es_ex s) = tid th0" .
  note ok = exec_invD(1) [OF inv]
  have same: "same_thread (es_ex s) th \<longleftrightarrow> th = th0 \<and> tid th0 \<noteq> None"
    using assms(3) tid by (cases "tid th0"; cases "tid th") (auto simp: same_thread_def)
  show ?thesis
  proof (cases "same_thread (es_ex s) th")
    case True
    from schedule_local [OF ok True, of "Suc (Suc 0)" r] obtain e where
      e: "scheduler X th r (es_ex s) = Inr (es_ex s\<lparr>ts_thread_waker := e,
          ex_woken := ex_woken (es_ex s) @ offer_wakes q,
          ts_task_queue := ts_task_queue (es_ex s) @ (if hands_over q then [] else [r])\<rparr>)"
        "refines e (offered (Some r) q)" unfolding sched_fuel_def by blast
    have "in_flight e = in_flight (ts_thread_waker (es_ex s)) @ (if hands_over q then [r] else [])"
      using refines_in_flight [OF e(2)] refines_in_flight [of "ts_thread_waker (es_ex s)" q] ok
      by (simp add: q_items_offered ex_ok_def)
    with e(1) True same show ?thesis by simp
  next
    case False
    then have "\<not> (th = th0 \<and> tid th0 \<noteq> None)" using same by simp
    note no = if_not_P [OF this]
    from crates.schedule_remote [OF assms(1) ok False, of "Suc (Suc 0)" r] obtain mq a ws where
      e: "scheduler X th r (es_ex s) =
          Inr (es_ex s\<lparr>ex_task_queue := mq, ex_mainstream_waker := a, ex_woken := ex_woken (es_ex s) @ ws\<rparr>)"
        "absQ mq = absQ (ex_task_queue (es_ex s)) @ [r]" "absA a = None"
        "\<forall>w. absA (ex_mainstream_waker (es_ex s)) = Some w \<longrightarrow> w \<in> set ws" unfolding sched_fuel_def by blast
    have wk: "absA (ex_mainstream_waker (es_ex s)) = None \<or>
        (\<exists>w \<in> set ws. absA (ex_mainstream_waker (es_ex s)) = Some w)"
      using e(4) by (cases "absA (ex_mainstream_waker (es_ex s))") auto
    have mq: "absQ (ex_task_queue (es_ex s\<lparr>ex_task_queue := mq, ex_mainstream_waker := a,
        ex_woken := ex_woken (es_ex s) @ ws\<rparr>)) = absQ (ex_task_queue (es_ex s)) @ [r]"
      using e(2) by simp
    show ?thesis
      unfolding no
      by (rule exI, rule conjI [OF e(1)], rule conjI [OF mq]) (intro exI conjI, rule refl, rule e(3), rule wk)
  qed
qed

theorem schedule_routing_witness:
  "\<exists>s. listed_run (\<lambda>th. Some 8) [ETicker 8, EPoll 8 (Inl 1), ESchedule () 3] = Some (Inr s) \<and>
     (\<exists>ex'. scheduler list_crates () 4 (es_ex s) = Inr ex' \<and> ex_task_queue ex' = ex_task_queue (es_ex s))"
proof (rule listed_reach)
  show "listed_after (\<lambda>th. Some 8) [ETicker 8, EPoll 8 (Inl 1), ESchedule () 3] (\<lambda>s. True)"
    by (simp add: evals)
  fix s assume "exec_reach list_crates (\<lambda>th. Some 8) () s"
  from schedule_routing [OF listed.crates_axioms this, of "()" 4]
  show "\<exists>ex'. scheduler list_crates () 4 (es_ex s) = Inr ex' \<and> ex_task_queue ex' = ex_task_queue (es_ex s)"
    by auto
qed

text \<open>Calls of \<open>try_tick\<close>, until it finds no task or \<open>n\<close> times: the tasks to run.\<close>

fun try_ticks ::
  "('q, 'a, 's, 'r, 'w) externs \<Rightarrow> 'th \<Rightarrow> nat \<Rightarrow> ('q, 'a, 's, 'r, 'w, 'th) Executor
     \<Rightarrow> ('r list \<times> ('q, 'a, 's, 'r, 'w, 'th) Executor) outcome" where
  "try_ticks X th 0 ex = Inr ([], ex)"
| "try_ticks X th (Suc n) ex =
     andThen (try_tick X th ex) (\<lambda>(p, ex').
     case p of
       None \<Rightarrow> Inr ([], ex')
     | Some r \<Rightarrow> andThen (try_ticks X th n ex') (\<lambda>(rs, ex''). Inr (r # rs, ex'')))"

context crates
begin

lemma try_ticks_ok:
  assumes "ex_ok X absQ absA ex q"
  shows "\<exists>ex'. try_ticks X th n ex = Inr (take n (ready_tasks absQ ex), ex') \<and>
    ready_tasks absQ ex' = drop n (ready_tasks absQ ex)"
  using assms
proof (induction n arbitrary: ex q)
  case (Suc n)
  from try_tick_ok [OF Suc.prems, of th] obtain p ex' q' where
    e: "try_tick X th ex = Inr (p, ex')" "ex_ok X absQ absA ex' q'"
      "ready_tasks absQ ex = (case p of Some r \<Rightarrow> r # ready_tasks absQ ex' | None \<Rightarrow> [])"
      "p = None \<longrightarrow> ready_tasks absQ ex' = []" unfolding ex_step_def by blast
  show ?case
  proof (cases p)
    case None
    with e show ?thesis by simp
  next
    case (Some r)
    with Suc.IH [OF e(2)] e(1,3) show ?thesis by auto
  qed
qed simp

end

text \<open>
  C17: Tasks run in order. In every reachable state the tasks of the local queue and those of the mainstream queue are each
  in the order in which they were scheduled; and the first \<open>n\<close> calls of \<open>try_tick\<close> (while nothing else is scheduled) give
  the first \<open>n\<close> queued tasks, those of the local queue and then those of the mainstream queue; so a loop of
  \<open>try_tick\<close> ends, after one call more than there are tasks.
\<close>

theorem exec_drains:
  assumes "crates X absQ absA absS" and "exec_reach X tid th0 s"
  shows "subseq (ts_task_queue (es_ex s)) (es_scheduled s) \<and>
    subseq (absQ (ex_task_queue (es_ex s))) (es_scheduled s) \<and>
    (\<exists>ex'. try_ticks X th0 n (es_ex s) = Inr (take n (ts_task_queue (es_ex s) @ absQ (ex_task_queue (es_ex s))), ex') \<and>
       ts_task_queue ex' @ absQ (ex_task_queue ex') =
         drop n (ts_task_queue (es_ex s) @ absQ (ex_task_queue (es_ex s))))"
proof -
  from exec_reach_good [OF assms] obtain q where inv: "exec_inv X absQ absA s q" .
  have "in_order absQ (es_scheduled s) (es_ex s)" by (rule exec_invD(7) [OF inv])
  with crates.try_ticks_ok [OF assms(1) exec_invD(1) [OF inv]] show ?thesis
    by (simp add: ready_tasks_def in_order_def)
qed

theorem exec_drains_witness:
  "\<exists>s. listed_run (\<lambda>th. Some 8) [ESchedule () 4, ESpawn 5, ESchedule () 6, ETry_tick] = Some (Inr s) \<and>
     subseq [5, 6 :: nat] [4, 5, 6] \<and> (\<exists>ex'. try_ticks list_crates () 5 (es_ex s) = Inr ([5, 6], ex'))"
proof (rule listed_reach)
  show "listed_after (\<lambda>th. Some 8) [ESchedule () 4, ESpawn 5, ESchedule () 6, ETry_tick]
      (\<lambda>s. ts_task_queue (es_ex s) = [5, 6] \<and> ex_task_queue (es_ex s) = [] \<and> es_scheduled s = [4, 5, 6])"
    by (simp add: evals)
  fix s assume "exec_reach list_crates (\<lambda>th. Some 8) () s"
    and p: "ts_task_queue (es_ex s) = [5, 6] \<and> ex_task_queue (es_ex s) = [] \<and> es_scheduled s = [4, 5, 6]"
  from exec_drains [OF listed.crates_axioms this(1), of 5] p
  show "subseq [5, 6 :: nat] [4, 5, 6] \<and> (\<exists>ex'. try_ticks list_crates () 5 (es_ex s) = Inr ([5, 6], ex'))" by auto
qed

text \<open>
  C40: What dropping a runner does. It leaves both queues and what was run alone, and loses at most the runnable that was
  handed to the dropped runner and not taken by a poll; and that one it does lose when no other
  runner waits un-notified: it is in no queue and in flight no more, and it was not run.
\<close>

theorem exec_cancel:
  assumes "crates X absQ absA absS" and "exec_reach X tid th0 s" and "exec_enabled X (EDrop a) s"
  defines "ev \<equiv> ts_thread_waker (es_ex s)"
  shows "\<exists>s'. exec_exec X th0 (EDrop a) s = Inr s' \<and> es_ticks s' = (es_ticks s)(a := None) \<and>
    es_scheduled s' = es_scheduled s \<and> es_ran s' = es_ran s \<and>
    ts_task_queue (es_ex s') = ts_task_queue (es_ex s) \<and> ex_task_queue (es_ex s') = ex_task_queue (es_ex s) \<and>
    mset (in_flight (ts_thread_waker (es_ex s'))) \<subseteq># mset (in_flight ev) \<and>
    mset (in_flight ev) \<subseteq># mset (in_flight (ts_thread_waker (es_ex s'))) + mset (handed ev a) \<and>
    ((\<forall>b. \<not> waits ev b) \<longrightarrow>
       mset (in_flight ev) = mset (in_flight (ts_thread_waker (es_ex s'))) + mset (handed ev a))"
proof -
  from exec_reach_good [OF assms(1,2)] obtain q where inv: "exec_inv X absQ absA s q" .
  note i = exec_invD [OF inv]
  from assms(3) obtain f where f: "es_ticks s a = Some f"
    and pc: "tf_pc f = TUnresumed \<or> tf_pc f = TWaiting \<or> tf_pc f = TReturned" by (auto split: option.splits)
  have pl: "place_ok (tf_pc f) a q" using i(2) f by (simp add: ticks_ok_def)
  have r: "refines ev q" using i(1) by (simp add: ex_ok_def ev_def)
  from crates.tick_drop_ok [OF assms(1) i(1) pl pc, of th0] obtain ex' q' where
    d: "tick_drop X th0 f a (es_ex s) = Inr ex'" "gone X absQ absA (tf_is_mainstream f) (es_ex s) q ex' q'"
      "mset (q_items q') = mset (q_items (if tf_pc f = TWaiting then snd (q_drop a q) else q))"
    by (elim exE conjE) (rule that)
  have g: "refines (ts_thread_waker ex') q'" "ts_task_queue ex' = ts_task_queue (es_ex s)"
    "ex_task_queue ex' = ex_task_queue (es_ex s)" using d(2) by (simp_all add: gone_def ex_ok_def)
  note fl = refines_in_flight [OF r] refines_in_flight [OF g(1)]
  have nw: "(\<forall>b. \<not> waits ev b) \<Longrightarrow> q_waiting q = []" unfolding refines_waits [OF r] by (cases "q_waiting q") auto
  have "mset (q_items q') \<subseteq># mset (q_items q) \<and> mset (q_items q) \<subseteq># mset (q_items q') + mset (handed ev a) \<and>
    ((\<forall>b. \<not> waits ev b) \<longrightarrow> mset (q_items q) = mset (q_items q') + mset (handed ev a))"
  proof (cases "notified_tag a q")
    case None
    then have "mset (q_items q') = mset (q_items q)" using d(3) q_items_drop(1) [OF r None] by simp
    moreover have "handed ev a = []" using None notified_iff [OF r] by (intro handed_none) simp
    ultimately show ?thesis by simp
  next
    case (Some t)
    then have "a \<in> q_listeners q" by (rule refines_notified(1) [OF r])
    then have "tf_pc f = TWaiting" using pc pl by auto
    then show ?thesis
      using d(3) q_items_drop(2) [OF r, of a] q_items_drop_lost [OF r Some] nw handed_tag [OF r Some] by simp
  qed
  then show ?thesis using d(1) f g(2,3) fl by simp
qed

theorem exec_cancel_witness:
  "\<exists>s. listed_run (\<lambda>th. Some 8) [ETicker 8, EPoll 8 (Inl 1), ESchedule () 5] = Some (Inr s) \<and>
     (\<exists>s'. exec_exec list_crates () (EDrop 8) s = Inr s' \<and> es_ran s' = [] \<and> ts_task_queue (es_ex s') = [] \<and>
        ex_task_queue (es_ex s') = [] \<and> {#5#} = mset (in_flight (ts_thread_waker (es_ex s'))) + {#5#})"
proof (rule listed_reach)
  let ?P = "\<lambda>s. exec_enabled list_crates (EDrop 8) s \<and> es_ran s = [] \<and> ts_task_queue (es_ex s) = [] \<and>
     ex_task_queue (es_ex s) = [] \<and> in_flight (ts_thread_waker (es_ex s)) = [5] \<and>
     handed (ts_thread_waker (es_ex s)) 8 = [5] \<and> (\<forall>b. \<not> waits (ts_thread_waker (es_ex s)) b)"
  show "listed_after (\<lambda>th. Some 8) [ETicker 8, EPoll 8 (Inl 1), ESchedule () 5] ?P"
    by (simp add: evals)
  fix s assume r: "exec_reach list_crates (\<lambda>th. Some 8) () s" and p: "?P s"
  from exec_cancel [OF listed.crates_axioms r, of 8] p
  show "\<exists>s'. exec_exec list_crates () (EDrop 8) s = Inr s' \<and> es_ran s' = [] \<and> ts_task_queue (es_ex s') = [] \<and>
        ex_task_queue (es_ex s') = [] \<and> {#5#} = mset (in_flight (ts_thread_waker (es_ex s'))) + {#5#}" by force
qed

text \<open>
  A ticker of a single \<open>tick\<close> (at 16) runs the task it was notified with and is gone, while a second
  task stays in the local queue and the runner at 8 sleeps.
\<close>

lemma single_tick_sleeps:
  "listed_after (\<lambda>th. Some 8)
     [ETicker 8, EPoll 8 (Inl 1), ETicker 16, EPoll 16 (Inl 2), ESchedule () 4,
      EPoll 8 (Inl 1), EPoll 8 (Inl 1), EPoll 8 (Inl 1),
      ESchedule () 5, ESchedule () 6, EPoll 16 (Inl 2), EPoll 16 (Inl 2), EDrop 16]
     (\<lambda>s. ts_task_queue (es_ex s) = [6] \<and> es_ticks s 16 = None \<and>
        map_option tf_pc (es_ticks s 8) = Some TWaiting \<and> \<not> is_notified (ts_thread_waker (es_ex s)) 8 \<and>
        map_option (\<lambda>(w, n). woken_since w n (es_ex s)) (es_polls s 8) = Some False)"
  by (simp add: evals woken_since_def)

end
