(* ===== verification/ExecutorDrop.thy ===== *)
theory ExecutorDrop
  imports ExecutorSystem
begin

text \<open>
  Dropping an executor, on its origin thread and when its tickers are gone (they borrow it): when
  \<open>Drop for Executor\<close> returns and what it leaves, and when it panics. The last section shows the
  other double borrow: waking one of the executor's own tasks from inside its scheduler.
\<close>

section \<open>The loops\<close>

lemma no_tickers:
  assumes "exec_inv X absQ absA s q" and "es_ticks s = Map.empty"
  shows "q_waiting q = []" and "q_notified q = []" and "\<not> hands_over q"
proof -
  have "q_listeners q = {}" using exec_invD(2) [OF assms(1)] assms(2) by (simp add: ticks_ok_def)
  then show "q_waiting q = []" "q_notified q = []" by (simp_all add: q_listeners_def q_addrs_def)
  then show "\<not> hands_over q" by (simp add: hands_over_def)
qed

lemma ran_Nil: "ran m = {} \<Longrightarrow> m = Map.empty"
proof
  fix x assume "ran m = {}"
  then show "m x = None" using ranI [of m x] by (cases "m x") auto
qed

lemma same_thread_slab: "same_thread (ex\<lparr>ts_active := sl\<rparr>) th = same_thread ex th"
  by (simp add: same_thread_def cong: option.case_cong)

lemma unlock_slab: "ex_borrow ex = Unused \<Longrightarrow> ts_unlock (ex\<lparr>ex_borrow := Writing, ts_active := sl\<rparr>) = ex\<lparr>ts_active := sl\<rparr>"
  by (cases ex) (simp add: ts_unlock_def)

text \<open>With the thread state borrowed the guard of a future cannot run.\<close>

lemma drop_runnables_borrowed:
  assumes "ex_borrow ex = Writing" and "r \<in> set rs" and "armed r = Some i"
  shows "drop_runnables X armed rs ex = Inl (Panic Borrow_failed)"
  using assms(2)
proof (induction rs)
  case (Cons x xs)
  show ?case
  proof (cases "armed x")
    case None
    with Cons assms(3) show ?thesis by auto
  next
    case (Some k)
    with assms(1) show ?thesis by (simp add: CallOnDrop_drop_def ts_lock_def)
  qed
qed simp

lemma drop_runnables_unarmed:
  "\<forall>r \<in> set rs. armed r = None \<Longrightarrow> drop_runnables X armed rs ex = Inr ex"
  by (induction rs) auto

text \<open>Whatever futures it drops, the second loop ends within the fuel that \<open>Executor_drop\<close> gives it.\<close>

lemma ts_lock_queue:
  shows "ts_lock ex \<noteq> Inl Out_of_fuel"
    and "ts_lock ex = Inr ex' \<Longrightarrow> ts_task_queue ex' = ts_task_queue ex"
  by (auto simp: ts_lock_def split: option.splits if_splits)

lemma CallOnDrop_drop_queue:
  shows "CallOnDrop_drop X i ex \<noteq> Inl Out_of_fuel"
    and "CallOnDrop_drop X i ex = Inr ex' \<Longrightarrow> ts_task_queue ex' = ts_task_queue ex"
  by (auto simp: CallOnDrop_drop_def andThen_Inl_iff andThen_Inr_iff ts_lock_queue ts_unlock_def)

lemma drop_runnables_queue:
  shows "drop_runnables X armed rs ex \<noteq> Inl Out_of_fuel"
    and "drop_runnables X armed rs ex = Inr ex' \<Longrightarrow> ts_task_queue ex' = ts_task_queue ex"
  by (induction rs arbitrary: ex)
    (auto simp: andThen_Inl_iff andThen_Inr_iff CallOnDrop_drop_queue split: option.splits)

lemma drop_queues_ends:
  assumes "length (ts_task_queue ex) \<le> n"
  shows "drop_queues X armed (Suc n) ex \<noteq> Inl Out_of_fuel"
  using assms
proof (induction n arbitrary: ex)
  case 0
  then show ?case
    by (auto simp: andThen_Inl_iff andThen_Inr_iff drop_runnables_queue ts_lock_queue
        simp del: drop_runnables.simps split: prod.splits option.splits list.splits dest!: ts_lock_queue(2))
next
  case (Suc n)
  then show ?case
    by (subst drop_queues.simps)
      (auto simp: andThen_Inl_iff andThen_Inr_iff drop_runnables_queue ts_lock_queue ts_unlock_def
        simp del: drop_runnables.simps drop_queues.simps split: prod.splits option.splits list.splits
        dest!: ts_lock_queue(2) drop_runnables_queue(2))
qed

text \<open>Dropping futures panics on a double borrow, or does nothing wrong, as long as the thread state exists.\<close>

lemma ts_lock_faults:
  assumes "\<not> ex_dropped ex"
  shows "ts_lock ex = Inl f \<Longrightarrow> f = Panic Borrow_failed" and "ts_lock ex = Inr ex' \<Longrightarrow> \<not> ex_dropped ex'"
  using assms by (auto simp: ts_lock_def split: option.splits)

lemma unlocked_dropped [simp]: "ex_dropped (ts_unlock ex) = ex_dropped ex"
  by (simp add: ts_unlock_def)

lemma CallOnDrop_drop_faults:
  assumes "\<not> ex_dropped ex"
  shows "CallOnDrop_drop X i ex = Inl f \<Longrightarrow> f = Panic Borrow_failed"
    and "CallOnDrop_drop X i ex = Inr ex' \<Longrightarrow> \<not> ex_dropped ex'"
  using ts_lock_faults [OF assms] by (auto simp: CallOnDrop_drop_def andThen_Inl_iff andThen_Inr_iff)

lemma drop_runnables_faults:
  assumes "\<not> ex_dropped ex"
  shows "(\<forall>f. drop_runnables X armed rs ex = Inl f \<longrightarrow> f = Panic Borrow_failed) \<and>
    (\<forall>ex'. drop_runnables X armed rs ex = Inr ex' \<longrightarrow> \<not> ex_dropped ex')"
  using assms
proof (induction rs arbitrary: ex)
  case (Cons r rs)
  show ?case
  proof (cases "armed r")
    case None
    with Cons.IH [OF Cons.prems] show ?thesis by simp
  next
    case (Some k)
    show ?thesis
    proof (cases "CallOnDrop_drop X k ex")
      case (Inl f)
      with Some CallOnDrop_drop_faults(1) [OF Cons.prems] show ?thesis by simp
    next
      case (Inr ex1)
      with Some Cons.IH [OF CallOnDrop_drop_faults(2) [OF Cons.prems Inr]] show ?thesis by simp
    qed
  qed
qed simp

lemma drop_queues_faults:
  assumes "\<not> ex_dropped ex"
  shows "(\<forall>f. drop_queues X armed n ex = Inl f \<longrightarrow> f = Panic Borrow_failed \<or> f = Out_of_fuel) \<and>
    (\<forall>ex'. drop_queues X armed n ex = Inr ex' \<longrightarrow> \<not> ex_dropped ex')"
  using assms
proof (induction n arbitrary: ex)
  case (Suc n)
  obtain p q where pop: "cq_pop X (ex_task_queue ex) = (p, q)" by fastforce
  show ?case
  proof (cases p)
    case None
    with pop Suc.prems show ?thesis by simp
  next
    case (Some r)
    let ?ex = "ex\<lparr>ex_task_queue := q\<rparr>"
    have d: "\<not> ex_dropped ?ex" using Suc.prems by simp
    note r1 = drop_runnables_faults [OF d, of X armed "[r]"]
    show ?thesis
    proof (cases "drop_runnables X armed [r] ?ex")
      case (Inl f)
      with r1 pop Some show ?thesis by (auto simp del: drop_runnables.simps)
    next
      case ex1: (Inr ex1)
      with r1 have d1: "\<not> ex_dropped ex1" by blast
      show ?thesis
      proof (cases "ts_lock ex1")
        case (Inl f)
        with ts_lock_faults(1) [OF d1 Inl] pop Some ex1 show ?thesis by (simp del: drop_runnables.simps)
      next
        case ex2: (Inr ex2)
        have d2: "\<not> ex_dropped ex2" by (rule ts_lock_faults(2) [OF d1 ex2])
        show ?thesis
        proof (cases "ts_task_queue ex2")
          case Nil
          with d2 pop Some ex1 ex2 show ?thesis by (simp del: drop_runnables.simps)
        next
          case (Cons x xs)
          note r2 = drop_runnables_faults [of "ex2\<lparr>ts_task_queue := xs\<rparr>" X armed "[x]"]
          show ?thesis
          proof (cases "drop_runnables X armed [x] (ex2\<lparr>ts_task_queue := xs\<rparr>)")
            case (Inl f)
            with r2 d2 pop Some ex1 ex2 Cons show ?thesis by (simp del: drop_runnables.simps)
          next
            case ex3: (Inr ex3)
            with r2 d2 have "\<not> ex_dropped (ts_unlock ex3)" by simp
            note IH = Suc.IH [OF this]
            have "drop_queues X armed (Suc n) ex = drop_queues X armed n (ts_unlock ex3)"
              using pop Some ex1 ex2 Cons ex3
              by (subst drop_queues.simps) (simp del: drop_runnables.simps drop_queues.simps)
            with IH show ?thesis by simp
          qed
        qed
      qed
    qed
  qed
qed simp

context crates
begin

text \<open>The first loop wakes at most one task: the drain empties the slab at once.\<close>

lemma drop_wake_empty:
  assumes ok: "ex_ok X absQ absA ex q" and e: "absS (ts_active ex) = Map.empty"
  shows "\<exists>sl. drop_wake X th (Suc n) ex = Inr (ex\<lparr>ts_active := sl\<rparr>)"
proof -
  from slab_drain [of "ts_active ex"] e obtain sl where "sl_drain X (ts_active ex) = ([], sl)" by auto
  with locked_ok [OF ok] show ?thesis by (intro exI [of _ sl]) (simp add: unlock_slab)
qed

lemma drop_wake_first:
  assumes ok: "ex_ok X absQ absA ex q" and d: "sl_drain X (ts_active ex) = (w # ws, sl)"
  shows "drop_wake X th (Suc n) ex = andThen (wake_all X (scheduler X th) [w] (ex\<lparr>ts_active := sl\<rparr>)) (drop_wake X th n)"
    and "absS sl = Map.empty"
  using locked_ok [OF ok] d slab_drain [of "ts_active ex"]
  by (simp add: unlock_slab Let_def del: wake_all.simps, auto)

lemma drop_wake_foreign:
  assumes ok: "ex_ok X absQ absA ex q" and f: "\<forall>w \<in> ran (absS (ts_active ex)). rn_task X w = None"
  shows "\<exists>sl ws. drop_wake X th poll_fuel ex = Inr (ex\<lparr>ts_active := sl, ex_woken := ex_woken ex @ ws\<rparr>) \<and>
    length ws \<le> 1"
proof -
  from slab_drain [of "ts_active ex"] obtain ws sl where
    d: "sl_drain X (ts_active ex) = (ws, sl)" "absS sl = Map.empty" "set ws = ran (absS (ts_active ex))" by blast
  show ?thesis
  proof (cases ws)
    case Nil
    with d(3) have "absS (ts_active ex) = Map.empty" by (intro ran_Nil) simp
    from drop_wake_empty [OF ok this, of th "Suc 0"] show ?thesis
      unfolding poll_fuel_def by (elim exE, intro exI exI [of _ "[]"]) (cases ex, simp)
  next
    case (Cons w ws')
    have w: "rn_task X w = None" using f d(3) Cons by auto
    let ?ex = "ex\<lparr>ts_active := sl, ex_woken := ex_woken ex @ [w]\<rparr>"
    have o: "ex_ok X absQ absA ?ex q" using ok by (simp add: ex_ok_def)
    have "absS (ts_active ?ex) = Map.empty" using d(2) by simp
    from drop_wake_empty [OF o this, of th 0] obtain sl' where
      "drop_wake X th (Suc 0) ?ex = Inr (?ex\<lparr>ts_active := sl'\<rparr>)" by blast
    then have "drop_wake X th poll_fuel ex = Inr (ex\<lparr>ts_active := sl', ex_woken := ex_woken ex @ [w]\<rparr>)"
      using drop_wake_first(1) [OF ok d(1) [unfolded Cons], of th "Suc 0"] w
      unfolding poll_fuel_def by (cases ex) simp
    then show ?thesis by (intro exI [of _ sl'] exI [of _ "[w]"]) simp
  qed
qed

lemma drop_wake_ok:
  assumes ok: "ex_ok X absQ absA ex q"
  shows "\<exists>ex' q'. drop_wake X th poll_fuel ex = Inr ex' \<and> ex_ok X absQ absA ex' q'"
proof -
  have slab: "ex_ok X absQ absA (ex1\<lparr>ts_active := sl\<rparr>) q1" if "ex_ok X absQ absA ex1 q1" for ex1 q1 sl
    using that by (simp add: ex_ok_def)
  from slab_drain [of "ts_active ex"] obtain ws sl where
    d: "sl_drain X (ts_active ex) = (ws, sl)" "absS sl = Map.empty" "set ws = ran (absS (ts_active ex))" by blast
  show ?thesis
  proof (cases ws)
    case Nil
    with d(3) have "absS (ts_active ex) = Map.empty" by (intro ran_Nil) simp
    from drop_wake_empty [OF ok this, of th "Suc 0"] slab [OF ok] show ?thesis
      unfolding poll_fuel_def by (elim exE, intro exI conjI) assumption+
  next
    case (Cons w ws')
    let ?ex = "ex\<lparr>ts_active := sl\<rparr>"
    note o = slab [OF ok, of sl]
    have "\<exists>ex1 q1. wake_all X (scheduler X th) [w] ?ex = Inr ex1 \<and> ex_ok X absQ absA ex1 q1 \<and> ts_active ex1 = sl"
    proof (cases "rn_task X w")
      case None
      have "ex_ok X absQ absA (?ex\<lparr>ex_woken := ex_woken ?ex @ [w]\<rparr>) q" using o by (simp add: ex_ok_def)
      with None show ?thesis by (intro exI [of _ "?ex\<lparr>ex_woken := ex_woken ?ex @ [w]\<rparr>"] exI [of _ q]) simp
    next
      case (Some r)
      from schedule_ok [OF o, of "Suc (Suc 0)" th r] obtain ex1 q1 where
        e: "scheduler X th r ?ex = Inr ex1" "ex_step X absQ absA ?ex q ex1 q1" unfolding sched_fuel_def by blast
      have "ts_active ex1 = sl"
      proof (cases "same_thread ?ex th")
        case True
        from schedule_local [OF o True, of "Suc (Suc 0)" r] e(1) show ?thesis by (auto simp: sched_fuel_def)
      next
        case False
        from schedule_remote [OF o False, of "Suc (Suc 0)" r] e(1) show ?thesis by (auto simp: sched_fuel_def)
      qed
      with e Some show ?thesis by (intro exI [of _ ex1] exI [of _ q1]) (simp add: ex_step_def)
    qed
    then obtain ex1 q1 where
      ex1: "wake_all X (scheduler X th) [w] ?ex = Inr ex1" "ex_ok X absQ absA ex1 q1" "ts_active ex1 = sl" by blast
    have "absS (ts_active ex1) = Map.empty" using ex1(3) d(2) by simp
    from drop_wake_empty [OF ex1(2) this, of th 0] obtain sl' where
      "drop_wake X th (Suc 0) ex1 = Inr (ex1\<lparr>ts_active := sl'\<rparr>)" by blast
    then have "drop_wake X th poll_fuel ex = Inr (ex1\<lparr>ts_active := sl'\<rparr>)"
      using drop_wake_first(1) [OF ok d(1) [unfolded Cons], of th "Suc 0"] ex1(1) unfolding poll_fuel_def by simp
    with slab [OF ex1(2)] show ?thesis by blast
  qed
qed

text \<open>The drop panics on a double borrow, or returns.\<close>

lemma Executor_drop_faults:
  assumes ok: "ex_ok X absQ absA ex q" and f: "Executor_drop X armed th ex = Inl f"
  shows "f = Panic Borrow_failed"
proof -
  from drop_wake_ok [OF ok, of th] obtain ex1 q1 where
    ex1: "drop_wake X th poll_fuel ex = Inr ex1" "ex_ok X absQ absA ex1 q1" by blast
  have d1: "\<not> ex_dropped ex1" using ex1(2) by (simp add: ex_ok_def)
  note dq = drop_queues_faults [OF d1, of X armed "Suc (length (ts_task_queue ex1))"]
  show ?thesis
  proof (cases "drop_queues X armed (Suc (length (ts_task_queue ex1))) ex1")
    case (Inl g)
    with drop_queues_ends [of ex1 "length (ts_task_queue ex1)" X armed] dq f ex1(1) show ?thesis
      by (simp add: Executor_drop_def del: drop_queues.simps)
  next
    case ex2: (Inr ex2)
    with dq have d2: "\<not> ex_dropped ex2" by blast
    show ?thesis
    proof (cases "ts_lock ex2")
      case (Inl g)
      with ts_lock_faults(1) [OF d2 Inl] f ex1(1) ex2 show ?thesis
        by (simp add: Executor_drop_def del: drop_queues.simps)
    next
      case ex3: (Inr ex3)
      have d3: "\<not> ex_dropped ex3" by (rule ts_lock_faults(2) [OF d2 ex3])
      from drop_runnables_faults [OF d3, of X armed "ts_task_queue ex3"] f ex1(1) ex2 ex3 show ?thesis
        by (auto simp: Executor_drop_def andThen_Inl_iff simp del: drop_queues.simps)
    qed
  qed
qed

text \<open>Dropping a ticker at any point, also in the middle of a poll (when a panic unwinds it).\<close>

lemma tick_drop_ends:
  assumes ok: "ex_ok X absQ absA ex q" and a: "place_ok (tf_pc f) a q"
  shows "\<exists>ex' q'. tick_drop X th f a ex = Inr ex' \<and> ex_ok X absQ absA ex' q'"
proof (cases "tf_pc f = TUnresumed \<or> tf_pc f = TReturned")
  case True
  with Ticker_drop_ok [OF ok, of th f] show ?thesis by (auto simp: tick_drop_def gone_def)
next
  case False
  then have "a \<in> q_listeners q" using a by (cases "tf_pc f") (auto simp: q_listeners_def)
  from drop_listener_ok [OF ok this, of th] obtain ex1 q1 where
    "drop_listener X th a ex = Inr ex1" "ex_ok X absQ absA ex1 q1" by blast
  with False Ticker_drop_ok [of ex1 q1 th f] show ?thesis by (auto simp: tick_drop_def gone_def)
qed

text \<open>The second loop, when it drops no future that was polled.\<close>

lemma drop_queues_ok:
  assumes "ex_borrow ex = Unused" and "\<not> ex_dropped ex" and "length (ts_task_queue ex) \<le> n"
    and "\<forall>r \<in> set (ts_task_queue ex) \<union> set (absQ (ex_task_queue ex)). armed r = None"
  shows "\<exists>mq rs. drop_queues X armed (Suc n) ex = Inr (ex\<lparr>ex_task_queue := mq, ts_task_queue := rs\<rparr>) \<and>
    absQ mq = drop (Suc (length (ts_task_queue ex))) (absQ (ex_task_queue ex)) \<and>
    set rs \<subseteq> set (ts_task_queue ex)"
  using assms
proof (induction n arbitrary: ex)
  case 0
  from queue_pop [of "ex_task_queue ex"] obtain mq where
    mq: "cq_pop X (ex_task_queue ex) = (case absQ (ex_task_queue ex) of [] \<Rightarrow> None | x # xs \<Rightarrow> Some x, mq)"
      "absQ mq = tl (absQ (ex_task_queue ex))" by blast
  have "drop_queues X armed (Suc 0) ex = Inr (ex\<lparr>ex_task_queue := mq, ts_task_queue := []\<rparr>)"
    using mq(1) 0 by (cases "absQ (ex_task_queue ex)"; cases ex) (auto simp: ts_lock_def ts_unlock_def)
  with mq(2) 0 show ?case by (intro exI [of _ mq] exI [of _ "[]"]) (simp add: drop_Suc)
next
  case (Suc n)
  from queue_pop [of "ex_task_queue ex"] obtain mq where
    mq: "cq_pop X (ex_task_queue ex) = (case absQ (ex_task_queue ex) of [] \<Rightarrow> None | x # xs \<Rightarrow> Some x, mq)"
      "absQ mq = tl (absQ (ex_task_queue ex))" by blast
  show ?case
  proof (cases "absQ (ex_task_queue ex) = [] \<or> ts_task_queue ex = []")
    case True
    have "drop_queues X armed (Suc (Suc n)) ex = Inr (ex\<lparr>ex_task_queue := mq, ts_task_queue := ts_task_queue ex\<rparr>)"
      using True mq(1) Suc.prems by (cases "absQ (ex_task_queue ex)"; cases ex) (auto simp: ts_lock_def ts_unlock_def)
    with mq(2) True show ?thesis
      by (intro exI [of _ mq] exI [of _ "ts_task_queue ex"]) (auto simp: drop_Suc)
  next
    case False
    then obtain r rs x xs where q: "absQ (ex_task_queue ex) = r # rs" "ts_task_queue ex = x # xs"
      by (metis neq_Nil_conv)
    let ?ex = "ex\<lparr>ex_task_queue := mq, ts_task_queue := xs\<rparr>"
    have "drop_queues X armed (Suc (Suc n)) ex = drop_queues X armed (Suc n) ?ex"
      using q mq(1) Suc.prems by (subst drop_queues.simps, cases ex) (simp add: ts_lock_def ts_unlock_def del: drop_queues.simps)
    moreover have "\<exists>mq' rs'. drop_queues X armed (Suc n) ?ex = Inr (?ex\<lparr>ex_task_queue := mq', ts_task_queue := rs'\<rparr>) \<and>
        absQ mq' = drop (Suc (length xs)) rs \<and> set rs' \<subseteq> set xs"
      using Suc.IH [of ?ex] Suc.prems q mq(2) by (auto simp del: drop_queues.simps)
    ultimately show ?thesis using q by (auto simp del: drop_queues.simps)
  qed
qed

text \<open>Both loops and the destruction of the thread state.\<close>

lemma Executor_drop_ok:
  assumes ok: "ex_ok X absQ absA ex q"
    and f: "\<forall>w \<in> Map.ran (absS (ts_active ex)). rn_task X w = None"
    and armed: "\<forall>r \<in> set (ts_task_queue ex) \<union> set (absQ (ex_task_queue ex)). armed r = None"
  shows "\<exists>ex'. Executor_drop X armed th ex = Inr ex' \<and> ex_dropped ex' \<and> ex_borrow ex' = Unused \<and>
    grows ex ex' \<and> length (ex_woken ex') \<le> Suc (length (ex_woken ex)) \<and>
    absQ (ex_task_queue ex') = drop (Suc (length (ts_task_queue ex))) (absQ (ex_task_queue ex))"
proof -
  from drop_wake_foreign [OF ok f, of th] obtain sl ws where
    w: "drop_wake X th poll_fuel ex = Inr (ex\<lparr>ts_active := sl, ex_woken := ex_woken ex @ ws\<rparr>)" "length ws \<le> 1"
    by blast
  let ?ex = "ex\<lparr>ts_active := sl, ex_woken := ex_woken ex @ ws\<rparr>"
  have b: "ex_borrow ex = Unused" "\<not> ex_dropped ex" using ok by (simp_all add: ex_ok_def)
  have "\<exists>mq rs. drop_queues X armed (Suc (length (ts_task_queue ex))) ?ex =
      Inr (?ex\<lparr>ex_task_queue := mq, ts_task_queue := rs\<rparr>) \<and>
      absQ mq = drop (Suc (length (ts_task_queue ex))) (absQ (ex_task_queue ex)) \<and> set rs \<subseteq> set (ts_task_queue ex)"
    using drop_queues_ok [of ?ex "length (ts_task_queue ex)" armed] b armed by (simp del: drop_queues.simps)
  then obtain mq rs where
    q: "drop_queues X armed (Suc (length (ts_task_queue ex))) ?ex = Inr (?ex\<lparr>ex_task_queue := mq, ts_task_queue := rs\<rparr>)"
      "absQ mq = drop (Suc (length (ts_task_queue ex))) (absQ (ex_task_queue ex))" "set rs \<subseteq> set (ts_task_queue ex)"
    by blast
  let ?ex2 = "?ex\<lparr>ex_task_queue := mq, ts_task_queue := rs\<rparr>"
  have l: "ts_lock ?ex2 = Inr (?ex2\<lparr>ex_borrow := Writing\<rparr>)" using b by (simp add: ts_lock_def)
  have "\<forall>r \<in> set rs. armed r = None" using armed q(3) by blast
  from drop_runnables_unarmed [OF this, of X "?ex2\<lparr>ex_borrow := Writing\<rparr>"]
  have "Executor_drop X armed th ex =
      Inr (ts_unlock (?ex2\<lparr>ex_borrow := Writing, ts_task_queue := [], ex_dropped := True\<rparr>))"
    using w(1) q(1) l by (simp add: Executor_drop_def del: drop_queues.simps)
  with w(2) q(2) show ?thesis by (simp add: grows_def ts_unlock_def)
qed

text \<open>The first task in the slab is pending, and was polled.\<close>

lemma Executor_drop_pending:
  assumes ok: "ex_ok X absQ absA ex q" and h: "\<not> hands_over q" and th: "same_thread ex th"
    and d: "sl_drain X (ts_active ex) = (w # ws, sl)" and w: "rn_task X w = Some r" "armed r = Some i"
    and m: "absQ (ex_task_queue ex) = []"
  shows "Executor_drop X armed th ex = Inl (Panic Borrow_failed)"
proof -
  let ?ex = "ex\<lparr>ts_active := sl\<rparr>"
  have o: "ex_ok X absQ absA ?ex q" and t: "same_thread ?ex th"
    using ok th by (simp_all add: ex_ok_def same_thread_slab)
  from schedule_local [OF o t, of "Suc (Suc 0)" r] obtain e where
    e: "scheduler X th r ?ex = Inr (?ex\<lparr>ts_thread_waker := e, ex_woken := ex_woken ?ex @ offer_wakes q,
        ts_task_queue := ts_task_queue ?ex @ [r]\<rparr>)" "refines e (offered (Some r) q)"
    using h unfolding sched_fuel_def by auto
  let ?ex1 = "?ex\<lparr>ts_thread_waker := e, ex_woken := ex_woken ?ex @ offer_wakes q, ts_task_queue := ts_task_queue ?ex @ [r]\<rparr>"
  have o1: "ex_ok X absQ absA ?ex1 (offered (Some r) q)" using offered_ok [OF o e(2)] by (simp add: ex_step_def)
  have "absS (ts_active ?ex1) = Map.empty" using drop_wake_first(2) [OF ok d] by simp
  from drop_wake_empty [OF o1 this, of th 0] obtain sl' where
    "drop_wake X th (Suc 0) ?ex1 = Inr (?ex1\<lparr>ts_active := sl'\<rparr>)" by blast
  then have wake: "drop_wake X th poll_fuel ex = Inr (?ex1\<lparr>ts_active := sl'\<rparr>)"
    using drop_wake_first(1) [OF ok d, of th "Suc 0"] w(1) e(1) unfolding poll_fuel_def by simp
  let ?ex2 = "?ex1\<lparr>ts_active := sl'\<rparr>"
  from queue_pop [of "ex_task_queue ex"] m obtain mq where "cq_pop X (ex_task_queue ex) = (None, mq)" by auto
  then have q: "drop_queues X armed (Suc n) ?ex2 = Inr (?ex2\<lparr>ex_task_queue := mq\<rparr>)" for n by simp
  let ?ex3 = "?ex2\<lparr>ex_task_queue := mq\<rparr>"
  have l: "ts_lock ?ex3 = Inr (?ex3\<lparr>ex_borrow := Writing\<rparr>)" using ok by (simp add: ts_lock_def ex_ok_def)
  have "drop_runnables X armed (ts_task_queue ?ex3) (?ex3\<lparr>ex_borrow := Writing\<rparr>) = Inl (Panic Borrow_failed)"
    by (rule drop_runnables_borrowed [where r = r and i = i]) (simp_all add: w(2))
  with wake q l show ?thesis by (simp add: Executor_drop_def del: drop_queues.simps)
qed

end

section \<open>Properties\<close>





section \<open>Waking one's own tasks\<close>

text \<open>
  The scheduler notifies a listener while the thread state is borrowed. If the listener waits with the
  waker of a task of this executor (which ran the executor inside itself), that waker calls the
  scheduler again, which panics.
\<close>

lemma nested_run_panics:
  assumes r: "refines (ts_thread_waker ex) q" and b: "ex_borrow ex = Unused" "ev_borrow ex = Unused" "\<not> ex_dropped ex"
    and h: "hands_over q" and w: "hd (q_waiting q) = (a, Some w)" "rn_task X w = Some r'"
    and th: "same_thread ex th"
  shows "scheduler X th runnable ex = Inl (Panic Borrow_failed)"
proof -
  let ?ex = "ex\<lparr>ex_borrow := Writing, ev_borrow := Writing\<rparr>"
  have "take 1 (q_waiting q) = [(a, Some w)]" using h w(1) by (cases "q_waiting q") (auto simp: hands_over_def)
  then have woken: "wakers_of (take 1 (q_waiting q)) = [w]" by (simp add: wakers_of_def)
  from offer_ok [OF r, of runnable] obtain e where
    e: "notify_int_with 1 take_item (Some runnable) (ts_thread_waker ex) = Inr (None, [w], e)"
    unfolding woken using h by auto
  have th': "same_thread (?ex\<lparr>ts_thread_waker := e\<rparr>) th"
    using th by (simp add: same_thread_def cong: option.case_cong)
  have "schedule X (Suc n) th r' (?ex\<lparr>ts_thread_waker := e\<rparr>) = Inl (Panic Borrow_failed)" for n
    using th' by (simp add: ts_lock_def)
  then show ?thesis
    using th b e w(2) by (simp add: sched_fuel_def ts_lock_def notify_thread_def ev_lock_Unused del: schedule.simps(2) add: schedule.simps(2) [of X "Suc (Suc 0)" th runnable ex])
qed

end
