(* ===== verification/MainstreamRace.thy ===== *)
theory MainstreamRace
  imports ExecutorLaws
begin

text \<open>
  The mainstream queue between threads, one atomic operation of \<open>ConcurrentQueue\<close> or
  \<open>AtomicWaker\<close> at a time: other threads push a runnable and then wake the registered waker, the
  mainstream runner pops, registers its waker and pops again. Theory \<open>Executor\<close> takes each of
  these sequences as one step; here they interleave in any order (the operations are linearizable).
\<close>

section \<open>The steps\<close>

text \<open>
  Where the runner is in the closure of \<open>tick\<close>: not in it, before each of its operations, or it has
  returned \<open>Pending\<close> or a runnable.
\<close>

datatype 'r runner_pc = Away | At_pop | At_register | At_pop_again | At_take 'r | Asleep | Got 'r

text \<open>
  \<open>rc_pushed\<close> are the threads that have pushed and not called \<open>wake\<close> yet; \<open>rc_woken\<close> tells whether the
  waker the runner registered last has been woken since.
\<close>

record ('q, 'a, 'r, 'w, 'th) race =
  rc_queue :: 'q
  rc_slot :: 'a
  rc_runner :: "'r runner_pc"
  rc_waker :: 'w
  rc_woken :: bool
  rc_pushed :: "'th set"

text \<open>The scheduler on another thread, in two steps.\<close>

definition race_push ::
  "('q, 'a, 's, 'r, 'w) externs \<Rightarrow> 'th \<Rightarrow> 'r \<Rightarrow> ('q, 'a, 'r, 'w, 'th) race \<Rightarrow> ('q, 'a, 'r, 'w, 'th) race" where
  "race_push X th r s =
     (case cq_push X r (rc_queue s) of
        (Inl e, q) \<Rightarrow> s\<lparr>rc_queue := q\<rparr>
      | (Inr u, q) \<Rightarrow> s\<lparr>rc_queue := q, rc_pushed := insert th (rc_pushed s)\<rparr>)"

definition race_wake ::
  "('q, 'a, 's, 'r, 'w) externs \<Rightarrow> 'th \<Rightarrow> ('q, 'a, 'r, 'w, 'th) race \<Rightarrow> ('q, 'a, 'r, 'w, 'th) race" where
  "race_wake X th s =
     (case aw_wake X (rc_slot s) of
        (woken, a) \<Rightarrow> s\<lparr>rc_slot := a, rc_woken := (rc_woken s \<or> rc_waker s \<in> set woken),
          rc_pushed := rc_pushed s - {th}\<rparr>)"

text \<open>The next operation of the runner.\<close>

definition race_pop ::
  "('q, 'a, 's, 'r, 'w) externs \<Rightarrow> ('r \<Rightarrow> 'r runner_pc) \<Rightarrow> 'r runner_pc \<Rightarrow> ('q, 'a, 'r, 'w, 'th) race
     \<Rightarrow> ('q, 'a, 'r, 'w, 'th) race" where
  "race_pop X found missed s =
     (case cq_pop X (rc_queue s) of
        (Some r, q) \<Rightarrow> s\<lparr>rc_queue := q, rc_runner := found r\<rparr>
      | (None, q) \<Rightarrow> s\<lparr>rc_queue := q, rc_runner := missed\<rparr>)"

definition runner_step ::
  "('q, 'a, 's, 'r, 'w) externs \<Rightarrow> ('q, 'a, 'r, 'w, 'th) race \<Rightarrow> ('q, 'a, 'r, 'w, 'th) race" where
  "runner_step X s =
     (case rc_runner s of
        At_pop \<Rightarrow> race_pop X Got At_register s
      | At_register \<Rightarrow>
          s\<lparr>rc_slot := aw_register X (rc_waker s) (rc_slot s), rc_woken := False, rc_runner := At_pop_again\<rparr>
      | At_pop_again \<Rightarrow> race_pop X At_take Asleep s
      | At_take r \<Rightarrow> s\<lparr>rc_slot := snd (aw_take X (rc_slot s)), rc_runner := Got r\<rparr>
      | _ \<Rightarrow> s)"

definition in_poll :: "'r runner_pc \<Rightarrow> bool" where
  "in_poll pc \<longleftrightarrow> (case pc of Away \<Rightarrow> False | Asleep \<Rightarrow> False | Got r \<Rightarrow> False | _ \<Rightarrow> True)"

section \<open>The system\<close>

text \<open>
  \<open>RBegin\<close>: the runner is polled with a waker; \<open>RLeave\<close>: it is dropped, taking its waker back;
  \<open>RTry_pop\<close> and \<open>RTry_wake\<close>: the two halves of \<open>try_tick\<close> on the thread of the runner.
\<close>

datatype ('r, 'w, 'th) race_op = RPush 'th 'r | RWake 'th | RBegin 'w | RStep | RLeave | RTry_pop 'th

fun race_enabled :: "('r, 'w, 'th) race_op \<Rightarrow> ('q, 'a, 'r, 'w, 'th) race \<Rightarrow> bool" where
  "race_enabled (RPush th r) s \<longleftrightarrow> th \<notin> rc_pushed s"
| "race_enabled (RWake th) s \<longleftrightarrow> th \<in> rc_pushed s"
| "race_enabled (RBegin w) s \<longleftrightarrow> \<not> in_poll (rc_runner s)"
| "race_enabled RStep s \<longleftrightarrow> in_poll (rc_runner s)"
| "race_enabled RLeave s \<longleftrightarrow> \<not> in_poll (rc_runner s)"
| "race_enabled (RTry_pop th) s \<longleftrightarrow> \<not> in_poll (rc_runner s) \<and> th \<notin> rc_pushed s"

text \<open>A successful pop of \<open>try_tick\<close> leaves its thread before its \<open>wake\<close>, like a push.\<close>

fun race_exec ::
  "('q, 'a, 's, 'r, 'w) externs \<Rightarrow> ('r, 'w, 'th) race_op \<Rightarrow> ('q, 'a, 'r, 'w, 'th) race
     \<Rightarrow> ('q, 'a, 'r, 'w, 'th) race outcome" where
  "race_exec X (RPush th r) s = Inr (race_push X th r s)"
| "race_exec X (RWake th) s = Inr (race_wake X th s)"
| "race_exec X (RBegin w) s = Inr (s\<lparr>rc_runner := At_pop, rc_waker := w\<rparr>)"
| "race_exec X RStep s = Inr (runner_step X s)"
| "race_exec X RLeave s = Inr (s\<lparr>rc_slot := snd (aw_take X (rc_slot s)), rc_runner := Away\<rparr>)"
| "race_exec X (RTry_pop th) s =
     (case cq_pop X (rc_queue s) of
        (Some r, q) \<Rightarrow> Inr (s\<lparr>rc_queue := q, rc_pushed := insert th (rc_pushed s)\<rparr>)
      | (None, q) \<Rightarrow> Inr (s\<lparr>rc_queue := q\<rparr>))"

definition race_init :: "('q, 'a, 's, 'r, 'w) externs \<Rightarrow> 'w \<Rightarrow> ('q, 'a, 'r, 'w, 'th) race" where
  "race_init X w =
     \<lparr>rc_queue = cq_unbounded X, rc_slot = aw_new X, rc_runner = Away, rc_waker = w, rc_woken = False,
      rc_pushed = {}\<rparr>"

definition race_reach ::
  "('q, 'a, 's, 'r, 'w) externs \<Rightarrow> 'w \<Rightarrow> ('q, 'a, 'r, 'w, 'th) race \<Rightarrow> bool" where
  "race_reach X w = reach race_enabled (race_exec X) (race_init X w)"

declare race_push_def [evals] race_wake_def [evals] race_pop_def [evals] runner_step_def [evals]
  in_poll_def [evals] race_init_def [evals]

section \<open>The invariant\<close>

text \<open>
  Between its registration and its next poll the waker of the runner is registered or woken, and a
  runnable that a sleeping runner has missed is followed by a \<open>wake\<close>.
\<close>

definition race_inv :: "('q \<Rightarrow> 'r list) \<Rightarrow> ('a \<Rightarrow> 'w option) \<Rightarrow> ('q, 'a, 'r, 'w, 'th) race \<Rightarrow> bool" where
  "race_inv absQ absA s \<longleftrightarrow>
     (rc_runner s = At_pop_again \<or> rc_runner s = Asleep \<longrightarrow>
        rc_woken s \<or> absA (rc_slot s) = Some (rc_waker s)) \<and>
     (rc_runner s = Asleep \<longrightarrow> rc_woken s \<or> absQ (rc_queue s) = [] \<or> rc_pushed s \<noteq> {})"

context crates
begin

lemma race_pop_ok:
  "\<exists>q. race_pop X found missed s =
      s\<lparr>rc_queue := q, rc_runner := (case absQ (rc_queue s) of [] \<Rightarrow> missed | r # rs \<Rightarrow> found r)\<rparr> \<and>
    absQ q = tl (absQ (rc_queue s))"
proof -
  from queue_pop [of "rc_queue s"] obtain q where
    "cq_pop X (rc_queue s) = (case absQ (rc_queue s) of [] \<Rightarrow> None | x # xs \<Rightarrow> Some x, q)"
    "absQ q = tl (absQ (rc_queue s))" by blast
  then show ?thesis
    by (cases "absQ (rc_queue s)") (auto simp: race_pop_def)
qed

lemma race_push_inv: "race_inv absQ absA s \<Longrightarrow> race_inv absQ absA (race_push X th r s)"
  using queue_push [of r "rc_queue s"] by (auto simp: race_inv_def race_push_def)

lemma race_wake_inv:
  assumes "race_inv absQ absA s"
  shows "race_inv absQ absA (race_wake X th s)"
proof -
  from waker_wake [of "rc_slot s"] obtain a where
    "aw_wake X (rc_slot s) = (case absA (rc_slot s) of None \<Rightarrow> [] | Some w \<Rightarrow> [w], a)" "absA a = None" by blast
  with assms show ?thesis by (auto simp: race_inv_def race_wake_def split: option.splits)
qed

lemma runner_step_inv:
  assumes i: "race_inv absQ absA s" and p: "in_poll (rc_runner s)"
  shows "race_inv absQ absA (runner_step X s)"
proof (cases "rc_runner s")
  case At_pop
  with race_pop_ok [of Got At_register s] show ?thesis
    by (cases "absQ (rc_queue s)") (auto simp: runner_step_def race_inv_def)
next
  case At_register
  then show ?thesis using waker_register [of "rc_waker s"] by (simp add: runner_step_def race_inv_def)
next
  case At_pop_again
  with race_pop_ok [of At_take Asleep s] i show ?thesis
    by (cases "absQ (rc_queue s)") (auto simp: runner_step_def race_inv_def)
next
  case (At_take r)
  then show ?thesis by (simp add: runner_step_def race_inv_def)
qed (use p in \<open>simp_all add: in_poll_def\<close>)

lemma race_start: "race_inv absQ absA (race_init X w)"
  by (simp add: race_inv_def race_init_def)

lemma race_exec_ok:
  assumes i: "race_inv absQ absA s" and e: "race_enabled op s"
  shows "\<exists>s'. race_exec X op s = Inr s' \<and> race_inv absQ absA s'"
proof (cases op)
  case (RTry_pop th)
  from queue_pop [of "rc_queue s"] obtain q where
    "cq_pop X (rc_queue s) = (case absQ (rc_queue s) of [] \<Rightarrow> None | x # xs \<Rightarrow> Some x, q)"
    "absQ q = tl (absQ (rc_queue s))" by blast
  with RTry_pop i show ?thesis by (cases "absQ (rc_queue s)") (auto simp: race_inv_def)
next
  case RStep
  with e runner_step_inv [OF i] show ?thesis by simp
next
  case (RPush th r)
  with race_push_inv [OF i] show ?thesis by simp
next
  case (RWake th)
  with race_wake_inv [OF i] show ?thesis by simp
qed (simp_all add: race_inv_def)

end

sublocale crates \<subseteq> racing: machine race_enabled "race_exec X" "race_init X w" "race_inv absQ absA" for w
  by unfold_locales (rule race_start, rule race_exec_ok)

context crates
begin

lemma race_good: "race_reach X w s \<Longrightarrow> race_inv absQ absA s"
  unfolding race_reach_def by (rule racing.reach_inv)

end

section \<open>Properties\<close>

text \<open>
  C16: The handshake over the mainstream queue loses no wakeup, whatever the interleaving of the single operations
  of any number of threads with those of the runner: when the runner sleeps and every thread that pushed has called
  \<open>wake\<close>, the queue is empty or the waker of the runner has been woken since it was registered.
\<close>

theorem race_no_lost_wakeup:
  assumes "crates X absQ absA absS" and "race_reach X w s"
    and "rc_runner s = Asleep" and "rc_pushed s = {}"
  shows "absQ (rc_queue s) = [] \<or> rc_woken s"
  using crates.race_good [OF assms(1,2)] assms(3,4) by (auto simp: race_inv_def)

theorem race_no_lost_wakeup_witness:
  "\<exists>s. run race_enabled (race_exec list_crates) [RBegin (Inl 1), RStep, RPush (0 :: nat) 5, RStep, RWake 0, RStep, RStep,
       RBegin (Inl 1), RStep, RStep, RStep, RPush 0 6, RWake 0] (race_init list_crates (Inl 1)) = Some (Inr s) \<and>
     rc_queue s = [6] \<and> rc_woken s"
proof (rule after_reach)
  show "after race_enabled (race_exec list_crates) [RBegin (Inl 1), RStep, RPush (0 :: nat) 5, RStep, RWake 0, RStep, RStep,
       RBegin (Inl 1), RStep, RStep, RStep, RPush 0 6, RWake 0] (race_init list_crates (Inl 1))
       (\<lambda>s. rc_runner s = Asleep \<and> rc_pushed s = {} \<and> rc_queue s = [6])"
    by (simp add: evals)
  fix s :: "(nat list, (nat + nat) option, nat, nat + nat, nat) race"
  assume "reach race_enabled (race_exec list_crates) (race_init list_crates (Inl 1)) s"
    and p: "rc_runner s = Asleep \<and> rc_pushed s = {} \<and> rc_queue s = [6]"
  then have r: "race_reach list_crates (Inl 1) s" by (simp add: race_reach_def)
  from race_no_lost_wakeup [OF listed.crates_axioms r] p show "rc_queue s = [6] \<and> rc_woken s" by simp
qed

text \<open>
  Without interference the single steps of the runner compose to its poll of the mainstream queue as theory \<open>Executor\<close>
  takes it: after at most four steps it has the runnable that the poll returns, or sleeps, with
  the same queue and the same waker registered.
\<close>

theorem race_refines_poll:
  assumes "poll_mainstream X w ex = (p, ex')"
    and "rc_queue s = ex_task_queue ex" and "rc_slot s = ex_mainstream_waker ex"
    and "rc_runner s = At_pop" and "rc_waker s = w"
  shows "\<exists>n \<le> 4. let s' = (runner_step X ^^ n) s in
    rc_runner s' = (case p of Some r \<Rightarrow> Got r | None \<Rightarrow> Asleep) \<and>
    rc_queue s' = ex_task_queue ex' \<and> rc_slot s' = ex_mainstream_waker ex' \<and> rc_pushed s' = rc_pushed s"
proof -
  obtain p1 q1 where q1: "cq_pop X (ex_task_queue ex) = (p1, q1)" by fastforce
  show ?thesis
  proof (cases p1)
    case (Some r)
    with assms q1 show ?thesis
      by (intro exI [of _ 1]) (auto simp: poll_mainstream_def runner_step_def race_pop_def Let_def)
  next
    case None
    obtain p2 q2 where q2: "cq_pop X q1 = (p2, q2)" by fastforce
    show ?thesis
    proof (cases p2)
      case (Some r)
      with None assms q1 q2 show ?thesis
        by (intro exI [of _ "Suc (Suc (Suc (Suc 0)))"])
          (auto simp: poll_mainstream_def runner_step_def race_pop_def Let_def)
    next
      case n: None
      with None assms q1 q2 show ?thesis
        by (intro exI [of _ "Suc (Suc (Suc 0))"])
          (auto simp: poll_mainstream_def runner_step_def race_pop_def Let_def)
    qed
  qed
qed

theorem race_refines_poll_witness:
  "\<exists>n \<le> 4. let s' = (runner_step list_crates ^^ n)
       ((race_init list_crates (Inl 1) :: (_, _, _, _, nat) race)\<lparr>rc_runner := At_pop\<rparr>) in
     rc_runner s' = Asleep \<and> rc_queue s' = [] \<and> rc_slot s' = Some (Inl 1)"
proof -
  let ?ex = "with_thread_id list_crates NoThreadId_id ()"
  let ?s = "(race_init list_crates (Inl 1) :: (_, _, _, _, nat) race)\<lparr>rc_runner := At_pop\<rparr>"
  have "poll_mainstream list_crates (Inl 1) ?ex = (None, ?ex\<lparr>ex_mainstream_waker := Some (Inl 1)\<rparr>)"
    by (simp add: evals)
  from race_refines_poll [OF this, of ?s] show ?thesis
    by (simp add: race_init_def with_thread_id_def list_crates_def Let_def) blast
qed

end
