(* ===== verification/ExecutorTests.thy ===== *)
theory ExecutorTests
  imports ExecutorDrop
begin

text \<open>
  The unit tests of \<open>src/executor.rs\<close> as scripts, run on the instance of the model with
  lists. A task is a number; what its future computes is left out, its guard is dropped when it is
  finished (\<open>EFinish\<close>). The waker of \<open>block_on\<close> is number 0.
\<close>

type_synonym exec_listed =
  "(nat list, (nat + nat) option, (nat + nat) option list, nat, nat + nat, unit) exec_sys"

type_synonym exec_test = "((nat, nat + nat, unit) exec_op, exec_listed) action list"

definition executor_passes :: "unit ThreadId \<Rightarrow> exec_test \<Rightarrow> bool" where
  "executor_passes tid t = script (exec_enabled list_crates) (exec_exec list_crates ()) t (exec_init list_crates tid ())"

text \<open>\<open>assert!(ex.is_empty())\<close> and its negation; the drop of the executor at the end returns.\<close>

definition is_empty_now :: "bool \<Rightarrow> exec_test" where
  "is_empty_now b = [Check (\<lambda>s. case is_empty list_crates (es_ex s) of Inl e \<Rightarrow> False | Inr (b', _) \<Rightarrow> b' = b)]"

definition has_run :: "nat list \<Rightarrow> exec_test" where
  "has_run rs = [Check (\<lambda>s. es_ran s = rs)]"

definition drops_executor :: exec_test where
  "drops_executor =
     [Check (\<lambda>s. case Executor_drop list_crates (\<lambda>r. None) () (es_ex s) of Inl e \<Rightarrow> False | Inr ex \<Rightarrow> True)]"

definition polls :: "addr \<Rightarrow> exec_test" where
  "polls a = [Do (EPoll a (Inl 0))]"

text \<open>The runner runs both tasks, then waits; the future given to \<open>run\<close> finishes first.\<close>

definition executor_smoke :: exec_test where
  "executor_smoke =
     [Do (ESpawn 1), Do (ESpawn 2), Do (ETicker 8)] @
     polls 8 @ has_run [1] @ [Do (EFinish 0)] @ polls 8 @
     polls 8 @ has_run [1, 2] @ [Do (EFinish 1)] @ polls 8 @ polls 8 @
     is_empty_now True @ [Do (EDrop 8)] @ drops_executor"

definition executor_smoke_passes :: bool where
  "executor_smoke_passes = executor_passes (DefaultThreadId_id (\<lambda>th. Some 64)) executor_smoke"

definition executor_smoke_no_thread_id :: bool where
  "executor_smoke_no_thread_id = executor_passes NoThreadId_id executor_smoke"

text \<open>The task yields five times: it is scheduled again while it runs. Each \<open>tick\<close> has its own ticker.\<close>

definition ticks :: "addr \<Rightarrow> nat list \<Rightarrow> exec_test \<Rightarrow> exec_test" where
  "ticks a rs task = [Do (ETicker a)] @ polls a @ has_run rs @ task @ polls a @ [Do (EDrop a)]"

definition executor_try_tick :: exec_test where
  "executor_try_tick =
     [Do ETry_tick] @ has_run [] @ [Do (ESpawn 1)] @
     [Do ETry_tick] @ has_run [1] @ [Do (ESchedule () 1)] @
     [Do ETry_tick] @ has_run [1, 1] @ [Do (ESchedule () 1)] @
     [Do ETry_tick] @ has_run [1, 1, 1] @ [Do (ESchedule () 1)] @
     ticks 8 [1, 1, 1, 1] [Do (ESchedule () 1)] @
     is_empty_now False @ ticks 16 [1, 1, 1, 1, 1] [Do (ESchedule () 1)] @
     is_empty_now False @ ticks 24 [1, 1, 1, 1, 1, 1] [Do (EFinish 0)] @
     is_empty_now True @ drops_executor"

definition executor_try_tick_passes :: bool where
  "executor_try_tick_passes = executor_passes (DefaultThreadId_id (\<lambda>th. Some 64)) executor_try_tick"

definition default_smoke :: bool where
  "default_smoke = executor_passes NoThreadId_id drops_executor"

declare executor_passes_def [evals] is_empty_now_def [evals] has_run_def [evals]
  drops_executor_def [evals] polls_def [evals] executor_smoke_def [evals]
  executor_smoke_passes_def [evals] executor_smoke_no_thread_id_def [evals] ticks_def [evals]
  executor_try_tick_def [evals] executor_try_tick_passes_def [evals] default_smoke_def [evals]

lemma executor_tests_pass:
  "executor_smoke_passes \<and> executor_smoke_no_thread_id \<and> executor_try_tick_passes \<and> default_smoke"
  by (simp add: evals)

end
