(* ===== verification/Tests.thy ===== *)
theory Tests
  imports EventApi MutexLock SemaphoreLock ReadWriteLock OnceLock BarrierLock ChannelModel ExecutorTests
begin

text \<open>
  The unit tests of the crate (the \<open>tests\<close> modules of \<open>src/event.rs\<close>,
  \<open>src/lock/mod.rs\<close> and \<open>src/channel.rs\<close>; those of \<open>src/executor.rs\<close> are in theory
  \<open>ExecutorTests\<close>), one script per test, run on the model: every assertion of every test holds there. A local variable of a test is the address of
  its future or listener; the waker of \<open>block_on\<close> is number 0.
\<close>

section \<open>Events\<close>

text \<open>
  What the tests do with an event: \<open>listen\<close>, poll, drop, and a call of \<open>notify\<close> with
  any argument. \<open>ts_polled\<close> is the result of the last poll, \<open>ts_count\<close> that of the
  last \<open>notify\<close>.
\<close>

record 't test_sys =
  ts_event :: "('t, nat) Event"
  ts_woken :: "nat list"
  ts_polled :: "'t poll"
  ts_count :: usize

datatype 't test_op =
    Listen addr
  | Poll addr nat
  | Release addr
  | Call "('t, nat) Event \<Rightarrow> (usize \<times> nat list \<times> ('t, nat) Event) outcome"

fun test_enabled :: "'t test_op \<Rightarrow> 't test_sys \<Rightarrow> bool" where
  "test_enabled (Listen a) s \<longleftrightarrow> ev_heap (ts_event s) a = None \<and> a \<noteq> 0"
| "test_enabled (Poll a w) s \<longleftrightarrow> ev_heap (ts_event s) a \<noteq> None"
| "test_enabled (Release a) s \<longleftrightarrow> ev_heap (ts_event s) a \<noteq> None"
| "test_enabled (Call f) s \<longleftrightarrow> True"

fun test_exec :: "'t test_op \<Rightarrow> 't test_sys \<Rightarrow> 't test_sys outcome" where
  "test_exec (Listen a) s = Inr (s\<lparr>ts_event := Listener_new a (ts_event s)\<rparr>)"
| "test_exec (Poll a w) s =
     andThen (Listener_poll a w (ts_event s)) (\<lambda>(p, e). Inr (s\<lparr>ts_event := e, ts_polled := p\<rparr>))"
| "test_exec (Release a) s =
     andThen (Listener_drop a (ts_event s)) (\<lambda>(woken, e).
     Inr (s\<lparr>ts_event := e, ts_woken := ts_woken s @ woken\<rparr>))"
| "test_exec (Call f) s =
     andThen (f (ts_event s)) (\<lambda>(k, woken, e).
     Inr (s\<lparr>ts_event := e, ts_woken := ts_woken s @ woken, ts_count := k\<rparr>))"

definition test_start :: "'t test_sys" where
  "test_start = \<lparr>ts_event = Event_new, ts_woken = [], ts_polled = Pending, ts_count = 0\<rparr>"

type_synonym 't event_test = "('t test_op, 't test_sys) action list"

definition event_passes :: "'t event_test \<Rightarrow> bool" where
  "event_passes t = script test_enabled test_exec t test_start"

text \<open>\<open>event.notify(n.tag(t))\<close> and \<open>event.notify(n.tag_with(f))\<close>.\<close>

definition call_tag :: "int \<Rightarrow> 't \<Rightarrow> ('t, nat) Event \<Rightarrow> (usize \<times> nat list \<times> ('t, nat) Event) outcome" where
  "call_tag i t ev =
     andThen (into_notification i) (\<lambda>n.
     andThen (Event_notify (Tag_impl Notify_impl) (tag n t) ev) (\<lambda>(k, woken, _, ev'). Inr (k, woken, ev')))"

definition call_tag_with :: "int \<Rightarrow> 't \<Rightarrow> ('t, nat) Event \<Rightarrow> (usize \<times> nat list \<times> ('t, nat) Event) outcome" where
  "call_tag_with i t ev =
     andThen (into_notification i) (\<lambda>n.
     andThen (Event_notify (TagWith_impl Notify_impl) (tag_with n (\<lambda>_. (t, ())) ()) ev)
       (\<lambda>(k, woken, _, ev'). Inr (k, woken, ev')))"

text \<open>\<open>is_notified\<close> of the tests polls once; here with the result it must have.\<close>

definition polls :: "addr \<Rightarrow> nat \<Rightarrow> 't poll \<Rightarrow> 't event_test" where
  "polls a w p = [Do (Poll a w), Check (\<lambda>s. ts_polled s = p)]"

definition yes :: "addr \<Rightarrow> unit event_test" where
  "yes a = polls a 0 (Ready ())"

definition no :: "addr \<Rightarrow> unit event_test" where
  "no a = polls a 0 Pending"

definition notify_n :: "int \<Rightarrow> unit event_test" where
  "notify_n i = [Do (Call (notify_int i))]"

definition listens :: "addr list \<Rightarrow> 't event_test" where
  "listens as = map (\<lambda>a. Do (Listen a)) as"

text \<open>The locals of a test are dropped at its end, the last first.\<close>

definition releases :: "addr list \<Rightarrow> 't event_test" where
  "releases as = map (\<lambda>a. Do (Release a)) (rev as)"

definition test_notify :: "unit event_test" where
  "test_notify = listens [8, 16, 24] @ no 8 @ no 16 @ no 24 @
     notify_n 2 @ notify_n 1 @ yes 8 @ yes 16 @ no 24 @ releases [8, 16, 24]"

definition test_notify_additional :: "unit event_test" where
  "test_notify_additional = listens [8, 16, 24] @ no 8 @ no 16 @ no 24 @
     [Do (Call (notify_int_additional 1)), Do (Call (notify_int 1)), Do (Call (notify_int_additional 1))] @
     yes 8 @ yes 16 @ no 24 @ releases [8, 16, 24]"

definition test_notify_rc :: "unit event_test" where
  "test_notify_rc = listens [8, 16] @ no 8 @ no 16 @
     notify_n 1 @ notify_n 1 @ yes 8 @ no 16 @ notify_n 1 @ yes 16 @ releases [8, 16]"

definition test_notify_out_of_range :: "unit event_test" where
  "test_notify_out_of_range = [Do (Call (notify_int_additional 1)), Check (\<lambda>s. ts_count s = 0)] @
     listens [8, 16] @ no 8 @ no 16 @
     [Do (Call (notify_int 2)), Check (\<lambda>s. ts_count s = 2), Do (Call (notify_int 1)), Check (\<lambda>s. ts_count s = 0)] @
     releases [8, 16]"

definition test_change_waker :: "unit event_test" where
  "test_change_waker = listens [8] @ polls 8 1 Pending @ polls 8 2 Pending @
     notify_n 1 @ [Check (\<lambda>s. ts_woken s = [2])] @ releases [8]"

definition test_notify_one :: "unit event_test" where
  "test_notify_one = listens [8, 16] @ no 8 @ no 16 @
     notify_n 1 @ yes 8 @ no 16 @ notify_n 1 @ yes 16 @ releases [8, 16]"

definition test_notify_all :: "unit event_test" where
  "test_notify_all = listens [8, 16] @ no 8 @ no 16 @
     notify_n (int usize_max) @ yes 8 @ yes 16 @ releases [8, 16]"

definition test_drop_notified :: "unit event_test" where
  "test_drop_notified = listens [8, 16, 24] @ no 8 @ no 16 @ no 24 @
     notify_n 1 @ [Do (Release 8)] @ yes 16 @ no 24 @ releases [16, 24]"

definition test_drop_notified2 :: "unit event_test" where
  "test_drop_notified2 = listens [8, 16, 24] @ no 8 @ no 16 @ no 24 @
     notify_n 2 @ [Do (Release 8)] @ yes 16 @ no 24 @ releases [16, 24]"

definition test_drop_notified_additional :: "unit event_test" where
  "test_drop_notified_additional = listens [8, 16, 24, 32] @ no 8 @ no 16 @ no 24 @ no 32 @
     [Do (Call (notify_int_additional 1)), Do (Call (notify_int 2)), Do (Release 8)] @
     yes 16 @ yes 24 @ no 32 @ releases [16, 24, 32]"

definition test_drop_non_notified :: "unit event_test" where
  "test_drop_non_notified = listens [8, 16, 24] @ no 8 @ no 16 @ no 24 @
     notify_n 1 @ [Do (Release 24)] @ yes 8 @ no 16 @ releases [8, 16]"

definition test_notify_all_fair :: "unit event_test" where
  "test_notify_all_fair = listens [8, 16, 24] @ polls 8 1 Pending @ polls 16 2 Pending @ polls 24 3 Pending @
     notify_n (int usize_max) @ [Check (\<lambda>s. ts_woken s = [1, 2, 3])] @
     polls 8 1 (Ready ()) @ polls 16 2 (Ready ()) @ polls 24 3 (Ready ()) @ releases [8, 16, 24]"

definition test_notify_tagged :: "int event_test" where
  "test_notify_tagged = listens [8, 16] @ polls 8 0 Pending @ polls 16 0 Pending @
     [Do (Call (call_tag 1 1)), Do (Call (call_tag 1 2))] @ polls 8 0 (Ready 1) @ polls 16 0 Pending @
     [Do (Call (call_tag 2 13))] @ polls 16 0 (Ready 13) @ releases [8, 16]"

definition test_notify_tagged_with :: "int event_test" where
  "test_notify_tagged_with = listens [8, 16] @ polls 8 0 Pending @ polls 16 0 Pending @
     [Do (Call (call_tag_with 1 1)), Do (Call (call_tag_with 1 2))] @ polls 8 0 (Ready 1) @ polls 16 0 Pending @
     [Do (Call (call_tag_with 2 13))] @ polls 16 0 (Ready 13) @ releases [8, 16]"

text \<open>\<open>negative_test!\<close>: the call panics.\<close>

definition negative_test :: bool where
  "negative_test \<longleftrightarrow> notify_int (-1) (Event_new :: (unit, nat) Event) = Inl (Panic Negative_count)"

declare event_passes_def [evals] test_start_def [evals] call_tag_def [evals] call_tag_with_def [evals]
  polls_def [evals] yes_def [evals] no_def [evals] notify_n_def [evals] listens_def [evals]
  releases_def [evals] negative_test_def [evals]
  test_notify_def [evals] test_notify_additional_def [evals] test_notify_rc_def [evals] test_notify_out_of_range_def [evals] test_change_waker_def [evals] test_notify_one_def [evals] test_notify_all_def [evals] test_drop_notified_def [evals] test_drop_notified2_def [evals] test_drop_notified_additional_def [evals] test_drop_non_notified_def [evals] test_notify_all_fair_def [evals] test_notify_tagged_def [evals] test_notify_tagged_with_def [evals]

text \<open>
  The model passes the tests of \<open>src/event.rs\<close>: every assertion of each of the
  fourteen tests holds, no step panics, and each negative count panics.
\<close>

lemma event_tests_pass:
  "list_all event_passes [test_notify, test_notify_additional, test_notify_rc, test_notify_out_of_range, test_change_waker, test_notify_one, test_notify_all, test_drop_notified, test_drop_notified2, test_drop_notified_additional, test_drop_non_notified, test_notify_all_fair] \<and>
   list_all event_passes [test_notify_tagged, test_notify_tagged_with] \<and> negative_test"
  by (simp add: evals)

section \<open>Locks\<close>

type_synonym mutex_test = "((int, nat) mutex_op, (int, nat) mutex_sys) action list"

definition mutex_passes :: "mutex_test \<Rightarrow> bool" where
  "mutex_passes t = script mutex_enabled mutex_exec t (mutex_init 0)"

text \<open>\<open>mutex.lock().await\<close> where the lock is free; reading the data through the guard.\<close>

definition locks :: "addr \<Rightarrow> mutex_test" where
  "locks a = [Do (MLock a), Do (MPoll a 0), Check (\<lambda>s. ms_futs s a = Some Returned \<and> ms_guards s = 1)]"

definition guard_is :: "int \<Rightarrow> mutex_test" where
  "guard_is n = [Check (\<lambda>s. ms_guards s = 1 \<and> MutexGuard_deref MutexGuard (ms_mutex s) = n)]"

text \<open>\<open>try_lock().unwrap()\<close> and \<open>assert!(try_lock().is_none())\<close>.\<close>

definition try_locks :: mutex_test where
  "try_locks = [Check (\<lambda>s. ms_guards s = 0), Do MTry_lock, Check (\<lambda>s. ms_guards s = 1)]"

definition try_fails :: mutex_test where
  "try_fails = [Check (\<lambda>s. ms_guards s = 1), Do MTry_lock, Check (\<lambda>s. ms_guards s = 1)]"

text \<open>\<open>*guard += 1\<close>, \<open>drop(guard)\<close>.\<close>

definition increment :: mutex_test where
  "increment = [Do (MWrite (\<lambda>n. n + 1))]"

definition unlock :: mutex_test where
  "unlock = [Do MUnlock]"

definition test_mutex :: mutex_test where
  "test_mutex = locks 8 @ increment @ guard_is 1 @ unlock @ locks 16 @ try_fails @
     [Do (MLock 24), Do (MPoll 24 0), Check (\<lambda>s. ms_futs s 24 = Some Suspended), Do (MCancel 24)] @
     guard_is 1 @ unlock"

definition test_mutex_try_lock :: mutex_test where
  "test_mutex_try_lock = try_locks @ increment @ guard_is 1 @ unlock @ try_locks @ guard_is 1 @ unlock"

definition test_mutex_try_lock_fail :: mutex_test where
  "test_mutex_try_lock_fail = locks 8 @ increment @ guard_is 1 @ unlock @ locks 16 @ guard_is 1 @ unlock"

definition test_mutex_lock_after_drop :: mutex_test where
  "test_mutex_lock_after_drop = locks 8 @ increment @ guard_is 1 @ unlock @ locks 16 @ guard_is 1 @ unlock"

definition test_mutex_lock_after_drop_try_lock :: mutex_test where
  "test_mutex_lock_after_drop_try_lock = try_locks @ increment @ guard_is 1 @ unlock @ try_locks @ guard_is 1 @ unlock"

definition test_mutex_get_mut_into_inner :: bool where
  "test_mutex_get_mut_into_inner \<longleftrightarrow> Mutex_into_inner (Mutex_get_mut (\<lambda>_. 3) (Mutex_new 0 :: (int, nat) Mutex)) = 3"

definition test_mutex_lock_await :: mutex_test where
  "test_mutex_lock_await = locks 8 @ increment @
     [Do (MLock 16), Do (MPoll 16 0), Check (\<lambda>s. ms_futs s 16 = Some Suspended)] @ unlock @
     [Do (MPoll 16 0), Check (\<lambda>s. ms_futs s 16 = Some Returned \<and> ms_guards s = 1)] @ unlock"

type_synonym rw_test = "((int, nat) rw_op, (int, nat) rw_sys) action list"

definition rw_passes :: "rw_test \<Rightarrow> bool" where
  "rw_passes t = script rw_enabled rw_exec t (rw_init 0)"

definition writes :: "addr \<Rightarrow> rw_test" where
  "writes a = [Do (RWrite a), Do (RPoll_write a 0), Check (\<lambda>s. rs_wfuts s a = Some Returned \<and> rs_writers s = 1)]"

definition reads :: "addr \<Rightarrow> rw_test" where
  "reads a = [Do (RRead a), Do (RPoll_read a 0), Check (\<lambda>s. rs_rfuts s a = Some Returned \<and> rs_readers s = 1)]"

definition writer_sees :: "int \<Rightarrow> rw_test" where
  "writer_sees n = [Check (\<lambda>s. rs_writers s = 1 \<and> RwLockWriteGuard_deref RwLockWriteGuard (rs_lock s) = n)]"

definition reader_sees :: "int \<Rightarrow> rw_test" where
  "reader_sees n = [Check (\<lambda>s. rs_readers s = 1 \<and> RwLockReadGuard_deref RwLockReadGuard (rs_lock s) = n)]"

definition rw_increment :: rw_test where
  "rw_increment = [Do (RSet (\<lambda>n. n + 1))]"

definition test_rwlock :: rw_test where
  "test_rwlock = writes 8 @ rw_increment @ writer_sees 1 @ [Do RDrop_write] @
     reads 16 @ reader_sees 1 @ [Do RDrop_read] @ writes 24 @ writer_sees 1 @ [Do RDrop_write]"

definition test_rwlock_try_read :: rw_test where
  "test_rwlock_try_read = writes 8 @ rw_increment @ writer_sees 1 @ [Do RDrop_write] @
     [Do RTry_read] @ reader_sees 1 @ [Do RDrop_read] @ writes 16 @ writer_sees 1 @ [Do RDrop_write]"

definition test_rwlock_try_write :: rw_test where
  "test_rwlock_try_write = writes 8 @ rw_increment @ writer_sees 1 @ [Do RDrop_write] @
     reads 16 @ reader_sees 1 @ [Do RDrop_read, Do RTry_write] @ writer_sees 1 @ [Do RDrop_write]"

definition test_rwlock_get_mut :: bool where
  "test_rwlock_get_mut \<longleftrightarrow> RwLock_into_inner (RwLock_get_mut (\<lambda>_. 3) (RwLock_new 0 :: (int, nat) RwLock)) = 3"

definition test_rwlock_read_write_await :: rw_test where
  "test_rwlock_read_write_await = writes 8 @ writer_sees 0 @
     [Do (RRead 16), Do (RPoll_read 16 0), Check (\<lambda>s. rs_rfuts s 16 = Some Suspended), Do RDrop_write,
      Do (RPoll_read 16 0), Check (\<lambda>s. rs_rfuts s 16 = Some Returned \<and> rs_readers s = 1),
      \<comment> \<open>the guard of \<open>read2\<close> is a temporary of the assertion\<close> Do RDrop_read] @
     reads 24 @ reader_sees 0 @
     [Do (RWrite 32), Do (RPoll_write 32 0), Check (\<lambda>s. rs_wfuts s 32 = Some Suspended), Do RDrop_read,
      Do (RPoll_write 32 0), Check (\<lambda>s. rs_wfuts s 32 = Some Returned \<and> rs_writers s = 1), Do RDrop_write]"

type_synonym sem_test = "(nat sem_op, nat sem_sys) action list"

definition sem_passes :: "sem_test \<Rightarrow> bool" where
  "sem_passes t = script sem_enabled sem_exec t (sem_init 1)"

text \<open>\<open>acquire().await\<close> with a permit; \<open>assert!(try_acquire().is_none())\<close>; a future polled
  once without success. The flag tells the \<open>_rc\<close> operations.\<close>

definition acquires :: "bool \<Rightarrow> addr \<Rightarrow> sem_test" where
  "acquires rc a = [Do (SAcquire a rc), Do (SPoll a 0), Check (\<lambda>s. ss_futs s a = Some Returned \<and> ss_guards s = 1)]"

definition no_permit :: "bool \<Rightarrow> sem_test" where
  "no_permit rc = [Check (\<lambda>s. ss_guards s = 1), Do (STry rc), Check (\<lambda>s. ss_guards s = 1)]"

definition waits_for :: "bool \<Rightarrow> addr \<Rightarrow> sem_test" where
  "waits_for rc a = [Do (SAcquire a rc), Do (SPoll a 0), Check (\<lambda>s. ss_futs s a = Some Suspended)]"

definition gets :: "addr \<Rightarrow> sem_test" where
  "gets a = [Do (SPoll a 0), Check (\<lambda>s. ss_futs s a = Some Returned \<and> ss_guards s = 1)]"

definition test_semaphore :: sem_test where
  "test_semaphore = acquires False 8 @ no_permit False @ waits_for False 16 @
     [Do (SCancel 16), Do (SRelease False)]"

definition test_semaphore_await :: sem_test where
  "test_semaphore_await = acquires False 8 @ no_permit False @ waits_for False 16 @ [Do (SRelease False)] @ gets 16 @
     [Do (SRelease False)]"

definition test_semaphore_rc :: sem_test where
  "test_semaphore_rc = acquires True 8 @ no_permit True @ waits_for False 16 @
     [Do (SCancel 16), Do (SRelease True)]"

definition test_semaphore_rc_await :: sem_test where
  "test_semaphore_rc_await = acquires True 8 @ no_permit True @ waits_for True 16 @ [Do (SRelease True)] @ gets 16 @
     [Do (SRelease True)]"

text \<open>\<open>cell.get_or_init(async { v })\<close>: the setter is ready at once.\<close>

definition ready_setter :: "int \<Rightarrow> unit \<Rightarrow> nat \<Rightarrow> (int poll \<times> unit) outcome" where
  "ready_setter v f w = Inr (Ready v, f)"

definition once_cell_smoke :: bool where
  "once_cell_smoke \<longleftrightarrow> OnceCell_get (OnceCell_new :: (int, nat) OnceCell) = None \<and>
     (case get_or_init_poll (ready_setter 5) (OnceCell_get_or_try_init ()) 8 0 OnceCell_new of
        Inr (Ready value, fut, woken, c) \<Rightarrow> value = 5 \<and> OnceCell_get c = Some 5
      | _ \<Rightarrow> False)"

definition once_cell_get_mut :: bool where
  "once_cell_get_mut \<longleftrightarrow> (let cell = OnceCell_from 5 :: (int, nat) OnceCell in
      OnceCell_get (OnceCell_get_mut id cell) \<noteq> None \<and> fst (OnceCell_take cell) = Some 5)"

definition once_cell_wait :: bool where
  "once_cell_wait \<longleftrightarrow> (case wait_poll OnceCell_wait Unresumed 8 0 (OnceCell_new :: (int, nat) OnceCell) of
        Inr (Pending, waiter, _, c) \<Rightarrow>
          (case set_poll (OnceCell_set 5) 16 0 c of
             Inr (Ready (Inr _), _, _, c) \<Rightarrow>
               (case wait_poll OnceCell_wait waiter 8 0 c of Inr (Ready _, _, _, _) \<Rightarrow> True | _ \<Rightarrow> False)
           | _ \<Rightarrow> False)
      | _ \<Rightarrow> False)"

definition once_cell_set2 :: bool where
  "once_cell_set2 \<longleftrightarrow> (case set_poll (OnceCell_set 5) 8 0 (OnceCell_from 3 :: (int, nat) OnceCell) of
        Inr (Ready r, _, _, _) \<Rightarrow> r = Inl 5
      | _ \<Rightarrow> False)"

definition barrier_smoke :: bool where
  "barrier_smoke \<longleftrightarrow> script barrier_enabled barrier_exec
       [Do (BWait 8), Do (BPoll 8 (0 :: nat)), Check (\<lambda>s. map_option bf_st (bs_futs s 8) = Some Suspended),
        Do (BWait 16), Do (BPoll 16 0), Check (\<lambda>s. map_option bf_st (bs_futs s 16) = Some Returned \<and> bs_leaders s = 1),
        Do (BPoll 8 0), Check (\<lambda>s. map_option bf_st (bs_futs s 8) = Some Returned \<and> bs_leaders s = 1)]
       (barrier_init 2)"

declare mutex_passes_def [evals]
  locks_def [evals]
  guard_is_def [evals]
  try_locks_def [evals]
  try_fails_def [evals]
  increment_def [evals]
  unlock_def [evals]
  rw_passes_def [evals]
  writes_def [evals]
  reads_def [evals]
  writer_sees_def [evals]
  reader_sees_def [evals]
  rw_increment_def [evals]
  sem_passes_def [evals]
  acquires_def [evals]
  no_permit_def [evals]
  waits_for_def [evals]
  gets_def [evals]
  ready_setter_def [evals]
  test_mutex_def [evals]
  test_mutex_try_lock_def [evals]
  test_mutex_try_lock_fail_def [evals]
  test_mutex_lock_after_drop_def [evals]
  test_mutex_lock_after_drop_try_lock_def [evals]
  test_mutex_lock_await_def [evals]
  test_rwlock_def [evals]
  test_rwlock_try_read_def [evals]
  test_rwlock_try_write_def [evals]
  test_rwlock_read_write_await_def [evals]
  test_semaphore_def [evals]
  test_semaphore_await_def [evals]
  test_semaphore_rc_def [evals]
  test_semaphore_rc_await_def [evals]
  test_mutex_get_mut_into_inner_def [evals]
  test_rwlock_get_mut_def [evals]
  once_cell_smoke_def [evals]
  once_cell_get_mut_def [evals]
  once_cell_wait_def [evals]
  once_cell_set2_def [evals]
  barrier_smoke_def [evals] OnceCell_wait_def [evals]
  mutex_init_def [evals] rw_init_def [evals]

text \<open>
  The model passes the tests of \<open>src/lock/mod.rs\<close>: every assertion of each of the
  twenty-one tests of mutexes, read/write locks, semaphores, cells and barriers holds, and no step
  panics.
\<close>

lemma lock_tests_pass:
  "list_all mutex_passes [test_mutex, test_mutex_try_lock, test_mutex_try_lock_fail, test_mutex_lock_after_drop, test_mutex_lock_after_drop_try_lock, test_mutex_lock_await] \<and>
   list_all rw_passes [test_rwlock, test_rwlock_try_read, test_rwlock_try_write, test_rwlock_read_write_await] \<and>
   list_all sem_passes [test_semaphore, test_semaphore_await, test_semaphore_rc, test_semaphore_rc_await] \<and>
   test_mutex_get_mut_into_inner \<and> test_rwlock_get_mut \<and> once_cell_smoke \<and> once_cell_get_mut \<and> once_cell_wait \<and> once_cell_set2 \<and> barrier_smoke"
  by (simp add: evals)

section \<open>Channels\<close>

type_synonym chan_test = "((int, nat) chan_op, (int, nat) chan_sys) action list"

definition chan_passes :: "chan_test \<Rightarrow> bool" where
  "chan_passes t = script chan_enabled chan_exec t chan_init"

text \<open>
  \<open>send(v).unwrap()\<close>; \<open>assert_eq!(try_recv().unwrap(), v)\<close>, where \<open>vs\<close> are the
  items received so far, this one included; \<open>assert!(try_recv().is_err())\<close>.
\<close>

definition sends :: "int \<Rightarrow> chan_test" where
  "sends v = [Check (\<lambda>s. \<not> ch_closed (cs_chan s)), Do (CSend v)]"

definition tries :: "int list \<Rightarrow> chan_test" where
  "tries vs = [Do CTry_recv, Check (\<lambda>s. cs_received s = vs)]"

definition receives :: "addr \<Rightarrow> int list \<Rightarrow> chan_test" where
  "receives a vs = [Do (CRecv a), Do (CPoll a 0), Check (\<lambda>s. cs_futs s a = Some Returned \<and> cs_received s = vs)]"

text \<open>\<open>assert!(recv().await.is_err())\<close>: it returns, without an item.\<close>

definition receives_error :: "addr \<Rightarrow> int list \<Rightarrow> chan_test" where
  "receives_error a vs = receives a vs"

definition starts :: "addr \<Rightarrow> chan_test" where
  "starts a = [Do (CRecv a), Do (CPoll a 0), Check (\<lambda>s. cs_futs s a = Some Suspended)]"

definition resumes :: "addr \<Rightarrow> int list \<Rightarrow> chan_test" where
  "resumes a vs = [Do (CPoll a 0), Check (\<lambda>s. cs_futs s a = Some Returned \<and> cs_received s = vs)]"

text \<open>The futures of a test, then the handles.\<close>

definition cancels :: "addr list \<Rightarrow> chan_test" where
  "cancels as = map (\<lambda>a. Do (CCancel a)) as"

definition test_channel :: chan_test where
  "test_channel = sends 1 @ sends 2 @ sends 3 @ tries [1] @ receives 8 [1, 2] @ tries [1, 2, 3] @ tries [1, 2, 3] @
     [Do CDrop_sender] @ receives_error 16 [1, 2, 3] @ cancels [16, 8] @ [Do CDrop_receiver]"

definition test_channel_clone :: chan_test where
  "test_channel_clone = [Do CClone_sender] @ sends 1 @ sends 2 @ tries [1] @ tries [1, 2] @ tries [1, 2] @
     [Do CDrop_sender, Do CDrop_sender] @ receives_error 8 [1, 2] @ cancels [8] @ [Do CDrop_receiver]"

definition test_channel_recv_clone :: chan_test where
  "test_channel_recv_clone = [Do CClone_receiver] @ sends 1 @ sends 2 @ tries [1] @ tries [1, 2] @ tries [1, 2] @ tries [1, 2] @
     [Do CDrop_receiver, Do CDrop_receiver, Do (CSend 3), Check (\<lambda>s. cs_sent s = [1, 2]), Do CDrop_sender]"

definition test_send_direct :: chan_test where
  "test_send_direct = starts 8 @ sends 1 @ resumes 8 [1] @ cancels [8] @ [Do CDrop_receiver, Do CDrop_sender]"

definition test_recv_and_drop :: chan_test where
  "test_recv_and_drop = [Do CClone_receiver] @ starts 8 @ starts 16 @ [Do CDrop_sender] @ resumes 8 [] @ resumes 16 [] @
     cancels [16, 8] @ [Do CDrop_receiver, Do CDrop_receiver]"

definition test_channel_drop :: chan_test where
  "test_channel_drop = sends 1 @ sends 2 @ sends 3 @ [Do CDrop_sender] @ tries [1] @ tries [1, 2] @ tries [1, 2, 3] @
     tries [1, 2, 3] @ receives_error 8 [1, 2, 3] @ cancels [8] @ [Do CDrop_receiver]"

declare chan_passes_def [evals]
  sends_def [evals]
  tries_def [evals]
  receives_def [evals]
  receives_error_def [evals]
  starts_def [evals]
  resumes_def [evals]
  cancels_def [evals]
  test_channel_def [evals]
  test_channel_clone_def [evals]
  test_channel_recv_clone_def [evals]
  test_send_direct_def [evals]
  test_recv_and_drop_def [evals]
  test_channel_drop_def [evals]

text \<open>
  The model passes the tests of \<open>src/channel.rs\<close>: every assertion of each of the six
  tests holds, and no step panics.
\<close>

lemma channel_tests_pass:
  "list_all chan_passes [test_channel, test_channel_clone, test_channel_recv_clone, test_send_direct, test_recv_and_drop, test_channel_drop]"
  by (simp add: evals)

text \<open>
  The model agrees with the unit tests of the crate: every assertion of each of the tests of
  events (fourteen and the negative counts), locks (twenty-one), channels (six) and the executor (four) holds
  on the model, no step panics, and the calls that must panic do.
\<close>

theorem unit_tests_pass:
  "(list_all event_passes [test_notify, test_notify_additional, test_notify_rc, test_notify_out_of_range, test_change_waker, test_notify_one, test_notify_all, test_drop_notified, test_drop_notified2, test_drop_notified_additional, test_drop_non_notified, test_notify_all_fair] \<and>
   list_all event_passes [test_notify_tagged, test_notify_tagged_with] \<and> negative_test)
   \<and> (list_all mutex_passes [test_mutex, test_mutex_try_lock, test_mutex_try_lock_fail, test_mutex_lock_after_drop, test_mutex_lock_after_drop_try_lock, test_mutex_lock_await] \<and>
   list_all rw_passes [test_rwlock, test_rwlock_try_read, test_rwlock_try_write, test_rwlock_read_write_await] \<and>
   list_all sem_passes [test_semaphore, test_semaphore_await, test_semaphore_rc, test_semaphore_rc_await] \<and>
   test_mutex_get_mut_into_inner \<and> test_rwlock_get_mut \<and> once_cell_smoke \<and> once_cell_get_mut \<and> once_cell_wait \<and> once_cell_set2 \<and> barrier_smoke)
   \<and> (list_all chan_passes [test_channel, test_channel_clone, test_channel_recv_clone, test_send_direct, test_recv_and_drop, test_channel_drop])
   \<and> executor_smoke_passes \<and> executor_smoke_no_thread_id \<and> executor_try_tick_passes \<and> default_smoke"
  using event_tests_pass lock_tests_pass channel_tests_pass executor_tests_pass by blast

end
