(* ===== verification/Bytes.thy ===== *)
theory Bytes
  imports Prelude
begin

text \<open>
  What the programs under \<open>comparisons\<close> and \<open>examples\<close> use of the standard library on
  bytes: byte strings, decimal numbers and how they are parsed, the check for UTF-8,
  comparison up to ASCII case and big-endian integers.
\<close>

type_synonym byte = "8 word"

text \<open>Byte string literals.\<close>

definition bytes :: "string \<Rightarrow> byte list" where
  "bytes s = map of_char s"

lemma length_bytes [simp]: "length (bytes s) = length s"
  by (simp add: bytes_def)

lemma bytes_append: "bytes (s @ t) = bytes s @ bytes t"
  by (simp add: bytes_def)

text \<open>Carriage return, line feed.\<close>

definition crlf :: "byte list" where
  "crlf = [13, 10]"

section \<open>Decimal numbers\<close>

text \<open>\<open>usize::to_string\<close>, the same digits as \<open>{}\<close> in a format.\<close>

fun to_string :: "nat \<Rightarrow> byte list" where
  "to_string n =
     (if n < 10 then [48 + of_nat n] else to_string (n div 10) @ [48 + of_nat (n mod 10)])"

declare to_string.simps [simp del]

text \<open>\<open>str::parse::<usize>\<close>; \<open>None\<close> is a \<open>ParseIntError\<close> of whatever kind.\<close>

fun parse_digits :: "usize \<Rightarrow> byte list \<Rightarrow> usize option" where
  "parse_digits acc [] = Some acc"
| "parse_digits acc (b # bs) =
     (if 48 \<le> b \<and> b \<le> 57 then
        let n = acc * 10 + unat (b - 48) in
        if n \<le> usize_max then parse_digits n bs else None
      else None)"

definition parse_usize :: "byte list \<Rightarrow> usize option" where
  "parse_usize bs =
     (case bs of
        [] \<Rightarrow> None
      | b # rest \<Rightarrow> if b = 43 then (if rest = [] then None else parse_digits 0 rest) else parse_digits 0 bs)"

definition is_digit :: "byte \<Rightarrow> bool" where
  "is_digit b \<longleftrightarrow> 48 \<le> b \<and> b \<le> 57"

lemma digit_byte:
  assumes "n < 10"
  shows "unat (48 + of_nat n :: byte) = 48 + n"
proof -
  have "unat (of_nat n :: byte) = n" using assms by (simp add: unat_of_nat)
  then show ?thesis using assms by (subst unat_add_lem [THEN iffD1]) auto
qed

lemma digit_byte_digit:
  assumes "n < 10"
  shows "is_digit (48 + of_nat n)" and "unat (48 + of_nat n - 48 :: byte) = n"
  using assms digit_byte [OF assms] by (simp_all add: is_digit_def word_le_nat_alt unat_of_nat)

lemma to_string_digits: "b \<in> set (to_string n) \<Longrightarrow> is_digit b"
proof (induction n rule: to_string.induct)
  case (1 n)
  then show ?case by (subst (asm) (2) to_string.simps) (auto split: if_splits simp: digit_byte_digit)
qed

lemma to_string_Nil [simp]: "to_string n \<noteq> []"
  by (subst to_string.simps) simp

lemma parse_digits_append:
  "parse_digits acc (bs @ cs) =
     (case parse_digits acc bs of None \<Rightarrow> None | Some n \<Rightarrow> parse_digits n cs)"
  by (induction bs arbitrary: acc) (auto simp: Let_def)

lemma parse_digits_to_string:
  "n \<le> usize_max \<Longrightarrow> parse_digits 0 (to_string n) = Some n"
proof (induction n rule: to_string.induct)
  case (1 n)
  show ?case
  proof (cases "n < 10")
    case True
    with 1 digit_byte_digit [OF True] show ?thesis by (simp add: to_string.simps [of n] is_digit_def)
  next
    case False
    have "n mod 10 < 10" by simp
    note d = digit_byte_digit [OF this]
    have "n div 10 * 10 + n mod 10 = n" by simp
    with 1 False d show ?thesis
      by (simp add: to_string.simps [of n] is_digit_def parse_digits_append del: div_mult_mod_eq)
  qed
qed

text \<open>Printing a number and parsing it gives it back.\<close>

lemma parse_usize_to_string:
  assumes "n \<le> usize_max"
  shows "parse_usize (to_string n) = Some n"
proof -
  obtain b bs where b: "to_string n = b # bs" by (cases "to_string n") auto
  then have "is_digit b" using to_string_digits [of b n] by simp
  then have "b \<noteq> 43" by (auto simp: is_digit_def)
  with b parse_digits_to_string [OF assms] show ?thesis by (simp add: parse_usize_def)
qed

lemma parse_digits_range: "parse_digits acc bs = Some n \<Longrightarrow> acc \<le> usize_max \<Longrightarrow> n \<le> usize_max"
  by (induction bs arbitrary: acc) (auto simp: Let_def split: if_splits)

lemma parse_usize_range: "parse_usize bs = Some n \<Longrightarrow> n \<le> usize_max"
  using parse_digits_range [of 0] by (auto simp: parse_usize_def simp del: parse_digits.simps split: list.splits if_splits)

section \<open>Text\<close>

text \<open>\<open>str::from_utf8\<close> succeeds.\<close>

definition cont :: "byte \<Rightarrow> bool" where
  "cont b \<longleftrightarrow> 0x80 \<le> b \<and> b \<le> 0xBF"

text \<open>The bounds of the second byte of a sequence that starts with \<open>b\<close>.\<close>

definition second_byte :: "byte \<Rightarrow> byte \<Rightarrow> bool" where
  "second_byte b c \<longleftrightarrow>
     (if b = 0xE0 then 0xA0 else if b = 0xF0 then 0x90 else 0x80) \<le> c \<and>
     c \<le> (if b = 0xED then 0x9F else if b = 0xF4 then 0x8F else 0xBF)"

fun utf8_valid :: "byte list \<Rightarrow> bool" where
  "utf8_valid [] = True"
| "utf8_valid (b # bs) =
     (if b < 0x80 then utf8_valid bs
      else if 0xC2 \<le> b \<and> b \<le> 0xDF then (case bs of c # r \<Rightarrow> cont c \<and> utf8_valid r | _ \<Rightarrow> False)
      else if 0xE0 \<le> b \<and> b \<le> 0xEF then
        (case bs of c # d # r \<Rightarrow> second_byte b c \<and> cont d \<and> utf8_valid r | _ \<Rightarrow> False)
      else if 0xF0 \<le> b \<and> b \<le> 0xF4 then
        (case bs of c # d # e # r \<Rightarrow> second_byte b c \<and> cont d \<and> cont e \<and> utf8_valid r | _ \<Rightarrow> False)
      else False)"

lemma utf8_ascii: "\<forall>b \<in> set bs. b < 0x80 \<Longrightarrow> utf8_valid bs"
  by (induction bs) auto

text \<open>\<open>str::eq_ignore_ascii_case\<close>.\<close>

definition to_ascii_lowercase :: "byte \<Rightarrow> byte" where
  "to_ascii_lowercase b = (if 65 \<le> b \<and> b \<le> 90 then b + 32 else b)"

definition eq_ignore_ascii_case :: "byte list \<Rightarrow> byte list \<Rightarrow> bool" where
  "eq_ignore_ascii_case s t \<longleftrightarrow> map to_ascii_lowercase s = map to_ascii_lowercase t"

lemma eq_ignore_ascii_case_refl [simp]: "eq_ignore_ascii_case s s"
  by (simp add: eq_ignore_ascii_case_def)

text \<open>\<open>slice::ends_with\<close>.\<close>

definition ends_with :: "byte list \<Rightarrow> byte list \<Rightarrow> bool" where
  "ends_with xs ys \<longleftrightarrow> length ys \<le> length xs \<and> drop (length xs - length ys) xs = ys"

lemma ends_with_append [simp]: "ends_with (xs @ ys) ys"
  by (simp add: ends_with_def)

lemma ends_withE: "ends_with xs ys \<Longrightarrow> \<exists>zs. xs = zs @ ys"
  by (metis append_take_drop_id ends_with_def)

section \<open>Big-endian integers\<close>

unbundle bit_operations_syntax

text \<open>\<open>to_be_bytes\<close> and \<open>from_be_bytes\<close> of 32-bit integers, signed or not.\<close>

definition to_be_bytes :: "32 word \<Rightarrow> byte list" where
  "to_be_bytes w = [ucast (drop_bit 24 w), ucast (drop_bit 16 w), ucast (drop_bit 8 w), ucast w]"

definition from_be_bytes :: "byte list \<Rightarrow> 32 word" where
  "from_be_bytes bs = fold (\<lambda>b w. push_bit 8 w OR ucast b) bs 0"

lemma length_to_be_bytes [simp]: "length (to_be_bytes w) = 4"
  by (simp add: to_be_bytes_def)

lemma from_to_be_bytes [simp]: "from_be_bytes (to_be_bytes w) = w"
proof (rule bit_word_eqI)
  fix n
  assume n: "n < LENGTH(32)"
  then consider "n < 8" | "8 \<le> n" "n < 16" | "16 \<le> n" "n < 24" | "24 \<le> n" "n < 32" by fastforce
  then show "bit (from_be_bytes (to_be_bytes w)) n = bit w n"
    by cases (auto simp: from_be_bytes_def to_be_bytes_def bit_simps)
qed

declare bytes_def [evals] crlf_def [evals] to_string.simps [evals] parse_usize_def [evals]
  cont_def [evals] second_byte_def [evals] to_ascii_lowercase_def [evals] eq_ignore_ascii_case_def [evals]
  ends_with_def [evals]

end
