(* ===== verification/TcpExample.thy ===== *)
theory TcpExample
  imports ChannelModel Bytes
begin

text \<open>
  \<open>examples/tcp_server.rs\<close> and \<open>examples/tcp_client.rs\<close>: a server that multiplies the numbers
  its clients send by a counter that its tasks share, and passes the products over a channel to
  a task that writes them to a file. The state is that of the whole program between two awaits; a
  step takes one task from an await to its next one. Sockets and the file are parameters: a step
  that awaited one of them is given its result. The logger's file is wrapped in \<open>blocking::Unblock\<close>: its
  \<open>write_all\<close> returns when the bytes are in a pipe, and a thread of the pool moves them to the file later, which is
  a step of its own. The program never calls \<open>flush\<close>, so nothing waits for that.
\<close>

section \<open>The server\<close>

type_synonym u32 = "32 word"

text \<open>The plain operators panic on overflow (the development profile).\<close>

definition u32_mul :: "u32 \<Rightarrow> u32 \<Rightarrow> u32 outcome" where
  "u32_mul x y = (if unat x * unat y < 2 ^ 32 then Inr (x * y) else Inl (Panic Arith_overflow))"

definition u32_add :: "u32 \<Rightarrow> u32 \<Rightarrow> u32 outcome" where
  "u32_add x y = (if unat x + unat y < 2 ^ 32 then Inr (x + y) else Inl (Panic Arith_overflow))"

text \<open>\<open>Result::unwrap\<close> of a result of the operating system.\<close>

definition unwrap_io :: "unit + 'a \<Rightarrow> 'a outcome" where
  "unwrap_io r = (case r of Inl _ \<Rightarrow> Inl (Panic Unwrap_err) | Inr x \<Rightarrow> Inr x)"

text \<open>Where the task of a connection and the logger are: each constructor is an await.\<close>

datatype conn = Awaits_number | Awaits_write u32

datatype logger = Opening | Receiving | Appending u32 | Stopped

text \<open>
  The state. \<open>tcp_pipe\<close> are the bytes handed to \<open>Unblock\<close> and not (yet) written to the file; \<open>tcp_replies\<close> are the bytes written to each stream, in order, \<open>tcp_requests\<close> logs
  the numbers read, \<open>tcp_sent\<close> and \<open>tcp_received\<close> what went into and came out of the channel.
\<close>

record tcp_server =
  tcp_chan :: "(u32, nat) Channel"
  tcp_shared :: u32
  tcp_conns :: "nat \<rightharpoonup> conn"
  tcp_logger :: logger
  tcp_pipe :: "byte list"
  tcp_file :: "byte list"
  tcp_replies :: "(nat \<times> byte list) list"
  tcp_requests :: "u32 list"
  tcp_sent :: "u32 list"
  tcp_received :: "u32 list"
  tcp_woken :: "nat list"

definition tcp_init :: tcp_server where
  "tcp_init = \<lparr>tcp_chan = channel, tcp_shared = 1, tcp_conns = Map.empty, tcp_logger = Opening,
     tcp_pipe = [], tcp_file = [], tcp_replies = [], tcp_requests = [], tcp_sent = [], tcp_received = [], tcp_woken = []\<rparr>"

text \<open>The address of the \<open>recv\<close> future in the logger's task.\<close>

definition rx_slot :: addr where
  "rx_slot = 8"

text \<open>\<open>while let Ok(msg) = rx.recv().await\<close>: one poll of the future, in the task with waker \<open>w\<close>.\<close>

definition logger_recv :: "fut \<Rightarrow> nat \<Rightarrow> tcp_server \<Rightarrow> tcp_server outcome" where
  "logger_recv st w s =
     andThen (wait_poll Receiver_recv st rx_slot w (tcp_chan s)) (\<lambda>(p, _, woken, c).
     let s1 = s\<lparr>tcp_chan := c, tcp_woken := tcp_woken s @ woken\<rparr> in
     case p of
       Pending \<Rightarrow> Inr (s1\<lparr>tcp_logger := Receiving\<rparr>)
     | Ready (Inr msg) \<Rightarrow> Inr (s1\<lparr>tcp_logger := Appending msg, tcp_received := tcp_received s @ [msg]\<rparr>)
     | Ready (Inl e) \<Rightarrow>
         \<comment> \<open>the loop ends and the receiver is dropped\<close>
         andThen (Receiver_drop c) (\<lambda>(woken', c').
         Inr (s1\<lparr>tcp_chan := c', tcp_woken := tcp_woken s1 @ woken', tcp_logger := Stopped\<rparr>)))"

definition message :: "u32 \<Rightarrow> byte list" where
  "message msg = bytes ''Sent out: '' @ to_string (unat msg) @ [10]"

text \<open>
  The steps: the file is created; the logger's task is polled while it awaits an item; the message was written to
  \<open>Unblock\<close>; the pool moves the first \<open>n\<close> bytes of the pipe to the file; a connection is accepted and its task spawned; its number was read (four bytes); the product
  was written.
\<close>

datatype tcp_op =
    T_create "unit + unit" nat
  | T_poll nat
  | T_append "unit + unit" nat
  | T_flush nat
  | T_accept nat "unit + unit"
  | T_read nat "unit + byte list"
  | T_write nat "unit + unit"

fun tcp_enabled :: "tcp_op \<Rightarrow> tcp_server \<Rightarrow> bool" where
  "tcp_enabled (T_create r w) s \<longleftrightarrow> tcp_logger s = Opening"
| "tcp_enabled (T_poll w) s \<longleftrightarrow> tcp_logger s = Receiving"
| "tcp_enabled (T_append r w) s \<longleftrightarrow> (\<exists>msg. tcp_logger s = Appending msg)"
| "tcp_enabled (T_flush n) s \<longleftrightarrow> 0 < n \<and> n \<le> length (tcp_pipe s)"
| "tcp_enabled (T_accept i r) s \<longleftrightarrow> tcp_conns s i = None"
| "tcp_enabled (T_read i r) s \<longleftrightarrow> tcp_conns s i = Some Awaits_number \<and> (\<forall>buf. r = Inr buf \<longrightarrow> length buf = 4)"
| "tcp_enabled (T_write i r) s \<longleftrightarrow> (\<exists>value. tcp_conns s i = Some (Awaits_write value))"

fun tcp_exec :: "tcp_op \<Rightarrow> tcp_server \<Rightarrow> tcp_server outcome" where
  "tcp_exec (T_create r w) s = andThen (unwrap_io r) (\<lambda>_. logger_recv Unresumed w s)"
| "tcp_exec (T_poll w) s = logger_recv Suspended w s"
| "tcp_exec (T_append r w) s =
     (case tcp_logger s of
        Appending msg \<Rightarrow>
          andThen (unwrap_io r) (\<lambda>_. logger_recv Unresumed w (s\<lparr>tcp_pipe := tcp_pipe s @ message msg\<rparr>))
      | _ \<Rightarrow> Inr s)"
| "tcp_exec (T_flush n) s =
     Inr (s\<lparr>tcp_file := tcp_file s @ take n (tcp_pipe s), tcp_pipe := drop n (tcp_pipe s)\<rparr>)"
| "tcp_exec (T_accept i r) s =
     andThen (unwrap_io r) (\<lambda>_.
     andThen (Sender_clone (tcp_chan s)) (\<lambda>c.
     Inr (s\<lparr>tcp_chan := c, tcp_conns := (tcp_conns s)(i \<mapsto> Awaits_number)\<rparr>)))"
| "tcp_exec (T_read i r) s =
     andThen (unwrap_io r) (\<lambda>buf.
     \<comment> \<open>Multiply it by the shared value, and increment that.\<close>
     andThen (u32_mul (from_be_bytes buf) (tcp_shared s)) (\<lambda>value.
     andThen (u32_add (tcp_shared s) 1) (\<lambda>shared.
     Inr (s\<lparr>tcp_shared := shared, tcp_conns := (tcp_conns s)(i \<mapsto> Awaits_write value),
       tcp_requests := tcp_requests s @ [from_be_bytes buf]\<rparr>))))"
| "tcp_exec (T_write i r) s =
     (case tcp_conns s i of
        Some (Awaits_write value) \<Rightarrow>
          andThen (unwrap_io r) (\<lambda>_.
          \<comment> \<open>Send the value to be logged; the task ends and its sender is dropped.\<close>
          andThen (Sender_send value (tcp_chan s)) (\<lambda>(sent, woken, c).
          andThen (case sent of Inl e \<Rightarrow> Inl (Panic Unwrap_err) | Inr _ \<Rightarrow> Sender_drop c) (\<lambda>(woken', c').
          Inr (s\<lparr>tcp_chan := c', tcp_conns := (tcp_conns s)(i := None), tcp_woken := tcp_woken s @ woken @ woken',
            tcp_replies := tcp_replies s @ [(i, to_be_bytes value)], tcp_sent := tcp_sent s @ [value]\<rparr>))))
      | _ \<Rightarrow> Inr s)"

definition tcp_reach :: "tcp_server \<Rightarrow> bool" where
  "tcp_reach = reach tcp_enabled tcp_exec tcp_init"

section \<open>The client\<close>

text \<open>The bytes the client sends for its number, and what it prints for the bytes it reads.\<close>

definition client_request :: "32 word \<Rightarrow> byte list" where
  "client_request number = to_be_bytes number"

definition client_response :: "byte list \<Rightarrow> int" where
  "client_response buf = sint (from_be_bytes buf)"

declare u32_mul_def [evals] u32_add_def [evals] unwrap_io_def [evals] tcp_init_def [evals] rx_slot_def [evals]
  logger_recv_def [evals] message_def [evals] client_request_def [evals] client_response_def [evals]

section \<open>The channel of the server\<close>

text \<open>The channel with its clients, as theory \<open>ChannelModel\<close> sees it.\<close>

definition chan_of :: "tcp_server \<Rightarrow> (u32, nat) chan_sys" where
  "chan_of s = \<lparr>cs_chan = tcp_chan s,
     cs_futs = (if tcp_logger s = Receiving then [rx_slot \<mapsto> Suspended] else Map.empty),
     cs_woken = tcp_woken s, cs_sent = tcp_sent s, cs_received = tcp_received s, cs_cancelled = False\<rparr>"

lemma wait_finish_fut:
  "wait_finish F a ps = Inr (p, st', ws, s') \<Longrightarrow> st' = (case p of Pending \<Rightarrow> Suspended | Ready _ \<Rightarrow> Returned)"
  by (cases ps; cases "fst ps") (auto simp: wait_finish_def andThen_Inr_iff)

lemma wait_poll_fut:
  "wait_poll F st a w s = Inr (p, st', ws, s') \<Longrightarrow> st' = (case p of Pending \<Rightarrow> Suspended | Ready _ \<Rightarrow> Returned)"
  by (cases st) (auto simp: wait_poll_def andThen_Inr_iff dest: wait_finish_fut)

text \<open>One poll of the only receiver of an open channel.\<close>

lemma recv_poll_result:
  assumes inv: "chan_inv s q" and st: "cs_futs s a = Some st" "st \<noteq> Returned" and o: "\<not> ch_closed (cs_chan s)"
  obtains (pending) c where "wait_poll Receiver_recv st a w (cs_chan s) = Inr (Pending, Suspended, [], c)"
      "ch_senders c = ch_senders (cs_chan s)" "ch_receivers c = ch_receivers (cs_chan s)"
  | (ready) msg c where "wait_poll Receiver_recv st a w (cs_chan s) = Inr (Ready (Inr msg), Returned, [], c)"
      "ch_senders c = ch_senders (cs_chan s)" "ch_receivers c = ch_receivers (cs_chan s)"
proof -
  note i = chan_invD [OF inv]
  have i1: "refines (wf_event Receiver_recv (cs_chan s)) q" using i(1) by simp
  from chan.poll_ok [OF TrueI i1 i(2) st, of w] obtain p st' c' e q' where
    r: "wait_poll Receiver_recv st a w (cs_chan s) = Inr (p, st', [], c'\<lparr>ch_event := e\<rparr>)"
    and spec: "wait_spec Receiver_recv st a w (cs_chan s) q = (p, st', c', q')"
    by (metis Receiver_recv_sel(4))
  have eff: "recv_effect (cs_chan s) q p c' q'" by (rule recv_spec_effect [OF i(1) spec])
  have st': "st' = (case p of Pending \<Rightarrow> Suspended | Ready _ \<Rightarrow> Returned)"
    by (rule wait_poll_fut [OF r])
  show thesis
  proof (cases p)
    case Pending
    with pending r st' recv_effectD(3,4) [OF eff] show ?thesis by simp
  next
    case (Ready x)
    with eff o obtain msg where "x = Inr msg" by (auto simp: recv_effect_def split: sum.splits)
    with ready r st' Ready recv_effectD(3,4) [OF eff] show ?thesis by simp
  qed
qed


text \<open>The steps of the server are operations of the channel system with one consumer.\<close>

definition tcp_chan_ok :: "tcp_server \<Rightarrow> bool" where
  "tcp_chan_ok s \<longleftrightarrow> chan_reach1 (chan_of s) \<and> finite (dom (tcp_conns s)) \<and>
     ch_senders (tcp_chan s) = Suc (card (dom (tcp_conns s))) \<and> ch_receivers (tcp_chan s) = 1"

lemma chan_reach1_step:
  assumes "chan_reach1 s" and "chan_single op s"
  shows "\<exists>s'. chan_exec op s = Inr s' \<and> chan_reach1 s'"
  using fifo_machine.no_fault assms unfolding chan_reach1_def by blast

lemma chan_reach1_open:
  assumes "chan_reach1 s" and "0 < ch_senders (cs_chan s)" and "0 < ch_receivers (cs_chan s)"
  shows "\<not> ch_closed (cs_chan s)"
proof -
  from fifo_reach_inv [OF assms(1)] obtain q where "fifo_inv s q" by blast
  from chan_invD(3) [OF fifo_invD(1) [OF this]] assms(2,3) show ?thesis by simp
qed

text \<open>A poll of the receiver, after which the future is gone if it has returned.\<close>

lemma recv_step:
  assumes r: "chan_reach1 s" and o: "0 < ch_senders (cs_chan s)" "0 < ch_receivers (cs_chan s)"
    and st: "cs_futs s = [rx_slot \<mapsto> st]" "st \<noteq> Returned"
  obtains (pending) c where "wait_poll Receiver_recv st rx_slot w (cs_chan s) = Inr (Pending, Suspended, [], c)"
      "chan_reach1 (s\<lparr>cs_chan := c, cs_futs := [rx_slot \<mapsto> Suspended]\<rparr>)"
      "ch_senders c = ch_senders (cs_chan s)" "ch_receivers c = ch_receivers (cs_chan s)"
  | (ready) msg c where "wait_poll Receiver_recv st rx_slot w (cs_chan s) = Inr (Ready (Inr msg), Returned, [], c)"
      "chan_reach1 (s\<lparr>cs_chan := c, cs_futs := Map.empty, cs_received := cs_received s @ [msg]\<rparr>)"
      "ch_senders c = ch_senders (cs_chan s)" "ch_receivers c = ch_receivers (cs_chan s)"
proof -
  from fifo_reach_inv [OF r] obtain q where "fifo_inv s q" by blast
  then have inv: "chan_inv s q" by (rule fifo_invD(1))
  have a: "cs_futs s rx_slot = Some st" using st(1) by simp
  have "chan_single (CPoll rx_slot w) s" using a st(2) by simp
  from chan_reach1_step [OF r this] obtain s' where s': "chan_exec (CPoll rx_slot w) s = Inr s'" "chan_reach1 s'" by blast
  show thesis
  proof (cases rule: recv_poll_result [OF inv a st(2) chan_reach1_open [OF r o], of w, case_names pending ready])
    case (pending c)
    with s' st have "s' = s\<lparr>cs_chan := c, cs_futs := [rx_slot \<mapsto> Suspended]\<rparr>" by simp
    with s'(2) pending that(1) show ?thesis by simp
  next
    case (ready msg c)
    let ?s = "s\<lparr>cs_chan := c, cs_futs := [rx_slot \<mapsto> Returned], cs_received := cs_received s @ [msg]\<rparr>"
    from ready s' st have r': "chan_reach1 ?s" by simp
    from fifo_reach_inv [OF r'] obtain q' where "fifo_inv ?s q'" by blast
    note i' = chan_invD(1,2) [OF fifo_invD(1) [OF this]]
    have "set (q_addrs q') = {}" using i'(2) by (simp add: live_ok_def)
    then have "\<not> is_notified (ch_event c) rx_slot" using refines_is_notified [OF i'(1)] by (simp add: q_addrs_def)
    with chan_reach1_step [OF r', of "CCancel rx_slot"] ready that(2) show ?thesis
      by (cases s) (simp add: wait_drop_def)
  qed
qed


section \<open>The invariant\<close>

text \<open>
  The logger never stops; it has handed a message to \<open>Unblock\<close> for every item it has received, but for the one it
  is about to write; the shared value counts the requests; what was sent to the channel are the replies.
\<close>

definition pending_message :: "tcp_server \<Rightarrow> u32 list" where
  "pending_message s = (case tcp_logger s of Appending msg \<Rightarrow> [msg] | _ \<Rightarrow> [])"

definition log_ok :: "tcp_server \<Rightarrow> bool" where
  "log_ok s \<longleftrightarrow> tcp_logger s \<noteq> Stopped \<and>
     (\<exists>logged. tcp_file s @ tcp_pipe s = concat (map message logged) \<and> tcp_received s = logged @ pending_message s)"

definition tcp_inv :: "tcp_server \<Rightarrow> bool" where
  "tcp_inv s \<longleftrightarrow> tcp_chan_ok s \<and> log_ok s \<and>
     unat (tcp_shared s) = Suc (length (tcp_requests s)) \<and>
     tcp_sent s = map (from_be_bytes \<circ> snd) (tcp_replies s)"

text \<open>The shared value, the product and the number of senders fit, and the awaited operation did not fail.\<close>

fun tcp_fits :: "tcp_op \<Rightarrow> tcp_server \<Rightarrow> bool" where
  "tcp_fits (T_create r w) s \<longleftrightarrow> r = Inr ()"
| "tcp_fits (T_append r w) s \<longleftrightarrow> r = Inr ()"
| "tcp_fits (T_read i r) s \<longleftrightarrow> (\<exists>buf. r = Inr buf \<and>
     unat (from_be_bytes buf) * unat (tcp_shared s) < 2 ^ 32 \<and> Suc (unat (tcp_shared s)) < 2 ^ 32)"
| "tcp_fits (T_write i r) s \<longleftrightarrow> r = Inr ()"
| "tcp_fits (T_accept i r) s \<longleftrightarrow> r = Inr () \<and> ch_senders (tcp_chan s) < usize_max"
| "tcp_fits (T_poll w) s \<longleftrightarrow> True"
| "tcp_fits (T_flush n) s \<longleftrightarrow> True"

lemma logger_recv_ok:
  assumes inv: "tcp_chan_ok s" and st: "st \<noteq> Returned" and r: "chan_reach1 (chan_of s\<lparr>cs_futs := [rx_slot \<mapsto> st]\<rparr>)"
    and f: "tcp_file s @ tcp_pipe s = concat (map message (tcp_received s))"
  shows "\<exists>s'. logger_recv st w s = Inr s' \<and> tcp_chan_ok s' \<and> log_ok s' \<and>
    tcp_shared s' = tcp_shared s \<and> tcp_requests s' = tcp_requests s \<and> tcp_sent s' = tcp_sent s \<and>
    tcp_replies s' = tcp_replies s"
proof -
  let ?c = "chan_of s\<lparr>cs_futs := [rx_slot \<mapsto> st]\<rparr>"
  have o: "0 < ch_senders (cs_chan ?c)" "0 < ch_receivers (cs_chan ?c)"
    using inv by (simp_all add: tcp_chan_ok_def chan_of_def)
  show ?thesis
  proof (cases rule: recv_step [OF r o _ st, of w, case_names fut pending ready])
    case fut
    then show ?case by simp
  next
    case (pending c)
    then have p: "wait_poll Receiver_recv st rx_slot w (tcp_chan s) = Inr (Pending, Suspended, [], c)"
      by (simp add: chan_of_def)
    let ?s = "s\<lparr>tcp_chan := c, tcp_woken := tcp_woken s @ [], tcp_logger := Receiving\<rparr>"
    have "logger_recv st w s = Inr ?s" using p by (simp add: logger_recv_def)
    moreover have "tcp_chan_ok ?s" using inv pending(2-4) by (simp add: tcp_chan_ok_def chan_of_def)
    moreover have "log_ok ?s" using f by (simp add: log_ok_def pending_message_def)
    ultimately show ?thesis by (intro exI [of _ ?s]) simp
  next
    case (ready msg c)
    then have p: "wait_poll Receiver_recv st rx_slot w (tcp_chan s) = Inr (Ready (Inr msg), Returned, [], c)"
      by (simp add: chan_of_def)
    let ?s = "s\<lparr>tcp_chan := c, tcp_woken := tcp_woken s @ [], tcp_logger := Appending msg,
      tcp_received := tcp_received s @ [msg]\<rparr>"
    have "logger_recv st w s = Inr ?s" using p by (simp add: logger_recv_def)
    moreover have "tcp_chan_ok ?s" using inv ready(2-4) by (simp add: tcp_chan_ok_def chan_of_def)
    moreover have "log_ok ?s" using f by (simp add: log_ok_def pending_message_def)
    ultimately show ?thesis by (intro exI [of _ ?s]) simp
  qed
qed

lemma tcp_invD:
  assumes "tcp_inv s"
  shows "tcp_chan_ok s" "log_ok s" "unat (tcp_shared s) = Suc (length (tcp_requests s))"
    "tcp_sent s = map (from_be_bytes \<circ> snd) (tcp_replies s)"
  using assms by (simp_all add: tcp_inv_def)

lemma log_okD: "log_ok s \<Longrightarrow> tcp_file s @ tcp_pipe s @ concat (map message (pending_message s)) = concat (map message (tcp_received s))"
  by (auto simp: log_ok_def simp flip: append_assoc)

lemma recv_created:
  assumes "tcp_chan_ok s" and "tcp_logger s \<noteq> Receiving"
  shows "chan_reach1 (chan_of s\<lparr>cs_futs := [rx_slot \<mapsto> Unresumed]\<rparr>)"
proof -
  have "chan_single (CRecv rx_slot) (chan_of s)"
    using assms by (simp add: tcp_chan_ok_def chan_of_def nobody_receives_def rx_slot_def)
  from chan_reach1_step [OF _ this] assms show ?thesis by (simp add: tcp_chan_ok_def) (simp add: chan_of_def)
qed

lemma tcp_logger_ok:
  assumes inv: "tcp_inv s" and l: "tcp_logger s \<noteq> Receiving"
    and f: "tcp_file s @ pipe = concat (map message (tcp_received s))"
  shows "\<exists>s'. logger_recv Unresumed w (s\<lparr>tcp_pipe := pipe\<rparr>) = Inr s' \<and> tcp_inv s'"
proof -
  let ?s = "s\<lparr>tcp_pipe := pipe\<rparr>"
  have c: "chan_of ?s = chan_of s" by (simp add: chan_of_def)
  have ok: "tcp_chan_ok ?s" using tcp_invD(1) [OF inv] c by (simp add: tcp_chan_ok_def)
  from logger_recv_ok [OF ok _ recv_created [OF ok], of w] l f tcp_invD(3,4) [OF inv]
  show ?thesis by (auto simp: tcp_inv_def)
qed

lemma tcp_poll_ok:
  assumes inv: "tcp_inv s" and l: "tcp_logger s = Receiving"
  shows "\<exists>s'. logger_recv Suspended w s = Inr s' \<and> tcp_inv s'"
proof -
  have c: "chan_of s\<lparr>cs_futs := [rx_slot \<mapsto> Suspended]\<rparr> = chan_of s" using l by (simp add: chan_of_def)
  have "chan_reach1 (chan_of s)" using tcp_invD(1) [OF inv] by (simp add: tcp_chan_ok_def)
  moreover have "tcp_file s @ tcp_pipe s = concat (map message (tcp_received s))"
    using log_okD [OF tcp_invD(2) [OF inv]] l by (simp add: pending_message_def)
  ultimately show ?thesis using logger_recv_ok [of s Suspended w] c inv by (auto simp: tcp_inv_def)
qed

lemma tcp_accept_ok:
  assumes inv: "tcp_inv s" and en: "tcp_enabled (T_accept i r) s" and f: "tcp_fits (T_accept i r) s"
  shows "\<exists>s'. tcp_exec (T_accept i r) s = Inr s' \<and> tcp_inv s'"
proof -
  note c = tcp_invD(1) [OF inv]
  have s: "ch_senders (tcp_chan s) + 1 \<le> usize_max" using f by simp
  have "chan_single CClone_sender (chan_of s)" using f c by (simp add: tcp_chan_ok_def chan_of_def)
  from chan_reach1_step [OF _ this] c s
  have r: "chan_reach1 (chan_of s\<lparr>cs_chan := (tcp_chan s)\<lparr>ch_senders := ch_senders (tcp_chan s) + 1\<rparr>\<rparr>)"
    by (simp add: tcp_chan_ok_def) (simp add: chan_of_def Sender_clone_def)
  let ?s = "s\<lparr>tcp_chan := (tcp_chan s)\<lparr>ch_senders := ch_senders (tcp_chan s) + 1\<rparr>, tcp_conns := (tcp_conns s)(i \<mapsto> Awaits_number)\<rparr>"
  have "tcp_exec (T_accept i r) s = Inr ?s" using s f by (simp add: unwrap_io_def Sender_clone_def)
  moreover have "i \<notin> dom (tcp_conns s)" using en by auto
  then have "tcp_chan_ok ?s" using c r by (simp add: tcp_chan_ok_def chan_of_def)
  ultimately show ?thesis using inv by (intro exI [of _ ?s]) (simp add: tcp_inv_def log_ok_def pending_message_def)
qed

lemma tcp_write_ok:
  assumes inv: "tcp_inv s" and i: "tcp_conns s i = Some (Awaits_write value)"
  shows "\<exists>s'. tcp_exec (T_write i (Inr ())) s = Inr s' \<and> tcp_inv s' \<and>
    tcp_replies s' = tcp_replies s @ [(i, to_be_bytes value)]"
proof -
  note c = tcp_invD(1) [OF inv]
  have dom: "i \<in> dom (tcp_conns s)" "finite (dom (tcp_conns s))" using i c by (auto simp: tcp_chan_ok_def)
  then have card: "card (dom (tcp_conns s)) = Suc (card (dom (tcp_conns s) - {i}))"
    by (metis card_Suc_Diff1)
  have r: "chan_reach1 (chan_of s)" using c by (simp add: tcp_chan_ok_def)
  have sel: "cs_chan (chan_of s) = tcp_chan s" by (simp add: chan_of_def)
  from fifo_reach_inv [OF r] obtain q where q: "fifo_inv (chan_of s) q" by blast
  from chan_invD(1) [OF fifo_invD(1) [OF q]] have rf: "refines (ch_event (tcp_chan s)) q" by (simp add: sel)
  have o: "\<not> ch_closed (tcp_chan s)" using chan_reach1_open [OF r] c by (simp add: tcp_chan_ok_def sel)
  from Sender_send_ok [OF rf o, of "value"] obtain woken e d where
    snd: "Sender_send value (tcp_chan s) = Inr (Inr (), woken, (tcp_chan s)\<lparr>ch_event := e, ch_data := d\<rparr>)"
    (is "_ = Inr (_, _, ?c)") .
  let ?c' = "?c\<lparr>ch_senders := ch_senders (tcp_chan s) - 1\<rparr>"
  have drp: "Sender_drop ?c = Inr ([], ?c')" using c card by (simp add: Sender_drop_def tcp_chan_ok_def)
  let ?s = "s\<lparr>tcp_chan := ?c', tcp_conns := (tcp_conns s)(i := None), tcp_woken := tcp_woken s @ woken @ [],
    tcp_replies := tcp_replies s @ [(i, to_be_bytes value)], tcp_sent := tcp_sent s @ [value]\<rparr>"
  have "chan_single (CSend value) (chan_of s)" using c by (simp add: tcp_chan_ok_def sel)
  from chan_reach1_step [OF r this] snd
  have r1: "chan_reach1 (chan_of s\<lparr>cs_chan := ?c, cs_woken := tcp_woken s @ woken, cs_sent := tcp_sent s @ [value]\<rparr>)"
    (is "chan_reach1 ?x") by (simp add: sel) (simp add: chan_of_def)
  have "chan_single CDrop_sender ?x" using c by (simp add: tcp_chan_ok_def)
  from chan_reach1_step [OF r1 this] drp have "chan_reach1 (chan_of ?s)"
    by (simp add: chan_of_def)
  then have "tcp_chan_ok ?s" using c card by (simp add: tcp_chan_ok_def)
  moreover have "tcp_exec (T_write i (Inr ())) s = Inr ?s" using i snd drp by (simp add: unwrap_io_def)
  ultimately show ?thesis using inv
    by (intro exI [of _ ?s]) (simp add: tcp_inv_def log_ok_def pending_message_def)
qed

lemma tcp_read_ok:
  assumes inv: "tcp_inv s" and i: "tcp_conns s i = Some Awaits_number" and f: "tcp_fits (T_read i (Inr buf)) s"
  shows "\<exists>s'. tcp_exec (T_read i (Inr buf)) s = Inr s' \<and> tcp_inv s' \<and>
    tcp_conns s' = (tcp_conns s)(i \<mapsto> Awaits_write (from_be_bytes buf * tcp_shared s))"
proof -
  have b: "unat (from_be_bytes buf) * unat (tcp_shared s) < 2 ^ 32" "Suc (unat (tcp_shared s)) < 2 ^ 32" using f by simp_all
  have u: "unat (tcp_shared s + 1) = Suc (unat (tcp_shared s))"
    using b(2) unat_add_lem [of "tcp_shared s" 1] by simp
  let ?s = "s\<lparr>tcp_shared := tcp_shared s + 1, tcp_conns := (tcp_conns s)(i \<mapsto> Awaits_write (from_be_bytes buf * tcp_shared s)),
    tcp_requests := tcp_requests s @ [from_be_bytes buf]\<rparr>"
  have "tcp_exec (T_read i (Inr buf)) s = Inr ?s" using b by (simp add: unwrap_io_def u32_mul_def u32_add_def)
  moreover have "chan_of ?s = chan_of s" by (simp add: chan_of_def)
  moreover have "insert i (dom (tcp_conns s)) = dom (tcp_conns s)" using i by auto
  ultimately show ?thesis using inv u
    by (intro exI [of _ ?s]) (simp add: tcp_inv_def tcp_chan_ok_def log_ok_def pending_message_def)
qed

lemma tcp_exec_ok:
  assumes inv: "tcp_inv s" and en: "tcp_enabled op s" and f: "tcp_fits op s"
  shows "\<exists>s'. tcp_exec op s = Inr s' \<and> tcp_inv s'"
proof (cases op)
  case (T_create r w)
  then have l: "tcp_logger s = Opening" and r: "r = Inr ()" using en f by simp_all
  have e: "s\<lparr>tcp_pipe := tcp_pipe s\<rparr> = s" by simp
  have "tcp_file s @ tcp_pipe s = concat (map message (tcp_received s))"
    using log_okD [OF tcp_invD(2) [OF inv]] l by (simp add: pending_message_def)
  from tcp_logger_ok [OF inv _ this, of w] l T_create r show ?thesis by (simp add: e unwrap_io_def)
next
  case (T_append r w)
  then obtain msg where l: "tcp_logger s = Appending msg" and r: "r = Inr ()" using en f by auto
  have "tcp_file s @ (tcp_pipe s @ message msg) = concat (map message (tcp_received s))"
    using log_okD [OF tcp_invD(2) [OF inv]] l by (simp add: pending_message_def)
  from tcp_logger_ok [OF inv _ this, of w] l T_append r show ?thesis by (simp add: unwrap_io_def)
next
  case (T_read i r)
  with en f tcp_read_ok [OF inv, of i] show ?thesis by fastforce
next
  case (T_write i r)
  with en f obtain x where v: "tcp_conns s i = Some (Awaits_write x)" and r: "r = Inr ()" by auto
  from tcp_write_ok [OF inv v] T_write r show ?thesis by blast
next
  case (T_accept i r)
  with tcp_accept_ok [OF inv] en f show ?thesis by blast
next
  case (T_flush n)
  let ?s = "s\<lparr>tcp_file := tcp_file s @ take n (tcp_pipe s), tcp_pipe := drop n (tcp_pipe s)\<rparr>"
  have "chan_of ?s = chan_of s" by (simp add: chan_of_def)
  then have "tcp_inv ?s" using inv
    by (simp add: tcp_inv_def tcp_chan_ok_def log_ok_def pending_message_def)
  with T_flush show ?thesis by simp
qed (use tcp_poll_ok [OF inv] en in simp)

text \<open>Any other step panics.\<close>

lemma tcp_exec_fails:
  assumes en: "tcp_enabled op s" and f: "\<not> tcp_fits op s"
  shows "\<exists>p. tcp_exec op s = Inl (Panic p)"
proof (cases op)
  case (T_read i r)
  show ?thesis
  proof (cases r)
    case (Inr buf)
    have "unat (tcp_shared s) + unat (1 :: u32) = Suc (unat (tcp_shared s))" by simp
    with T_read Inr f show ?thesis by (auto simp: unwrap_io_def u32_mul_def u32_add_def)
  qed (use T_read in \<open>simp add: unwrap_io_def\<close>)
next
  case (T_accept i r)
  with f show ?thesis by (cases r) (auto simp: unwrap_io_def Sender_clone_def usize_add_def)
qed (use en f in \<open>auto simp: unwrap_io_def split: sum.splits\<close>)

definition tcp_runs :: "tcp_op \<Rightarrow> tcp_server \<Rightarrow> bool" where
  "tcp_runs op s \<longleftrightarrow> tcp_enabled op s \<and> tcp_fits op s"

lemma tcp_start: "tcp_inv tcp_init"
proof -
  have "chan_of tcp_init = chan_init" by (simp add: chan_of_def tcp_init_def chan_init_def)
  moreover have "chan_reach1 chan_init" unfolding chan_reach1_def by (rule reach.start)
  ultimately have "tcp_chan_ok tcp_init" by (simp add: tcp_chan_ok_def) (simp add: tcp_init_def channel_def)
  then show ?thesis by (simp add: tcp_inv_def log_ok_def pending_message_def) (simp add: tcp_init_def)
qed

interpretation tcp_machine: machine tcp_runs tcp_exec tcp_init tcp_inv
  using tcp_start tcp_exec_ok by unfold_locales (auto simp: tcp_runs_def)

text \<open>A step that returns fits.\<close>

lemma tcp_reach_inv: "tcp_reach s \<Longrightarrow> tcp_inv s"
proof -
  assume "tcp_reach s"
  then have "reach tcp_runs tcp_exec tcp_init s" unfolding tcp_reach_def
  proof (induction rule: reach.induct)
    case (step s op s')
    have "tcp_fits op s"
    proof (rule ccontr)
      assume "\<not> tcp_fits op s"
      from tcp_exec_fails [OF step.hyps(2) this] step.hyps(3) show False by simp
    qed
    with step.hyps(2) have "tcp_runs op s" by (simp add: tcp_runs_def)
    then show ?case by (rule reach.step [OF step.IH _ step.hyps(3)])
  qed (rule reach.start)
  then show ?thesis by (rule tcp_machine.reach_inv)
qed

section \<open>Properties\<close>

text \<open>What was written to a stream waits for nobody else.\<close>

lemma logger_recv_conns:
  assumes "logger_recv st w s = Inr s'"
  shows "tcp_conns s' = tcp_conns s"
proof -
  from assms obtain p st' woken c where "wait_poll Receiver_recv st rx_slot w (tcp_chan s) = Inr (p, st', woken, c)"
    by (auto simp: logger_recv_def andThen_Inr_iff)
  with assms show ?thesis by (auto simp: logger_recv_def Let_def andThen_Inr_iff split: poll.splits sum.splits)
qed

lemma writing_step:
  assumes "tcp_enabled op s" and "tcp_exec op s = Inr s'" and "tcp_conns s i = Some (Awaits_write v)"
    and "\<forall>r. op \<noteq> T_write i r"
  shows "tcp_conns s' i = Some (Awaits_write v)"
  using assms
  by (cases op) (auto simp: andThen_Inr_iff dest!: logger_recv_conns split: logger.splits conn.splits)

lemma writing_run:
  assumes "run tcp_enabled tcp_exec ops s = Some (Inr s')" and "tcp_conns s i = Some (Awaits_write v)"
    and "\<forall>r. T_write i r \<notin> set ops"
  shows "tcp_conns s' i = Some (Awaits_write v)"
  using assms
proof (induction ops arbitrary: s)
  case (Cons op ops)
  then obtain s1 where s1: "tcp_enabled op s" "tcp_exec op s = Inr s1" "run tcp_enabled tcp_exec ops s1 = Some (Inr s')"
    by (auto split: if_splits sum.splits)
  have "tcp_conns s1 i = Some (Awaits_write v)" by (rule writing_step [OF s1(1,2)]) (use Cons.prems in auto)
  with Cons.IH [OF s1(3)] Cons.prems(3) show ?case by auto
qed simp

lemma client_response_small:
  assumes "unat x * unat y < 2 ^ 31"
  shows "client_response (to_be_bytes (x * y)) = int (unat x * unat y)"
proof -
  have "unat (x * y) = unat x * unat y" using assms by (subst unat_mult_lem [symmetric]) simp
  moreover have "sint w = int (unat w)" if "unat w < 2 ^ 31" for w :: u32
  proof -
    have u: "int (unat w) = uint w" by (rule of_nat_unat)
    have "int (unat w) < int (2 ^ 31)" using that by (simp only: of_nat_less_iff)
    then have "uint w < 2 ^ 31" unfolding u by simp
    moreover have "0 \<le> uint w" by simp
    ultimately have "signed_take_bit 31 (uint w) = uint w" by (intro signed_take_bit_int_eq_self) (linarith, simp)
    then show ?thesis unfolding sint_uint u by simp
  qed
  ultimately have "sint (x * y) = int (unat x * unat y)" using assms by metis
  then show ?thesis by (simp add: client_response_def)
qed

text \<open>
  C32: A client gets its product. Let the server read a client's number while the product of that number and the shared
  value, one more than the number of requests read before, is below \<open>2^31\<close>, so that the client's \<open>i32\<close> can hold
  it, and the increment of the shared value does not overflow. Then after any steps of other tasks the reply that it
  writes to that client is read there as the product.
\<close>

theorem tcp_exchange:
  assumes "tcp_reach s" and "tcp_conns s i = Some Awaits_number"
    and "unat number * Suc (length (tcp_requests s)) < 2 ^ 31" and "Suc (Suc (length (tcp_requests s))) < 2 ^ 32"
    and "run tcp_enabled tcp_exec (T_read i (Inr (client_request number)) # ops) s = Some (Inr s1)"
    and "\<forall>r. T_write i r \<notin> set ops"
  shows "\<exists>s2 reply. tcp_exec (T_write i (Inr ())) s1 = Inr s2 \<and> tcp_replies s2 = tcp_replies s1 @ [(i, reply)] \<and>
    client_response reply = int (unat number * Suc (length (tcp_requests s)))"
proof -
  note inv = tcp_reach_inv [OF assms(1)]
  have k: "unat (tcp_shared s) = Suc (length (tcp_requests s))" by (rule tcp_invD(3) [OF inv])
  have "tcp_fits (T_read i (Inr (client_request number))) s" using assms(3,4) k by (simp add: client_request_def)
  from tcp_read_ok [OF inv assms(2) this] obtain s' where
    s': "tcp_exec (T_read i (Inr (client_request number))) s = Inr s'"
      "tcp_conns s' i = Some (Awaits_write (number * tcp_shared s))" by (auto simp: client_request_def)
  have en: "tcp_enabled (T_read i (Inr (client_request number))) s" using assms(2) by (simp add: client_request_def)
  from assms(5) en s'(1) have r: "run tcp_enabled tcp_exec ops s' = Some (Inr s1)" by simp
  have "tcp_reach s'"
    using assms(1) reach.step [of tcp_enabled tcp_exec tcp_init s, OF _ en s'(1)] unfolding tcp_reach_def by blast
  then have "tcp_reach s1" unfolding tcp_reach_def by (rule reach_run [OF r])
  from tcp_write_ok [OF tcp_reach_inv [OF this] writing_run [OF r s'(2) assms(6)]] obtain s2 where
    "tcp_exec (T_write i (Inr ())) s1 = Inr s2" "tcp_replies s2 = tcp_replies s1 @ [(i, to_be_bytes (number * tcp_shared s))]"
    by blast
  with client_response_small [of number "tcp_shared s"] assms(3) k show ?thesis by auto
qed

theorem tcp_exchange_witness:
  "\<exists>s1. run tcp_enabled tcp_exec [T_create (Inr ()) 1, T_accept 3 (Inr ()), T_accept 4 (Inr ()), T_read 3 (Inr (client_request 42)),
       T_read 4 (Inr (client_request 5)), T_write 4 (Inr ())] tcp_init = Some (Inr s1) \<and>
     (\<exists>s2 reply. tcp_exec (T_write 3 (Inr ())) s1 = Inr s2 \<and> tcp_replies s2 = tcp_replies s1 @ [(3, reply)] \<and>
       client_response reply = 42)"
proof -
  let ?ops = "[T_create (Inr ()) 1, T_accept 3 (Inr ()), T_accept 4 (Inr ())]"
  let ?more = "[T_read 4 (Inr (client_request 5)), T_write 4 (Inr ())]"
  have "after tcp_enabled tcp_exec ?ops tcp_init (\<lambda>s. tcp_conns s 3 = Some Awaits_number \<and> tcp_requests s = [] \<and>
      after tcp_enabled tcp_exec (T_read 3 (Inr (client_request 42)) # ?more) s (\<lambda>_. True))"
    by (simp add: evals)
  then obtain s where s: "run tcp_enabled tcp_exec ?ops tcp_init = Some (Inr s)"
    "tcp_conns s 3 = Some Awaits_number \<and> tcp_requests s = [] \<and>
      after tcp_enabled tcp_exec (T_read 3 (Inr (client_request 42)) # ?more) s (\<lambda>_. True)" by (rule afterE)
  have r: "tcp_reach s" unfolding tcp_reach_def by (rule run_reach [OF s(1)])
  from s(2) have "after tcp_enabled tcp_exec (T_read 3 (Inr (client_request 42)) # ?more) s (\<lambda>_. True)" by blast
  then obtain s1 where s1: "run tcp_enabled tcp_exec (T_read 3 (Inr (client_request 42)) # ?more) s = Some (Inr s1)"
    by (rule afterE)
  have "run tcp_enabled tcp_exec (?ops @ T_read 3 (Inr (client_request 42)) # ?more) tcp_init = Some (Inr s1)"
    unfolding run_append s(1) option.case sum.case by (rule s1)
  moreover have "\<exists>s2 reply. tcp_exec (T_write 3 (Inr ())) s1 = Inr s2 \<and> tcp_replies s2 = tcp_replies s1 @ [(3, reply)] \<and>
       client_response reply = int (unat (42 :: u32) * Suc (length (tcp_requests s)))"
    by (rule tcp_exchange [OF r _ _ _ s1]) (use s(2) in simp_all)
  ultimately show ?thesis using s(2) by simp
qed

text \<open>
  C33: The server panics exactly when a product or the shared value overflows 32 bits, the
  count of senders overflows or an awaited operation on a socket or the file fails. In particular sending to the logger never fails,
  and the logger never stops.
\<close>

theorem tcp_panics:
  assumes "tcp_reach s" and "tcp_enabled op s"
  shows "tcp_logger s \<noteq> Stopped \<and>
    (if tcp_fits op s then \<exists>s'. tcp_exec op s = Inr s' else \<exists>p. tcp_exec op s = Inl (Panic p))"
proof -
  note inv = tcp_reach_inv [OF assms(1)]
  have "tcp_logger s \<noteq> Stopped" using tcp_invD(2) [OF inv] by (simp add: log_ok_def)
  moreover have "if tcp_fits op s then \<exists>s'. tcp_exec op s = Inr s' else \<exists>p. tcp_exec op s = Inl (Panic p)"
    using tcp_exec_ok [OF inv assms(2)] tcp_exec_fails [OF assms(2)] by auto
  ultimately show ?thesis by blast
qed

theorem tcp_panics_witness:
  "\<exists>s. run tcp_enabled tcp_exec [T_accept 3 (Inr ()), T_read 3 (Inr (client_request 42)), T_accept 4 (Inr ())] tcp_init = Some (Inr s) \<and>
     (\<exists>p. tcp_exec (T_read 4 (Inr (client_request 0xFFFFFFFF))) s = Inl (Panic p))"
proof (rule after_reach)
  show "after tcp_enabled tcp_exec [T_accept 3 (Inr ()), T_read 3 (Inr (client_request 42)), T_accept 4 (Inr ())] tcp_init
      (\<lambda>s. tcp_conns s 4 = Some Awaits_number \<and> tcp_shared s = 2)"
    by (simp add: evals)
  fix s assume r: "reach tcp_enabled tcp_exec tcp_init s" and s: "tcp_conns s 4 = Some Awaits_number \<and> tcp_shared s = 2"
  have "\<not> tcp_fits (T_read 4 (Inr (client_request 0xFFFFFFFF))) s" using s by (simp add: client_request_def)
  moreover have "tcp_enabled (T_read 4 (Inr (client_request 0xFFFFFFFF))) s" using s by (simp add: client_request_def)
  ultimately show "\<exists>p. tcp_exec (T_read 4 (Inr (client_request 0xFFFFFFFF))) s = Inl (Panic p)"
    using tcp_panics [OF r [folded tcp_reach_def]] by metis
qed

text \<open>
  C18: The log is complete and in order. The file and, after it, the bytes handed to \<open>Unblock\<close> that are not
  written to the file yet hold a message for each of the first replies, in the order in which the replies were written; then
  come the reply that the logger is about to write, the one handed to it and those queued. When the logger waits
  and has not been notified, the messages of all replies have been handed to \<open>Unblock\<close>; once the pool has
  written out the pipe they are the file.
\<close>

theorem tcp_log:
  assumes "tcp_reach s"
  shows "\<exists>logged. tcp_file s @ tcp_pipe s = concat (map message logged) \<and>
    map (from_be_bytes \<circ> snd) (tcp_replies s) =
      logged @ pending_message s @ in_flight (ch_event (tcp_chan s)) @ ch_data (tcp_chan s) \<and>
    (tcp_logger s = Receiving \<longrightarrow> is_notified (ch_event (tcp_chan s)) rx_slot \<or>
      logged = map (from_be_bytes \<circ> snd) (tcp_replies s))"
proof -
  note inv = tcp_reach_inv [OF assms]
  from tcp_invD(2) [OF inv] obtain logged where
    l: "tcp_file s @ tcp_pipe s = concat (map message logged)" "tcp_received s = logged @ pending_message s"
    by (auto simp: log_ok_def)
  have "chan_reach1 (chan_of s)" using tcp_invD(1) [OF inv] by (simp add: tcp_chan_ok_def)
  from fifo_reach_inv [OF this] obtain q where q: "fifo_inv (chan_of s) q" by blast
  note i = chan_invD(1,2) [OF fifo_invD(1) [OF q]]
  have f: "in_flight (ch_event (tcp_chan s)) = q_items q" using refines_in_flight [OF i(1)] by (simp add: chan_of_def)
  have items: "map (from_be_bytes \<circ> snd) (tcp_replies s) =
      logged @ pending_message s @ q_items q @ ch_data (tcp_chan s)"
    using fifo_invD(3) [OF q] l(2) tcp_invD(4) [OF inv] by (auto simp: chan_of_def left_channel_def)
  have "logged = map (from_be_bytes \<circ> snd) (tcp_replies s)"
    if w: "tcp_logger s = Receiving" "\<not> is_notified (ch_event (tcp_chan s)) rx_slot"
  proof -
    have a: "set (q_addrs q) = {rx_slot}" using i(2) w(1) by (auto simp: live_ok_def chan_of_def split: if_splits)
    have "rx_slot \<notin> fst ` set (q_notified q)" using w(2) refines_is_notified [OF i(1)] by (simp add: chan_of_def)
    with a have n: "q_notified q = []" by (cases "q_notified q") (auto simp: q_addrs_def)
    with a have "q_waiting q \<noteq> []" by (auto simp: q_addrs_def)
    then have "ch_data (tcp_chan s) = []" using fifo_invD(4) [OF q] by (simp add: chan_of_def)
    with n items w(1) show ?thesis by (simp add: q_items_def pending_message_def)
  qed
  with l(1) items f show ?thesis by auto
qed

theorem tcp_log_witness:
  "\<exists>s. run tcp_enabled tcp_exec [T_create (Inr ()) 1, T_accept 3 (Inr ()), T_read 3 (Inr (client_request 42)), T_write 3 (Inr ()),
       T_poll 1, T_append (Inr ()) 1, T_flush 9, T_flush 4] tcp_init = Some (Inr s) \<and> tcp_file s = message 42"
proof (rule after_reach)
  show "after tcp_enabled tcp_exec [T_create (Inr ()) 1, T_accept 3 (Inr ()), T_read 3 (Inr (client_request 42)), T_write 3 (Inr ()),
       T_poll 1, T_append (Inr ()) 1, T_flush 9, T_flush 4] tcp_init
      (\<lambda>s. tcp_logger s = Receiving \<and> tcp_pipe s = [] \<and> \<not> is_notified (ch_event (tcp_chan s)) rx_slot \<and>
        map (from_be_bytes \<circ> snd) (tcp_replies s) = [42])"
    by (simp add: evals)
  fix s assume r: "reach tcp_enabled tcp_exec tcp_init s"
    and s: "tcp_logger s = Receiving \<and> tcp_pipe s = [] \<and> \<not> is_notified (ch_event (tcp_chan s)) rx_slot \<and>
        map (from_be_bytes \<circ> snd) (tcp_replies s) = [42]"
  from tcp_log [OF r [folded tcp_reach_def]] obtain logged where
    "tcp_file s @ tcp_pipe s = concat (map message logged)" "logged = map (from_be_bytes \<circ> snd) (tcp_replies s)"
    using s by blast
  with s show "tcp_file s = message 42" by simp
qed

end
