(* ===== verification/HttpServers.thy ===== *)
theory HttpServers
  imports Bytes
begin

text \<open>
  The servers of \<open>comparisons\<close>: ten programs that answer HTTP requests, the same program over
  three runtimes, without (\<open>hello\<close>) and with (\<open>lock\<close>) a counter of visitors that the
  connections share. Modelled are the handlers of a connection, from its first poll to what it
  returns; every await is on the connection itself, so a handler shares nothing with the others
  but the counter, which it takes before its first await.
\<close>

section \<open>The connection\<close>

text \<open>
  Connections \<open>'c\<close>, readers that buffer them \<open>'b\<close>, their errors \<open>'e\<close> and the
  request parser with its errors \<open>'p\<close> (\<open>httparse\<close>) are not part of the repository: they
  are parameters. Reading appends to a vector and returns the number of bytes;
  \<open>take_to_end n\<close> is \<open>take(n).read_to_end\<close>. The parser gives the headers it has filled in
  when it returns \<open>Ok\<close>, complete or not (the programs do not look).
\<close>

record ('c, 'b, 'e, 'p) http =
  buf_reader :: "'c \<Rightarrow> 'b"
  into_conn :: "'b \<Rightarrow> 'c"
  read_until :: "byte \<Rightarrow> byte list \<Rightarrow> 'b \<Rightarrow> ('e + usize) \<times> byte list \<times> 'b"
  take_to_end :: "u64 \<Rightarrow> byte list \<Rightarrow> 'b \<Rightarrow> ('e + usize) \<times> byte list \<times> 'b"
  write_all :: "byte list \<Rightarrow> 'c \<Rightarrow> ('e + unit) \<times> 'c"
  parse_request :: "byte list \<Rightarrow> 'p + (byte list \<times> byte list) list"

text \<open>The errors a handler boxes, and how it ends: a fault, an error or \<open>Ok(())\<close>.\<close>

datatype ('e, 'p) error = Io_error 'e | Parse_error 'p | Int_error

type_synonym ('e, 'p) ended = "(('e, 'p) error + unit) outcome"

section \<open>The steps of a handler\<close>

text \<open>The loop that reads the head of a request; \<open>None\<close> if it never ends.\<close>

partial_function (option) read_head ::
  "('c, 'b, 'e, 'p) http \<Rightarrow> byte list \<Rightarrow> 'b \<Rightarrow> (('e + byte list) \<times> 'b) option" where
  "read_head X data b =
     (case read_until X 10 data b of
        (Inl e, data', b') \<Rightarrow> Some (Inl e, b')
      | (Inr len, data', b') \<Rightarrow>
          if len = 0 then Some (Inr data', b')
          else if ends_with data' (crlf @ crlf) then Some (Inr data', b')
          else read_head X data' b')"

text \<open>Parse it and find the length of the body; \<open>unwrap\<close> panics if the value is not UTF-8.\<close>

definition body_length ::
  "('c, 'b, 'e, 'p) http \<Rightarrow> byte list \<Rightarrow> (('e, 'p) error + usize) outcome" where
  "body_length X data =
     (case parse_request X data of
        Inl p \<Rightarrow> Inr (Inl (Parse_error p))
      | Inr headers \<Rightarrow>
          (case find (\<lambda>(name, value). eq_ignore_ascii_case name (bytes ''Content-Length'')) headers of
             None \<Rightarrow> Inr (Inr 0)
           | Some (name, value) \<Rightarrow>
               if utf8_valid value
               then (case parse_usize value of None \<Rightarrow> Inr (Inl Int_error) | Some n \<Rightarrow> Inr (Inr n))
               else Inl (Panic Unwrap_err)))"

text \<open>A sequence of \<open>conn.write_all(..).await?\<close>.\<close>

fun write_each ::
  "('c, 'b, 'e, 'p) http \<Rightarrow> byte list list \<Rightarrow> 'c \<Rightarrow> ('e, 'p) ended \<times> 'c" where
  "write_each X [] c = (Inr (Inr ()), c)"
| "write_each X (bs # rest) c =
     (case write_all X bs c of
        (Inl e, c') \<Rightarrow> (Inr (Inl (Io_error e)), c')
      | (Inr _, c') \<Rightarrow> write_each X rest c')"

definition ok_length :: "byte list" where
  "ok_length = bytes ''HTTP/1.1 200 OK'' @ crlf @ bytes ''Content-Length: ''"

text \<open>The writes that answer with a body of known length.\<close>

definition respond :: "byte list \<Rightarrow> byte list list" where
  "respond body = [ok_length, to_string (length body), crlf @ crlf, body]"

text \<open>The handler; \<open>greeting\<close> are the writes of the branch without a body.\<close>

definition handle_connection ::
  "('c, 'b, 'e, 'p) http \<Rightarrow> byte list list \<Rightarrow> 'c \<Rightarrow> (('e, 'p) ended \<times> 'c) option" where
  "handle_connection X greeting conn =
     (case read_head X [] (buf_reader X conn) of
        None \<Rightarrow> None
      | Some (Inl e, b) \<Rightarrow> Some (Inr (Inl (Io_error e)), into_conn X b)
      | Some (Inr data, b) \<Rightarrow> Some
          (case body_length X data of
             Inl f \<Rightarrow> (Inl f, into_conn X b)
           | Inr (Inl e) \<Rightarrow> (Inr (Inl e), into_conn X b)
           | Inr (Inr n) \<Rightarrow>
               if n = 0 then write_each X greeting (into_conn X b)
               else
                 (case take_to_end X n [] b of
                    (Inl e, _, b') \<Rightarrow> (Inr (Inl (Io_error e)), into_conn X b')
                  | (Inr _, body, b') \<Rightarrow> write_each X (respond body) (into_conn X b'))))"

section \<open>The servers that say hello\<close>

definition hello :: "byte list list" where
  "hello = [bytes ''HTTP/1.1 200 OK'' @ crlf @ bytes ''Content-Length: 12'' @ crlf @ crlf @ bytes ''Hello world!'']"

definition unsend_hello ::
  "('c, 'b, 'e, 'p) http \<Rightarrow> 'c \<Rightarrow> (('e, 'p) ended \<times> 'c) option" where
  "unsend_hello X conn = handle_connection X hello conn"

definition smol_hello ::
  "('c, 'b, 'e, 'p) http \<Rightarrow> 'c \<Rightarrow> (('e, 'p) ended \<times> 'c) option" where
  "smol_hello X conn = handle_connection X hello conn"

definition smol_local_hello ::
  "('c, 'b, 'e, 'p) http \<Rightarrow> 'c \<Rightarrow> (('e, 'p) ended \<times> 'c) option" where
  "smol_local_hello X conn = handle_connection X hello conn"

definition tokio_hello ::
  "('c, 'b, 'e, 'p) http \<Rightarrow> 'c \<Rightarrow> (('e, 'p) ended \<times> 'c) option" where
  "tokio_hello X conn = handle_connection X hello conn"

definition tokio_local_hello ::
  "('c, 'b, 'e, 'p) http \<Rightarrow> 'c \<Rightarrow> (('e, 'p) ended \<times> 'c) option" where
  "tokio_local_hello X conn = handle_connection X hello conn"

section \<open>The servers that count\<close>

text \<open>
  The counter of visitors: in a \<open>RefCell\<close>, with its borrow flag, where all connections are
  served by one thread; in a \<open>std::sync::Mutex\<close>, which a panic poisons, elsewhere.
\<close>

record refcell =
  rc_borrow :: borrow
  rc_value :: u64

record std_mutex =
  sm_poisoned :: bool
  sm_value :: u64

definition count_refcell :: "refcell \<Rightarrow> u64 outcome \<times> refcell" where
  "count_refcell index =
     (case try_borrow_mut (rc_borrow index) of
        None \<Rightarrow> (Inl (Panic Borrow_failed), index)
      | Some slot \<Rightarrow>
          (case u64_add (rc_value index) 1 of
             Inl f \<Rightarrow> (Inl f, index\<lparr>rc_borrow := drop_ref_mut slot\<rparr>)
           | Inr n \<Rightarrow> (Inr n, index\<lparr>rc_value := n, rc_borrow := drop_ref_mut slot\<rparr>)))"

definition count_mutex :: "std_mutex \<Rightarrow> u64 outcome \<times> std_mutex" where
  "count_mutex data =
     (if sm_poisoned data then (Inl (Panic Unwrap_err), data)
      else
        (case u64_add (sm_value data) 1 of
           Inl f \<Rightarrow> (Inl f, data\<lparr>sm_poisoned := True\<rparr>)
         | Inr n \<Rightarrow> (Inr n, data\<lparr>sm_value := n\<rparr>)))"

text \<open>Count the visitor, then serve the connection; a panic leaves the connection as it is.\<close>

definition counted ::
  "u64 outcome \<times> 'i \<Rightarrow> (u64 \<Rightarrow> 'c \<Rightarrow> (('e, 'p) ended \<times> 'c) option) \<Rightarrow> 'c
     \<Rightarrow> (('e, 'p) ended \<times> 'c \<times> 'i) option" where
  "counted count handle conn =
     (case count of
        (Inl f, i) \<Rightarrow> Some (Inl f, conn, i)
      | (Inr n, i) \<Rightarrow> map_option (\<lambda>(r, c). (r, c, i)) (handle n conn))"

definition you_are :: "u64 \<Rightarrow> byte list" where
  "you_are n = bytes ''Hello world! You are visitor #'' @ to_string n"

definition hello_comma :: "u64 \<Rightarrow> byte list" where
  "hello_comma n = bytes ''Hello, world! '' @ to_string n"

definition unsend_lock ::
  "('c, 'b, 'e, 'p) http \<Rightarrow> refcell \<Rightarrow> 'c \<Rightarrow> (('e, 'p) ended \<times> 'c \<times> refcell) option" where
  "unsend_lock X index conn =
     counted (count_refcell index) (\<lambda>new_index. handle_connection X (respond (you_are new_index))) conn"

definition smol_local_lock ::
  "('c, 'b, 'e, 'p) http \<Rightarrow> refcell \<Rightarrow> 'c \<Rightarrow> (('e, 'p) ended \<times> 'c \<times> refcell) option" where
  "smol_local_lock X index conn =
     counted (count_refcell index) (\<lambda>new_index. handle_connection X (respond (hello_comma new_index))) conn"

definition tokio_local_lock ::
  "('c, 'b, 'e, 'p) http \<Rightarrow> refcell \<Rightarrow> 'c \<Rightarrow> (('e, 'p) ended \<times> 'c \<times> refcell) option" where
  "tokio_local_lock X index conn =
     counted (count_refcell index) (\<lambda>new_index. handle_connection X (respond (hello_comma new_index))) conn"

definition smol_lock ::
  "('c, 'b, 'e, 'p) http \<Rightarrow> std_mutex \<Rightarrow> 'c \<Rightarrow> (('e, 'p) ended \<times> 'c \<times> std_mutex) option" where
  "smol_lock X data conn =
     counted (count_mutex data) (\<lambda>new_index. handle_connection X (respond (hello_comma new_index))) conn"

definition tokio_lock ::
  "('c, 'b, 'e, 'p) http \<Rightarrow> std_mutex \<Rightarrow> 'c \<Rightarrow> (('e, 'p) ended \<times> 'c \<times> std_mutex) option" where
  "tokio_lock X data conn =
     counted (count_mutex data) (\<lambda>new_index. handle_connection X (respond (hello_comma new_index))) conn"

end
