(* ===== verification/HttpLaws.thy ===== *)
theory HttpLaws
  imports HttpServers
begin

text \<open>
  What the handlers of theory \<open>HttpServers\<close> answer, under the documented behaviour of buffered
  readers, writers and the request parser (the locales \<open>http_io\<close> and \<open>http_parser\<close>).
\<close>

section \<open>Readers and writers\<close>

text \<open>What \<open>read_until\<close> reads: up to and including the first \<open>d\<close>, or everything.\<close>

definition upto_byte :: "byte \<Rightarrow> byte list \<Rightarrow> byte list" where
  "upto_byte d xs = takeWhile (\<lambda>x. x \<noteq> d) xs @ take 1 (dropWhile (\<lambda>x. x \<noteq> d) xs)"

lemma upto_byte_line: "d \<notin> set u \<Longrightarrow> upto_byte d (u @ d # rest) = u @ [d]"
  unfolding upto_byte_def by (induction u) auto

lemma upto_byte_empty: "upto_byte d xs = [] \<longleftrightarrow> xs = []"
  unfolding upto_byte_def by (cases xs) auto

text \<open>
  \<open>incoming\<close> are the bytes that are still to be read until the peer closes its side (finitely
  many), \<open>written\<close> those written so far; \<open>healthy\<close> connections never fail. A buffer reads
  ahead, so nothing is known of the input of a connection that was wrapped in one. A write that fails
  may have written a part.
\<close>

locale http_io =
  fixes X :: "('c, 'b, 'e, 'p) http"
    and incoming written :: "'c \<Rightarrow> byte list"
    and b_incoming b_written :: "'b \<Rightarrow> byte list"
    and healthy :: "'c \<Rightarrow> bool"
    and b_healthy :: "'b \<Rightarrow> bool"
  assumes reader_new: "b_incoming (buf_reader X c) = incoming c" "b_written (buf_reader X c) = written c"
      "b_healthy (buf_reader X c) = healthy c"
    and reader_conn: "written (into_conn X b) = b_written b" "healthy (into_conn X b) = b_healthy b"
    and until_ok: "read_until X d data b = (Inr n, data', b') \<Longrightarrow>
      data' = data @ upto_byte d (b_incoming b) \<and> n = length (upto_byte d (b_incoming b)) \<and>
      b_incoming b' = drop n (b_incoming b)"
    and until_keeps: "read_until X d data b = (r, data', b') \<Longrightarrow>
      b_written b' = b_written b \<and> (b_healthy b \<longrightarrow> b_healthy b' \<and> \<not> isl r)"
    and take_ok: "take_to_end X n data b = (Inr k, data', b') \<Longrightarrow>
      data' = data @ take n (b_incoming b) \<and> k = length (take n (b_incoming b))"
    and take_keeps: "take_to_end X n data b = (r, data', b') \<Longrightarrow>
      b_written b' = b_written b \<and> (b_healthy b \<longrightarrow> b_healthy b' \<and> \<not> isl r)"
    and write_ok: "write_all X bs c = (Inr u, c') \<Longrightarrow> written c' = written c @ bs"
    and write_fails: "write_all X bs c = (Inl e, c') \<Longrightarrow> \<exists>k. written c' = written c @ take k bs"
    and write_keeps: "write_all X bs c = (s, c') \<Longrightarrow> healthy c \<Longrightarrow> healthy c' \<and> \<not> isl s"
begin

lemma read_head_out: "read_head X data b = Some (r, b') \<Longrightarrow> b_written b' = b_written b"
proof (induction "length (b_incoming b)" arbitrary: data b rule: less_induct)
  case less
  obtain r0 data1 b1 where u: "read_until X 10 data b = (r0, data1, b1)" by (cases "read_until X 10 data b")
  note keeps = until_keeps [OF u]
  show ?case
  proof (cases r0)
    case (Inl e)
    with less.prems u keeps show ?thesis by (simp add: read_head.simps [of X data])
  next
    case (Inr n)
    note ok = until_ok [OF u [unfolded Inr]]
    show ?thesis
    proof (cases "n = 0 \<or> ends_with data1 (crlf @ crlf)")
      case True
      with less.prems u Inr keeps show ?thesis by (auto simp: read_head.simps [of X data] split: if_splits)
    next
      case False
      with ok have "length (b_incoming b1) < length (b_incoming b)"
        by (metis drop_eq_Nil length_drop upto_byte_empty length_greater_0_conv diff_less neq0_conv)
      moreover have "read_head X data1 b1 = Some (r, b')"
        using less.prems u Inr False by (simp add: read_head.simps [of X data])
      ultimately show ?thesis using less.hyps keeps by simp
    qed
  qed
qed

text \<open>The loop ends, because the input does.\<close>

lemma read_head_ends: "\<exists>r. read_head X data b = Some r"
proof (induction "length (b_incoming b)" arbitrary: data b rule: less_induct)
  case less
  obtain r0 data1 b1 where u: "read_until X 10 data b = (r0, data1, b1)" by (cases "read_until X 10 data b")
  show ?case
  proof (cases r0)
    case (Inl e)
    with u show ?thesis by (simp add: read_head.simps [of X data])
  next
    case (Inr n)
    note ok = until_ok [OF u [unfolded Inr]]
    show ?thesis
    proof (cases "n = 0")
      case True
      with u Inr show ?thesis by (simp add: read_head.simps [of X data])
    next
      case False
      with ok have "length (b_incoming b1) < length (b_incoming b)"
        by (metis drop_eq_Nil length_drop upto_byte_empty length_greater_0_conv diff_less neq0_conv)
      from less.hyps [OF this] u Inr show ?thesis by (simp add: read_head.simps [of X data])
    qed
  qed
qed

lemma writes_done: "write_each X bss c = (Inr (Inr ()), c') \<Longrightarrow> written c' = written c @ concat bss"
proof (induction bss arbitrary: c)
  case (Cons bs bss)
  then show ?case using write_ok by (fastforce split: prod.splits sum.splits)
qed simp

lemma writes_healthy: "healthy c \<Longrightarrow> \<exists>c'. write_each X bss c = (Inr (Inr ()), c')"
proof (induction bss arbitrary: c)
  case (Cons bs bss)
  obtain r c1 where w: "write_all X bs c = (r, c1)" by fastforce
  with write_keeps [OF w Cons.prems] Cons.IH [of c1] show ?case by (cases r) auto
qed simp

lemma writes_no_fault: "\<exists>r c'. write_each X bss c = (Inr r, c')"
  by (induction bss arbitrary: c) (auto split: prod.splits sum.splits)

end

section \<open>Requests\<close>

text \<open>The head of a request: its first line, its headers and an empty line.\<close>

definition request_line :: "byte list \<Rightarrow> byte list \<Rightarrow> byte list" where
  "request_line method target = method @ [32] @ target @ bytes '' HTTP/1.1'' @ crlf"

definition header_line :: "byte list \<times> byte list \<Rightarrow> byte list" where
  "header_line h = fst h @ bytes '': '' @ snd h @ crlf"

definition request_head :: "byte list \<Rightarrow> byte list \<Rightarrow> (byte list \<times> byte list) list \<Rightarrow> byte list" where
  "request_head method target hs = request_line method target @ concat (map header_line hs) @ crlf"

text \<open>Well-formed parts (most of what RFC 9110 allows).\<close>

definition token_byte :: "byte \<Rightarrow> bool" where
  "token_byte b \<longleftrightarrow> is_digit b \<or> 65 \<le> b \<and> b \<le> 90 \<or> 97 \<le> b \<and> b \<le> 122 \<or> b \<in> set (bytes ''!#$%&*+-.^_|~'')"

definition target_byte :: "byte \<Rightarrow> bool" where
  "target_byte b \<longleftrightarrow> 0x21 \<le> b \<and> b \<le> 0x7E"

definition value_byte :: "byte \<Rightarrow> bool" where
  "value_byte b \<longleftrightarrow> b = 9 \<or> 0x20 \<le> b \<and> b \<noteq> 0x7F"

definition wf_header :: "byte list \<times> byte list \<Rightarrow> bool" where
  "wf_header h \<longleftrightarrow> fst h \<noteq> [] \<and> list_all token_byte (fst h) \<and> list_all value_byte (snd h) \<and>
     (snd h \<noteq> [] \<longrightarrow> hd (snd h) \<notin> {9, 32} \<and> last (snd h) \<notin> {9, 32})"

definition wf_request :: "byte list \<Rightarrow> byte list \<Rightarrow> (byte list \<times> byte list) list \<Rightarrow> bool" where
  "wf_request method target hs \<longleftrightarrow> method \<noteq> [] \<and> list_all token_byte method \<and>
     target \<noteq> [] \<and> list_all target_byte target \<and> list_all wf_header hs"

text \<open>The length that the headers declare; \<open>None\<close> if it is not a number.\<close>

definition content_length :: "(byte list \<times> byte list) list \<Rightarrow> usize option" where
  "content_length hs =
     (case find (\<lambda>(name, value). eq_ignore_ascii_case name (bytes ''Content-Length'')) hs of
        None \<Rightarrow> Some 0
      | Some (name, value) \<Rightarrow> parse_usize value)"

lemma parse_digits_ascii: "parse_digits acc bs = Some n \<Longrightarrow> \<forall>b \<in> set bs. b < 0x80"
  by (induction bs arbitrary: acc) (auto simp: Let_def word_less_nat_alt word_le_nat_alt split: if_splits)

lemma parse_usize_utf8: "parse_usize bs = Some n \<Longrightarrow> utf8_valid bs"
  by (intro utf8_ascii)
    (auto simp: parse_usize_def simp del: parse_digits.simps split: list.splits if_splits dest!: parse_digits_ascii)

text \<open>Lines: ended by a line feed that they do not contain before, and not empty but for it.\<close>

definition full_line :: "byte list \<Rightarrow> bool" where
  "full_line l \<longleftrightarrow> (\<exists>u. l = u @ crlf \<and> u \<noteq> [] \<and> 10 \<notin> set u)"

lemma token_no_lf: "token_byte b \<Longrightarrow> b \<noteq> 10" and target_no_lf: "target_byte b \<Longrightarrow> b \<noteq> 10"
  and value_no_lf: "value_byte b \<Longrightarrow> b \<noteq> 10"
  by (auto simp: token_byte_def is_digit_def bytes_def target_byte_def value_byte_def)

lemma full_lines:
  assumes "wf_request method target hs"
  shows "list_all full_line (request_line method target # map header_line hs)"
proof -
  have "full_line (request_line method target)"
  proof -
    let ?u = "method @ [32] @ target @ bytes '' HTTP/1.1''"
    have "10 \<notin> set ?u"
      using assms token_no_lf target_no_lf by (fastforce simp: wf_request_def list_all_iff bytes_def)
    then show ?thesis unfolding full_line_def request_line_def
      by (intro exI [of _ ?u]) simp
  qed
  moreover have "full_line (header_line h)" if "wf_header h" for h
  proof -
    let ?u = "fst h @ bytes '': '' @ snd h"
    have "10 \<notin> set ?u"
      using that token_no_lf value_no_lf by (fastforce simp: wf_header_def list_all_iff bytes_def)
    then show ?thesis unfolding full_line_def header_line_def
      by (intro exI [of _ ?u]) (use that in \<open>simp add: wf_header_def\<close>)
  qed
  ultimately show ?thesis using assms by (auto simp: wf_request_def list_all_iff)
qed

lemma full_line_not_last: "full_line l \<Longrightarrow> \<not> ends_with (data @ l) (crlf @ crlf)"
proof
  assume "full_line l" and e: "ends_with (data @ l) (crlf @ crlf)"
  then obtain u where u: "l = u @ crlf" "u \<noteq> []" "10 \<notin> set u" unfolding full_line_def by blast
  from ends_withE [OF e] obtain zs where "data @ l = zs @ crlf @ crlf" by blast
  with u(1) have "data @ u = zs @ crlf" by (simp add: crlf_def)
  then have "last u = 10" using u(2) by (metis append_is_Nil_conv crlf_def last.simps last_appendR list.discI)
  with u(2,3) show False by (metis last_in_set)
qed

lemma full_line_upto: "full_line l \<Longrightarrow> upto_byte 10 (l @ rest) = l"
proof -
  assume "full_line l"
  then obtain u where u: "l = (u @ [13]) @ 10 # []" "10 \<notin> set (u @ [13])" by (auto simp: full_line_def crlf_def)
  then show ?thesis using upto_byte_line [OF u(2), of rest] by simp
qed

context http_io
begin

lemma read_line:
  assumes "b_healthy b" and "upto_byte 10 (b_incoming b) = l" and "b_incoming b = l @ rest"
  obtains b' where "read_until X 10 data b = (Inr (length l), data @ l, b')"
    and "b_healthy b'" and "b_incoming b' = rest" and "b_written b' = b_written b"
proof -
  obtain r data1 b1 where u: "read_until X 10 data b = (r, data1, b1)" by (cases "read_until X 10 data b")
  from until_keeps [OF u] assms(1) obtain n where r: "r = Inr n" by (cases r) auto
  from until_ok [OF u [unfolded r]] until_keeps [OF u] assms that u r show ?thesis by simp
qed

text \<open>A head is read to its end and not further.\<close>

lemma read_head_lines:
  assumes "b_healthy b" and "b_incoming b = concat ls @ crlf @ rest" and "list_all full_line ls"
    and "ls = [] \<longrightarrow> ends_with data crlf"
  shows "\<exists>b'. read_head X data b = Some (Inr (data @ concat ls @ crlf), b') \<and>
    b_healthy b' \<and> b_incoming b' = rest \<and> b_written b' = b_written b"
  using assms
proof (induction ls arbitrary: data b)
  case Nil
  have "upto_byte 10 (b_incoming b) = crlf" using Nil(2) upto_byte_line [of 10 "[13]" rest] by (simp add: crlf_def)
  from read_line [OF Nil(1) this, of rest data] Nil(2) obtain b' where
    u: "read_until X 10 data b = (Inr (length crlf), data @ crlf, b')" "b_healthy b'" "b_incoming b' = rest"
      "b_written b' = b_written b" by auto
  from Nil(4) obtain zs where "data = zs @ crlf" using ends_withE by blast
  then have "ends_with (data @ crlf) (crlf @ crlf)" using ends_with_append [of zs "crlf @ crlf"] by simp
  with u show ?case by (simp add: read_head.simps [of X data])
next
  case (Cons l ls)
  from Cons.prems(3) have l: "full_line l" "list_all full_line ls" by simp_all
  have "upto_byte 10 (b_incoming b) = l" using full_line_upto [OF l(1)] Cons.prems(2) by simp
  from read_line [OF Cons.prems(1) this, of "concat ls @ crlf @ rest" data] Cons.prems(2) obtain b1 where u: "read_until X 10 data b = (Inr (length l), data @ l, b1)" "b_healthy b1"
    "b_incoming b1 = concat ls @ crlf @ rest" "b_written b1 = b_written b" by auto
  have "ends_with (data @ l) crlf" using l(1) ends_with_append by (metis append_assoc full_line_def)
  with Cons.IH [OF u(2,3) l(2), of "data @ l"] u(4) obtain b' where
    "read_head X (data @ l) b1 = Some (Inr ((data @ l) @ concat ls @ crlf), b')" "b_healthy b'" "b_incoming b' = rest"
    "b_written b' = b_written b" by auto
  moreover have "l \<noteq> []" using l(1) by (auto simp: full_line_def)
  ultimately show ?case using u full_line_not_last [OF l(1), of data] by (simp add: read_head.simps [of X data])
qed

lemma read_request:
  assumes "healthy c" and "incoming c = request_head m p hs @ rest" and "wf_request m p hs"
  shows "\<exists>b'. read_head X [] (buf_reader X c) = Some (Inr (request_head m p hs), b') \<and>
    b_healthy b' \<and> b_incoming b' = rest \<and> b_written b' = written c"
  using read_head_lines [OF _ _ full_lines [OF assms(3)], of "buf_reader X c" rest "[]"] assms(1,2)
  by (simp add: reader_new request_head_def)

end

end
