(* ===== verification/HttpAnswers.thy ===== *)
theory HttpAnswers
  imports HttpLaws
begin

text \<open>
  The answers of the ten servers: what they write on every path, that they end, that they echo
  the body of a request or greet their visitor by number, and when they panic.
\<close>

section \<open>What a handler writes\<close>

text \<open>A client reads a response: the body it declares and what follows it.\<close>

definition parse_response :: "byte list \<Rightarrow> (byte list \<times> byte list) option" where
  "parse_response xs =
     (let n = length ok_length; digits = takeWhile is_digit (drop n xs); r = drop (n + length digits) xs in
      if take n xs = ok_length \<and> take 4 r = crlf @ crlf then
        (case parse_usize digits of
           None \<Rightarrow> None
         | Some k \<Rightarrow> if k \<le> length r - 4 then Some (take k (drop 4 r), drop (4 + k) r) else None)
      else None)"

lemma parse_respond:
  assumes "length body \<le> usize_max"
  shows "parse_response (concat (respond body) @ rest) = Some (body, rest)"
proof -
  let ?xs = "concat (respond body) @ rest" and ?d = "to_string (length body)"
  define gap where "gap = crlf @ crlf"
  have gap: "length gap = 4" "\<not> is_digit (hd gap)" "gap \<noteq> []" by (simp_all add: gap_def crlf_def is_digit_def)
  have xs: "?xs = ok_length @ ?d @ gap @ body @ rest" by (simp add: respond_def gap_def)
  have d: "takeWhile is_digit (?d @ gap @ body @ rest) = ?d"
    using to_string_digits gap(2,3) by (cases gap) (auto simp: takeWhile_append2)
  have n: "take (length ok_length) ?xs = ok_length" "drop (length ok_length) ?xs = ?d @ gap @ body @ rest"
    "drop (length ok_length + length ?d) ?xs = gap @ body @ rest"
    by (simp_all add: xs)
  have r: "take 4 (gap @ body @ rest) = gap" "drop 4 (gap @ body @ rest) = body @ rest"
    "drop (4 + length body) (gap @ body @ rest) = rest"
    using gap(1) by simp_all
  have l: "length body \<le> length (gap @ body @ rest) - 4" using gap(1) by simp
  show ?thesis
    unfolding parse_response_def Let_def n d r parse_usize_to_string [OF assms] gap_def [symmetric]
    using l gap(1) by simp
qed

lemma hello_respond: "concat hello = concat (respond (bytes ''Hello world!''))"
proof -
  have "length (bytes ''Hello world!'') = 12" by simp
  moreover have "to_string 12 = [49, 50]" by (simp add: to_string.simps)
  ultimately show ?thesis
    unfolding hello_def respond_def ok_length_def by (simp only: concat.simps append_assoc) (simp add: bytes_def)
qed

text \<open>The answers a handler with the greeting \<open>g\<close> may give.\<close>

definition answers :: "byte list list \<Rightarrow> byte list list set" where
  "answers g = insert g (respond ` {body. length body \<le> usize_max})"

context http_io
begin

lemma writes_prefix: "write_each X bss c = (r, c') \<Longrightarrow> \<exists>k. written c' = written c @ take k (concat bss)"
proof (induction bss arbitrary: c)
  case Nil
  then show ?case by simp
next
  case (Cons bs bss)
  obtain r1 c1 where w: "write_all X bs c = (r1, c1)" by fastforce
  show ?case
  proof (cases r1)
    case (Inl e)
    with write_fails [OF w [unfolded Inl]] Cons.prems w obtain k where "written c' = written c @ take k bs" by auto
    then show ?thesis by (intro exI [of _ "min k (length bs)"]) (simp add: min_def)
  next
    case (Inr u)
    with Cons.prems w have "write_each X bss c1 = (r, c')" by simp
    from Cons.IH [OF this] obtain k where "written c' = written c1 @ take k (concat bss)" by blast
    with write_ok [OF w [unfolded Inr]] show ?thesis by (intro exI [of _ "length bs + k"]) simp
  qed
qed

text \<open>Every way a handler can go.\<close>

lemma handle_cases:
  obtains
    (failed) e c' where "handle_connection X g c = Some (Inr (Inl e), c')" "written c' = written c"
  | (panics) data b where "read_head X [] (buf_reader X c) = Some (Inr data, b)"
      "body_length X data = Inl (Panic Unwrap_err)" "written (into_conn X b) = written c"
      "handle_connection X g c = Some (Inl (Panic Unwrap_err), into_conn X b)"
  | (answers) bss c1 where "bss \<in> answers g" "written c1 = written c"
      "handle_connection X g c = Some (write_each X bss c1)"
proof -
  obtain r b where r: "read_head X [] (buf_reader X c) = Some (r, b)" using read_head_ends by fastforce
  have w: "written (into_conn X b) = written c" using read_head_out [OF r] by (simp add: reader_conn reader_new)
  show thesis
  proof (cases r)
    case (Inl e)
    with r w failed show ?thesis by (simp add: handle_connection_def)
  next
    case data: (Inr data)
    show ?thesis
    proof (cases "body_length X data")
      case (Inl f)
      then have "f = Panic Unwrap_err" by (auto simp: body_length_def split: sum.splits option.splits if_splits)
      with r data w panics Inl show ?thesis by (simp add: handle_connection_def)
    next
      case len: (Inr q)
      show ?thesis
      proof (cases q)
        case (Inl e)
        with r data len w failed show ?thesis by (simp add: handle_connection_def)
      next
        case n: (Inr n)
        obtain r' body b' where t: "take_to_end X n [] b = (r', body, b')" by (cases "take_to_end X n [] b")
        have w': "written (into_conn X b') = written c" using take_keeps [OF t] w by (simp add: reader_conn)
        show ?thesis
        proof (cases "n = 0")
          case True
          with r data len n w show ?thesis using answers [of g "into_conn X b"]
            by (simp add: handle_connection_def answers_def)
        next
          case False
          show ?thesis
          proof (cases r')
            case (Inl e)
            with r data len n False t w' failed show ?thesis by (simp add: handle_connection_def)
          next
            case (Inr k)
            have "n \<le> usize_max" using len n parse_usize_range
              by (auto simp: body_length_def split: sum.splits option.splits if_splits)
            then have "length body \<le> usize_max" using take_ok [OF t [unfolded Inr]] by simp
            with r data len n False t w' Inr show ?thesis using answers [of "respond body" "into_conn X b'"]
              by (simp add: handle_connection_def answers_def)
          qed
        qed
      qed
    qed
  qed
qed

end

section \<open>The request parser\<close>

text \<open>The parser returns the headers of a well-formed head with at most sixteen of them.\<close>

locale http_parser = http_io +
  assumes parse_ok: "wf_request m p hs \<Longrightarrow> length hs \<le> 16 \<Longrightarrow>
    parse_request X (request_head m p hs) = Inr hs"
begin

lemma head_length:
  assumes "wf_request m p hs" and "length hs \<le> 16"
  shows "content_length hs = Some n \<Longrightarrow> body_length X (request_head m p hs) = Inr (Inr n)"
    and "find (\<lambda>(name, value). eq_ignore_ascii_case name (bytes ''Content-Length'')) hs = Some (name, value) \<Longrightarrow>
      \<not> utf8_valid value \<Longrightarrow> body_length X (request_head m p hs) = Inl (Panic Unwrap_err)"
    and "find (\<lambda>(name, value). eq_ignore_ascii_case name (bytes ''Content-Length'')) hs = Some (name, value) \<Longrightarrow>
      utf8_valid value \<Longrightarrow> parse_usize value = None \<Longrightarrow> body_length X (request_head m p hs) = Inr (Inl Int_error)"
  using parse_ok [OF assms] parse_usize_utf8
  by (auto simp: body_length_def content_length_def split: option.splits)

text \<open>A request without a body is greeted, any other has as much of its body sent back as there is.\<close>

lemma handle_request:
  assumes "healthy c" and "incoming c = request_head m p hs @ rest" and "wf_request m p hs"
    and "length hs \<le> 16" and "content_length hs = Some n"
  shows "\<exists>c'. handle_connection X g c = Some (Inr (Inr ()), c') \<and>
    written c' = written c @ concat (if n = 0 then g else respond (take n rest))"
proof -
  from read_request [OF assms(1-3)] obtain b where
    b: "read_head X [] (buf_reader X c) = Some (Inr (request_head m p hs), b)" "b_healthy b"
      "b_incoming b = rest" "b_written b = written c" by blast
  note len = head_length(1) [OF assms(3-5)]
  show ?thesis
  proof (cases "n = 0")
    case True
    have "healthy (into_conn X b)" using b(2) by (simp add: reader_conn)
    from writes_healthy [OF this] obtain c' where w: "write_each X g (into_conn X b) = (Inr (Inr ()), c')" by blast
    with True b len writes_done [OF w] show ?thesis by (simp add: handle_connection_def reader_conn)
  next
    case False
    obtain r body b' where t: "take_to_end X n [] b = (r, body, b')" by (cases "take_to_end X n [] b")
    with take_keeps [OF t] b(2) obtain k where r: "r = Inr k" by (cases r) auto
    have "healthy (into_conn X b')" using take_keeps [OF t] b(2) by (simp add: reader_conn)
    from writes_healthy [OF this] obtain c' where w: "write_each X (respond body) (into_conn X b') = (Inr (Inr ()), c')" by blast
    with False b len t r writes_done [OF w] take_ok [OF t [unfolded r]] take_keeps [OF t]
    show ?thesis by (simp add: handle_connection_def reader_conn)
  qed
qed

text \<open>A length that is not UTF-8 makes the handler panic, another that is no number makes it fail.\<close>

lemma handle_bad_length:
  assumes "healthy c" and "incoming c = request_head m p hs @ rest" and "wf_request m p hs"
    and "length hs \<le> 16"
    and "find (\<lambda>(name, value). eq_ignore_ascii_case name (bytes ''Content-Length'')) hs = Some (name, value)"
  shows "\<not> utf8_valid value \<Longrightarrow>
      \<exists>c'. handle_connection X g c = Some (Inl (Panic Unwrap_err), c') \<and> written c' = written c"
    and "utf8_valid value \<Longrightarrow> parse_usize value = None \<Longrightarrow>
      \<exists>c'. handle_connection X g c = Some (Inr (Inl Int_error), c') \<and> written c' = written c"
proof -
  from read_request [OF assms(1-3)] obtain b where
    b: "read_head X [] (buf_reader X c) = Some (Inr (request_head m p hs), b)" "b_written b = written c" by blast
  with head_length(2,3) [OF assms(3-5)]
  show "\<not> utf8_valid value \<Longrightarrow>
      \<exists>c'. handle_connection X g c = Some (Inl (Panic Unwrap_err), c') \<and> written c' = written c"
    and "utf8_valid value \<Longrightarrow> parse_usize value = None \<Longrightarrow>
      \<exists>c'. handle_connection X g c = Some (Inr (Inl Int_error), c') \<and> written c' = written c"
    by (simp_all add: handle_connection_def reader_conn)
qed

end

section \<open>All servers\<close>

text \<open>
  The ten handlers, for the connection that is served when \<open>n\<close> visitors have been counted
  (no connection holds the counter across an await).
\<close>

definition forget :: "(('e, 'p) ended \<times> 'c \<times> 'i) option \<Rightarrow> (('e, 'p) ended \<times> 'c) option" where
  "forget r = map_option (\<lambda>(x, c, i). (x, c)) r"

definition hello_servers :: "('c, 'b, 'e, 'p) http \<Rightarrow> ('c \<Rightarrow> (('e, 'p) ended \<times> 'c) option) list" where
  "hello_servers X = [unsend_hello X, smol_hello X, smol_local_hello X, tokio_hello X, tokio_local_hello X]"

definition lock_servers :: "('c, 'b, 'e, 'p) http \<Rightarrow> u64 \<Rightarrow> ('c \<Rightarrow> (('e, 'p) ended \<times> 'c) option) list" where
  "lock_servers X n =
     map (\<lambda>serve conn. forget (serve \<lparr>rc_borrow = Unused, rc_value = n\<rparr> conn))
       [unsend_lock X, smol_local_lock X, tokio_local_lock X] @
     map (\<lambda>serve conn. forget (serve \<lparr>sm_poisoned = False, sm_value = n\<rparr> conn))
       [smol_lock X, tokio_lock X]"

definition greetings :: "u64 \<Rightarrow> byte list list set" where
  "greetings n = {hello, respond (you_are (Suc n)), respond (hello_comma (Suc n))}"

lemma hello_servers_handle: "serve \<in> set (hello_servers X) \<Longrightarrow> serve = handle_connection X hello"
proof -
  have "unsend_hello X = handle_connection X hello" "smol_hello X = handle_connection X hello"
    "smol_local_hello X = handle_connection X hello" "tokio_hello X = handle_connection X hello"
    "tokio_local_hello X = handle_connection X hello"
    by (intro ext, simp add: unsend_hello_def smol_hello_def smol_local_hello_def tokio_hello_def tokio_local_hello_def)+
  then show "serve \<in> set (hello_servers X) \<Longrightarrow> serve = handle_connection X hello"
    by (auto simp: hello_servers_def)
qed

lemma forget_counted [simp]:
  "forget (counted (Inr n, i) handle conn) = handle n conn"
  "forget (counted (Inl f, i) handle conn) = Some (Inl f, conn)"
  by (simp_all add: counted_def forget_def option.map_comp comp_def case_prod_beta option.map_ident)

lemma lock_servers_eq:
  assumes "n < u64_max"
  shows "lock_servers X n =
    handle_connection X (respond (you_are (Suc n))) #
    replicate 4 (handle_connection X (respond (hello_comma (Suc n))))"
proof -
  have "(\<lambda>conn. forget (serve \<lparr>rc_borrow = Unused, rc_value = n\<rparr> conn)) = handle_connection X (respond (g (Suc n)))"
    if "serve = (\<lambda>index conn. counted (count_refcell index) (\<lambda>k. handle_connection X (respond (g k))) conn)" for serve g
    using assms that by (intro ext) (simp add: count_refcell_def)
  note rc = this
  have "(\<lambda>conn. forget (serve \<lparr>sm_poisoned = False, sm_value = n\<rparr> conn)) = handle_connection X (respond (g (Suc n)))"
    if "serve = (\<lambda>data conn. counted (count_mutex data) (\<lambda>k. handle_connection X (respond (g k))) conn)" for serve g
    using assms that by (intro ext) (simp add: count_mutex_def)
  note mx = this
  have "unsend_lock X = (\<lambda>index conn. counted (count_refcell index) (\<lambda>k. handle_connection X (respond (you_are k))) conn)"
    "smol_local_lock X = (\<lambda>index conn. counted (count_refcell index) (\<lambda>k. handle_connection X (respond (hello_comma k))) conn)"
    "tokio_local_lock X = (\<lambda>index conn. counted (count_refcell index) (\<lambda>k. handle_connection X (respond (hello_comma k))) conn)"
    "smol_lock X = (\<lambda>data conn. counted (count_mutex data) (\<lambda>k. handle_connection X (respond (hello_comma k))) conn)"
    "tokio_lock X = (\<lambda>data conn. counted (count_mutex data) (\<lambda>k. handle_connection X (respond (hello_comma k))) conn)"
    by (intro ext, simp add: unsend_lock_def smol_local_lock_def tokio_local_lock_def smol_lock_def tokio_lock_def)+
  from rc [OF this(1)] rc [OF this(2)] rc [OF this(3)] mx [OF this(4)] mx [OF this(5)]
  show ?thesis by (simp add: lock_servers_def numeral_eq_Suc)
qed

lemma servers_handle:
  assumes "serve \<in> set (hello_servers X @ lock_servers X n)" and "n < u64_max"
  obtains g where "g \<in> greetings n" and "serve = handle_connection X g"
proof -
  consider "serve \<in> set (hello_servers X)" | "serve \<in> set (lock_servers X n)" using assms(1) by auto
  then show thesis
  proof cases
    case 1
    with that [OF _ hello_servers_handle [OF 1]] show ?thesis by (simp add: greetings_def)
  next
    case 2
    then show ?thesis using that lock_servers_eq [OF assms(2), of X] by (auto simp: greetings_def)
  qed
qed

text \<open>Each handler with what it answers to a request without a body.\<close>

definition greeted_servers ::
  "('c, 'b, 'e, 'p) http \<Rightarrow> u64 \<Rightarrow> (('c \<Rightarrow> (('e, 'p) ended \<times> 'c) option) \<times> byte list list) list" where
  "greeted_servers X n =
     [(unsend_hello X, hello), (smol_hello X, hello), (smol_local_hello X, hello), (tokio_hello X, hello),
      (tokio_local_hello X, hello),
      (\<lambda>conn. forget (unsend_lock X \<lparr>rc_borrow = Unused, rc_value = n\<rparr> conn), respond (you_are (Suc n))),
      (\<lambda>conn. forget (smol_local_lock X \<lparr>rc_borrow = Unused, rc_value = n\<rparr> conn), respond (hello_comma (Suc n))),
      (\<lambda>conn. forget (tokio_local_lock X \<lparr>rc_borrow = Unused, rc_value = n\<rparr> conn), respond (hello_comma (Suc n))),
      (\<lambda>conn. forget (smol_lock X \<lparr>sm_poisoned = False, sm_value = n\<rparr> conn), respond (hello_comma (Suc n))),
      (\<lambda>conn. forget (tokio_lock X \<lparr>sm_poisoned = False, sm_value = n\<rparr> conn), respond (hello_comma (Suc n)))]"

lemma greeted_servers_handle:
  assumes "(serve, g) \<in> set (greeted_servers X n)" and "n < u64_max"
  shows "serve = handle_connection X g"
proof -
  have "serve = handle_connection X hello" if "serve \<in> set (hello_servers X)" for serve
    by (rule hello_servers_handle [OF that])
  moreover have "lock_servers X n = handle_connection X (respond (you_are (Suc n))) #
      replicate 4 (handle_connection X (respond (hello_comma (Suc n))))"
    by (rule lock_servers_eq [OF assms(2)])
  ultimately show ?thesis using assms(1)
    by (auto simp: greeted_servers_def hello_servers_def lock_servers_def numeral_eq_Suc)
qed

lemma length_to_string: "n < 10 ^ Suc k \<Longrightarrow> length (to_string n) \<le> Suc k"
proof (induction k arbitrary: n)
  case (Suc k)
  then have "n div 10 < 10 ^ Suc k" by simp
  from Suc.IH [OF this] show ?case by (subst to_string.simps) simp
qed (simp add: to_string.simps)

lemma respond_greeting:
  assumes "bss \<in> answers g" and "g \<in> greetings n" and "n < u64_max"
  shows "\<exists>body. length body \<le> usize_max \<and> concat bss = concat (respond body)"
proof -
  have "length (you_are (Suc n)) \<le> usize_max" "length (hello_comma (Suc n)) \<le> usize_max"
    using length_to_string [of "Suc n" 19] assms(3) by (simp_all add: u64_max_def you_are_def hello_comma_def usize_max_def)
  moreover obtain w where "length w \<le> usize_max" "concat hello = concat (respond w)"
    by (rule that [OF _ hello_respond]) (simp add: usize_max_def)
  ultimately show ?thesis using assms(1,2) by (auto simp: answers_def greetings_def)
qed

end
