(* ===== verification/HttpProperties.thy ===== *)
theory HttpProperties
  imports HttpAnswers
begin

text \<open>
  Connections as lists of bytes that may fail after some operations, and a request parser on them,
  as an instance of the interface; then the properties of the servers.
\<close>

section \<open>Connections in memory\<close>

text \<open>What is to be read, what was written, and after how many operations it fails (if ever).\<close>

record stream =
  st_incoming :: "byte list"
  st_written :: "byte list"
  st_fails :: "nat option"

text \<open>One operation that succeeds.\<close>

definition st_tick :: "stream \<Rightarrow> stream option" where
  "st_tick s =
     (case st_fails s of
        None \<Rightarrow> Some s
      | Some 0 \<Rightarrow> None
      | Some (Suc k) \<Rightarrow> Some (s\<lparr>st_fails := Some k\<rparr>))"

text \<open>Read a prefix of what there is.\<close>

definition st_read ::
  "(byte list \<Rightarrow> byte list) \<Rightarrow> byte list \<Rightarrow> stream \<Rightarrow> (unit + usize) \<times> byte list \<times> stream" where
  "st_read f data s =
     (case st_tick s of
        None \<Rightarrow> (Inl (), data, s)
      | Some s' \<Rightarrow>
          let xs = f (st_incoming s) in
          (Inr (length xs), data @ xs, s'\<lparr>st_incoming := drop (length xs) (st_incoming s)\<rparr>))"

definition st_write :: "byte list \<Rightarrow> stream \<Rightarrow> (unit + unit) \<times> stream" where
  "st_write bs s =
     (case st_tick s of
        None \<Rightarrow> (Inl (), s)
      | Some s' \<Rightarrow> (Inr (), s'\<lparr>st_written := st_written s @ bs\<rparr>))"

text \<open>Headers: lines with a colon, at most \<open>k\<close> of them, up to an empty line.\<close>

definition strip :: "byte list \<Rightarrow> byte list" where
  "strip v = rev (dropWhile (\<lambda>b. b \<in> {9, 32}) (rev (dropWhile (\<lambda>b. b \<in> {9, 32}) v)))"

definition header_of :: "byte list \<Rightarrow> byte list \<times> byte list" where
  "header_of l =
     (let name = takeWhile (\<lambda>b. b \<noteq> 58) l in
      (name, strip (drop (Suc (length name)) (take (length l - 2) l))))"

fun headers_of :: "nat \<Rightarrow> byte list \<Rightarrow> unit + (byte list \<times> byte list) list" where
  "headers_of k xs =
     (if take 2 xs = crlf then Inr []
      else case k of
        0 \<Rightarrow> Inl ()
      | Suc j \<Rightarrow>
          let l = upto_byte 10 xs in
          (case headers_of j (drop (length l) xs) of
             Inl e \<Rightarrow> Inl e
           | Inr hs \<Rightarrow> Inr (header_of l # hs)))"

declare headers_of.simps [simp del]

definition list_http :: "(stream, stream, unit, unit) http" where
  "list_http =
     \<lparr>buf_reader = (\<lambda>s. s), into_conn = (\<lambda>s. s),
      read_until = (\<lambda>d. st_read (upto_byte d)), take_to_end = (\<lambda>n. st_read (take n)),
      write_all = st_write,
      parse_request = (\<lambda>xs. headers_of 16 (drop (length (upto_byte 10 xs)) xs))\<rparr>"

lemma strip_value:
  assumes "v \<noteq> [] \<longrightarrow> hd v \<notin> {9, 32} \<and> last v \<notin> {9, 32}"
  shows "strip (32 # v) = v"
proof -
  have "dropWhile (\<lambda>b. b \<in> {9, 32}) v = v" "dropWhile (\<lambda>b. b \<in> {9, 32}) (rev v) = rev v"
    using assms by (auto simp: dropWhile_eq_self_iff hd_rev)
  then show ?thesis by (simp add: strip_def)
qed

lemma header_of_line:
  assumes "wf_header h"
  shows "header_of (header_line h) = h"
proof -
  have c: "58 \<notin> set (fst h)"
    using assms by (auto simp: wf_header_def list_all_iff token_byte_def is_digit_def bytes_def)
  have l: "header_line h = fst h @ 58 # 32 # snd h @ crlf" by (simp add: header_line_def bytes_def)
  have "takeWhile (\<lambda>b. b \<noteq> 58) (header_line h) = fst h" using c by (simp add: l takeWhile_append)
  moreover have "take (length (header_line h) - 2) (header_line h) = fst h @ 58 # 32 # snd h"
    by (simp add: l crlf_def)
  ultimately show ?thesis using strip_value [of "snd h"] assms
    by (simp add: header_of_def wf_header_def Let_def prod_eq_iff)
qed

lemma full_header_line: "wf_header h \<Longrightarrow> full_line (header_line h)"
  using full_lines [of "[65]" "[65]" "[h]"] by (simp add: wf_request_def token_byte_def target_byte_def)

lemma headers_of_lines:
  assumes "list_all wf_header hs" and "length hs \<le> k"
  shows "headers_of k (concat (map header_line hs) @ crlf) = Inr hs"
  using assms
proof (induction hs arbitrary: k)
  case Nil
  then show ?case by (simp add: headers_of.simps [of k] crlf_def)
next
  case (Cons h hs)
  then obtain j where k: "k = Suc j" by (cases k) auto
  have h: "wf_header h" using Cons.prems by simp
  then obtain b n where b: "fst h = b # n" "token_byte b" by (cases "fst h") (auto simp: wf_header_def)
  have "b \<noteq> 13" using b(2) by (auto simp: token_byte_def is_digit_def bytes_def)
  with b(1) have "take 2 (header_line h @ xs) \<noteq> crlf" for xs by (simp add: header_line_def crlf_def)
  then show ?case
    using Cons.IH [of j] Cons.prems k header_of_line [OF h] full_line_upto [OF full_header_line [OF h]]
    by (subst headers_of.simps) (simp add: Let_def del: take_append)
qed

interpretation streams: http_parser list_http st_incoming st_written st_incoming st_written
  "\<lambda>s. st_fails s = None" "\<lambda>s. st_fails s = None"
proof unfold_locales
  fix m p hs
  assume wf: "wf_request m p hs" and n: "length (hs :: (byte list \<times> byte list) list) \<le> 16"
  have "full_line (request_line m p)" using full_lines [OF wf] by simp
  from full_line_upto [OF this] headers_of_lines [OF _ n] wf
  show "parse_request list_http (request_head m p hs) = Inr hs"
    by (simp add: list_http_def request_head_def wf_request_def)
qed (auto simp: list_http_def st_read_def st_write_def st_tick_def Let_def split: option.splits nat.splits)

text \<open>A request of a client: its head is followed by a body of two bytes.\<close>

definition post :: stream where
  "post = \<lparr>st_incoming = request_head (bytes ''POST'') (bytes ''/'') [(bytes ''content-length'', bytes ''2'')] @ bytes ''ok'',
     st_written = [], st_fails = None\<rparr>"

lemma wf_post: "wf_request (bytes ''POST'') (bytes ''/'') [(bytes ''content-length'', bytes ''2'')]"
  by (simp add: wf_request_def wf_header_def bytes_def token_byte_def target_byte_def value_byte_def is_digit_def)

lemma post_find:
  "eq_ignore_ascii_case (bytes ''content-length'') (bytes ''Content-Length'')"
  "parse_usize (bytes ''2'') = Some 2" "utf8_valid (bytes ''2'')"
  by (simp_all add: eq_ignore_ascii_case_def to_ascii_lowercase_def bytes_def parse_usize_def usize_max_def Let_def)

section \<open>Properties\<close>

text \<open>
  C19: Handlers end and frame what they send. On every finite input, whatever fails, each of the ten handlers
  returns or panics (its loop ends), and what it has written by then is the beginning of one response; when it returns
  \<open>Ok\<close> that is the whole response: a client that parses it finds the body and nothing after it.
\<close>

theorem http_answers:
  assumes "http_io X incoming written b_incoming b_written healthy b_healthy"
    and "n < u64_max" and "serve \<in> set (hello_servers X @ lock_servers X n)"
  shows "\<exists>r c' body k. serve c = Some (r, c') \<and> written c' = written c @ take k (concat (respond body)) \<and>
    (r = Inr (Inr ()) \<longrightarrow> parse_response (drop (length (written c)) (written c')) = Some (body, []))"
proof -
  from servers_handle [OF assms(3,2)] obtain g where g: "g \<in> greetings n" "serve = handle_connection X g" .
  show ?thesis
  proof (rule http_io.handle_cases [OF assms(1), of g c])
    fix e c' assume "handle_connection X g c = Some (Inr (Inl e), c')" "written c' = written c"
    with g(2) show ?thesis by (auto intro: exI [of _ "0 :: nat"])
  next
    fix data b
    assume "handle_connection X g c = Some (Inl (Panic Unwrap_err), into_conn X b)" "written (into_conn X b) = written c"
    with g(2) show ?thesis by (auto intro: exI [of _ "0 :: nat"])
  next
    fix bss c1
    assume b: "bss \<in> answers g" and w: "written c1 = written c" and h: "handle_connection X g c = Some (write_each X bss c1)"
    obtain r c' where e: "write_each X bss c1 = (r, c')" by fastforce
    from respond_greeting [OF b g(1) assms(2)] obtain body where
      body: "length body \<le> usize_max" "concat bss = concat (respond body)" by blast
    from http_io.writes_prefix [OF assms(1) e] obtain k where "written c' = written c @ take k (concat (respond body))"
      using w body(2) by auto
    moreover have "parse_response (drop (length (written c)) (written c')) = Some (body, [])" if "r = Inr (Inr ())"
      using http_io.writes_done [OF assms(1), of bss c1 c'] e that w body parse_respond [of body "[]"] by simp
    ultimately show ?thesis using h g(2) e by auto
  qed
qed

theorem http_answers_witness:
  "\<exists>r c' body k. smol_lock list_http \<lparr>sm_poisoned = False, sm_value = 7\<rparr> (post\<lparr>st_fails := Some 5\<rparr>) =
     Some (r, c', \<lparr>sm_poisoned = False, sm_value = 8\<rparr>) \<and> st_written c' = take k (concat (respond body))"
proof -
  have "(\<lambda>conn. forget (smol_lock list_http \<lparr>sm_poisoned = False, sm_value = 7\<rparr> conn))
    \<in> set (hello_servers list_http @ lock_servers list_http 7)" by (simp add: lock_servers_def)
  from http_answers [OF streams.http_io_axioms _ this, of "post\<lparr>st_fails := Some 5\<rparr>"]
  show ?thesis
    by (fastforce simp: post_def u64_max_def smol_lock_def count_mutex_def counted_def forget_def)
qed

text \<open>
  C20: What a handler does with a well-formed request of at most sixteen headers, on a connection that does not
  fail. Without a length, or with the length zero, it answers with its own greeting (a constant, or one that numbers the
  visitor when \<open>n\<close> were counted before); a body of \<open>k\<close> bytes is echoed, the
  \<open>k\<close> bytes that follow the head or all there are; a length that is text but no number is an error, without an
  answer; and a length that is not UTF-8 (\<open>httparse\<close> accepts such values) makes it panic.
\<close>

theorem http_request:
  assumes "http_parser X incoming written b_incoming b_written healthy b_healthy"
    and "n < u64_max" and "(serve, g) \<in> set (greeted_servers X n)"
    and "healthy c" and "incoming c = request_head m p hs @ rest" and "wf_request m p hs"
    and "length hs \<le> 16"
  shows "\<exists>r c'. serve c = Some (r, c') \<and>
    (case find (\<lambda>(name, value). eq_ignore_ascii_case name (bytes ''Content-Length'')) hs of
       None \<Rightarrow> r = Inr (Inr ()) \<and> written c' = written c @ concat g
     | Some (name, value) \<Rightarrow>
         if \<not> utf8_valid value then r = Inl (Panic Unwrap_err) \<and> written c' = written c
         else
           (case parse_usize value of
              None \<Rightarrow> r = Inr (Inl Int_error) \<and> written c' = written c
            | Some k \<Rightarrow> r = Inr (Inr ()) \<and>
                written c' = written c @ concat (if k = 0 then g else respond (take k rest))))"
proof -
  note g = greeted_servers_handle [OF assms(3,2)]
  note bad = http_parser.handle_bad_length [OF assms(1,4-7), of _ _ g]
  note good = http_parser.handle_request [OF assms(1,4-7), of _ g]
  show ?thesis
  proof (cases "content_length hs")
    case None
    then obtain name v where f: "find (\<lambda>(name, value). eq_ignore_ascii_case name (bytes ''Content-Length'')) hs = Some (name, v)"
      "parse_usize v = None" by (auto simp: content_length_def split: option.splits)
    with bad g show ?thesis by (cases "utf8_valid v") auto
  next
    case (Some k)
    from good [OF Some] obtain c' where c': "handle_connection X g c = Some (Inr (Inr ()), c')"
      "written c' = written c @ concat (if k = 0 then g else respond (take k rest))" by blast
    with Some g parse_usize_utf8 show ?thesis
      by (auto simp: content_length_def split: option.splits)
  qed
qed

theorem http_request_witness:
  "let evil = [(bytes ''Content-Length'', [0xFF])];
       conn = (\<lambda>hs. \<lparr>st_incoming = request_head (bytes ''GET'') (bytes ''/'') hs, st_written = [], st_fails = None\<rparr>)
   in (\<exists>c'. unsend_hello list_http (conn evil) = Some (Inl (Panic Unwrap_err), c') \<and> st_written c' = []) \<and>
     (\<exists>c'. unsend_hello list_http post = Some (Inr (Inr ()), c') \<and> st_written c' = concat (respond (bytes ''ok''))) \<and>
     (\<exists>c'. forget (unsend_lock list_http \<lparr>rc_borrow = Unused, rc_value = 41\<rparr> (conn [])) = Some (Inr (Inr ()), c') \<and>
       st_written c' = concat (respond (you_are 42)))"
proof -
  let ?evil = "[(bytes ''Content-Length'', [0xFF :: byte])]"
  let ?conn = "\<lambda>hs. \<lparr>st_incoming = request_head (bytes ''GET'') (bytes ''/'') hs, st_written = [], st_fails = None\<rparr>"
  have s: "(unsend_hello list_http, hello) \<in> set (greeted_servers list_http 0)"
    "(\<lambda>conn. forget (unsend_lock list_http \<lparr>rc_borrow = Unused, rc_value = 41\<rparr> conn), respond (you_are (Suc 41)))
      \<in> set (greeted_servers list_http 41)" unfolding greeted_servers_def by (simp, simp)
  have wf: "wf_request (bytes ''GET'') (bytes ''/'') ?evil" "wf_request (bytes ''GET'') (bytes ''/'') []"
    by (simp_all add: wf_request_def wf_header_def bytes_def token_byte_def target_byte_def value_byte_def is_digit_def)
  have "\<exists>c'. unsend_hello list_http post = Some (Inr (Inr ()), c') \<and> st_written c' = concat (respond (bytes ''ok''))"
    using http_request [OF streams.http_parser_axioms _ s(1) _ _ wf_post, of post "bytes ''ok''"] post_find
    by (auto simp: post_def u64_max_def)
  moreover have "\<exists>c'. unsend_hello list_http (?conn ?evil) = Some (Inl (Panic Unwrap_err), c') \<and> st_written c' = []"
    using http_request [OF streams.http_parser_axioms _ s(1) _ _ wf(1), of "?conn ?evil" "[]"] by (simp add: u64_max_def)
  moreover have "\<exists>c'. forget (unsend_lock list_http \<lparr>rc_borrow = Unused, rc_value = 41\<rparr> (?conn [])) = Some (Inr (Inr ()), c') \<and>
      st_written c' = concat (respond (you_are 42))"
    using http_request [OF streams.http_parser_axioms _ s(2) _ _ wf(2), of "?conn []" "[]"] by (simp add: u64_max_def)
  ultimately show ?thesis by (simp add: Let_def)
qed

text \<open>Connections whose handlers of \<open>unsend-lock\<close> are first polled in the order of a list.\<close>

fun unsend_lock_all ::
  "('c, 'b, 'e, 'p) http \<Rightarrow> refcell \<Rightarrow> 'c list \<Rightarrow> ((('e, 'p) ended \<times> 'c) list \<times> refcell) option" where
  "unsend_lock_all X index [] = Some ([], index)"
| "unsend_lock_all X index (c # cs) =
     (case unsend_lock X index c of
        None \<Rightarrow> None
      | Some (r, c', index') \<Rightarrow>
          map_option (\<lambda>(rs, index''). ((r, c') # rs, index'')) (unsend_lock_all X index' cs))"

text \<open>
  Visitors are numbered in the order of their first polls. If each of some connections asks
  for no body, the \<open>i\<close>th handler of \<open>unsend-lock\<close> answers with the number of visitors before all of them
  plus \<open>i\<close>, and the counter is free again and has grown by their number (short of an overflow).
\<close>

theorem http_visitors:
  assumes "http_parser X incoming written b_incoming b_written healthy b_healthy"
    and "n + length cs \<le> u64_max"
    and "\<forall>c \<in> set cs. healthy c \<and> (\<exists>m p hs rest. incoming c = request_head m p hs @ rest \<and> wf_request m p hs \<and>
      length hs \<le> 16 \<and> content_length hs = Some 0)"
  shows "\<exists>rs. unsend_lock_all X \<lparr>rc_borrow = Unused, rc_value = n\<rparr> cs =
        Some (rs, \<lparr>rc_borrow = Unused, rc_value = n + length cs\<rparr>) \<and> length rs = length cs \<and>
      (\<forall>i < length cs. \<exists>c'. rs ! i = (Inr (Inr ()), c') \<and>
        written c' = written (cs ! i) @ concat (respond (you_are (Suc (n + i)))))"
  using assms(2,3)
proof (induction cs arbitrary: n)
  case (Cons c cs)
  from Cons.prems(2) obtain m p hs rest where
    c: "healthy c" "incoming c = request_head m p hs @ rest" "wf_request m p hs" "length hs \<le> 16"
      "content_length hs = Some 0" by auto
  from http_parser.handle_request [OF assms(1) c, of "respond (you_are (Suc n))"] obtain c' where
    "handle_connection X (respond (you_are (Suc n))) c = Some (Inr (Inr ()), c')"
    "written c' = written c @ concat (respond (you_are (Suc n)))" by auto
  with Cons.IH [of "Suc n"] Cons.prems show ?case
    by (auto simp: unsend_lock_def count_refcell_def counted_def less_Suc_eq_0_disj)
qed simp

theorem http_visitors_witness:
  "let get = \<lparr>st_incoming = request_head (bytes ''GET'') (bytes ''/'') [], st_written = [], st_fails = None\<rparr>
   in \<exists>rs index. unsend_lock_all list_http \<lparr>rc_borrow = Unused, rc_value = 41\<rparr> [get, get] = Some (rs, index) \<and>
     rc_value index = 43 \<and> st_written (snd (rs ! 1)) = concat (respond (you_are 43))"
proof -
  let ?get = "\<lparr>st_incoming = request_head (bytes ''GET'') (bytes ''/'') [], st_written = [], st_fails = None\<rparr>"
  have "wf_request (bytes ''GET'') (bytes ''/'') []"
    by (simp add: wf_request_def bytes_def token_byte_def target_byte_def is_digit_def)
  then have g: "\<forall>c \<in> set [?get, ?get]. st_fails c = None \<and> (\<exists>m p hs rest. st_incoming c = request_head m p hs @ rest \<and>
      wf_request m p hs \<and> length hs \<le> 16 \<and> content_length hs = Some 0)"
    by (fastforce simp: content_length_def)
  show ?thesis
    using http_visitors [OF streams.http_parser_axioms _ g, of 41] by (fastforce simp: u64_max_def)
qed

end
