(* ===== verification/TaskWorld.thy ===== *)
theory TaskWorld
  imports ExecutorSystem
begin

text \<open>
  Tasks of one executor (\<open>src/executor.rs\<close>) that share an object with events: a lock, a semaphore, a cell, a
  barrier, a channel. A task that waits leaves its waker in the event; a notification wakes that waker, which
  schedules the runnable of the task; a runner of the executor takes it and polls the task, which polls its
  future. The theory shows, for every object that satisfies the locale \<open>client\<close>, that this circle does
  not break: no wakeup is lost between the two components.
\<close>

section \<open>Tasks\<close>

text \<open>
  The state of a task is kept by the crate \<open>async_task\<close>, which is not part of the repository: its
  operations are parameters. \<open>tk_wake\<close> and \<open>tk_pending\<close> (the future returned \<open>Pending\<close>) tell whether
  they call the schedule function with the runnable.
\<close>

record 't task_ops =
  tk_new :: 't
  tk_wake :: "'t \<Rightarrow> bool \<times> 't"
  tk_run :: "'t \<Rightarrow> 't"
  tk_pending :: "'t \<Rightarrow> bool \<times> 't"
  tk_ready :: "'t \<Rightarrow> 't"

text \<open>
  Its documented behaviour. A task is idle, has a runnable that is scheduled, runs, runs and has been woken
  since it started to, or is completed. There is one runnable for a task at a time: waking a task that
  is scheduled does nothing, and a task woken while it runs is scheduled when it returns \<open>Pending\<close>.
\<close>

datatype phase = Idle | Scheduled | Running | Rewoken | Completed

fun woken_phase :: "phase \<Rightarrow> phase" where
  "woken_phase Idle = Scheduled"
| "woken_phase Running = Rewoken"
| "woken_phase p = p"

locale tasks =
  fixes T :: "'t task_ops" and phase :: "'t \<Rightarrow> phase"
  assumes task_new: "phase (tk_new T) = Scheduled"
    and task_wake: "\<exists>t'. tk_wake T t = (phase t = Idle, t') \<and> phase t' = woken_phase (phase t)"
    and task_run: "phase t = Scheduled \<Longrightarrow> phase (tk_run T t) = Running"
    and task_pending: "phase t = Running \<or> phase t = Rewoken \<Longrightarrow>
      \<exists>t'. tk_pending T t = (phase t = Rewoken, t') \<and> phase t' = (if phase t = Rewoken then Scheduled else Idle)"
    and task_ready: "phase (tk_ready T t) = Completed"

text \<open>The phases themselves are such tasks.\<close>

definition phase_tasks :: "phase task_ops" where
  "phase_tasks =
     \<lparr>tk_new = Scheduled, tk_wake = (\<lambda>p. (p = Idle, woken_phase p)), tk_run = (\<lambda>p. Running),
      tk_pending = (\<lambda>p. (p = Rewoken, if p = Rewoken then Scheduled else Idle)), tk_ready = (\<lambda>p. Completed)\<rparr>"

declare phase_tasks_def [evals]

interpretation phases: tasks phase_tasks "\<lambda>p. p"
  by unfold_locales (simp_all add: phase_tasks_def)

section \<open>Shared objects\<close>

text \<open>
  The system of the object and its futures, with the log of the wakers woken.
\<close>

record ('c, 'op, 'w) client =
  cl_enabled :: "'op \<Rightarrow> 'c \<Rightarrow> bool"
  cl_exec :: "'op \<Rightarrow> 'c \<Rightarrow> 'c outcome"
  cl_access :: "'op \<Rightarrow> 'w access"
  cl_futs :: "'c \<Rightarrow> addr \<rightharpoonup> fut"
  cl_woken :: "'c \<Rightarrow> 'w list"

definition no_pool :: "'w pool" where
  "no_pool = \<lparr>po_waiting = {}, po_notified = {}\<rparr>"

locale client =
  fixes C :: "('c, 'op, 'w) client"
    and rep :: "'c \<Rightarrow> 'w pool \<Rightarrow> bool"
    and c0 :: 'c
  assumes client_start: "rep c0 no_pool" "cl_futs C c0 a = None"
    and client_step: "rep c P \<Longrightarrow> cl_enabled C op c \<Longrightarrow> \<exists>c' P' ws. cl_exec C op c = Inr c' \<and> rep c' P' \<and>
      cl_woken C c' = cl_woken C c @ ws \<and> moves (cl_access C op) ws P P'"
    and client_listed: "rep c P \<Longrightarrow> a \<in> fst ` po_waiting P \<union> po_notified P \<Longrightarrow> cl_futs C c a = Some Suspended"
    and client_owned: "cl_enabled C op c \<Longrightarrow> cl_exec C op c = Inr c' \<Longrightarrow> cl_futs C c' a \<noteq> None \<Longrightarrow>
      cl_futs C c a \<noteq> None \<or> cl_access C op = Creates a"
    and client_fresh: "cl_enabled C op c \<Longrightarrow> cl_access C op = Creates a \<Longrightarrow> cl_futs C c a = None"

text \<open>An object with one event, whose invariant speaks about its queue.\<close>

definition on_queue :: "('c \<Rightarrow> ('g, 'w) queue \<Rightarrow> bool) \<Rightarrow> 'c \<Rightarrow> 'w pool \<Rightarrow> bool" where
  "on_queue qinv c P \<longleftrightarrow> (\<exists>q. qinv c q \<and> P = pool q)"

lemma client_queueI:
  fixes C :: "('c, 'op, 'w) client"
  assumes start: "qinv c0 q_empty" "\<And>a. cl_futs C c0 a = None"
    and step: "\<And>c q op. qinv c q \<Longrightarrow> cl_enabled C op c \<Longrightarrow> \<exists>c' q' ws. cl_exec C op c = Inr c' \<and> qinv c' q' \<and>
      cl_woken C c' = cl_woken C c @ ws \<and> moves (cl_access C op) ws (pool q) (pool q')"
    and listed: "\<And>c q a. qinv c q \<Longrightarrow> a \<in> set (q_addrs q) \<Longrightarrow> cl_futs C c a = Some Suspended"
    and owned: "\<And>op c c' a. cl_enabled C op c \<Longrightarrow> cl_exec C op c = Inr c' \<Longrightarrow> cl_futs C c' a \<noteq> None \<Longrightarrow>
      cl_futs C c a \<noteq> None \<or> cl_access C op = Creates a"
    and fresh: "\<And>op c a. cl_enabled C op c \<Longrightarrow> cl_access C op = Creates a \<Longrightarrow> cl_futs C c a = None"
  shows "client C (on_queue qinv) c0"
proof
  have "pool q_empty = no_pool" by (simp add: pool_def q_empty_def no_pool_def)
  with start(1) show "on_queue qinv c0 no_pool" unfolding on_queue_def by metis
  show "on_queue qinv c P \<Longrightarrow> a \<in> fst ` po_waiting P \<union> po_notified P \<Longrightarrow> cl_futs C c a = Some Suspended" for c P a
    unfolding on_queue_def by (rule exE, assumption, rule listed) (auto simp: pool_def q_addrs_def)
next
  fix c P op assume "on_queue qinv c P" and en: "cl_enabled C op c"
  then obtain q where q: "qinv c q" "P = pool q" by (auto simp: on_queue_def)
  from step [OF q(1) en] q(2) show "\<exists>c' P' ws. cl_exec C op c = Inr c' \<and> on_queue qinv c' P' \<and>
      cl_woken C c' = cl_woken C c @ ws \<and> moves (cl_access C op) ws P P'"
    unfolding on_queue_def by blast
qed (use start(2) owned fresh in blast)+

lemma on_queue_notified:
  "on_queue qinv c P \<Longrightarrow> (\<And>q. qinv c q \<Longrightarrow> a \<in> fst ` set (q_notified q)) \<Longrightarrow> a \<in> po_notified P"
  by (auto simp: on_queue_def pool_def)

lemma on_queueE:
  assumes "on_queue qinv c P"
  obtains q where "qinv c q"
  using assms by (auto simp: on_queue_def)

section \<open>The world\<close>

text \<open>
  The executor with its runners, the shared object with its futures, the tasks, and who created each future;
  the task that runs, and which futures it has polled in this run. Runs do not nest.
\<close>

record ('q, 'a, 's, 'r, 'w, 'th, 'c, 't) world =
  wo_exec :: "('q, 'a, 's, 'r, 'w, 'th) exec_sys"
  wo_shared :: 'c
  wo_tasks :: "'r \<rightharpoonup> 't"
  wo_owner :: "addr \<rightharpoonup> 'r"
  wo_current :: "'r option"
  wo_polled :: "addr set"

definition world_init ::
  "('q, 'a, 's, 'r, 'w) externs \<Rightarrow> 'th ThreadId \<Rightarrow> 'th \<Rightarrow> 'c \<Rightarrow> ('q, 'a, 's, 'r, 'w, 'th, 'c, 't) world" where
  "world_init X tid th0 c0 =
     \<lparr>wo_exec = exec_init X tid th0, wo_shared = c0, wo_tasks = Map.empty, wo_owner = Map.empty,
      wo_current = None, wo_polled = {}\<rparr>"

text \<open>
  The steps: a task is spawned; somebody wakes a task on the thread \<open>th\<close> (for reasons of its own); an operation of the
  executor or a runner, which may start to run a task; an operation on the shared object, by the running task or, if
  it is not one of a future, by anybody; the running task returns \<open>Pending\<close>, or completes.
\<close>

datatype ('r, 'w, 'th, 'op) world_op =
    WSpawn 'r
  | WWake 'th 'r
  | WExec "('r, 'w, 'th) exec_op"
  | WShared 'op
  | WPending
  | WReady

text \<open>
  A task uses its own futures, and polls them with its own waker; the scheduler is called by wakers only, and no
  runner is polled while a task runs.
\<close>

fun own_access ::
  "('q, 'a, 's, 'r, 'w) externs \<Rightarrow> ('q, 'a, 's, 'r, 'w, 'th, 'c, 't) world \<Rightarrow> 'w access \<Rightarrow> bool" where
  "own_access X W (Creates a) \<longleftrightarrow> wo_current W \<noteq> None"
| "own_access X W (Polls a w) \<longleftrightarrow> (\<exists>r. wo_current W = Some r \<and> wo_owner W a = Some r \<and> w = rn_waker X r)"
| "own_access X W (Drops a) \<longleftrightarrow> wo_current W \<noteq> None \<and> wo_owner W a = wo_current W"
| "own_access X W Uses \<longleftrightarrow> True"

fun runner_op :: "bool \<Rightarrow> ('r, 'w, 'th) exec_op \<Rightarrow> bool" where
  "runner_op running (ESchedule th r) \<longleftrightarrow> False"
| "runner_op running (ESpawn r) \<longleftrightarrow> False"
| "runner_op running ETry_tick \<longleftrightarrow> \<not> running"
| "runner_op running (EPoll a w) \<longleftrightarrow> \<not> running"
| "runner_op running op \<longleftrightarrow> True"

text \<open>
  A task that returns \<open>Pending\<close> has polled every future that it awaits; one that completes has
  dropped its futures.
\<close>

definition world_enabled ::
  "('c, 'op, 'w) client \<Rightarrow> ('q, 'a, 's, 'r, 'w) externs \<Rightarrow> ('r, 'w, 'th, 'op) world_op \<Rightarrow> ('q, 'a, 's, 'r, 'w, 'th, 'c, 't) world
     \<Rightarrow> bool" where
  "world_enabled C X op W =
     (case op of
        WSpawn r \<Rightarrow> wo_tasks W r = None
      | WWake th r \<Rightarrow> True
      | WExec e \<Rightarrow> exec_enabled X e (wo_exec W) \<and> runner_op (wo_current W \<noteq> None) e
      | WShared m \<Rightarrow> cl_enabled C m (wo_shared W) \<and> own_access X W (cl_access C m)
      | WPending \<Rightarrow> wo_current W \<noteq> None \<and>
          (\<forall>a. wo_owner W a = wo_current W \<and> cl_futs C (wo_shared W) a = Some Suspended \<longrightarrow> a \<in> wo_polled W)
      | WReady \<Rightarrow> wo_current W \<noteq> None \<and>
          (\<forall>a. wo_owner W a = wo_current W \<longrightarrow> cl_futs C (wo_shared W) a = None))"

text \<open>To evaluate these conditions: case distinctions on the address.\<close>

lemma if_Some_eq: "((if c then Some x else z) = Some y) \<longleftrightarrow> c \<and> x = y \<or> \<not> c \<and> z = Some y"
  by simp

lemmas address_cases = if_Some_eq conj_disj_distribR imp_disjL all_conj_distrib

text \<open>Waking a task, on the thread \<open>th\<close>, may schedule it; other wakers are not modelled here.\<close>

definition wake_task ::
  "('q, 'a, 's, 'r, 'w) externs \<Rightarrow> 't task_ops \<Rightarrow> 'th \<Rightarrow> 'th \<Rightarrow> 'r \<Rightarrow> ('q, 'a, 's, 'r, 'w, 'th, 'c, 't) world
     \<Rightarrow> ('q, 'a, 's, 'r, 'w, 'th, 'c, 't) world outcome" where
  "wake_task X T th0 th r W =
     (case wo_tasks W r of
        None \<Rightarrow> Inr W
      | Some t \<Rightarrow>
          (case tk_wake T t of
             (sched, t') \<Rightarrow>
               let tasks = (wo_tasks W)(r \<mapsto> t') in
               if sched
               then andThen (exec_exec X th0 (ESchedule th r) (wo_exec W)) (\<lambda>s.
                 Inr (W\<lparr>wo_exec := s, wo_tasks := tasks\<rparr>))
               else Inr (W\<lparr>wo_tasks := tasks\<rparr>)))"

fun wake_tasks ::
  "('q, 'a, 's, 'r, 'w) externs \<Rightarrow> 't task_ops \<Rightarrow> 'th \<Rightarrow> 'w list \<Rightarrow> ('q, 'a, 's, 'r, 'w, 'th, 'c, 't) world
     \<Rightarrow> ('q, 'a, 's, 'r, 'w, 'th, 'c, 't) world outcome" where
  "wake_tasks X T th0 [] W = Inr W"
| "wake_tasks X T th0 (w # ws) W =
     andThen (case rn_task X w of None \<Rightarrow> Inr W | Some r \<Rightarrow> wake_task X T th0 th0 r W) (\<lambda>W'.
     wake_tasks X T th0 ws W')"

text \<open>After a step of the executor: the runnable that it has taken, if any, runs.\<close>

definition start_run ::
  "'t task_ops \<Rightarrow> 'r list \<Rightarrow> ('q, 'a, 's, 'r, 'w, 'th, 'c, 't) world \<Rightarrow> ('q, 'a, 's, 'r, 'w, 'th, 'c, 't) world" where
  "start_run T rs W =
     (case rs of
        [] \<Rightarrow> W
      | r # _ \<Rightarrow> W\<lparr>wo_tasks := (wo_tasks W)(r := map_option (tk_run T) (wo_tasks W r)), wo_current := Some r,
          wo_polled := {}\<rparr>)"

definition polled_now :: "'w access \<Rightarrow> addr set" where
  "polled_now acc = (case acc of Polls a w \<Rightarrow> {a} | _ \<Rightarrow> {})"

definition owned_now :: "'r option \<Rightarrow> 'w access \<Rightarrow> addr \<rightharpoonup> 'r" where
  "owned_now current acc = (case acc of Creates a \<Rightarrow> [a \<mapsto> the current] | _ \<Rightarrow> Map.empty)"

definition world_exec ::
  "('c, 'op, 'w) client \<Rightarrow> ('q, 'a, 's, 'r, 'w) externs \<Rightarrow> 't task_ops \<Rightarrow> 'th \<Rightarrow> ('r, 'w, 'th, 'op) world_op
     \<Rightarrow> ('q, 'a, 's, 'r, 'w, 'th, 'c, 't) world \<Rightarrow> ('q, 'a, 's, 'r, 'w, 'th, 'c, 't) world outcome" where
  "world_exec C X T th0 op W =
     (case op of
        WSpawn r \<Rightarrow>
          andThen (exec_exec X th0 (ESpawn r) (wo_exec W)) (\<lambda>s.
          Inr (W\<lparr>wo_exec := s, wo_tasks := (wo_tasks W)(r \<mapsto> tk_new T)\<rparr>))
      | WWake th r \<Rightarrow> wake_task X T th0 th r W
      | WExec e \<Rightarrow>
          andThen (exec_exec X th0 e (wo_exec W)) (\<lambda>s.
          Inr (start_run T (drop (length (es_ran (wo_exec W))) (es_ran s)) (W\<lparr>wo_exec := s\<rparr>)))
      | WShared m \<Rightarrow>
          andThen (cl_exec C m (wo_shared W)) (\<lambda>s.
          wake_tasks X T th0 (drop (length (cl_woken C (wo_shared W))) (cl_woken C s))
            (W\<lparr>wo_shared := s, wo_polled := wo_polled W \<union> polled_now (cl_access C m),
              wo_owner := wo_owner W ++ owned_now (wo_current W) (cl_access C m)\<rparr>))
      | WPending \<Rightarrow>
          (case wo_current W of
             None \<Rightarrow> Inr W
           | Some r \<Rightarrow>
               (case tk_pending T (the (wo_tasks W r)) of
                  (sched, t) \<Rightarrow>
                    let tasks = (wo_tasks W)(r \<mapsto> t) in
                    if sched
                    then andThen (exec_exec X th0 (ESchedule th0 r) (wo_exec W)) (\<lambda>s.
                      Inr (W\<lparr>wo_exec := s, wo_tasks := tasks, wo_current := None\<rparr>))
                    else Inr (W\<lparr>wo_tasks := tasks, wo_current := None\<rparr>)))
      | WReady \<Rightarrow>
          (case wo_current W of
             None \<Rightarrow> Inr W
           | Some r \<Rightarrow> Inr (W\<lparr>wo_tasks := (wo_tasks W)(r := map_option (tk_ready T) (wo_tasks W r)),
               wo_current := None\<rparr>)))"

text \<open>The shared object changes with its own operations only.\<close>

lemma wake_tasks_shared: "wake_tasks X T th0 ws W = Inr W' \<Longrightarrow> wo_shared W' = wo_shared W"
proof (induction ws arbitrary: W)
  case (Cons w ws)
  have "wake_task X T th0 th0 r W = Inr W1 \<Longrightarrow> wo_shared W1 = wo_shared W" for r W1
    by (auto simp: wake_task_def Let_def andThen_Inr_iff split: option.splits prod.splits if_splits)
  with Cons show ?case by (auto simp: andThen_Inr_iff split: option.splits)
qed simp

lemma start_run_shared [simp]: "wo_shared (start_run T rs W) = wo_shared W"
  by (simp add: start_run_def split: list.split)

lemma world_exec_shared:
  assumes "world_exec C X T th0 op W = Inr W'"
  shows "case op of WShared m \<Rightarrow> cl_exec C m (wo_shared W) = Inr (wo_shared W') | _ \<Rightarrow> wo_shared W' = wo_shared W"
  using assms
  by (cases op) (auto simp: world_exec_def wake_task_def Let_def andThen_Inr_iff
    split: option.splits prod.splits if_splits dest!: wake_tasks_shared)

text \<open>
  What ends the run of a task: nothing, if no task runs; else the task suspends or completes. An operation at the end of
  a run leaves the object as it does alone.
\<close>

definition run_ends :: "('r, 'w, 'th, 'op) world_op list set" where
  "run_ends = {[], [WPending], [WReady]}"

lemma run_ends_shared:
  assumes "run (world_enabled C X) (world_exec C X T th0) (WShared m # ops) W = Some (Inr W')" and "ops \<in> run_ends"
  shows "cl_enabled C m (wo_shared W)" "cl_exec C m (wo_shared W) = Inr (wo_shared W')"
proof -
  from assms(1) obtain W1 where W1: "world_exec C X T th0 (WShared m) W = Inr W1"
      "run (world_enabled C X) (world_exec C X T th0) ops W1 = Some (Inr W')"
    and en: "world_enabled C X (WShared m) W" by (auto split: if_splits sum.splits)
  then show "cl_enabled C m (wo_shared W)" by (simp add: world_enabled_def)
  from assms(2) W1(2) have "W' = W1 \<or> world_exec C X T th0 WPending W1 = Inr W' \<or> world_exec C X T th0 WReady W1 = Inr W'"
    by (auto simp: run_ends_def split: if_splits sum.splits)
  then have "wo_shared W' = wo_shared W1"
    using world_exec_shared [of C X T th0 WPending W1 W'] world_exec_shared [of C X T th0 WReady W1 W'] by auto
  with world_exec_shared [OF W1(1)] show "cl_exec C m (wo_shared W) = Inr (wo_shared W')" by simp
qed

definition world_reach ::
  "('c, 'op, 'w) client \<Rightarrow> ('q, 'a, 's, 'r, 'w) externs \<Rightarrow> 't task_ops \<Rightarrow> 'th ThreadId \<Rightarrow> 'th \<Rightarrow> 'c
     \<Rightarrow> ('q, 'a, 's, 'r, 'w, 'th, 'c, 't) world \<Rightarrow> bool" where
  "world_reach C X T tid th0 c0 = reach (world_enabled C X) (world_exec C X T th0) (world_init X tid th0 c0)"

declare world_init_def [evals] world_enabled_def [evals] wake_task_def [evals] start_run_def [evals]
  polled_now_def [evals] owned_now_def [evals] world_exec_def [evals]

section \<open>The invariant\<close>

definition phase_of :: "('t \<Rightarrow> phase) \<Rightarrow> ('q, 'a, 's, 'r, 'w, 'th, 'c, 't) world \<Rightarrow> 'r \<Rightarrow> phase option" where
  "phase_of phase W r = map_option phase (wo_tasks W r)"

text \<open>The task will be polled; it may still be polled; it is being polled.\<close>

definition alert :: "('t \<Rightarrow> phase) \<Rightarrow> ('q, 'a, 's, 'r, 'w, 'th, 'c, 't) world \<Rightarrow> 'r \<Rightarrow> bool" where
  "alert phase W r \<longleftrightarrow> phase_of phase W r = Some Scheduled \<or> phase_of phase W r = Some Rewoken"

definition live :: "('t \<Rightarrow> phase) \<Rightarrow> ('q, 'a, 's, 'r, 'w, 'th, 'c, 't) world \<Rightarrow> 'r \<Rightarrow> bool" where
  "live phase W r \<longleftrightarrow> (\<exists>p. phase_of phase W r = Some p \<and> p \<noteq> Completed)"

definition runs :: "('t \<Rightarrow> phase) \<Rightarrow> ('q, 'a, 's, 'r, 'w, 'th, 'c, 't) world \<Rightarrow> 'r \<Rightarrow> bool" where
  "runs phase W r \<longleftrightarrow> phase_of phase W r = Some Running \<or> phase_of phase W r = Some Rewoken"

text \<open>
  The executor holds one runnable of each scheduled task, the running task is the current one, and every
  future belongs to a task that is not completed.
\<close>

definition world_ok ::
  "('c, 'op, 'w) client \<Rightarrow> ('q, 'a, 's, 'r, 'w) externs \<Rightarrow> ('t \<Rightarrow> phase) \<Rightarrow> 'th ThreadId \<Rightarrow> 'th
     \<Rightarrow> ('q, 'a, 's, 'r, 'w, 'th, 'c, 't) world \<Rightarrow> bool" where
  "world_ok C X phase tid th0 W \<longleftrightarrow>
     exec_reach X tid th0 (wo_exec W) \<and>
     (\<forall>r. count (mset (es_scheduled (wo_exec W))) r =
        count (mset (es_ran (wo_exec W))) r + (if phase_of phase W r = Some Scheduled then 1 else 0)) \<and>
     (\<forall>r. wo_current W = Some r \<longleftrightarrow> runs phase W r) \<and>
     (\<forall>a. cl_futs C (wo_shared W) a \<noteq> None \<longrightarrow> (\<exists>r. wo_owner W a = Some r \<and> live phase W r))"

text \<open>
  Each waiting future has left the waker of its task; the task of one that has been notified is
  scheduled, or runs and will be polled again or has yet to poll it.
\<close>

definition nobody_missed ::
  "('q, 'a, 's, 'r, 'w) externs \<Rightarrow> ('t \<Rightarrow> phase) \<Rightarrow> ('q, 'a, 's, 'r, 'w, 'th, 'c, 't) world
     \<Rightarrow> 'w pool \<Rightarrow> bool" where
  "nobody_missed X phase W P \<longleftrightarrow>
     (\<forall>a v. (a, v) \<in> po_waiting P \<longrightarrow> (\<exists>r. wo_owner W a = Some r \<and> v = Some (rn_waker X r))) \<and>
     (\<forall>a \<in> po_notified P. \<exists>r. wo_owner W a = Some r \<and>
        (alert phase W r \<or> wo_current W = Some r \<and> a \<notin> wo_polled W))"

definition world_inv ::
  "('c, 'op, 'w) client \<Rightarrow> ('c \<Rightarrow> 'w pool \<Rightarrow> bool) \<Rightarrow> ('q, 'a, 's, 'r, 'w) externs \<Rightarrow> ('t \<Rightarrow> phase) \<Rightarrow> 'th ThreadId \<Rightarrow> 'th
     \<Rightarrow> ('q, 'a, 's, 'r, 'w, 'th, 'c, 't) world \<Rightarrow> bool" where
  "world_inv C rep X phase tid th0 W \<longleftrightarrow>
     world_ok C X phase tid th0 W \<and> (\<exists>P. rep (wo_shared W) P \<and> nobody_missed X phase W P)"

lemmas phase_defs = phase_of_def alert_def live_def runs_def

text \<open>What a waking step leaves alone, and that nobody is less alert after it.\<close>

definition stirs :: "('t \<Rightarrow> phase) \<Rightarrow> ('q, 'a, 's, 'r, 'w, 'th, 'c, 't) world
     \<Rightarrow> ('q, 'a, 's, 'r, 'w, 'th, 'c, 't) world \<Rightarrow> bool" where
  "stirs phase W W' \<longleftrightarrow>
     wo_shared W' = wo_shared W \<and> wo_owner W' = wo_owner W \<and> wo_current W' = wo_current W \<and>
     wo_polled W' = wo_polled W \<and>
     (\<forall>r. (alert phase W r \<longrightarrow> alert phase W' r) \<and> (live phase W r \<longrightarrow> live phase W' r))"

lemma stirs_refl: "stirs phase W W"
  by (simp add: stirs_def)

lemma stirs_trans: "stirs phase W W1 \<Longrightarrow> stirs phase W1 W2 \<Longrightarrow> stirs phase W W2"
  by (simp add: stirs_def)

lemma stirs_missed: "stirs phase W W' \<Longrightarrow> nobody_missed X phase W P \<Longrightarrow> nobody_missed X phase W' P"
  unfolding stirs_def nobody_missed_def by metis

text \<open>The logs of the executor.\<close>

fun schedules :: "('r, 'w, 'th) exec_op \<Rightarrow> 'r list" where
  "schedules (ESchedule th r) = [r]"
| "schedules (ESpawn r) = [r]"
| "schedules _ = []"

lemma tick_ran_length: "length (tick_ran st) \<le> 1"
  by (cases st) simp_all

lemma exec_logs:
  assumes "exec_exec X th0 op s = Inr s'"
  shows "es_scheduled s' = es_scheduled s @ schedules op"
    and "\<exists>rs. es_ran s' = es_ran s @ rs \<and> length rs \<le> 1 \<and> (runner_op True op \<or> schedules op \<noteq> [] \<longrightarrow> rs = [])"
  using assms tick_ran_length
  by (cases op; auto simp: andThen_Inr_iff split: option.splits)+

section \<open>The steps\<close>

locale async_tasks = crates X absQ absA absS + tasks T phase
  for X :: "('q, 'a, 's, 'r, 'w) externs" and absQ absA absS
    and T :: "'t task_ops" and phase :: "'t \<Rightarrow> phase" +
  assumes own_waker: "rn_task X (rn_waker X r) = Some r"

text \<open>Tasks and an object that they share.\<close>

locale task_world = async_tasks X absQ absA absS T phase + client C rep c0
  for X :: "('q, 'a, 's, 'r, 'w) externs" and absQ absA absS
    and T :: "'t task_ops" and phase :: "'t \<Rightarrow> phase"
    and C :: "('c, 'op, 'w) client" and rep :: "'c \<Rightarrow> 'w pool \<Rightarrow> bool" and c0 :: 'c
begin

lemma world_okD:
  assumes "world_ok C X phase tid th0 W"
  shows "exec_reach X tid th0 (wo_exec W)"
    and "count (mset (es_scheduled (wo_exec W))) r =
      count (mset (es_ran (wo_exec W))) r + (if phase_of phase W r = Some Scheduled then 1 else 0)"
    and "wo_current W = Some r \<longleftrightarrow> runs phase W r"
    and "cl_futs C (wo_shared W) a \<noteq> None \<Longrightarrow> \<exists>r. wo_owner W a = Some r \<and> live phase W r"
  using assms by (simp_all add: world_ok_def)

lemma schedule_step:
  assumes "exec_reach X tid th0 s" and "op = ESchedule th r \<or> op = ESpawn r"
  obtains s' where "exec_exec X th0 op s = Inr s'" and "exec_reach X tid th0 s'"
    and "es_scheduled s' = es_scheduled s @ [r]" and "es_ran s' = es_ran s"
proof -
  have "exec_enabled X op s" using assms(2) by auto
  from reach_no_fault [OF assms(1) this] obtain s' where s': "exec_exec X th0 op s = Inr s'" "exec_reach X tid th0 s'"
    by blast
  with exec_logs [OF s'(1)] assms(2) that show ?thesis by auto
qed

text \<open>A task moves to another phase, with a runnable for it if it is scheduled then.\<close>

lemma world_ok_move:
  assumes ok: "world_ok C X phase tid th0 W" and e: "exec_reach X tid th0 s"
    and s: "es_scheduled s = es_scheduled (wo_exec W) @ (if phase t = Scheduled then [r] else [])"
      "es_ran s = es_ran (wo_exec W)"
    and n: "phase_of phase W r \<noteq> Some Scheduled"
    and c: "c = Some r \<longleftrightarrow> phase t = Running \<or> phase t = Rewoken" "\<And>r'. r' \<noteq> r \<Longrightarrow> c = Some r' \<longleftrightarrow> wo_current W = Some r'"
    and l: "phase t = Completed \<Longrightarrow> \<forall>a. wo_owner W a = Some r \<longrightarrow> cl_futs C (wo_shared W) a = None"
  shows "world_ok C X phase tid th0 (W\<lparr>wo_exec := s, wo_tasks := (wo_tasks W)(r \<mapsto> t), wo_current := c\<rparr>)"
    (is "world_ok _ _ _ _ _ ?W")
proof -
  have "count (mset (es_scheduled s)) r' = count (mset (es_ran s)) r' + (if phase_of phase ?W r' = Some Scheduled then 1 else 0)" for r'
    using world_okD(2) [OF ok, of r'] s n by (auto simp: phase_of_def)
  moreover have "c = Some r' \<longleftrightarrow> runs phase ?W r'" for r'
    using world_okD(3) [OF ok, of r'] c by (cases "r' = r") (auto simp: phase_defs)
  moreover have "\<exists>r'. wo_owner W a = Some r' \<and> live phase ?W r'" if a: "cl_futs C (wo_shared W) a \<noteq> None" for a
  proof -
    from world_okD(4) [OF ok a] obtain r' where r': "wo_owner W a = Some r'" "live phase W r'" by blast
    with l a show ?thesis by (cases "r' = r") (auto simp: phase_defs)
  qed
  ultimately show ?thesis using e by (simp add: world_ok_def)
qed

lemma wake_task_ok:
  assumes ok: "world_ok C X phase tid th0 W"
  shows "\<exists>W'. wake_task X T th0 th r W = Inr W' \<and> world_ok C X phase tid th0 W' \<and> stirs phase W W' \<and>
    (live phase W r \<longrightarrow> alert phase W' r)"
proof (cases "wo_tasks W r")
  case None
  with ok stirs_refl show ?thesis by (auto simp: wake_task_def phase_defs)
next
  case (Some t)
  from task_wake obtain t' where t': "tk_wake T t = (phase t = Idle, t')" "phase t' = woken_phase (phase t)" by blast
  have p: "phase_of phase W r = Some (phase t)" using Some by (simp add: phase_of_def)
  have W: "W\<lparr>wo_current := wo_current W\<rparr> = W" "W\<lparr>wo_exec := wo_exec W\<rparr> = W" by simp_all
  show ?thesis
  proof (cases "phase t = Idle")
    case True
    then have p': "phase t' = Scheduled" using t'(2) by simp
    from schedule_step [OF world_okD(1) [OF ok], of "ESchedule th r"] obtain s where
      s: "exec_exec X th0 (ESchedule th r) (wo_exec W) = Inr s" "exec_reach X tid th0 s"
        "es_scheduled s = es_scheduled (wo_exec W) @ [r]" "es_ran s = es_ran (wo_exec W)" by blast
    let ?W = "W\<lparr>wo_exec := s, wo_tasks := (wo_tasks W)(r \<mapsto> t')\<rparr>"
    have "world_ok C X phase tid th0 (?W\<lparr>wo_current := wo_current W\<rparr>)"
      using world_ok_move [OF ok s(2), of t' r "wo_current W"] s p p' True world_okD(3) [OF ok, of r]
      by (simp add: runs_def)
    moreover have "stirs phase W ?W" "alert phase ?W r" using p p' True by (auto simp: stirs_def phase_defs)
    ultimately show ?thesis using Some t'(1) s(1) True by (simp add: wake_task_def Let_def del: exec_exec.simps)
  next
    case False
    let ?W = "W\<lparr>wo_tasks := (wo_tasks W)(r \<mapsto> t')\<rparr>"
    show ?thesis
    proof (cases "phase t = Scheduled")
      case True
      then have same: "phase_of phase ?W = phase_of phase W" using p t'(2) by (auto simp: phase_of_def)
      then have "world_ok C X phase tid th0 ?W" using ok by (simp add: world_ok_def live_def runs_def)
      moreover have "stirs phase W ?W" "alert phase ?W r"
        using same p True by (simp_all add: stirs_def live_def alert_def)
      ultimately show ?thesis using Some t'(1) False by (simp add: wake_task_def Let_def)
    next
      case n: False
      have np: "phase t' \<noteq> Scheduled" using t'(2) n False by (cases "phase t") simp_all
      have "world_ok C X phase tid th0 (W\<lparr>wo_exec := wo_exec W, wo_tasks := (wo_tasks W)(r \<mapsto> t'), wo_current := wo_current W\<rparr>)"
      proof (rule world_ok_move [OF ok world_okD(1) [OF ok]])
        show "wo_current W = Some r \<longleftrightarrow> phase t' = Running \<or> phase t' = Rewoken"
          using world_okD(3) [OF ok, of r] p t'(2) n False by (cases "phase t") (simp_all add: runs_def)
        assume "phase t' = Completed"
        then have "\<not> live phase W r" using p t'(2) by (cases "phase t") (simp_all add: live_def)
        then show "\<forall>a. wo_owner W a = Some r \<longrightarrow> cl_futs C (wo_shared W) a = None"
          using world_okD(4) [OF ok] by fastforce
      qed (use np n p in simp_all)
      moreover have "stirs phase W ?W" "live phase W r \<longrightarrow> alert phase ?W r"
        using p t'(2) n False by (cases "phase t"; auto simp: stirs_def phase_defs)+
      ultimately show ?thesis using Some t'(1) False by (simp add: wake_task_def Let_def)
    qed
  qed
qed

lemma wake_tasks_ok:
  assumes "world_ok C X phase tid th0 W"
  shows "\<exists>W'. wake_tasks X T th0 ws W = Inr W' \<and> world_ok C X phase tid th0 W' \<and> stirs phase W W' \<and>
    (\<forall>r. rn_waker X r \<in> set ws \<longrightarrow> live phase W r \<longrightarrow> alert phase W' r)"
  using assms
proof (induction ws arbitrary: W)
  case Nil
  with stirs_refl show ?case by auto
next
  case (Cons w ws)
  have "\<exists>W1. (case rn_task X w of None \<Rightarrow> Inr W | Some r \<Rightarrow> wake_task X T th0 th0 r W) = Inr W1 \<and>
      world_ok C X phase tid th0 W1 \<and> stirs phase W W1 \<and> (\<forall>r. rn_task X w = Some r \<longrightarrow> live phase W r \<longrightarrow> alert phase W1 r)"
  proof (cases "rn_task X w")
    case None
    with Cons.prems stirs_refl show ?thesis by auto
  next
    case (Some r)
    with wake_task_ok [OF Cons.prems, of th0 r] show ?thesis by auto
  qed
  then obtain W1 where W1: "(case rn_task X w of None \<Rightarrow> Inr W | Some r \<Rightarrow> wake_task X T th0 th0 r W) = Inr W1"
    "world_ok C X phase tid th0 W1" "stirs phase W W1" "\<And>r. rn_task X w = Some r \<Longrightarrow> live phase W r \<Longrightarrow> alert phase W1 r" by blast
  from Cons.IH [OF W1(2)] obtain W' where
    W': "wake_tasks X T th0 ws W1 = Inr W'" "world_ok C X phase tid th0 W'" "stirs phase W1 W'"
      "\<And>r. rn_waker X r \<in> set ws \<Longrightarrow> live phase W1 r \<Longrightarrow> alert phase W' r" by blast
  have "alert phase W' r" if "rn_waker X r \<in> set (w # ws)" "live phase W r" for r
    using that W1(3,4) W'(3,4) own_waker [of r] by (auto simp: stirs_def)
  with W1(1) W'(1,2) stirs_trans [OF W1(3) W'(3)] show ?case by auto
qed

lemma spawn_ok:
  assumes ok: "world_ok C X phase tid th0 W" and m: "nobody_missed X phase W P" and n: "wo_tasks W r = None"
  shows "\<exists>W'. world_exec C X T th0 (WSpawn r) W = Inr W' \<and> world_ok C X phase tid th0 W' \<and>
    nobody_missed X phase W' P \<and> wo_shared W' = wo_shared W"
proof -
  from schedule_step [OF world_okD(1) [OF ok], of "ESpawn r"] obtain s where
    s: "exec_exec X th0 (ESpawn r) (wo_exec W) = Inr s" "exec_reach X tid th0 s"
      "es_scheduled s = es_scheduled (wo_exec W) @ [r]" "es_ran s = es_ran (wo_exec W)" by blast
  let ?W = "W\<lparr>wo_exec := s, wo_tasks := (wo_tasks W)(r \<mapsto> tk_new T)\<rparr>"
  have p: "phase_of phase W r = None" using n by (simp add: phase_of_def)
  have "world_ok C X phase tid th0 (?W\<lparr>wo_current := wo_current W\<rparr>)"
    using world_ok_move [OF ok s(2), of "tk_new T" r "wo_current W"] s(3,4) p task_new world_okD(3) [OF ok, of r]
    by (simp add: runs_def)
  moreover have "alert phase W r' \<Longrightarrow> alert phase ?W r'" for r'
    using p by (cases "r' = r") (auto simp: phase_defs)
  then have "nobody_missed X phase ?W P" using m unfolding nobody_missed_def by fastforce
  ultimately show ?thesis using s(1) by (simp add: world_exec_def del: exec_exec.simps)
qed

text \<open>A runnable that is taken to be run is that of a scheduled task.\<close>

lemma ran_scheduled:
  assumes ok: "world_ok C X phase tid th0 W" and e: "exec_reach X tid th0 s"
    and s: "es_scheduled s = es_scheduled (wo_exec W)" "es_ran s = es_ran (wo_exec W) @ [r]"
  shows "phase_of phase W r = Some Scheduled"
proof -
  from reach_good [OF e] obtain q where "exec_inv X absQ absA s q" by (auto simp: exec_good_def)
  from exec_inv_items [OF this] have "mset (es_ran s) \<subseteq># mset (es_scheduled s)"
    unfolding items_ok_def by (auto simp: add.assoc intro: subset_mset.order_trans [OF mset_subset_eq_add_left])
  then have "count (mset (es_ran s)) r \<le> count (mset (es_scheduled s)) r" by (rule mset_subset_eq_count)
  with world_okD(2) [OF ok, of r] s show ?thesis by (auto split: if_splits)
qed

lemma start_run_ok:
  assumes ok: "world_ok C X phase tid th0 W" and m: "nobody_missed X phase W P" and e: "exec_reach X tid th0 s"
    and s: "es_scheduled s = es_scheduled (wo_exec W)" "es_ran s = es_ran (wo_exec W) @ [r]"
    and c: "wo_current W = None"
  shows "world_ok C X phase tid th0 (start_run T [r] (W\<lparr>wo_exec := s\<rparr>)) \<and>
    nobody_missed X phase (start_run T [r] (W\<lparr>wo_exec := s\<rparr>)) P"
proof -
  have p: "phase_of phase W r = Some Scheduled" by (rule ran_scheduled [OF ok e s])
  then obtain t where t: "wo_tasks W r = Some t" "phase t = Scheduled" by (auto simp: phase_of_def)
  let ?W = "W\<lparr>wo_exec := s, wo_tasks := (wo_tasks W)(r \<mapsto> tk_run T t), wo_current := Some r, wo_polled := {}\<rparr>"
  have W: "start_run T [r] (W\<lparr>wo_exec := s\<rparr>) = ?W" using t by (simp add: start_run_def)
  have ph: "phase_of phase ?W = (phase_of phase W)(r \<mapsto> Running)"
    using task_run [OF t(2)] by (auto simp: phase_of_def)
  have "count (mset (es_scheduled s)) r' = count (mset (es_ran s)) r' + (if phase_of phase ?W r' = Some Scheduled then 1 else 0)" for r'
    using world_okD(2) [OF ok, of r'] s p by (auto simp: ph)
  moreover have "wo_current ?W = Some r' \<longleftrightarrow> runs phase ?W r'" for r'
    using world_okD(3) [OF ok, of r'] c by (auto simp: runs_def ph)
  moreover have "live phase W r' \<Longrightarrow> live phase ?W r'" for r' by (simp add: live_def ph)
  then have "\<exists>r'. wo_owner W a = Some r' \<and> live phase ?W r'" if "cl_futs C (wo_shared W) a \<noteq> None" for a
    using world_okD(4) [OF ok that] by blast
  ultimately have "world_ok C X phase tid th0 ?W" using e by (simp add: world_ok_def)
  moreover have "alert phase W r' \<Longrightarrow> alert phase ?W r' \<or> r' = r" for r' by (auto simp: alert_def ph)
  then have "nobody_missed X phase ?W P" using m c unfolding nobody_missed_def by fastforce
  ultimately show ?thesis unfolding W ..
qed

lemma exec_op_ok:
  assumes ok: "world_ok C X phase tid th0 W" and m: "nobody_missed X phase W P"
    and en: "exec_enabled X e (wo_exec W)" and ro: "runner_op (wo_current W \<noteq> None) e"
  shows "\<exists>W'. world_exec C X T th0 (WExec e) W = Inr W' \<and> world_ok C X phase tid th0 W' \<and>
    nobody_missed X phase W' P \<and> wo_shared W' = wo_shared W"
proof -
  from reach_no_fault [OF world_okD(1) [OF ok] en] obtain s where
    s: "exec_exec X th0 e (wo_exec W) = Inr s" "exec_reach X tid th0 s" by blast
  from exec_logs(2) [OF s(1)] obtain rs where
    rs: "es_ran s = es_ran (wo_exec W) @ rs" "length rs \<le> 1" "runner_op True e \<longrightarrow> rs = []" by blast
  have "schedules e = []" using ro by (cases e) simp_all
  then have sch: "es_scheduled s = es_scheduled (wo_exec W)" using exec_logs(1) [OF s(1)] by simp
  show ?thesis
  proof (cases rs)
    case Nil
    let ?W = "W\<lparr>wo_exec := s\<rparr>"
    have "world_ok C X phase tid th0 ?W" "nobody_missed X phase ?W P"
      using ok m s(2) sch rs(1) Nil by (simp_all add: world_ok_def nobody_missed_def phase_defs)
    with s(1) rs(1) Nil show ?thesis by (simp add: world_exec_def start_run_def del: exec_exec.simps)
  next
    case (Cons r rs')
    then have r: "rs = [r]" using rs(2) by simp
    have "wo_current W = None" using ro rs(3) r by (cases "wo_current W") simp_all
    from start_run_ok [OF ok m s(2) sch rs(1) [unfolded r] this] s(1) rs(1) r show ?thesis
      by (simp add: world_exec_def del: exec_exec.simps)
  qed
qed

text \<open>
  An operation on the shared object: first what it does to the entry of the future it polls, then the tasks
  that its wakers schedule.
\<close>

lemma access_missed:
  assumes m: "nobody_missed X phase W P" and inv: "rep (wo_shared W) P"
    and en: "cl_enabled C op (wo_shared W)" and own: "own_access X W (cl_access C op)"
  shows "nobody_missed X phase (W\<lparr>wo_shared := s, wo_polled := wo_polled W \<union> polled_now (cl_access C op),
    wo_owner := wo_owner W ++ owned_now (wo_current W) (cl_access C op)\<rparr>) (accessed (cl_access C op) P)"
proof (cases "cl_access C op")
  case (Creates a)
  with en have a: "cl_futs C (wo_shared W) a = None" by (rule client_fresh)
  have same: "((wo_owner W)(a \<mapsto> x)) b = wo_owner W b" if "b \<in> fst ` po_waiting P \<union> po_notified P" for b x
    using client_listed [OF inv that] a by auto
  have "(b, v) \<in> po_waiting P \<Longrightarrow> ((wo_owner W)(a \<mapsto> x)) b = wo_owner W b" for b v x
    by (rule same) force
  with m Creates same show ?thesis
    by (simp add: nobody_missed_def polled_now_def owned_now_def phase_defs del: fun_upd_apply)
next
  case (Polls a w)
  with own obtain r where p: "wo_current W = Some r" "wo_owner W a = Some r" "w = rn_waker X r"
    by auto
  have P: "accessed (cl_access C op) P =
      \<lparr>po_waiting = insert (a, Some w) {x \<in> po_waiting P. fst x \<noteq> a}, po_notified = po_notified P - {a}\<rparr>"
    using Polls by (simp add: accessed_def)
  let ?W = "W\<lparr>wo_shared := s, wo_polled := wo_polled W \<union> {a}\<rparr>"
  have al: "alert phase ?W = alert phase W" by (simp add: fun_eq_iff phase_defs)
  have "\<exists>r. wo_owner W b = Some r \<and> (alert phase ?W r \<or> wo_current W = Some r \<and> b \<notin> wo_polled W \<union> {a})"
    if "b \<in> po_notified P - {a}" for b
    using m that unfolding nobody_missed_def al by blast
  moreover have "(b, v) \<in> po_waiting P \<Longrightarrow> \<exists>r. wo_owner W b = Some r \<and> v = Some (rn_waker X r)" for b v
    using m unfolding nobody_missed_def by blast
  ultimately show ?thesis unfolding P using p Polls by (auto simp: nobody_missed_def polled_now_def owned_now_def)
qed (use m in \<open>simp_all add: nobody_missed_def polled_now_def owned_now_def phase_defs\<close>)

lemma woken_missed:
  assumes m: "nobody_missed X phase W P" and w: "pool_wakes ws P P'" and st: "stirs phase W W'"
    and al: "\<And>r. rn_waker X r \<in> set ws \<Longrightarrow> live phase W r \<Longrightarrow> alert phase W' r"
    and own: "\<And>a. a \<in> po_notified P' \<Longrightarrow> \<exists>r. wo_owner W a = Some r \<and> live phase W r"
  shows "nobody_missed X phase W' P'"
proof -
  have same: "wo_owner W' = wo_owner W" "wo_current W' = wo_current W" "wo_polled W' = wo_polled W"
    "\<And>r. alert phase W r \<Longrightarrow> alert phase W' r" using st by (simp_all add: stirs_def)
  have "\<exists>r. wo_owner W a = Some r \<and> (alert phase W' r \<or> wo_current W = Some r \<and> a \<notin> wo_polled W)"
    if a: "a \<in> po_notified P'" for a
  proof -
    from a w consider (was) "a \<in> po_notified P"
      | (woken) v where "(a, v) \<in> po_waiting P" "\<forall>w. v = Some w \<longrightarrow> w \<in> set ws"
      unfolding pool_wakes_def by blast
    then show ?thesis
    proof cases
      case was
      with m same(4) show ?thesis unfolding nobody_missed_def by blast
    next
      case woken
      from m woken(1) obtain r where r: "wo_owner W a = Some r" "v = Some (rn_waker X r)"
        unfolding nobody_missed_def by blast
      from own [OF a] r have "live phase W r" by auto
      with al woken(2) r show ?thesis by blast
    qed
  qed
  moreover have "po_waiting P' \<subseteq> po_waiting P" using w by (simp add: pool_wakes_def)
  ultimately show ?thesis using m unfolding nobody_missed_def same by blast
qed

lemma shared_op_ok:
  assumes ok: "world_ok C X phase tid th0 W" and inv: "rep (wo_shared W) P" and m: "nobody_missed X phase W P"
    and en: "cl_enabled C op (wo_shared W)" and own: "own_access X W (cl_access C op)"
  shows "\<exists>W' P'. world_exec C X T th0 (WShared op) W = Inr W' \<and> world_ok C X phase tid th0 W' \<and>
    rep (wo_shared W') P' \<and> nobody_missed X phase W' P'"
proof -
  from client_step [OF inv en] obtain s P' ws where
    s: "cl_exec C op (wo_shared W) = Inr s" "rep s P'" "cl_woken C s = cl_woken C (wo_shared W) @ ws"
    and w: "pool_wakes ws (accessed (cl_access C op) P) P'"
    unfolding moves_def by blast
  let ?W = "W\<lparr>wo_shared := s, wo_polled := wo_polled W \<union> polled_now (cl_access C op),
    wo_owner := wo_owner W ++ owned_now (wo_current W) (cl_access C op)\<rparr>"
  have ph: "phase_of phase ?W = phase_of phase W" by (simp add: phase_of_def fun_eq_iff)
  then have keep: "live phase ?W = live phase W" "runs phase ?W = runs phase W"
    by (simp_all add: fun_eq_iff live_def runs_def)
  have "\<exists>r. wo_owner ?W a = Some r \<and> live phase W r" if a: "cl_futs C s a \<noteq> None" for a
  proof (cases "cl_access C op = Creates a")
    case True
    with own obtain r where r: "wo_current W = Some r" by auto
    then have "live phase W r" using world_okD(3) [OF ok, of r] by (auto simp: runs_def live_def)
    with True r show ?thesis by (simp add: owned_now_def)
  next
    case False
    with client_owned [OF en s(1) a] have "cl_futs C (wo_shared W) a \<noteq> None" by simp
    moreover have "wo_owner ?W a = wo_owner W a"
      using False by (cases "cl_access C op") (auto simp: owned_now_def)
    ultimately show ?thesis using world_okD(4) [OF ok, of a] by simp
  qed
  then have ok1: "world_ok C X phase tid th0 ?W" using ok by (simp add: world_ok_def ph keep)
  from wake_tasks_ok [OF ok1, of ws] obtain W' where
    W': "wake_tasks X T th0 ws ?W = Inr W'" "world_ok C X phase tid th0 W'" "stirs phase ?W W'"
      "\<And>r. rn_waker X r \<in> set ws \<Longrightarrow> live phase ?W r \<Longrightarrow> alert phase W' r" by blast
  have "\<exists>r. wo_owner ?W a = Some r \<and> live phase ?W r" if "a \<in> po_notified P'" for a
    using world_okD(4) [OF ok1, of a] client_listed [OF s(2), of a] that by simp
  from woken_missed [OF access_missed [OF m inv en own] w W'(3,4) this]
  have "nobody_missed X phase W' P'" .
  moreover have "world_exec C X T th0 (WShared op) W = Inr W'"
    using s(1,3) W'(1) by (simp add: world_exec_def)
  moreover have "wo_shared W' = s" using W'(3) by (simp add: stirs_def)
  ultimately show ?thesis using W'(2) s(2) by auto
qed

text \<open>The running task returns. A future that was notified before its last poll is not notified any more.\<close>

lemma return_missed:
  assumes m: "nobody_missed X phase W P" and inv: "rep (wo_shared W) P" and c: "wo_current W = Some r"
    and p: "\<And>a. wo_owner W a = Some r \<Longrightarrow> cl_futs C (wo_shared W) a = Some Suspended \<Longrightarrow>
      a \<in> wo_polled W \<and> (alert phase W r \<longrightarrow> phase t = Scheduled)"
  shows "nobody_missed X phase (W\<lparr>wo_exec := s, wo_tasks := (wo_tasks W)(r \<mapsto> t), wo_current := None\<rparr>) P"
    (is "nobody_missed _ _ ?W _")
proof -
  have "\<exists>r'. wo_owner W a = Some r' \<and> alert phase ?W r'" if a: "a \<in> po_notified P" for a
  proof -
    from m a obtain r' where r': "wo_owner W a = Some r'"
      "alert phase W r' \<or> wo_current W = Some r' \<and> a \<notin> wo_polled W" unfolding nobody_missed_def by blast
    note sus = client_listed [OF inv UnI2 [OF a]]
    show ?thesis
    proof (cases "r' = r")
      case True
      with p [of a] r' sus have "phase t = Scheduled" by blast
      with True r'(1) show ?thesis by (auto simp: phase_defs)
    next
      case False
      with r' c have "alert phase ?W r'" by (auto simp: phase_defs)
      with r'(1) show ?thesis by blast
    qed
  qed
  then show ?thesis using m by (simp add: nobody_missed_def)
qed

lemma pending_ok:
  assumes ok: "world_ok C X phase tid th0 W" and inv: "rep (wo_shared W) P" and m: "nobody_missed X phase W P"
    and en: "world_enabled C X WPending W"
  shows "\<exists>W'. world_exec C X T th0 WPending W = Inr W' \<and> world_ok C X phase tid th0 W' \<and>
    nobody_missed X phase W' P \<and> wo_shared W' = wo_shared W"
proof -
  from en obtain r where c: "wo_current W = Some r" by (auto simp: world_enabled_def)
  then have "runs phase W r" using world_okD(3) [OF ok] by blast
  then obtain t where t: "wo_tasks W r = Some t" "phase t = Running \<or> phase t = Rewoken"
    by (auto simp: runs_def phase_of_def)
  from task_pending [OF t(2)] obtain t' where
    t': "tk_pending T t = (phase t = Rewoken, t')" "phase t' = (if phase t = Rewoken then Scheduled else Idle)" by blast
  have p: "phase_of phase W r \<noteq> Some Scheduled" using t by (auto simp: phase_of_def)
  have al: "alert phase W r \<longrightarrow> phase t' = Scheduled" using t t'(2) by (auto simp: phase_defs)
  have po: "a \<in> wo_polled W \<and> (alert phase W r \<longrightarrow> phase t' = Scheduled)"
    if "wo_owner W a = Some r" "cl_futs C (wo_shared W) a = Some Suspended" for a
    using en that c al by (simp add: world_enabled_def)
  note miss = return_missed [OF m inv c po]
  show ?thesis
  proof (cases "phase t = Rewoken")
    case True
    from schedule_step [OF world_okD(1) [OF ok], of "ESchedule th0 r"] obtain s where
      s: "exec_exec X th0 (ESchedule th0 r) (wo_exec W) = Inr s" "exec_reach X tid th0 s"
        "es_scheduled s = es_scheduled (wo_exec W) @ [r]" "es_ran s = es_ran (wo_exec W)" by blast
    have "world_ok C X phase tid th0 (W\<lparr>wo_exec := s, wo_tasks := (wo_tasks W)(r \<mapsto> t'), wo_current := None\<rparr>)"
      by (rule world_ok_move [OF ok s(2)]) (use s t' True p c in simp_all)
    with s(1) miss t(1) t'(1) True c show ?thesis by (simp add: world_exec_def Let_def del: exec_exec.simps)
  next
    case False
    have "world_ok C X phase tid th0 (W\<lparr>wo_exec := wo_exec W, wo_tasks := (wo_tasks W)(r \<mapsto> t'), wo_current := None\<rparr>)"
      by (rule world_ok_move [OF ok world_okD(1) [OF ok]]) (use t' False p c in simp_all)
    with miss [of "wo_exec W"] t(1) t'(1) False c show ?thesis by (simp add: world_exec_def Let_def)
  qed
qed

lemma ready_ok:
  assumes ok: "world_ok C X phase tid th0 W" and inv: "rep (wo_shared W) P" and m: "nobody_missed X phase W P"
    and en: "world_enabled C X WReady W"
  shows "\<exists>W'. world_exec C X T th0 WReady W = Inr W' \<and> world_ok C X phase tid th0 W' \<and>
    nobody_missed X phase W' P \<and> wo_shared W' = wo_shared W"
proof -
  from en obtain r where c: "wo_current W = Some r"
    and no: "\<And>a. wo_owner W a = Some r \<Longrightarrow> cl_futs C (wo_shared W) a = None" by (auto simp: world_enabled_def)
  then have "runs phase W r" using world_okD(3) [OF ok] by blast
  then obtain t where t: "wo_tasks W r = Some t" and p: "phase_of phase W r \<noteq> Some Scheduled"
    by (auto simp: runs_def phase_of_def)
  let ?W = "W\<lparr>wo_exec := wo_exec W, wo_tasks := (wo_tasks W)(r \<mapsto> tk_ready T t), wo_current := None\<rparr>"
  have "world_ok C X phase tid th0 ?W"
    by (rule world_ok_move [OF ok world_okD(1) [OF ok]]) (use task_ready p c no in simp_all)
  moreover have "nobody_missed X phase ?W P" by (rule return_missed [OF m inv c]) (use no in simp)
  ultimately show ?thesis using t c by (simp add: world_exec_def fun_upd_def)
qed

lemma world_start: "world_inv C rep X phase tid th0 (world_init X tid th0 c0)"
proof -
  have "exec_reach X tid th0 (exec_init X tid th0)" unfolding exec_reach_def by (rule reach.start)
  moreover have "nobody_missed X phase (world_init X tid th0 c0) no_pool"
    by (simp add: nobody_missed_def no_pool_def)
  ultimately show ?thesis using client_start
    by (auto simp: world_inv_def world_ok_def world_init_def phase_defs exec_init_def)
qed

lemma world_exec_ok:
  assumes "world_inv C rep X phase tid th0 W" and "world_enabled C X op W"
  shows "\<exists>W'. world_exec C X T th0 op W = Inr W' \<and> world_inv C rep X phase tid th0 W'"
proof -
  from assms(1) obtain P where ok: "world_ok C X phase tid th0 W" and inv: "rep (wo_shared W) P"
    and m: "nobody_missed X phase W P" by (auto simp: world_inv_def)
  show ?thesis
  proof (cases op)
    case (WSpawn r)
    then have "wo_tasks W r = None" using assms(2) by (simp add: world_enabled_def)
    from spawn_ok [OF ok m this] obtain W' where "world_exec C X T th0 (WSpawn r) W = Inr W'"
      "world_ok C X phase tid th0 W'" "nobody_missed X phase W' P" "wo_shared W' = wo_shared W" by blast
    with WSpawn inv show ?thesis by (auto simp: world_inv_def)
  next
    case (WWake th r)
    from wake_task_ok [OF ok, of th r] obtain W' where
      W': "wake_task X T th0 th r W = Inr W'" "world_ok C X phase tid th0 W'" "stirs phase W W'" by blast
    with stirs_missed [OF W'(3) m] inv WWake show ?thesis by (auto simp: world_inv_def world_exec_def stirs_def)
  next
    case (WExec e)
    then have "exec_enabled X e (wo_exec W)" "runner_op (wo_current W \<noteq> None) e"
      using assms(2) by (simp_all add: world_enabled_def)
    from exec_op_ok [OF ok m this] obtain W' where "world_exec C X T th0 (WExec e) W = Inr W'"
      "world_ok C X phase tid th0 W'" "nobody_missed X phase W' P" "wo_shared W' = wo_shared W" by blast
    with WExec inv show ?thesis by (auto simp: world_inv_def)
  next
    case (WShared cop)
    then have "cl_enabled C cop (wo_shared W)" "own_access X W (cl_access C cop)"
      using assms(2) by (simp_all add: world_enabled_def)
    from shared_op_ok [OF ok inv m this] WShared show ?thesis unfolding world_inv_def by blast
  next
    case WPending
    with assms(2) have "world_enabled C X WPending W" by simp
    from pending_ok [OF ok inv m this] obtain W' where "world_exec C X T th0 WPending W = Inr W'"
      "world_ok C X phase tid th0 W'" "nobody_missed X phase W' P" "wo_shared W' = wo_shared W" by blast
    with WPending inv show ?thesis by (auto simp: world_inv_def)
  next
    case WReady
    with assms(2) have "world_enabled C X WReady W" by simp
    from ready_ok [OF ok inv m this] obtain W' where "world_exec C X T th0 WReady W = Inr W'"
      "world_ok C X phase tid th0 W'" "nobody_missed X phase W' P" "wo_shared W' = wo_shared W" by blast
    with WReady inv show ?thesis by (auto simp: world_inv_def)
  qed
qed

end

sublocale task_world \<subseteq> worlds: machine "world_enabled C X" "world_exec C X T th0" "world_init X tid th0 c0"
    "world_inv C rep X phase tid th0" for tid and th0
  by unfold_locales (rule world_start, rule world_exec_ok)

interpretation listed_tasks: async_tasks list_crates "\<lambda>q. q" "\<lambda>a. a" slots_map phase_tasks "\<lambda>p. p"
  by unfold_locales (simp add: list_crates_def)

section \<open>Runners\<close>

text \<open>Some runner will poll: it is not waiting, has been notified, or its waker has been woken.\<close>

definition runner_awake :: "('q, 'a, 's, 'r, 'w, 'th) exec_sys \<Rightarrow> bool" where
  "runner_awake s \<longleftrightarrow>
     (\<exists>c f. es_ticks s c = Some f \<and>
        (tf_pc f = TWaiting \<longrightarrow> is_notified (ts_thread_waker (es_ex s)) c \<or>
           (\<exists>w n. es_polls s c = Some (w, n) \<and> woken_since w n (es_ex s))))"

definition held_tasks :: "('q \<Rightarrow> 'r list) \<Rightarrow> ('q, 'a, 's, 'r, 'w, 'th) exec_sys \<Rightarrow> 'r multiset" where
  "held_tasks absQ s = mset (ts_task_queue (es_ex s)) + mset (absQ (ex_task_queue (es_ex s))) +
     mset (in_flight (ts_thread_waker (es_ex s)))"

lemma runner_is_awake:
  assumes inv: "exec_inv X absQ absA s q" and n: "\<not> es_single s" and h: "held_tasks absQ s \<noteq> {#}"
    and e: "es_ticks s \<noteq> Map.empty"
  shows "runner_awake s"
proof (rule ccontr)
  assume a: "\<not> runner_awake s"
  note i = exec_invD [OF inv]
  have r: "refines (ts_thread_waker (es_ex s)) q" using i(1) by (simp add: ex_ok_def)
  have wt: "tf_pc f = TWaiting" if "es_ticks s c = Some f" for c f using a that unfolding runner_awake_def by blast
  then have nb: "\<not> busy (es_ticks s)" unfolding busy_def by fastforce
  have no: "q_notified q = []"
  proof (rule ccontr)
    assume "q_notified q \<noteq> []"
    then obtain b where b: "b \<in> fst ` set (q_notified q)" by (cases "q_notified q") auto
    then have "b \<in> set (q_addrs q)" by (auto simp: q_addrs_def)
    from listener_waits [OF i(2) nb this] b refines_is_notified [OF r] a show False unfolding runner_awake_def by blast
  qed
  then have fl: "in_flight (ts_thread_waker (es_ex s)) = []" using refines_in_flight [OF r] by (simp add: q_items_def)
  obtain c f where c: "es_ticks s c = Some f" using e by (metis not_None_eq)
  then have "place_ok (tf_pc f) c q" using i(2) by (simp add: ticks_ok_def)
  with wt [OF c] no have "q_waiting q \<noteq> []" by (auto simp: q_addrs_def)
  then have "\<not> work (es_ex s)" using i(6) n nb no by (auto simp: nothing_lost_def)
  then have l: "ts_task_queue (es_ex s) = []" "ts_is_mainstream_listening (es_ex s)" by (simp_all add: work_def)
  with h fl have m: "absQ (ex_task_queue (es_ex s)) \<noteq> []" by (simp add: held_tasks_def)
  from i(3) l(2) obtain b where "b \<in> mainstream_runners (es_ticks s)" unfolding one_mainstream_def by auto
  then obtain g where g: "es_ticks s b = Some g" "tf_is_mainstream g" by (auto simp: mainstream_runners_def)
  with i(4) wt [OF g(1)] obtain w k where w: "es_polls s b = Some (w, k)"
    "absA (ex_mainstream_waker (es_ex s)) = Some w \<or> woken_since w k (es_ex s)" unfolding main_awake_def by blast
  have "absA (ex_mainstream_waker (es_ex s)) \<noteq> Some w" using i(1) m by (auto simp: ex_ok_def)
  with w g a show False unfolding runner_awake_def by blast
qed

context task_world
begin

lemma world_reach_inv: "world_reach C X T tid th0 c0 W \<Longrightarrow> world_inv C rep X phase tid th0 W"
  unfolding world_reach_def by (rule worlds.reach_inv)

lemma world_no_fault:
  "world_reach C X T tid th0 c0 W \<Longrightarrow> world_enabled C X op W \<Longrightarrow> \<exists>W'. world_exec C X T th0 op W = Inr W'"
  unfolding world_reach_def by (drule (1) worlds.no_fault) blast

text \<open>What the executor holds of each task, unless a runner that had been handed one was dropped.\<close>

lemma held_scheduled:
  assumes ok: "world_ok C X phase tid th0 W" and "\<not> es_lossy (wo_exec W)"
  shows "count (held_tasks absQ (wo_exec W)) r = (if phase_of phase W r = Some Scheduled then 1 else 0)"
proof -
  from reach_good [OF world_okD(1) [OF ok]] obtain q where "exec_inv X absQ absA (wo_exec W) q"
    by (auto simp: exec_good_def)
  from exec_inv_items [OF this] assms(2)
  have "mset (es_scheduled (wo_exec W)) = mset (es_ran (wo_exec W)) + held_tasks absQ (wo_exec W)"
    unfolding items_ok_def held_tasks_def add.assoc by blast
  with world_okD(2) [OF ok, of r] show ?thesis by simp
qed

text \<open>
  While no task runs, the task of a future that has been notified is held by the executor exactly once, and a
  runner is awake to run it.
\<close>

lemma notified_held:
  assumes "world_reach C X T tid th0 c0 W" and c: "wo_current W = None" and l: "\<not> es_lossy (wo_exec W)"
    and a: "\<And>P. rep (wo_shared W) P \<Longrightarrow> a \<in> po_notified P"
  shows "\<exists>r. wo_owner W a = Some r \<and> count (held_tasks absQ (wo_exec W)) r = 1 \<and>
    (es_ticks (wo_exec W) \<noteq> Map.empty \<and> \<not> es_single (wo_exec W) \<longrightarrow> runner_awake (wo_exec W))"
proof -
  from world_reach_inv [OF assms(1)] obtain P where ok: "world_ok C X phase tid th0 W"
    and inv: "rep (wo_shared W) P" and m: "nobody_missed X phase W P" by (auto simp: world_inv_def)
  from bspec [OF conjunct2 [OF m [unfolded nobody_missed_def]] a [OF inv]] c
  obtain r where r: "wo_owner W a = Some r" "alert phase W r" by auto
  have "phase_of phase W r = Some Scheduled"
    using r(2) world_okD(3) [OF ok, of r] c by (auto simp: alert_def runs_def)
  then have one: "count (held_tasks absQ (wo_exec W)) r = 1" using held_scheduled [OF ok l, of r] by simp
  from reach_good [OF world_okD(1) [OF ok]] obtain q' where "exec_inv X absQ absA (wo_exec W) q'"
    by (auto simp: exec_good_def)
  moreover have "held_tasks absQ (wo_exec W) \<noteq> {#}" using one by auto
  ultimately have "runner_awake (wo_exec W)" if "es_ticks (wo_exec W) \<noteq> Map.empty" "\<not> es_single (wo_exec W)"
    using runner_is_awake that by blast
  with r(1) one show ?thesis by blast
qed

lemma world_safe:
  assumes "world_reach C X T tid th0 c0 W"
  shows "(world_enabled C X op W \<longrightarrow> (\<exists>W'. world_exec C X T th0 op W = Inr W')) \<and>
    (es_lossy (wo_exec W) \<or>
     (\<forall>r. count (held_tasks absQ (wo_exec W)) r = (if phase_of phase W r = Some Scheduled then 1 else 0)))"
proof -
  have ok: "world_ok C X phase tid th0 W" using world_reach_inv [OF assms] by (simp add: world_inv_def)
  show ?thesis using held_scheduled [OF ok] world_no_fault [OF assms] by (cases "es_lossy (wo_exec W)") simp_all
qed

lemma world_rep:
  assumes "world_reach C X T tid th0 c0 W"
  obtains P where "rep (wo_shared W) P"
  using world_reach_inv [OF assms] that by (auto simp: world_inv_def)

end

end
