(* ===== verification/ServerMain.thy ===== *)
theory ServerMain
  imports HttpProperties TaskWorld ExecutorDrop
begin

text \<open>
  The main functions of \<open>comparisons/unsend-hello\<close> and \<open>comparisons/unsend-lock\<close>, which serve on the executor
  of this crate: the accept loop inside \<open>Executor::run\<close>, the tasks it spawns, each with the handler of one connection,
  and the end of the process, by an error or by the panic of a handler. The state is that of the whole program; a step takes
  it from one point at which the program waits, or at which control passes between the runner and a
  task, to the next.
\<close>

section \<open>The program\<close>

text \<open>The results of \<open>bind\<close> and of \<open>local_addr\<close>.\<close>

record 'e net =
  nt_bind :: "'e + unit"
  nt_local_addr :: "'e + unit"

text \<open>Binding to a port and printing the address.\<close>

definition listen :: "'e net \<Rightarrow> 'e + unit" where
  "listen net =
     (case nt_bind net of
        Inl e \<Rightarrow> Inl e
      | Inr _ \<Rightarrow> (case nt_local_addr net of Inl e \<Rightarrow> Inl e | Inr _ \<Rightarrow> Inr ()))"

text \<open>
  The process is setting up, serves, has exited with a status (1 for an error of \<open>main2\<close>, 101 for a panic) or was
  aborted by a panic during the unwinding of another.
\<close>

datatype process = Starting | Serving | Exited nat | Aborted

text \<open>
  What a handler does to its connection, with the counter that the tasks share (\<open>unsend-hello\<close> has none). It is determined
  when the handler is first polled, since a connection \<open>'c\<close> stands for all that will be read from it; the handler may
  suspend any number of times before it ends that way.
\<close>

type_synonym ('c, 'e, 'p) serving = "refcell \<Rightarrow> 'c \<Rightarrow> (('e, 'p) ended \<times> 'c \<times> refcell) option"

definition unsend_hello_task :: "('c, 'b, 'e, 'p) http \<Rightarrow> ('c, 'e, 'p) serving" where
  "unsend_hello_task H index conn = map_option (\<lambda>(r, c). (r, c, index)) (unsend_hello H conn)"

text \<open>
  The task of a connection: accepted and not polled yet; in the handler, with how that will end and what it leaves of the
  connection; at its end.
\<close>

datatype ('c, 'e, 'p) job =
    Accepted 'c
  | Working 'c "('e, 'p) ended" 'c
  | Served 'c "('e, 'p) ended" 'c

text \<open>The executor shares nothing with an event with its tasks; the counter is kept beside.\<close>

definition no_client :: "(unit, unit, 'w) client" where
  "no_client = \<lparr>cl_enabled = (\<lambda>op c. False), cl_exec = (\<lambda>op c. Inr c), cl_access = (\<lambda>op. Uses), cl_futs = (\<lambda>c. Map.empty),
     cl_woken = (\<lambda>c. [])\<rparr>"

record ('q, 'a, 's, 'r, 'w, 'th, 't, 'c, 'e, 'p) server =
  sv_process :: process
  sv_world :: "('q, 'a, 's, 'r, 'w, 'th, unit, 't) world"
  sv_index :: refcell
  sv_jobs :: "'r \<rightharpoonup> ('c, 'e, 'p) job"
  sv_slots :: "'r \<rightharpoonup> usize"

text \<open>A new executor (of the thread \<open>th0\<close>) and the counter.\<close>

definition server_init ::
  "('q, 'a, 's, 'r, 'w) externs \<Rightarrow> 'th ThreadId \<Rightarrow> 'th \<Rightarrow> ('q, 'a, 's, 'r, 'w, 'th, 't, 'c, 'e, 'p) server" where
  "server_init X tid th0 =
     \<lparr>sv_process = Starting, sv_world = world_init X tid th0 (), sv_index = \<lparr>rc_borrow = Unused, rc_value = 0\<rparr>,
      sv_jobs = Map.empty, sv_slots = Map.empty\<rparr>"

text \<open>
  The end of \<open>main2\<close>: the runner of \<open>run\<close>, whose listener is at \<open>a\<close>, is dropped, then the executor. That wakes
  a task, which its waker schedules if the task is idle; dropping a future that has been polled runs its guard.
\<close>

definition pending_externs ::
  "'t task_ops \<Rightarrow> ('r \<rightharpoonup> 't) \<Rightarrow> ('q, 'a, 's, 'r, 'w) externs \<Rightarrow> ('q, 'a, 's, 'r, 'w) externs" where
  "pending_externs T ts X = X\<lparr>rn_task := (\<lambda>w.
     case rn_task X w of
       None \<Rightarrow> None
     | Some r \<Rightarrow> (case ts r of None \<Rightarrow> None | Some t \<Rightarrow> if fst (tk_wake T t) then Some r else None))\<rparr>"

definition armed_slot :: "('q, 'a, 's, 'r, 'w, 'th, 't, 'c, 'e, 'p) server \<Rightarrow> 'r \<Rightarrow> usize option" where
  "armed_slot s r = (case sv_jobs s r of Some (Working c x c') \<Rightarrow> sv_slots s r | _ \<Rightarrow> None)"

definition close_down ::
  "('q, 'a, 's, 'r, 'w) externs \<Rightarrow> 't task_ops \<Rightarrow> 'th \<Rightarrow> addr \<Rightarrow> ('q, 'a, 's, 'r, 'w, 'th, 't, 'c, 'e, 'p) server
     \<Rightarrow> ('q, 'a, 's, 'r, 'w, 'th) Executor outcome" where
  "close_down X T th0 a s =
     (let W = sv_world s; E = wo_exec W in
      andThen (case es_ticks E a of None \<Rightarrow> Inr E | Some f \<Rightarrow> exec_exec X th0 (EDrop a) E) (\<lambda>E'.
      Executor_drop (pending_externs T (wo_tasks W) X) (armed_slot s) th0 (es_ex E')))"

definition ends ::
  "process \<Rightarrow> process \<Rightarrow> 'x outcome \<Rightarrow> ('q, 'a, 's, 'r, 'w, 'th, 't, 'c, 'e, 'p) server
     \<Rightarrow> ('q, 'a, 's, 'r, 'w, 'th, 't, 'c, 'e, 'p) server outcome" where
  "ends normally panicking closed s =
     (case closed of
        Inr _ \<Rightarrow> Inr (s\<lparr>sv_process := normally\<rparr>)
      | Inl (Panic _) \<Rightarrow> Inr (s\<lparr>sv_process := panicking\<rparr>)
      | Inl f \<Rightarrow> Inl f)"

text \<open>
  The steps: the listener is set up; it gives a connection, or an error; the runner is polled from one point to the next,
  and may start to run a task; the reactor wakes a task, on the thread \<open>th\<close>; the running task suspends, or ends.
\<close>

datatype ('r, 'w, 'th, 'c, 'e) server_op =
    V_listen "'e net"
  | V_accept "'e + 'r \<times> 'c"
  | V_poll 'w
  | V_wake 'th 'r
  | V_suspend
  | V_finish

fun server_enabled ::
  "('q, 'a, 's, 'r, 'w) externs \<Rightarrow> ('r, 'w, 'th, 'c, 'e) server_op \<Rightarrow> ('q, 'a, 's, 'r, 'w, 'th, 't, 'c, 'e, 'p) server \<Rightarrow> bool" where
  "server_enabled X (V_listen net) s \<longleftrightarrow> sv_process s = Starting"
| "server_enabled X (V_accept conn) s \<longleftrightarrow> sv_process s = Serving \<and> wo_current (sv_world s) = None \<and>
     (case conn of Inl e \<Rightarrow> True | Inr (r, c) \<Rightarrow> sv_jobs s r = None)"
| "server_enabled X (V_poll w) s \<longleftrightarrow> sv_process s = Serving \<and> wo_current (sv_world s) = None \<and> rn_task X w = None"
| "server_enabled X (V_wake th r) s \<longleftrightarrow> sv_process s = Serving"
| "server_enabled X V_suspend s \<longleftrightarrow> sv_process s = Serving \<and> wo_current (sv_world s) \<noteq> None"
| "server_enabled X V_finish s \<longleftrightarrow> sv_process s = Serving \<and> wo_current (sv_world s) \<noteq> None"

text \<open>The first poll of a task starts its handler.\<close>

definition begin_task ::
  "('c, 'e, 'p) serving \<Rightarrow> ('q, 'a, 's, 'r, 'w, 'th, 't, 'c, 'e, 'p) server
     \<Rightarrow> ('q, 'a, 's, 'r, 'w, 'th, 't, 'c, 'e, 'p) server outcome" where
  "begin_task serve s =
     (case wo_current (sv_world s) of
        None \<Rightarrow> Inr s
      | Some r \<Rightarrow>
          (case sv_jobs s r of
             Some (Accepted conn) \<Rightarrow>
               (case serve (sv_index s) conn of
                  None \<Rightarrow> Inl Out_of_fuel
                | Some (res, conn', index) \<Rightarrow>
                    Inr (s\<lparr>sv_index := index, sv_jobs := (sv_jobs s)(r \<mapsto> Working conn res conn')\<rparr>))
           | _ \<Rightarrow> Inr s))"

text \<open>
  The end of a task: its guard removes its waker from the slab. An error of its handler is printed; a panic unwinds
  the runner and \<open>main2\<close>.
\<close>

definition end_task ::
  "('q, 'a, 's, 'r, 'w) externs \<Rightarrow> 't task_ops \<Rightarrow> 'th \<Rightarrow> addr \<Rightarrow> ('q, 'a, 's, 'r, 'w, 'th, 't, 'c, 'e, 'p) server
     \<Rightarrow> ('q, 'a, 's, 'r, 'w, 'th, 't, 'c, 'e, 'p) server outcome" where
  "end_task X T th0 a s =
     (case wo_current (sv_world s) of
        None \<Rightarrow> Inr s
      | Some r \<Rightarrow>
          (case sv_jobs s r of
             Some (Working conn res conn') \<Rightarrow>
               andThen (case sv_slots s r of
                          None \<Rightarrow> Inr (sv_world s)
                        | Some k \<Rightarrow> world_exec no_client X T th0 (WExec (EFinish k)) (sv_world s)) (\<lambda>W1.
               andThen (world_exec no_client X T th0 WReady W1) (\<lambda>W2.
               let s' = s\<lparr>sv_world := W2, sv_jobs := (sv_jobs s)(r \<mapsto> Served conn res conn')\<rparr> in
               case res of
                 Inr _ \<Rightarrow> Inr s'
               | Inl (Panic _) \<Rightarrow> ends (Exited 101) Aborted (close_down X T th0 a s') s'
               | Inl f \<Rightarrow> Inl f))
           | _ \<Rightarrow> Inr s))"

fun server_exec ::
  "('c, 'e, 'p) serving \<Rightarrow> ('q, 'a, 's, 'r, 'w) externs \<Rightarrow> 't task_ops \<Rightarrow> 'th \<Rightarrow> addr \<Rightarrow> ('r, 'w, 'th, 'c, 'e) server_op
     \<Rightarrow> ('q, 'a, 's, 'r, 'w, 'th, 't, 'c, 'e, 'p) server \<Rightarrow> ('q, 'a, 's, 'r, 'w, 'th, 't, 'c, 'e, 'p) server outcome" where
  "server_exec serve X T th0 a (V_listen net) s =
     (case listen net of
        Inl e \<Rightarrow> ends (Exited 1) (Exited 101) (close_down X T th0 a s) s
      | Inr _ \<Rightarrow>
          andThen (world_exec no_client X T th0 (WExec (ETicker a)) (sv_world s)) (\<lambda>W.
          Inr (s\<lparr>sv_world := W, sv_process := Serving\<rparr>)))"
| "server_exec serve X T th0 a (V_accept (Inl e)) s = ends (Exited 1) (Exited 101) (close_down X T th0 a s) s"
| "server_exec serve X T th0 a (V_accept (Inr (r, conn))) s =
     \<comment> \<open>Spawn a new task; it is detached.\<close>
     andThen (spawn X th0 r (es_ex (wo_exec (sv_world s)))) (\<lambda>(index, _).
     andThen (world_exec no_client X T th0 (WSpawn r) (sv_world s)) (\<lambda>W.
     Inr (s\<lparr>sv_world := W, sv_jobs := (sv_jobs s)(r \<mapsto> Accepted conn), sv_slots := (sv_slots s)(r \<mapsto> index)\<rparr>)))"
| "server_exec serve X T th0 a (V_poll w) s =
     andThen (world_exec no_client X T th0 (WExec (EPoll a w)) (sv_world s)) (\<lambda>W. begin_task serve (s\<lparr>sv_world := W\<rparr>))"
| "server_exec serve X T th0 a (V_wake th r) s =
     andThen (world_exec no_client X T th0 (WWake th r) (sv_world s)) (\<lambda>W. Inr (s\<lparr>sv_world := W\<rparr>))"
| "server_exec serve X T th0 a V_suspend s =
     andThen (world_exec no_client X T th0 WPending (sv_world s)) (\<lambda>W. Inr (s\<lparr>sv_world := W\<rparr>))"
| "server_exec serve X T th0 a V_finish s = end_task X T th0 a s"

text \<open>The two programs.\<close>

definition unsend_hello_main2 ::
  "('c, 'b, 'e, 'p) http \<Rightarrow> ('q, 'a, 's, 'r, 'w) externs \<Rightarrow> 't task_ops \<Rightarrow> 'th \<Rightarrow> addr \<Rightarrow> ('r, 'w, 'th, 'c, 'e) server_op
     \<Rightarrow> ('q, 'a, 's, 'r, 'w, 'th, 't, 'c, 'e, 'p) server \<Rightarrow> ('q, 'a, 's, 'r, 'w, 'th, 't, 'c, 'e, 'p) server outcome" where
  "unsend_hello_main2 H = server_exec (unsend_hello_task H)"

definition unsend_lock_main2 ::
  "('c, 'b, 'e, 'p) http \<Rightarrow> ('q, 'a, 's, 'r, 'w) externs \<Rightarrow> 't task_ops \<Rightarrow> 'th \<Rightarrow> addr \<Rightarrow> ('r, 'w, 'th, 'c, 'e) server_op
     \<Rightarrow> ('q, 'a, 's, 'r, 'w, 'th, 't, 'c, 'e, 'p) server \<Rightarrow> ('q, 'a, 's, 'r, 'w, 'th, 't, 'c, 'e, 'p) server outcome" where
  "unsend_lock_main2 H = server_exec (unsend_lock H)"

declare listen_def [evals] unsend_hello_task_def [evals] no_client_def [evals] server_init_def [evals]
  pending_externs_def [evals] armed_slot_def [evals] close_down_def [evals] ends_def [evals] begin_task_def [evals]
  end_task_def [evals] unsend_hello_main2_def [evals] unsend_lock_main2_def [evals]

section \<open>The world of the server\<close>

interpretation alone: client no_client "\<lambda>_ P. P = no_pool" "()"
  by unfold_locales (simp_all add: no_client_def no_pool_def)

text \<open>A step that leaves the runners alone.\<close>

definition calm :: "('q, 'a, 's, 'r, 'w, 'th, unit, 't) world \<Rightarrow> ('q, 'a, 's, 'r, 'w, 'th, unit, 't) world \<Rightarrow> bool" where
  "calm W W' \<longleftrightarrow>
     es_ticks (wo_exec W') = es_ticks (wo_exec W) \<and> es_lossy (wo_exec W') = es_lossy (wo_exec W) \<and>
     es_single (wo_exec W') = es_single (wo_exec W)"

lemma calm_exec:
  assumes "exec_exec X th0 op s = Inr s'" and "op \<in> {ESchedule th r, ESpawn r, EFinish k}"
  shows "es_ticks s' = es_ticks s \<and> es_lossy s' = es_lossy s \<and> es_single s' = es_single s"
  using assms by (auto simp: andThen_Inr_iff)

lemma no_futures [simp]: "cl_futs no_client c a = None"
  by (simp add: no_client_def)

context async_tasks
begin

text \<open>What each step does to the phases of the tasks.\<close>

lemma spawn_phases:
  assumes "world_exec no_client X T th0 (WSpawn r) W = Inr W'"
  shows "calm W W' \<and> wo_current W' = wo_current W \<and> phase_of phase W' = (phase_of phase W)(r \<mapsto> Scheduled)"
proof -
  from assms obtain s where s: "exec_exec X th0 (ESpawn r) (wo_exec W) = Inr s"
    "W' = W\<lparr>wo_exec := s, wo_tasks := (wo_tasks W)(r \<mapsto> tk_new T)\<rparr>"
    by (auto simp: world_exec_def andThen_Inr_iff simp del: exec_exec.simps)
  with calm_exec [OF s(1)] task_new show ?thesis by (auto simp: calm_def phase_of_def)
qed

lemma wake_phases:
  assumes "world_exec no_client X T th0 (WWake th r) W = Inr W'"
  shows "calm W W' \<and> wo_current W' = wo_current W \<and>
    phase_of phase W' = (phase_of phase W)(r := map_option woken_phase (phase_of phase W r))"
proof (cases "wo_tasks W r")
  case None
  with assms show ?thesis by (auto simp: world_exec_def wake_task_def calm_def phase_of_def)
next
  case (Some t)
  from task_wake [of t] obtain t' where t': "tk_wake T t = (phase t = Idle, t')" "phase t' = woken_phase (phase t)" by blast
  show ?thesis
  proof (cases "phase t = Idle")
    case True
    with assms Some t'(1) obtain s where s: "exec_exec X th0 (ESchedule th r) (wo_exec W) = Inr s"
      "W' = W\<lparr>wo_exec := s, wo_tasks := (wo_tasks W)(r \<mapsto> t')\<rparr>"
      by (auto simp: world_exec_def wake_task_def Let_def andThen_Inr_iff simp del: exec_exec.simps)
    with calm_exec [OF s(1)] t'(2) Some show ?thesis by (auto simp: calm_def phase_of_def)
  next
    case False
    with assms Some t' show ?thesis by (auto simp: world_exec_def wake_task_def Let_def calm_def phase_of_def)
  qed
qed

lemma suspend_phases:
  assumes "world_exec no_client X T th0 WPending W = Inr W'" and "wo_current W = Some r"
    and "phase_of phase W r = Some Running \<or> phase_of phase W r = Some Rewoken"
  shows "calm W W' \<and> wo_current W' = None \<and>
    phase_of phase W' = (phase_of phase W)(r \<mapsto> if phase_of phase W r = Some Rewoken then Scheduled else Idle)"
proof -
  from assms(3) obtain t where t: "wo_tasks W r = Some t" "phase t = Running \<or> phase t = Rewoken"
    by (auto simp: phase_of_def)
  from task_pending [OF t(2)] obtain t' where
    t': "tk_pending T t = (phase t = Rewoken, t')" "phase t' = (if phase t = Rewoken then Scheduled else Idle)" by blast
  show ?thesis
  proof (cases "phase t = Rewoken")
    case True
    with assms t t'(1) obtain s where s: "exec_exec X th0 (ESchedule th0 r) (wo_exec W) = Inr s"
      "W' = W\<lparr>wo_exec := s, wo_tasks := (wo_tasks W)(r \<mapsto> t'), wo_current := None\<rparr>"
      by (auto simp: world_exec_def Let_def andThen_Inr_iff simp del: exec_exec.simps)
    with calm_exec [OF s(1)] t t'(2) True show ?thesis by (auto simp: calm_def phase_of_def)
  next
    case False
    with assms t t' show ?thesis by (auto simp: world_exec_def Let_def calm_def phase_of_def)
  qed
qed

lemma finish_phases:
  assumes "world_exec no_client X T th0 (WExec (EFinish k)) W = Inr W'"
  shows "calm W W' \<and> wo_current W' = wo_current W \<and> phase_of phase W' = phase_of phase W"
proof -
  from assms obtain s where s: "exec_exec X th0 (EFinish k) (wo_exec W) = Inr s"
    "W' = start_run T (drop (length (es_ran (wo_exec W))) (es_ran s)) (W\<lparr>wo_exec := s\<rparr>)"
    by (auto simp: world_exec_def andThen_Inr_iff simp del: exec_exec.simps)
  from s(1) have "es_ran s = es_ran (wo_exec W)" by (auto simp: andThen_Inr_iff)
  with s calm_exec [OF s(1)] show ?thesis by (auto simp: calm_def phase_of_def start_run_def)
qed

lemma ready_phases:
  assumes "world_exec no_client X T th0 WReady W = Inr W'" and "wo_current W = Some r" and "wo_tasks W r \<noteq> None"
  shows "calm W W' \<and> wo_current W' = None \<and> phase_of phase W' = (phase_of phase W)(r \<mapsto> Completed)"
  using assms task_ready by (auto simp: world_exec_def calm_def phase_of_def)

lemma ticker_phases:
  assumes "world_exec no_client X T th0 (WExec (ETicker a)) W = Inr W'"
  shows "es_ticks (wo_exec W') = (es_ticks (wo_exec W))(a \<mapsto> Ticker_new) \<and>
    es_lossy (wo_exec W') = es_lossy (wo_exec W) \<and> es_single (wo_exec W') = es_single (wo_exec W) \<and>
    wo_current W' = wo_current W \<and> phase_of phase W' = phase_of phase W"
  using assms by (auto simp: world_exec_def phase_of_def start_run_def)

lemma poll_phases:
  assumes ok: "world_ok no_client X phase tid th0 W" and c: "wo_current W = None"
    and en: "exec_enabled X (EPoll a w) (wo_exec W)"
    and e: "world_exec no_client X T th0 (WExec (EPoll a w)) W = Inr W'"
  shows "(\<exists>f. es_ticks (wo_exec W') = (es_ticks (wo_exec W))(a \<mapsto> f)) \<and>
    es_lossy (wo_exec W') = es_lossy (wo_exec W) \<and> es_single (wo_exec W') = es_single (wo_exec W) \<and>
    (case wo_current W' of
       None \<Rightarrow> phase_of phase W' = phase_of phase W
     | Some r \<Rightarrow> phase_of phase W r = Some Scheduled \<and> phase_of phase W' = (phase_of phase W)(r \<mapsto> Running))"
proof -
  from e obtain s where s: "exec_exec X th0 (EPoll a w) (wo_exec W) = Inr s"
    "W' = start_run T (drop (length (es_ran (wo_exec W))) (es_ran s)) (W\<lparr>wo_exec := s\<rparr>)"
    by (auto simp: world_exec_def andThen_Inr_iff simp del: exec_exec.simps)
  from s(1) obtain f where f: "es_ticks s = (es_ticks (wo_exec W))(a \<mapsto> f)" "es_lossy s = es_lossy (wo_exec W)"
    "es_single s = es_single (wo_exec W)" by (auto simp: andThen_Inr_iff)
  from exec_logs(2) [OF s(1)] obtain rs where rs: "es_ran s = es_ran (wo_exec W) @ rs" "length rs \<le> 1" by blast
  show ?thesis
  proof (cases rs)
    case Nil
    with s(2) f rs(1) c show ?thesis by (auto simp: start_run_def phase_of_def)
  next
    case (Cons r rs')
    then have r: "rs = [r]" using rs(2) by simp
    have "exec_reach X tid th0 s" using reach_no_fault [OF _ en] ok s(1) by (fastforce simp: world_ok_def)
    moreover have "es_scheduled s = es_scheduled (wo_exec W)" using exec_logs(1) [OF s(1)] by simp
    ultimately have "phase_of phase W r = Some Scheduled"
      by (rule task_world.ran_scheduled [OF task_world.intro [OF async_tasks_axioms alone.client_axioms] ok])
        (use rs(1) r in simp)
    moreover from this obtain t where "wo_tasks W r = Some t" "phase (tk_run T t) = Running"
      using task_run by (auto simp: phase_of_def)
    ultimately show ?thesis using s(2) f rs(1) r by (auto simp: start_run_def phase_of_def)
  qed
qed

end

section \<open>Closing down\<close>

text \<open>When the runner and the executor are dropped, nothing worse happens than the panic of a double borrow.\<close>

context async_tasks
begin

lemma pending_crates: "crates (pending_externs T ts X) absQ absA absS"
  by unfold_locales
    (simp_all add: pending_externs_def queue_new queue_push queue_pop queue_empty waker_new waker_register waker_take
      waker_wake slab_new slab_vacant slab_insert slab_remove slab_drain)

lemma pending_ok: "ex_ok X absQ absA ex q \<Longrightarrow> ex_ok (pending_externs T ts X) absQ absA ex q"
  by (auto simp: ex_ok_def foreign_def pending_externs_def)

lemma close_down_faults:
  assumes "exec_reach X tid th0 (wo_exec (sv_world s))" and "close_down X T th0 a s = Inl f"
  shows "f = Panic Borrow_failed"
proof -
  let ?E = "wo_exec (sv_world s)" and ?X = "pending_externs T (wo_tasks (sv_world s)) X"
  from reach_good [OF assms(1)] obtain q where inv: "exec_inv X absQ absA ?E q" by (auto simp: exec_good_def)
  note i = exec_invD(1,2) [OF inv]
  have "\<exists>E' q'. (case es_ticks ?E a of None \<Rightarrow> Inr ?E | Some f \<Rightarrow> exec_exec X th0 (EDrop a) ?E) = Inr E' \<and>
      ex_ok X absQ absA (es_ex E') q'"
  proof (cases "es_ticks ?E a")
    case None
    with i(1) show ?thesis by auto
  next
    case (Some g)
    then have "place_ok (tf_pc g) a q" using i(2) by (simp add: ticks_ok_def)
    from tick_drop_ends [OF i(1) this, of th0] Some show ?thesis by auto
  qed
  then obtain E' q' where
    e: "(case es_ticks ?E a of None \<Rightarrow> Inr ?E | Some f \<Rightarrow> exec_exec X th0 (EDrop a) ?E) = Inr E'"
      "ex_ok X absQ absA (es_ex E') q'" by blast
  from assms(2) e(1) have "Executor_drop ?X (armed_slot s) th0 (es_ex E') = Inl f"
    by (simp add: close_down_def Let_def del: exec_exec.simps)
  then show ?thesis by (rule crates.Executor_drop_faults [OF pending_crates pending_ok [OF e(2)]])
qed

lemma ends_ok:
  assumes "exec_reach X tid th0 (wo_exec (sv_world s))"
  shows "\<exists>p. ends normally panicking (close_down X T th0 a s) s' = Inr (s'\<lparr>sv_process := p\<rparr>) \<and> p \<in> {normally, panicking}"
  using close_down_faults [OF assms, of a] by (cases "close_down X T th0 a s") (auto simp: ends_def)

end

section \<open>The invariant\<close>

text \<open>What the main functions rely on: a handler ends, or panics.\<close>

locale handler =
  fixes serve :: "('c, 'e, 'p) serving"
  assumes serve_ends: "\<exists>r c' i'. serve i c = Some (r, c', i') \<and> (\<forall>f. r = Inl f \<longrightarrow> (\<exists>p. f = Panic p))"

context http_io
begin

lemma handles:
  "\<exists>r c'. handle_connection X g c = Some (r, c') \<and> (\<forall>f. r = Inl f \<longrightarrow> (\<exists>p. f = Panic p))"
proof (rule handle_cases [of g c])
  fix bss c1
  assume h: "handle_connection X g c = Some (write_each X bss c1)"
  obtain r c' where "write_each X bss c1 = (Inr r, c')" using writes_no_fault [of bss c1] by blast
  with h show ?thesis by simp
qed simp_all

end

sublocale http_io \<subseteq> hello_handler: handler "unsend_hello_task X"
proof
  fix i c
  obtain r c' where "handle_connection X hello c = Some (r, c')" "\<forall>f. r = Inl f \<longrightarrow> (\<exists>p. f = Panic p)"
    using handles [of hello c] by blast
  then show "\<exists>r c' i'. unsend_hello_task X i c = Some (r, c', i') \<and> (\<forall>f. r = Inl f \<longrightarrow> (\<exists>p. f = Panic p))"
    by (simp add: unsend_hello_task_def unsend_hello_def)
qed

sublocale http_io \<subseteq> lock_handler: handler "unsend_lock X"
proof
  fix i c
  obtain x i' where x: "count_refcell i = (x, i')" by fastforce
  show "\<exists>r c' i'. unsend_lock X i c = Some (r, c', i') \<and> (\<forall>f. r = Inl f \<longrightarrow> (\<exists>p. f = Panic p))"
  proof (cases x)
    case (Inl f)
    with x have "\<exists>p. f = Panic p"
      by (auto simp: count_refcell_def u64_add_def split: option.splits sum.splits if_splits)
    with x Inl show ?thesis by (simp add: unsend_lock_def counted_def)
  next
    case (Inr n)
    obtain r c' where "handle_connection X (respond (you_are n)) c = Some (r, c')" "\<forall>f. r = Inl f \<longrightarrow> (\<exists>p. f = Panic p)"
      using handles [of "respond (you_are n)" c] by blast
    with x Inr show ?thesis by (simp add: unsend_lock_def counted_def)
  qed
qed

context http_io
begin

lemma handlers: "serve \<in> {unsend_hello_task X, unsend_lock X} \<Longrightarrow> handler serve"
  using hello_handler.handler_axioms lock_handler.handler_axioms by blast

end

text \<open>Each connection has a task, in the phase that its job tells.\<close>

fun job_ok :: "('c, 'e, 'p) serving \<Rightarrow> ('c, 'e, 'p) job option \<Rightarrow> phase option \<Rightarrow> bool" where
  "job_ok serve None p \<longleftrightarrow> p = None"
| "job_ok serve (Some (Accepted c)) p \<longleftrightarrow> p = Some Scheduled"
| "job_ok serve (Some (Working c r c')) p \<longleftrightarrow> p \<noteq> None \<and> p \<noteq> Some Completed \<and> (\<exists>i i'. serve i c = Some (r, c', i'))"
| "job_ok serve (Some (Served c r c')) p \<longleftrightarrow> p = Some Completed \<and> \<not> isl r \<and> (\<exists>i i'. serve i c = Some (r, c', i'))"

definition serving_ok ::
  "('c, 'e, 'p) serving \<Rightarrow> ('q, 'a, 's, 'r, 'w) externs \<Rightarrow> 't task_ops \<Rightarrow> ('t \<Rightarrow> phase) \<Rightarrow> 'th ThreadId \<Rightarrow> 'th \<Rightarrow> addr
     \<Rightarrow> ('q, 'a, 's, 'r, 'w, 'th, 't, 'c, 'e, 'p) server \<Rightarrow> bool" where
  "serving_ok serve X T phase tid th0 a s \<longleftrightarrow>
     world_reach no_client X T tid th0 () (sv_world s) \<and> (\<exists>f. es_ticks (wo_exec (sv_world s)) = [a \<mapsto> f]) \<and>
     \<not> es_lossy (wo_exec (sv_world s)) \<and> \<not> es_single (wo_exec (sv_world s)) \<and>
     (\<forall>r. job_ok serve (sv_jobs s r) (phase_of phase (sv_world s) r))"

definition server_inv ::
  "('c, 'e, 'p) serving \<Rightarrow> ('q, 'a, 's, 'r, 'w) externs \<Rightarrow> 't task_ops \<Rightarrow> ('t \<Rightarrow> phase) \<Rightarrow> 'th ThreadId \<Rightarrow> 'th \<Rightarrow> addr
     \<Rightarrow> ('q, 'a, 's, 'r, 'w, 'th, 't, 'c, 'e, 'p) server \<Rightarrow> bool" where
  "server_inv serve X T phase tid th0 a s \<longleftrightarrow>
     (case sv_process s of
        Starting \<Rightarrow> s = server_init X tid th0
      | Serving \<Rightarrow> serving_ok serve X T phase tid th0 a s
      | _ \<Rightarrow> True)"

text \<open>What each step makes of the process.\<close>

definition handler_panics :: "('q, 'a, 's, 'r, 'w, 'th, 't, 'c, 'e, 'p) server \<Rightarrow> bool" where
  "handler_panics s \<longleftrightarrow>
     (case wo_current (sv_world s) of
        None \<Rightarrow> False
      | Some r \<Rightarrow> (case sv_jobs s r of Some (Working conn x conn') \<Rightarrow> isl x | _ \<Rightarrow> False))"

fun next_process ::
  "('r, 'w, 'th, 'c, 'e) server_op \<Rightarrow> ('q, 'a, 's, 'r, 'w, 'th, 't, 'c, 'e, 'p) server \<Rightarrow> process set" where
  "next_process (V_listen net) s = (if isl (listen net) then {Exited 1} else {Serving})"
| "next_process (V_accept conn) s = (if isl conn then {Exited 1, Exited 101} else {Serving})"
| "next_process V_finish s = (if handler_panics s then {Exited 101, Aborted} else {Serving})"
| "next_process op s = {Serving}"

declare handler_panics_def [evals]

locale http_server = async_tasks X absQ absA absS T phase + handler serve
  for X :: "('q, 'a, 's, 'r, 'w) externs" and absQ absA absS
    and T :: "'t task_ops" and phase :: "'t \<Rightarrow> phase" and serve :: "('c, 'e, 'p) serving" +
  fixes a :: addr
  assumes runner_addr: "a \<noteq> 0"
begin

lemmas world = task_world.intro [OF async_tasks_axioms alone.client_axioms]

lemma world_reach_ok:
  assumes "world_reach no_client X T tid th0 () W"
  shows "world_ok no_client X phase tid th0 W" and "exec_reach X tid th0 (wo_exec W)"
proof -
  show "world_ok no_client X phase tid th0 W"
    by (rule conjunct1 [OF task_world.world_reach_inv [OF world assms, unfolded world_inv_def]])
  then show "exec_reach X tid th0 (wo_exec W)" by (simp add: world_ok_def)
qed

lemma serving_okD:
  assumes "serving_ok serve X T phase tid th0 a s"
  shows "world_reach no_client X T tid th0 () (sv_world s)" "world_ok no_client X phase tid th0 (sv_world s)"
    "exec_reach X tid th0 (wo_exec (sv_world s))" "\<exists>f. es_ticks (wo_exec (sv_world s)) = [a \<mapsto> f]"
    "\<not> es_lossy (wo_exec (sv_world s))" "\<not> es_single (wo_exec (sv_world s))"
    "job_ok serve (sv_jobs s r) (phase_of phase (sv_world s) r)"
proof -
  show r: "world_reach no_client X T tid th0 () (sv_world s)" using assms by (simp add: serving_ok_def)
  show "world_ok no_client X phase tid th0 (sv_world s)" "exec_reach X tid th0 (wo_exec (sv_world s))"
    by (rule world_reach_ok [OF r])+
qed (use assms in \<open>simp_all add: serving_ok_def\<close>)

text \<open>A step of the world.\<close>

lemma world_step:
  assumes "world_reach no_client X T tid th0 () W" and "world_enabled no_client X op W"
  obtains W' where "world_exec no_client X T th0 op W = Inr W'" and "world_reach no_client X T tid th0 () W'"
  using task_world.world_no_fault [OF world assms] assms that reach.step unfolding world_reach_def by metis

lemma serving_okI:
  assumes "serving_ok serve X T phase tid th0 a s" and "world_reach no_client X T tid th0 () W" and "calm (sv_world s) W"
    and "\<And>r. job_ok serve (jobs r) (phase_of phase W r)"
  shows "serving_ok serve X T phase tid th0 a (s\<lparr>sv_world := W, sv_jobs := jobs\<rparr>)"
  using assms by (simp add: serving_ok_def calm_def)

lemma serving_okI':
  assumes "serving_ok serve X T phase tid th0 a s" and "world_reach no_client X T tid th0 () W" and "calm (sv_world s) W"
    and "\<And>r. job_ok serve (sv_jobs s r) (phase_of phase W r)"
  shows "serving_ok serve X T phase tid th0 a (s\<lparr>sv_world := W\<rparr>)"
  using assms by (simp add: serving_ok_def calm_def)

text \<open>The task that runs has a handler at work.\<close>

lemma current_job:
  assumes ok: "serving_ok serve X T phase tid th0 a s" and c: "wo_current (sv_world s) = Some r"
  obtains conn res conn' where "sv_jobs s r = Some (Working conn res conn')"
    and "phase_of phase (sv_world s) r = Some Running \<or> phase_of phase (sv_world s) r = Some Rewoken"
proof -
  have p: "phase_of phase (sv_world s) r = Some Running \<or> phase_of phase (sv_world s) r = Some Rewoken"
    using task_world.world_okD(3) [OF world serving_okD(2) [OF ok], of r] c by (simp add: runs_def)
  with serving_okD(7) [OF ok, of r] that show thesis
    by (cases "sv_jobs s r" rule: option.exhaust; cases "the (sv_jobs s r)") auto
qed

text \<open>The steps.\<close>

lemma listen_error_ok:
  "\<exists>ex. close_down X T th0 a (server_init X tid th0 :: ('q, 'a, 's, 'r, 'w, 'th, 't, 'c, 'e, 'p) server) = Inr ex"
proof -
  let ?s = "server_init X tid th0 :: ('q, 'a, 's, 'r, 'w, 'th, 't, 'c, 'e, 'p) server" and ?X = "pending_externs T Map.empty X"
  have s: "wo_exec (sv_world ?s) = exec_init X tid th0" "wo_tasks (sv_world ?s) = Map.empty"
    by (simp_all add: server_init_def world_init_def)
  have ex: "ts_active (es_ex (exec_init X tid th0)) = sl_new X" "ts_task_queue (es_ex (exec_init X tid th0)) = []"
    "ex_task_queue (es_ex (exec_init X tid th0)) = cq_unbounded X" "es_ticks (exec_init X tid th0) = Map.empty"
    by (simp_all add: exec_init_def with_thread_id_def)
  have "ex_ok X absQ absA (es_ex (exec_init X tid th0)) q_empty" using exec_start by (rule exec_invD(1))
  from crates.Executor_drop_ok [OF pending_crates pending_ok [OF this], of "Map.empty" "armed_slot ?s" th0] ex s
  show ?thesis by (auto simp: close_down_def slab_new queue_new)
qed

lemma accept_ok:
  assumes ok: "serving_ok serve X T phase tid th0 a s" and n: "sv_jobs s r = None"
  shows "\<exists>s'. server_exec serve X T th0 a (V_accept (Inr (r, conn))) s = Inr s' \<and> serving_ok serve X T phase tid th0 a s' \<and>
    sv_process s' = sv_process s"
proof -
  note w = serving_okD(1) [OF ok] and job = serving_okD(7) [OF ok]
  have "phase_of phase (sv_world s) r = None" using job [of r] n by simp
  then have "world_enabled no_client X (WSpawn r) (sv_world s)" by (simp add: world_enabled_def phase_of_def)
  from world_step [OF w this] obtain W where
    W: "world_exec no_client X T th0 (WSpawn r) (sv_world s) = Inr W" "world_reach no_client X T tid th0 () W" .
  note ph = spawn_phases [OF W(1)]
  from W(1) obtain k ex where sp: "spawn X th0 r (es_ex (wo_exec (sv_world s))) = Inr (k, ex)"
    by (auto simp: world_exec_def andThen_Inr_iff)
  let ?jobs = "(sv_jobs s)(r \<mapsto> Accepted conn)"
  have "serving_ok serve X T phase tid th0 a (s\<lparr>sv_world := W, sv_jobs := ?jobs\<rparr>)"
    by (rule serving_okI [OF ok W(2)]) (use ph job in simp_all)
  then have "serving_ok serve X T phase tid th0 a (s\<lparr>sv_world := W, sv_jobs := ?jobs, sv_slots := (sv_slots s)(r \<mapsto> k)\<rparr>)"
    by (simp add: serving_ok_def)
  with W(1) sp show ?thesis by simp
qed

lemma poll_ok:
  assumes ok: "serving_ok serve X T phase tid th0 a s" and c: "wo_current (sv_world s) = None" and w: "rn_task X w = None"
  shows "\<exists>s'. server_exec serve X T th0 a (V_poll w) s = Inr s' \<and> serving_ok serve X T phase tid th0 a s' \<and>
    sv_process s' = sv_process s"
proof -
  note job = serving_okD(7) [OF ok]
  from serving_okD(4) [OF ok] obtain f where f: "es_ticks (wo_exec (sv_world s)) = [a \<mapsto> f]" by blast
  then have en: "exec_enabled X (EPoll a w) (wo_exec (sv_world s))" using w by simp
  then have "world_enabled no_client X (WExec (EPoll a w)) (sv_world s)" using c by (simp add: world_enabled_def)
  from world_step [OF serving_okD(1) [OF ok] this] obtain W where
    W: "world_exec no_client X T th0 (WExec (EPoll a w)) (sv_world s) = Inr W" "world_reach no_client X T tid th0 () W" .
  note ph = poll_phases [OF serving_okD(2) [OF ok] c en W(1)]
  have base: "(\<exists>f. es_ticks (wo_exec W) = [a \<mapsto> f]) \<and> \<not> es_lossy (wo_exec W) \<and> \<not> es_single (wo_exec W)"
    using ph f serving_okD(5,6) [OF ok] by auto
  let ?s = "s\<lparr>sv_world := W\<rparr>"
  show ?thesis
  proof (cases "wo_current W")
    case None
    then have "serving_ok serve X T phase tid th0 a ?s" using base W(2) ph job by (simp add: serving_ok_def)
    with W(1) None show ?thesis by (simp add: begin_task_def)
  next
    case (Some r)
    then have p: "phase_of phase (sv_world s) r = Some Scheduled" "phase_of phase W = (phase_of phase (sv_world s))(r \<mapsto> Running)"
      using ph by simp_all
    from job [of r] p(1) consider (acc) conn where "sv_jobs s r = Some (Accepted conn)"
      | (work) conn x conn' where "sv_jobs s r = Some (Working conn x conn')"
      by (cases "sv_jobs s r"; cases "the (sv_jobs s r)") auto
    then show ?thesis
    proof cases
      case acc
      from serve_ends [of "sv_index s" conn] obtain x conn' i where
        v: "serve (sv_index s) conn = Some (x, conn', i)" by blast
      let ?s' = "?s\<lparr>sv_index := i, sv_jobs := (sv_jobs s)(r \<mapsto> Working conn x conn')\<rparr>"
      have "job_ok serve (sv_jobs ?s' b) (phase_of phase W b)" for b using job [of b] p(2) v by auto
      then have "serving_ok serve X T phase tid th0 a ?s'" using base W(2) by (simp add: serving_ok_def)
      with W(1) Some acc v show ?thesis by (simp add: begin_task_def)
    next
      case work
      have "job_ok serve (sv_jobs s b) (phase_of phase W b)" for b using job [of b] p(2) work by auto
      then have "serving_ok serve X T phase tid th0 a ?s" using base W(2) by (simp add: serving_ok_def)
      with W(1) Some work show ?thesis by (simp add: begin_task_def)
    qed
  qed
qed

lemma wake_ok:
  assumes ok: "serving_ok serve X T phase tid th0 a s"
  shows "\<exists>s'. server_exec serve X T th0 a (V_wake th r) s = Inr s' \<and> serving_ok serve X T phase tid th0 a s' \<and>
    sv_process s' = sv_process s \<and>
    phase_of phase (sv_world s') = (phase_of phase (sv_world s))(r := map_option woken_phase (phase_of phase (sv_world s) r))"
proof -
  note job = serving_okD(7) [OF ok]
  have "world_enabled no_client X (WWake th r) (sv_world s)" by (simp add: world_enabled_def)
  from world_step [OF serving_okD(1) [OF ok] this] obtain W where
    W: "world_exec no_client X T th0 (WWake th r) (sv_world s) = Inr W" "world_reach no_client X T tid th0 () W" .
  note ph = wake_phases [OF W(1)]
  have "job_ok serve (sv_jobs s r) (map_option woken_phase (phase_of phase (sv_world s) r))"
  proof (cases "phase_of phase (sv_world s) r")
    case (Some p)
    with job [of r] show ?thesis by (cases "sv_jobs s r"; cases "the (sv_jobs s r)"; cases p) auto
  qed (use job [of r] in simp)
  then have "job_ok serve (sv_jobs s b) (phase_of phase W b)" for b using job [of b] ph by (cases "b = r") simp_all
  with serving_okI' [OF ok W(2)] ph have "serving_ok serve X T phase tid th0 a (s\<lparr>sv_world := W\<rparr>)" by blast
  with W(1) ph show ?thesis by simp
qed

lemma suspend_ok:
  assumes ok: "serving_ok serve X T phase tid th0 a s" and c: "wo_current (sv_world s) \<noteq> None"
  shows "\<exists>s'. server_exec serve X T th0 a V_suspend s = Inr s' \<and> serving_ok serve X T phase tid th0 a s' \<and>
    sv_process s' = sv_process s"
proof -
  note job = serving_okD(7) [OF ok]
  from c obtain r where c: "wo_current (sv_world s) = Some r" by blast
  obtain conn x conn' where j: "sv_jobs s r = Some (Working conn x conn')"
    and p: "phase_of phase (sv_world s) r = Some Running \<or> phase_of phase (sv_world s) r = Some Rewoken"
    by (rule current_job [OF ok c])
  have "world_enabled no_client X WPending (sv_world s)" using c by (simp add: world_enabled_def)
  from world_step [OF serving_okD(1) [OF ok] this] obtain W where
    W: "world_exec no_client X T th0 WPending (sv_world s) = Inr W" "world_reach no_client X T tid th0 () W" .
  note ph = suspend_phases [OF W(1) c p]
  have "job_ok serve (sv_jobs s b) (phase_of phase W b)" for b
    using job [of b] j ph by (cases "b = r") auto
  with serving_okI' [OF ok W(2)] ph have "serving_ok serve X T phase tid th0 a (s\<lparr>sv_world := W\<rparr>)" by blast
  with W(1) show ?thesis by simp
qed

lemma finish_ok:
  assumes ok: "serving_ok serve X T phase tid th0 a s" and sv: "sv_process s = Serving" and c: "wo_current (sv_world s) \<noteq> None"
  shows "\<exists>s'. server_exec serve X T th0 a V_finish s = Inr s' \<and> sv_process s' \<in> next_process V_finish s \<and>
    (sv_process s' = Serving \<longrightarrow> serving_ok serve X T phase tid th0 a s')"
proof -
  note job = serving_okD(7) [OF ok]
  from c obtain r where c: "wo_current (sv_world s) = Some r" by blast
  obtain conn x conn' where j: "sv_jobs s r = Some (Working conn x conn')"
    and p: "phase_of phase (sv_world s) r = Some Running \<or> phase_of phase (sv_world s) r = Some Rewoken"
    by (rule current_job [OF ok c])
  let ?finish = "case sv_slots s r of None \<Rightarrow> Inr (sv_world s)
    | Some k \<Rightarrow> world_exec no_client X T th0 (WExec (EFinish k)) (sv_world s)"
  have "\<exists>W1. ?finish = Inr W1 \<and> world_reach no_client X T tid th0 () W1 \<and> calm (sv_world s) W1 \<and>
    wo_current W1 = wo_current (sv_world s) \<and> phase_of phase W1 = phase_of phase (sv_world s)"
  proof (cases "sv_slots s r")
    case None
    with serving_okD(1) [OF ok] show ?thesis by (simp add: calm_def)
  next
    case (Some k)
    have "world_enabled no_client X (WExec (EFinish k)) (sv_world s)" by (simp add: world_enabled_def)
    from world_step [OF serving_okD(1) [OF ok] this] obtain W1 where
      W1: "world_exec no_client X T th0 (WExec (EFinish k)) (sv_world s) = Inr W1" "world_reach no_client X T tid th0 () W1" .
    with finish_phases [OF W1(1)] Some show ?thesis by auto
  qed
  then obtain W1 where W1: "?finish = Inr W1" "world_reach no_client X T tid th0 () W1" "calm (sv_world s) W1"
    "wo_current W1 = Some r" "phase_of phase W1 = phase_of phase (sv_world s)" using c by auto
  have t: "wo_tasks W1 r \<noteq> None" using p unfolding W1(5) [symmetric] by (auto simp: phase_of_def)
  have "world_enabled no_client X WReady W1" using W1(4) by (simp add: world_enabled_def)
  from world_step [OF W1(2) this] obtain W2 where
    W2: "world_exec no_client X T th0 WReady W1 = Inr W2" "world_reach no_client X T tid th0 () W2" .
  note ph = ready_phases [OF W2(1) W1(4) t, unfolded W1(5)]
  let ?s = "s\<lparr>sv_world := W2, sv_jobs := (sv_jobs s)(r \<mapsto> Served conn x conn')\<rparr>"
  have "calm (sv_world s) W2" using W1(3) ph by (simp add: calm_def)
  moreover have "job_ok serve (sv_jobs ?s b) (phase_of phase W2 b)" if "\<not> isl x" for b
    using job [of b] job [of r] j ph that by auto
  ultimately have ok2: "serving_ok serve X T phase tid th0 a ?s" if "\<not> isl x"
    using serving_okI [OF ok W2(2)] that by simp
  show ?thesis
  proof (cases x)
    case (Inl f)
    from job [of r] j obtain i i' where "serve i conn = Some (x, conn', i')" by auto
    with serve_ends [of i conn] Inl obtain e where f: "f = Panic e" by auto
    have "exec_reach X tid th0 (wo_exec (sv_world ?s))" using world_reach_ok(2) [OF W2(2)] by simp
    from ends_ok [OF this] obtain p where
      "ends (Exited 101) Aborted (close_down X T th0 a ?s) ?s = Inr (?s\<lparr>sv_process := p\<rparr>)" "p \<in> {Exited 101, Aborted}"
      by blast
    with W1(1) W2(1) c j Inl f show ?thesis by (auto simp: end_task_def handler_panics_def)
  next
    case (Inr y)
    with W1(1) W2(1) c j sv ok2 show ?thesis by (simp add: end_task_def handler_panics_def)
  qed
qed

lemma server_step:
  assumes inv: "server_inv serve X T phase tid th0 a s" and en: "server_enabled X op s"
  shows "\<exists>s'. server_exec serve X T th0 a op s = Inr s' \<and> sv_process s' \<in> next_process op s \<and>
    server_inv serve X T phase tid th0 a s'"
proof -
  have ok: "serving_ok serve X T phase tid th0 a s" if "sv_process s = Serving"
    using inv that by (simp add: server_inv_def)
  have keep: "\<exists>s'. server_exec serve X T th0 a op s = Inr s' \<and> sv_process s' \<in> {Serving} \<and>
      server_inv serve X T phase tid th0 a s'"
    if "sv_process s = Serving" "\<exists>s'. server_exec serve X T th0 a op s = Inr s' \<and> serving_ok serve X T phase tid th0 a s' \<and>
      sv_process s' = sv_process s" for op
  proof -
    from that(2) obtain s' where s': "server_exec serve X T th0 a op s = Inr s'" "serving_ok serve X T phase tid th0 a s'"
      "sv_process s' = sv_process s" by blast
    with that(1) show ?thesis by (intro exI [of _ s']) (simp add: server_inv_def)
  qed
  show ?thesis
  proof (cases op)
    case (V_listen net)
    then have s: "s = server_init X tid th0" using inv en by (simp add: server_inv_def)
    show ?thesis
    proof (cases "listen net")
      case (Inl e)
      from listen_error_ok [of th0 tid] obtain ex where "close_down X T th0 a s = Inr ex" unfolding s by blast
      with V_listen Inl show ?thesis by (simp add: ends_def server_inv_def)
    next
      case (Inr u)
      have i: "es_ticks (wo_exec (sv_world s)) = Map.empty" "\<not> es_lossy (wo_exec (sv_world s))"
        "\<not> es_single (wo_exec (sv_world s))" "phase_of phase (sv_world s) r = None" "sv_jobs s r = None" for r
        by (simp_all add: s server_init_def world_init_def exec_init_def phase_of_def)
      have "world_reach no_client X T tid th0 () (sv_world s)"
        unfolding world_reach_def by (simp add: s server_init_def reach.start)
      moreover have "world_enabled no_client X (WExec (ETicker a)) (sv_world s)"
        using i(1) runner_addr by (simp add: world_enabled_def)
      ultimately obtain W where W: "world_exec no_client X T th0 (WExec (ETicker a)) (sv_world s) = Inr W"
        "world_reach no_client X T tid th0 () W" by (rule world_step)
      note ph = ticker_phases [OF W(1)]
      have "serving_ok serve X T phase tid th0 a (s\<lparr>sv_world := W, sv_process := Serving\<rparr>)"
        using W(2) ph i by (auto simp: serving_ok_def)
      with V_listen Inr W(1) show ?thesis by (simp add: server_inv_def)
    qed
  next
    case (V_accept conn)
    then have sv: "sv_process s = Serving" using en by simp
    show ?thesis
    proof (cases conn)
      case (Inl e)
      from ends_ok [OF serving_okD(3) [OF ok [OF sv]]] obtain p where
        "ends (Exited 1) (Exited 101) (close_down X T th0 a s) s = Inr (s\<lparr>sv_process := p\<rparr>)" "p \<in> {Exited 1, Exited 101}"
        by blast
      with V_accept Inl show ?thesis by (auto simp: server_inv_def)
    next
      case (Inr rc)
      obtain r c where rc: "rc = (r, c)" by fastforce
      then have "sv_jobs s r = None" using en V_accept Inr by simp
      from keep [OF sv accept_ok [OF ok [OF sv] this]] V_accept Inr rc show ?thesis by simp
    qed
  next
    case (V_poll w)
    then have sv: "sv_process s = Serving" using en by simp
    from keep [OF sv poll_ok [OF ok [OF sv]]] V_poll en show ?thesis by simp
  next
    case (V_wake th r)
    then have sv: "sv_process s = Serving" using en by simp
    from wake_ok [OF ok [OF sv], of th r] have "\<exists>s'. server_exec serve X T th0 a (V_wake th r) s = Inr s' \<and>
      serving_ok serve X T phase tid th0 a s' \<and> sv_process s' = sv_process s" by blast
    from keep [OF sv this] V_wake show ?thesis by simp
  next
    case V_suspend
    then have sv: "sv_process s = Serving" using en by simp
    from keep [OF sv suspend_ok [OF ok [OF sv]]] V_suspend en show ?thesis by simp
  next
    case V_finish
    then have sv: "sv_process s = Serving" and "wo_current (sv_world s) \<noteq> None" using en by simp_all
    from finish_ok [OF ok [OF sv] this] obtain s' where
      s': "server_exec serve X T th0 a V_finish s = Inr s'" "sv_process s' \<in> next_process V_finish s"
        "sv_process s' = Serving \<longrightarrow> serving_ok serve X T phase tid th0 a s'" by blast
    then have "sv_process s' \<in> {Serving, Exited 101, Aborted}" by (auto split: if_splits)
    with s' V_finish show ?thesis by (auto simp: server_inv_def)
  qed
qed

end

sublocale http_server \<subseteq> servers: machine "server_enabled X" "server_exec serve X T th0 a" "server_init X tid th0"
    "server_inv serve X T phase tid th0 a" for tid and th0
proof
  show "server_inv serve X T phase tid th0 a (server_init X tid th0)" by (simp add: server_inv_def server_init_def)
  fix s op assume "server_inv serve X T phase tid th0 a s" and "server_enabled X op s"
  from server_step [OF this] show "\<exists>s'. server_exec serve X T th0 a op s = Inr s' \<and> server_inv serve X T phase tid th0 a s'"
    by blast
qed

text \<open>Both servers, on the lists and the streams in memory.\<close>

interpretation listed_hello: http_server list_crates "\<lambda>q. q" "\<lambda>a. a" slots_map phase_tasks "\<lambda>p. p"
    "unsend_hello_task list_http" 8
  by unfold_locales simp

interpretation listed_lock: http_server list_crates "\<lambda>q. q" "\<lambda>a. a" slots_map phase_tasks "\<lambda>p. p" "unsend_lock list_http" 8
  by unfold_locales simp

section \<open>Properties\<close>

lemma servers_cases:
  assumes "async_tasks X absQ absA absS T phase" and "http_io H incoming written b_incoming b_written healthy b_healthy"
    and "a \<noteq> 0" and "main2 \<in> {unsend_hello_main2 H X T th0 a, unsend_lock_main2 H X T th0 a}"
  obtains serve where "serve \<in> {unsend_hello_task H, unsend_lock H}" and "main2 = server_exec serve X T th0 a"
    and "http_server X absQ absA absS T phase serve a"
proof -
  from assms(4) obtain serve where
    s: "serve \<in> {unsend_hello_task H, unsend_lock H}" "main2 = server_exec serve X T th0 a"
    by (auto simp: unsend_hello_main2_def unsend_lock_main2_def)
  have "http_server X absQ absA absS T phase serve a"
    by (intro http_server.intro assms(1) http_io.handlers [OF assms(2) s(1)] http_server_axioms.intro assms(3))
  with s that show thesis by blast
qed

context http_server
begin

text \<open>The executor holds the task of a connection that is scheduled, and its runner will poll.\<close>

lemma scheduled_held:
  assumes ok: "serving_ok serve X T phase tid th0 a s" and p: "phase_of phase (sv_world s) r = Some Scheduled"
  shows "count (held_tasks absQ (wo_exec (sv_world s))) r = 1 \<and> runner_awake (wo_exec (sv_world s))"
proof -
  have one: "count (held_tasks absQ (wo_exec (sv_world s))) r = 1"
    using task_world.held_scheduled [OF world serving_okD(2,5) [OF ok], of r] p by simp
  from reach_good [OF serving_okD(3) [OF ok]] obtain q where inv: "exec_inv X absQ absA (wo_exec (sv_world s)) q"
    by (auto simp: exec_good_def)
  have "held_tasks absQ (wo_exec (sv_world s)) \<noteq> {#}" using one by auto
  moreover have "es_ticks (wo_exec (sv_world s)) a \<noteq> None" using serving_okD(4) [OF ok] by auto
  then have "es_ticks (wo_exec (sv_world s)) \<noteq> Map.empty" by auto
  ultimately show ?thesis using runner_is_awake [OF inv serving_okD(6) [OF ok]] one by blast
qed

lemma attends:
  assumes ok: "serving_ok serve X T phase tid th0 a s"
  shows "sv_jobs s r = Some (Accepted conn) \<Longrightarrow>
      count (held_tasks absQ (wo_exec (sv_world s))) r = 1 \<and> runner_awake (wo_exec (sv_world s))"
    and "sv_jobs s r = Some (Working conn x conn') \<Longrightarrow> wo_current (sv_world s) \<noteq> Some r \<Longrightarrow>
      \<exists>s'. server_exec serve X T th0 a (V_wake th r) s = Inr s' \<and>
        count (held_tasks absQ (wo_exec (sv_world s'))) r = 1 \<and> runner_awake (wo_exec (sv_world s'))"
proof -
  note job = serving_okD(7) [OF ok, of r]
  show "count (held_tasks absQ (wo_exec (sv_world s))) r = 1 \<and> runner_awake (wo_exec (sv_world s))"
    if "sv_jobs s r = Some (Accepted conn)" using scheduled_held [OF ok] job that by simp
  show "\<exists>s'. server_exec serve X T th0 a (V_wake th r) s = Inr s' \<and>
      count (held_tasks absQ (wo_exec (sv_world s'))) r = 1 \<and> runner_awake (wo_exec (sv_world s'))"
    if j: "sv_jobs s r = Some (Working conn x conn')" and c: "wo_current (sv_world s) \<noteq> Some r"
  proof -
    have "\<not> runs phase (sv_world s) r" using task_world.world_okD(3) [OF world serving_okD(2) [OF ok], of r] c by simp
    moreover obtain p where p: "phase_of phase (sv_world s) r = Some p" "p \<noteq> Completed"
      using job j by (cases "phase_of phase (sv_world s) r") auto
    ultimately have "woken_phase p = Scheduled" by (cases p) (auto simp: runs_def)
    with wake_ok [OF ok, of th r] p obtain s' where s': "server_exec serve X T th0 a (V_wake th r) s = Inr s'"
      "serving_ok serve X T phase tid th0 a s'" "phase_of phase (sv_world s') r = Some Scheduled" by auto
    from scheduled_held [OF s'(2,3)] s'(1) show ?thesis by blast
  qed
qed

lemma reach_inv:
  "reach (server_enabled X) (server_exec serve X T th0 a) (server_init X tid th0) s \<Longrightarrow> server_inv serve X T phase tid th0 a s"
  by (rule servers.reach_inv)

lemma reach_serving:
  assumes "reach (server_enabled X) (server_exec serve X T th0 a) (server_init X tid th0) s" and "sv_process s = Serving"
  shows "serving_ok serve X T phase tid th0 a s"
  using servers.reach_inv [OF assms(1)] assms(2) by (simp add: server_inv_def)

end

text \<open>The connection that a task serves, and a request of bad length on it.\<close>

fun job_conn :: "('c, 'e, 'p) job \<Rightarrow> 'c" where
  "job_conn (Accepted c) = c"
| "job_conn (Working c x c') = c"
| "job_conn (Served c x c') = c"

lemma bad_request_panics:
  assumes "http_parser H incoming written b_incoming b_written healthy b_healthy"
    and "healthy conn" and "incoming conn = request_head m p hs @ rest" and "wf_request m p hs" and "length hs \<le> 16"
    and "find (\<lambda>(name, value). eq_ignore_ascii_case name (bytes ''Content-Length'')) hs = Some (name, v)" and "\<not> utf8_valid v"
    and "serve \<in> {unsend_hello_task H, unsend_lock H}" and "serve i conn = Some (x, conn', i')"
  shows "isl x"
proof -
  have "parse_usize v = None" using parse_usize_utf8 assms(7) by (cases "parse_usize v") auto
  with http_parser.handle_bad_length [OF assms(1-5,6)] assms(7) have
    "\<exists>c'. handle_connection H g conn = Some (Inl (Panic Unwrap_err), c')" for g by auto
  then have h: "isl y" if "handle_connection H g conn = Some (y, c)" for g y c using that by (metis Pair_inject isl_def option.inject)
  obtain k j where "count_refcell i = (k, j)" by fastforce
  with assms(8,9) show ?thesis
    by (cases k) (auto simp: unsend_hello_task_def unsend_hello_def unsend_lock_def counted_def dest: h)
qed

definition bad_request :: stream where
  "bad_request = \<lparr>st_incoming = request_head (bytes ''GET'') (bytes ''/'') [(bytes ''Content-Length'', [0xFF])],
     st_written = [], st_fails = None\<rparr>"

lemma wf_bad_request: "wf_request (bytes ''GET'') (bytes ''/'') [(bytes ''Content-Length'', [0xFF])]"
  by (simp add: wf_request_def wf_header_def bytes_def token_byte_def target_byte_def value_byte_def is_digit_def)

lemma bad_request_handle: "\<exists>c'. handle_connection list_http g bad_request = Some (Inl (Panic Unwrap_err), c')"
  using streams.handle_bad_length(1) [OF _ _ wf_bad_request, of bad_request "[]"] by (auto simp: bad_request_def)

definition some_net :: "unit net" where
  "some_net = \<lparr>nt_bind = Inr (), nt_local_addr = Inr ()\<rparr>"

declare some_net_def [evals]

text \<open>Two connections are accepted, and the first is polled.\<close>

definition bad_run :: "(nat, nat + nat, unit, stream, unit) server_op list" where
  "bad_run = [V_listen some_net, V_accept (Inr (3, bad_request)), V_accept (Inr (4, post)), V_poll (Inl 0)]"

declare bad_run_def [evals]

abbreviation listed_init ::
  "(nat list, (nat + nat) option, (nat + nat) option list, nat, nat + nat, unit, phase, stream, unit, unit) server" where
  "listed_init \<equiv> server_init list_crates (\<lambda>_. Some 8) ()"

text \<open>
  C21: The servers on this crate's executor attend to every connection, and stop only by an error or a panic. In every
  state that the main function of \<open>unsend-hello\<close> or of \<open>unsend-lock\<close> reaches, each step returns. It ends the process with
  status 1 if setting up the listener fails, with status 1 or 101 (dropping the executor may panic) if accepting
  fails, with status 101 or an abort if the handler that ends has panicked; otherwise the server goes on serving. While it serves,
  the task of a connection that was accepted and not polled yet is held by the executor exactly once, and the runner is
  awake to run it; that of a connection in its handler runs, or whatever thread wakes it, is held exactly once with the runner
  awake then.
\<close>

theorem servers_serve:
  assumes "async_tasks X absQ absA absS T phase" and "http_io H incoming written b_incoming b_written healthy b_healthy"
    and "a \<noteq> 0" and "main2 \<in> {unsend_hello_main2 H X T th0 a, unsend_lock_main2 H X T th0 a}"
    and "reach (server_enabled X) main2 (server_init X tid th0) s"
  shows "(server_enabled X op s \<longrightarrow> (\<exists>s'. main2 op s = Inr s' \<and> sv_process s' \<in> next_process op s)) \<and>
    (sv_process s = Serving \<longrightarrow>
      (\<forall>r conn. sv_jobs s r = Some (Accepted conn) \<longrightarrow>
         count (held_tasks absQ (wo_exec (sv_world s))) r = 1 \<and> runner_awake (wo_exec (sv_world s))) \<and>
      (\<forall>r conn x conn'. sv_jobs s r = Some (Working conn x conn') \<longrightarrow> wo_current (sv_world s) = Some r \<or>
         (\<forall>th. \<exists>s'. main2 (V_wake th r) s = Inr s' \<and>
            count (held_tasks absQ (wo_exec (sv_world s'))) r = 1 \<and> runner_awake (wo_exec (sv_world s')))))"
proof -
  from servers_cases [OF assms(1-4)] obtain serve where
    m: "main2 = server_exec serve X T th0 a" and h: "http_server X absQ absA absS T phase serve a" by blast
  note r = assms(5) [unfolded m]
  have inv: "server_inv serve X T phase tid th0 a s" by (rule http_server.reach_inv [OF h r])
  have "server_enabled X op s \<longrightarrow> (\<exists>s'. main2 op s = Inr s' \<and> sv_process s' \<in> next_process op s)"
    using http_server.server_step [OF h inv] m by blast
  moreover have "\<forall>r conn. sv_jobs s r = Some (Accepted conn) \<longrightarrow>
      count (held_tasks absQ (wo_exec (sv_world s))) r = 1 \<and> runner_awake (wo_exec (sv_world s))"
    if "sv_process s = Serving"
    using http_server.attends(1) [OF h http_server.reach_serving [OF h r that]] by blast
  moreover have "\<forall>r conn x conn'. sv_jobs s r = Some (Working conn x conn') \<longrightarrow> wo_current (sv_world s) = Some r \<or>
      (\<forall>th. \<exists>s'. main2 (V_wake th r) s = Inr s' \<and>
        count (held_tasks absQ (wo_exec (sv_world s'))) r = 1 \<and> runner_awake (wo_exec (sv_world s')))"
    if "sv_process s = Serving"
    unfolding m using http_server.attends(2) [OF h http_server.reach_serving [OF h r that]] by blast
  ultimately show ?thesis by blast
qed

theorem servers_serve_witness:
  "\<exists>s. run (server_enabled list_crates) (unsend_hello_main2 list_http list_crates phase_tasks () 8) bad_run listed_init = Some (Inr s) \<and>
     (\<exists>s'. unsend_hello_main2 list_http list_crates phase_tasks () 8 V_finish s = Inr s' \<and> sv_process s' \<in> {Exited 101, Aborted}) \<and>
     count (held_tasks (\<lambda>q. q) (wo_exec (sv_world s))) 4 = 1 \<and> runner_awake (wo_exec (sv_world s))"
proof (rule after_reach)
  from bad_request_handle [of hello] obtain c' where
    "unsend_hello list_http bad_request = Some (Inl (Panic Unwrap_err), c')" by (auto simp: unsend_hello_def)
  then show "after (server_enabled list_crates) (unsend_hello_main2 list_http list_crates phase_tasks () 8) bad_run listed_init
      (\<lambda>s. sv_process s = Serving \<and> wo_current (sv_world s) = Some 3 \<and> handler_panics s \<and> sv_jobs s 4 = Some (Accepted post))"
    by (simp add: evals)
  fix s assume r: "reach (server_enabled list_crates) (unsend_hello_main2 list_http list_crates phase_tasks () 8) listed_init s"
    and p: "sv_process s = Serving \<and> wo_current (sv_world s) = Some 3 \<and> handler_panics s \<and> sv_jobs s 4 = Some (Accepted post)"
  from servers_serve [OF listed_tasks.async_tasks_axioms streams.http_io_axioms _ _ r, where op = V_finish and a = 8] p
  show "(\<exists>s'. unsend_hello_main2 list_http list_crates phase_tasks () 8 V_finish s = Inr s' \<and> sv_process s' \<in> {Exited 101, Aborted}) \<and>
     count (held_tasks (\<lambda>q. q) (wo_exec (sv_world s))) 4 = 1 \<and> runner_awake (wo_exec (sv_world s))" by auto
qed

text \<open>
  One request stops a server. When a connection that does not fail brings a well-formed request of at most sixteen headers
  whose length is not UTF-8, then its handler does not end as long as the server serves, and the step that ends it
  ends the process by a panic, with all other connections.
\<close>

theorem server_stopped:
  assumes "async_tasks X absQ absA absS T phase" and "http_parser H incoming written b_incoming b_written healthy b_healthy"
    and "a \<noteq> 0" and "main2 \<in> {unsend_hello_main2 H X T th0 a, unsend_lock_main2 H X T th0 a}"
    and "reach (server_enabled X) main2 (server_init X tid th0) s" and "sv_process s = Serving"
    and "map_option job_conn (sv_jobs s r) = Some conn" and "healthy conn"
    and "incoming conn = request_head m p hs @ rest" and "wf_request m p hs" and "length hs \<le> 16"
    and "find (\<lambda>(name, value). eq_ignore_ascii_case name (bytes ''Content-Length'')) hs = Some (name, v)"
    and "\<not> utf8_valid v"
  shows "(\<forall>x conn'. sv_jobs s r \<noteq> Some (Served conn x conn')) \<and>
    (wo_current (sv_world s) = Some r \<longrightarrow>
      (\<exists>s'. main2 V_finish s = Inr s' \<and> sv_process s' \<in> {Exited 101, Aborted}))"
proof -
  have io: "http_io H incoming written b_incoming b_written healthy b_healthy" using assms(2) by (rule http_parser.axioms(1))
  from servers_cases [OF assms(1) io assms(3,4)] obtain serve where
    sv: "serve \<in> {unsend_hello_task H, unsend_lock H}" and m: "main2 = server_exec serve X T th0 a"
    and h: "http_server X absQ absA absS T phase serve a" .
  note r = assms(5) [unfolded m]
  note ok = http_server.reach_serving [OF h r assms(6)]
  note job = http_server.serving_okD(7) [OF h ok, of r]
  have bad: "isl x" if "serve i conn = Some (x, conn', i')" for x i conn' i'
    by (rule bad_request_panics [OF assms(2,8-13) sv that])
  have "sv_jobs s r \<noteq> Some (Served conn x conn')" for x conn' using job bad by auto
  moreover have "\<exists>s'. main2 V_finish s = Inr s' \<and> sv_process s' \<in> {Exited 101, Aborted}"
    if c: "wo_current (sv_world s) = Some r"
  proof -
    obtain d x conn' where j: "sv_jobs s r = Some (Working d x conn')" by (rule http_server.current_job [OF h ok c])
    with assms(7) job bad have "isl x" by auto
    then have "handler_panics s" using c j by (simp add: handler_panics_def)
    with http_server.finish_ok [OF h ok assms(6)] c show ?thesis unfolding m by auto
  qed
  ultimately show ?thesis by blast
qed

theorem server_stopped_witness:
  "\<exists>s s'. run (server_enabled list_crates) (unsend_lock_main2 list_http list_crates phase_tasks () 8) bad_run listed_init = Some (Inr s) \<and>
     unsend_lock_main2 list_http list_crates phase_tasks () 8 V_finish s = Inr s' \<and> sv_process s' \<in> {Exited 101, Aborted}"
proof -
  let ?main2 = "unsend_lock_main2 list_http list_crates phase_tasks () 8"
  from bad_request_handle [of "respond (you_are 1)"] obtain c' where
    "unsend_lock list_http \<lparr>rc_borrow = Unused, rc_value = 0\<rparr> bad_request =
      Some (Inl (Panic Unwrap_err), c', \<lparr>rc_borrow = Unused, rc_value = 1\<rparr>)"
    by (auto simp: unsend_lock_def counted_def count_refcell_def u64_max_def)
  then have "after (server_enabled list_crates) ?main2 bad_run listed_init (\<lambda>s. sv_process s = Serving \<and>
      wo_current (sv_world s) = Some 3 \<and> map_option job_conn (sv_jobs s 3) = Some bad_request)"
    by (simp add: evals)
  then obtain s where s: "run (server_enabled list_crates) ?main2 bad_run listed_init = Some (Inr s)"
    "sv_process s = Serving \<and> wo_current (sv_world s) = Some 3 \<and> map_option job_conn (sv_jobs s 3) = Some bad_request"
    by (rule afterE)
  have "\<exists>s'. ?main2 V_finish s = Inr s' \<and> sv_process s' \<in> {Exited 101, Aborted}"
    using server_stopped [OF listed_tasks.async_tasks_axioms streams.http_parser_axioms _ _ run_reach [OF s(1)]
      _ _ _ _ wf_bad_request, where a = 8 and r = 3 and conn = bad_request and rest = "[]"] s(2) by (auto simp: bad_request_def)
  with s(1) show ?thesis by blast
qed

end
