(* ===== verification/MutexTasks.thy ===== *)
theory MutexTasks
  imports TaskWorld MutexLock
begin

text \<open>
  The executor and the mutex together: tasks that are spawned on an executor (\<open>src/executor.rs\<close>) and
  lock one mutex (\<open>src/lock/mutex.rs\<close>), as an instance of theory \<open>TaskWorld\<close>.
\<close>

section \<open>The mutex as a shared object\<close>

definition mutex_client :: "(('d, 'w) mutex_sys, ('d, 'w) mutex_op, 'w) client" where
  "mutex_client =
     \<lparr>cl_enabled = mutex_enabled, cl_exec = mutex_exec,
      cl_access = (\<lambda>op. case op of MLock a \<Rightarrow> Creates a | MPoll a w \<Rightarrow> Polls a w | MCancel a \<Rightarrow> Drops a | _ \<Rightarrow> Uses),
      cl_futs = ms_futs, cl_woken = ms_woken\<rparr>"

declare mutex_client_def [evals] mutex_init_def [evals]

interpretation mutex_shared: client mutex_client "on_queue mutex_inv" "mutex_init data" for data :: 'd
proof (rule client_queueI)
  show "mutex_inv (mutex_init data) q_empty"
    by (simp add: mutex_inv_def mutex_init_def Mutex_new_def refines_empty live_ok_empty)
  show "cl_futs mutex_client (mutex_init data) a = None" for a by (simp add: mutex_client_def mutex_init_def)
next
  fix c q and op :: "('d, 'e) mutex_op"
  assume "mutex_inv c q" and "cl_enabled mutex_client op c"
  from mutex_step_ok [OF this(1)] this(2) obtain c' q' ws where
    c': "mutex_exec op c = Inr c'" "mutex_inv c' q'" "ms_woken c' = ms_woken c @ ws"
    and mv: "case op of MPoll a w \<Rightarrow> ws = [] \<and> polled_by a w q q' | _ \<Rightarrow> wakes ws q q'"
    unfolding mutex_client_def by (simp; blast)
  have "moves (cl_access mutex_client op) ws (pool q) (pool q')"
    using mv by (cases op) (auto simp: mutex_client_def intro: moves_poll moves_other)
  with c' show "\<exists>c' q' ws. cl_exec mutex_client op c = Inr c' \<and> mutex_inv c' q' \<and>
      cl_woken mutex_client c' = cl_woken mutex_client c @ ws \<and> moves (cl_access mutex_client op) ws (pool q) (pool q')"
    by (auto simp: mutex_client_def)
next
  show "mutex_inv c q \<Longrightarrow> a \<in> set (q_addrs q) \<Longrightarrow> cl_futs mutex_client c a = Some Suspended"
    for c a and q :: "(unit, 'e) queue"
    by (simp add: mutex_inv_def live_ok_def mutex_client_def)
  show "cl_enabled mutex_client op c \<Longrightarrow> cl_exec mutex_client op c = Inr c' \<Longrightarrow> cl_futs mutex_client c' a \<noteq> None \<Longrightarrow>
      cl_futs mutex_client c a \<noteq> None \<or> cl_access mutex_client op = Creates a" for op c c' a
    by (cases op) (auto simp: mutex_client_def andThen_Inr_iff split: if_splits option.splits prod.splits)
  show "cl_enabled mutex_client op c \<Longrightarrow> cl_access mutex_client op = Creates a \<Longrightarrow> cl_futs mutex_client c a = None"
    for op c a
    by (cases op) (auto simp: mutex_client_def)
qed

section \<open>A run\<close>

abbreviation lock_run :: "(nat, nat + nat, unit, (nat, nat + nat) mutex_op) world_op list" where
  "lock_run \<equiv>
     [WShared MTry_lock, WExec (ETicker 8), WSpawn 1, WExec (EPoll 8 (Inl 0)), WShared (MLock 16),
      WShared (MPoll 16 (Inr 1)), WPending, WExec (EPoll 8 (Inl 0)), WExec (EPoll 8 (Inl 0)), WShared MUnlock]"

abbreviation lock_init :: "(nat list, (nat + nat) option, (nat + nat) option list, nat, nat + nat, unit, (nat, nat + nat) mutex_sys, phase) world" where
  "lock_init \<equiv> world_init list_crates (\<lambda>th. Some 8) () (mutex_init 0)"

section \<open>Properties\<close>

text \<open>
  C12: Locks and executor do not deadlock. When tasks share a mutex, it is free, a lock future is suspended and
  no task runs (and no runner was dropped that had been handed a runnable), then a suspended lock future has
  been notified, its task is held by the executor exactly once, polling that future gives it the lock, and if
  there is a runner (and none of a single \<open>tick\<close> was dropped after it returned) some runner is awake to run it.
\<close>

theorem lock_tasks_progress:
  assumes "async_tasks X absQ absA absS T phase" and "world_reach mutex_client X T tid th0 (mutex_init data) W"
    and "wo_current W = None" and "ms_guards (wo_shared W) = 0" and "ms_futs (wo_shared W) a = Some Suspended"
    and "\<not> es_lossy (wo_exec W)"
  shows "\<exists>b r. ms_futs (wo_shared W) b = Some Suspended \<and> wo_owner W b = Some r \<and>
    is_notified (mx_unlocked (ms_mutex (wo_shared W))) b \<and> count (held_tasks absQ (wo_exec W)) r = 1 \<and>
    (\<exists>m'. mutex_exec (MPoll b (rn_waker X r)) (wo_shared W) = Inr m' \<and> ms_guards m' = 1) \<and>
    (es_ticks (wo_exec W) \<noteq> Map.empty \<and> \<not> es_single (wo_exec W) \<longrightarrow> runner_awake (wo_exec W))"
proof -
  note world = task_world.intro [OF assms(1) mutex_shared.client_axioms]
  obtain q where q: "mutex_inv (wo_shared W) q" by (rule task_world.world_rep [OF world assms(2)], erule on_queueE)
  from mutex_progress [OF q assms(4,5)] obtain b where
    b: "ms_futs (wo_shared W) b = Some Suspended" "is_notified (mx_unlocked (ms_mutex (wo_shared W))) b"
      "\<forall>w. \<exists>m'. mutex_exec (MPoll b w) (wo_shared W) = Inr m' \<and> ms_futs m' b = Some Returned \<and> ms_guards m' = 1" .
  have "b \<in> fst ` set (q_notified q)" if "mutex_inv (wo_shared W) q" for q
    using that b(2) refines_is_notified [of _ q b] by (auto simp: mutex_inv_def)
  with on_queue_notified have "b \<in> po_notified P" if "on_queue mutex_inv (wo_shared W) P" for P
    using that by metis
  from task_world.notified_held [OF world assms(2,3,6) this] b show ?thesis by blast
qed

theorem lock_tasks_progress_witness:
  "\<exists>W. run (world_enabled mutex_client list_crates) (world_exec mutex_client list_crates phase_tasks ()) lock_run lock_init = Some (Inr W) \<and>
     (\<exists>b r. wo_owner W b = Some r \<and> is_notified (mx_unlocked (ms_mutex (wo_shared W))) b \<and>
        count (held_tasks (\<lambda>q. q) (wo_exec W)) r = 1 \<and> runner_awake (wo_exec W))"
proof (rule after_reach)
  show "after (world_enabled mutex_client list_crates) (world_exec mutex_client list_crates phase_tasks ()) lock_run lock_init
      (\<lambda>W. wo_current W = None \<and> ms_guards (wo_shared W) = 0 \<and> ms_futs (wo_shared W) 16 = Some Suspended \<and>
        \<not> es_lossy (wo_exec W) \<and> es_ticks (wo_exec W) 8 \<noteq> None \<and> \<not> es_single (wo_exec W))"
    by (simp add: evals)
  fix W assume r: "reach (world_enabled mutex_client list_crates) (world_exec mutex_client list_crates phase_tasks ()) lock_init W"
    and p: "wo_current W = None \<and> ms_guards (wo_shared W) = 0 \<and> ms_futs (wo_shared W) 16 = Some Suspended \<and>
        \<not> es_lossy (wo_exec W) \<and> es_ticks (wo_exec W) 8 \<noteq> None \<and> \<not> es_single (wo_exec W)"
  have "es_ticks (wo_exec W) \<noteq> Map.empty" using p by auto
  with p lock_tasks_progress [OF listed_tasks.async_tasks_axioms r [folded world_reach_def], of 16]
  obtain b k where "wo_owner W b = Some k" "is_notified (mx_unlocked (ms_mutex (wo_shared W))) b"
    "count (held_tasks (\<lambda>q. q) (wo_exec W)) k = 1" "runner_awake (wo_exec W)" by metis
  then show "\<exists>b r. wo_owner W b = Some r \<and> is_notified (mx_unlocked (ms_mutex (wo_shared W))) b \<and>
        count (held_tasks (\<lambda>q. q) (wo_exec W)) r = 1 \<and> runner_awake (wo_exec W)" by blast
qed

text \<open>
  C15: Tasks that share a mutex never make the executor, the mutex or a waker fault: in every reachable state each
  enabled step returns; and the executor holds exactly one runnable of each scheduled task and none of any
  other (unless a runner was dropped that had been handed one), however often and from wherever tasks are woken.
\<close>

theorem lock_tasks_safe:
  assumes "async_tasks X absQ absA absS T phase" and "world_reach mutex_client X T tid th0 (mutex_init data) W"
  shows "(world_enabled mutex_client X op W \<longrightarrow> (\<exists>W'. world_exec mutex_client X T th0 op W = Inr W')) \<and>
    (es_lossy (wo_exec W) \<or>
     (\<forall>r. count (held_tasks absQ (wo_exec W)) r = (if phase_of phase W r = Some Scheduled then 1 else 0)))"
  by (rule task_world.world_safe [OF task_world.intro [OF assms(1) mutex_shared.client_axioms] assms(2)])

theorem lock_tasks_safe_witness:
  "\<exists>W. run (world_enabled mutex_client list_crates) (world_exec mutex_client list_crates phase_tasks ()) (lock_run @ [WWake () 1]) lock_init =
       Some (Inr W) \<and>
     count (held_tasks (\<lambda>q. q) (wo_exec W)) 1 = 1 \<and>
     (\<exists>W'. world_exec mutex_client list_crates phase_tasks () (WExec (EPoll 8 (Inl 0))) W = Inr W')"
proof (rule after_reach)
  show "after (world_enabled mutex_client list_crates) (world_exec mutex_client list_crates phase_tasks ()) (lock_run @ [WWake () 1]) lock_init
      (\<lambda>W. \<not> es_lossy (wo_exec W) \<and> phase_of (\<lambda>p. p) W 1 = Some Scheduled \<and>
        world_enabled mutex_client list_crates (WExec (EPoll 8 (Inl 0))) W)"
    by (simp add: evals phase_of_def)
  fix W assume r: "reach (world_enabled mutex_client list_crates) (world_exec mutex_client list_crates phase_tasks ()) lock_init W"
    and p: "\<not> es_lossy (wo_exec W) \<and> phase_of (\<lambda>p. p) W 1 = Some Scheduled \<and>
        world_enabled mutex_client list_crates (WExec (EPoll 8 (Inl 0))) W"
  from lock_tasks_safe [OF listed_tasks.async_tasks_axioms r [folded world_reach_def]] p
  show "count (held_tasks (\<lambda>q. q) (wo_exec W)) 1 = 1 \<and>
     (\<exists>W'. world_exec mutex_client list_crates phase_tasks () (WExec (EPoll 8 (Inl 0))) W = Inr W')" by auto
qed

end
