(* ===== verification/LockTasks.thy ===== *)
theory LockTasks
  imports TaskWorld SemaphoreLock BarrierLock
begin

text \<open>
  Tasks of one executor that share a semaphore (\<open>src/lock/semaphore.rs\<close>) or a barrier (\<open>src/lock/barrier.rs\<close>),
  as instances of theory \<open>TaskWorld\<close>.
\<close>

section \<open>The objects as shared objects\<close>

definition sem_access :: "'w sem_op \<Rightarrow> 'w access" where
  "sem_access op = (case op of SAcquire a rc \<Rightarrow> Creates a | SPoll a w \<Rightarrow> Polls a w | SCancel a \<Rightarrow> Drops a | _ \<Rightarrow> Uses)"

definition sem_client :: "('w sem_sys, 'w sem_op, 'w) client" where
  "sem_client =
     \<lparr>cl_enabled = sem_enabled, cl_exec = sem_exec, cl_access = sem_access, cl_futs = ss_futs, cl_woken = ss_woken\<rparr>"

definition barrier_client :: "('w barrier_sys, 'w barrier_op, 'w) client" where
  "barrier_client =
     \<lparr>cl_enabled = barrier_enabled, cl_exec = barrier_exec, cl_access = barrier_access,
      cl_futs = (\<lambda>s a. map_option bf_st (bs_futs s a)), cl_woken = bs_woken\<rparr>"

declare sem_access_def [evals] sem_client_def [evals] barrier_access_def [evals] barrier_client_def [evals]

interpretation sem_shared: client sem_client "on_queue (sem_inv (unat p))" "sem_init p" for p :: "64 word"
proof (rule client_queueI)
  show "sem_inv (unat p) (sem_init p) q_empty"
    by (simp add: sem_inv_def sem_init_def Semaphore_new_def refines_empty live_ok_empty)
  show "cl_futs sem_client (sem_init p) a = None" for a by (simp add: sem_client_def sem_init_def)
next
  fix c q and op :: "'w sem_op"
  assume "sem_inv (unat p) c q" and "cl_enabled sem_client op c"
  then have "sem_inv (unat p) c q" "sem_enabled op c" by (simp_all add: sem_client_def)
  from sem_step_ok [OF this unat_usize] obtain c' q' ws where
    c': "sem_exec op c = Inr c'" "sem_inv (unat p) c' q'" "ss_woken c' = ss_woken c @ ws"
    and mv: "case op of SPoll a w \<Rightarrow> ws = [] \<and> polled_by a w q q' | _ \<Rightarrow> wakes ws q q'" by blast
  have "moves (sem_access op) ws (pool q) (pool q')"
    using mv by (cases op) (auto simp: sem_access_def intro: moves_poll moves_other)
  with c' show "\<exists>c' q' ws. cl_exec sem_client op c = Inr c' \<and> sem_inv (unat p) c' q' \<and>
      cl_woken sem_client c' = cl_woken sem_client c @ ws \<and> moves (cl_access sem_client op) ws (pool q) (pool q')"
    by (auto simp: sem_client_def)
next
  show "sem_inv (unat p) c q \<Longrightarrow> a \<in> set (q_addrs q) \<Longrightarrow> cl_futs sem_client c a = Some Suspended" for c q a
    by (simp add: sem_inv_def live_ok_def sem_client_def)
  show "cl_enabled sem_client op c \<Longrightarrow> cl_exec sem_client op c = Inr c' \<Longrightarrow> cl_futs sem_client c' a \<noteq> None \<Longrightarrow>
      cl_futs sem_client c a \<noteq> None \<or> cl_access sem_client op = Creates a" for op c c' a
    by (cases op) (auto simp: sem_client_def sem_access_def sem_polled_def andThen_Inr_iff Let_def
      split: if_splits option.splits prod.splits)
  show "cl_enabled sem_client op c \<Longrightarrow> cl_access sem_client op = Creates a \<Longrightarrow> cl_futs sem_client c a = None"
    for op c a
    by (cases op) (auto simp: sem_client_def sem_access_def)
qed

interpretation barrier_shared: client barrier_client "on_queue (barrier_inv (unat n))" "barrier_init n" for n :: "64 word"
proof (rule client_queueI)
  show "barrier_inv (unat n) (barrier_init n) q_empty" by (rule barrier_start_ok)
  show "cl_futs barrier_client (barrier_init n) a = None" for a
    by (simp add: barrier_client_def barrier_init_def)
next
  fix c q and op :: "'w barrier_op"
  assume "barrier_inv (unat n) c q" and "cl_enabled barrier_client op c"
  then have "barrier_inv (unat n) c q" "barrier_enabled op c" by (simp_all add: barrier_client_def)
  from barrier_step_ok [OF this unat_usize]
  show "\<exists>c' q' ws. cl_exec barrier_client op c = Inr c' \<and> barrier_inv (unat n) c' q' \<and>
      cl_woken barrier_client c' = cl_woken barrier_client c @ ws \<and> moves (cl_access barrier_client op) ws (pool q) (pool q')"
    by (simp add: barrier_client_def)
next
  show "barrier_inv (unat n) c q \<Longrightarrow> a \<in> set (q_addrs q) \<Longrightarrow> cl_futs barrier_client c a = Some Suspended" for c q a
    by (auto simp: barrier_inv_def live_ok_def barrier_client_def bs_sts_def)
  show "cl_enabled barrier_client op c \<Longrightarrow> cl_exec barrier_client op c = Inr c' \<Longrightarrow>
      cl_futs barrier_client c' a \<noteq> None \<Longrightarrow>
      cl_futs barrier_client c a \<noteq> None \<or> cl_access barrier_client op = Creates a" for op c c' a
    by (cases op) (auto simp: barrier_client_def barrier_access_def andThen_Inr_iff
      split: if_splits option.splits prod.splits)
  show "cl_enabled barrier_client op c \<Longrightarrow> cl_access barrier_client op = Creates a \<Longrightarrow>
      cl_futs barrier_client c a = None" for op c a
    by (cases op) (auto simp: barrier_client_def barrier_access_def)
qed

abbreviation permit_run :: "(nat, nat + nat, unit, (nat + nat) sem_op) world_op list" where
  "permit_run \<equiv>
     [WShared (STry True), WExec (ETicker 8), WSpawn 1, WExec (EPoll 8 (Inl 0)), WShared (SAcquire 16 False),
      WShared (SPoll 16 (Inr 1)), WPending, WExec (EPoll 8 (Inl 0)), WExec (EPoll 8 (Inl 0)), WShared (SRelease True)]"

abbreviation permit_init ::
  "(nat list, (nat + nat) option, (nat + nat) option list, nat, nat + nat, unit, (nat + nat) sem_sys, phase) world" where
  "permit_init \<equiv> world_init list_crates (\<lambda>th. Some 8) () (sem_init 1)"

abbreviation gather_run :: "(nat, nat + nat, unit, (nat + nat) barrier_op) world_op list" where
  "gather_run \<equiv>
     [WExec (ETicker 8), WSpawn 1, WExec (EPoll 8 (Inl 0)), WShared (BWait 16), WShared (BPoll 16 (Inr 1)), WPending,
      WSpawn 2, WExec (EPoll 8 (Inl 0)), WExec (EPoll 8 (Inl 0)), WShared (BWait 24), WShared (BPoll 24 (Inr 2)),
      WPending]"

abbreviation gather_init ::
  "(nat list, (nat + nat) option, (nat + nat) option list, nat, nat + nat, unit, (nat + nat) barrier_sys, phase) world" where
  "gather_init \<equiv> world_init list_crates (\<lambda>th. Some 8) () (barrier_init 2)"

section \<open>Properties\<close>

text \<open>
  C24: Semaphore and executor do not deadlock. When the tasks of an executor share a semaphore all of whose guards are gone,
  an acquire future is suspended and no task runs (and no runner was dropped that had been handed a runnable),
  then the executor holds the task of some suspended future exactly once, polling that future gives it a
  permit, and if there is a runner (and none of a single \<open>tick\<close> was dropped after it returned) some
  runner is awake to run it.
\<close>

theorem sem_tasks_progress:
  assumes "async_tasks X absQ absA absS T phase" and "world_reach sem_client X T tid th0 (sem_init p) W"
    and "wo_current W = None" and "\<not> es_lossy (wo_exec W)" and "0 < p" and "ss_guards (wo_shared W) = 0"
    and "ss_futs (wo_shared W) a = Some Suspended"
  shows "\<exists>b r. ss_futs (wo_shared W) b = Some Suspended \<and> wo_owner W b = Some r \<and>
    count (held_tasks absQ (wo_exec W)) r = 1 \<and>
    (\<exists>s. sem_exec (SPoll b (rn_waker X r)) (wo_shared W) = Inr s \<and> ss_futs s b = Some Returned \<and> ss_guards s = 1) \<and>
    (es_ticks (wo_exec W) \<noteq> Map.empty \<and> \<not> es_single (wo_exec W) \<longrightarrow> runner_awake (wo_exec W))"
proof -
  note world = task_world.intro [OF assms(1) sem_shared.client_axioms]
  obtain q where q: "sem_inv (unat p) (wo_shared W) q" by (rule task_world.world_rep [OF world assms(2)], erule on_queueE)
  have "0 < unat p" using assms(5) by (simp add: word_less_nat_alt)
  from sem_progress [OF q this assms(6,7)] obtain b where
    b: "ss_futs (wo_shared W) b = Some Suspended" "is_notified (sem_event (ss_sem (wo_shared W))) b"
      "\<forall>w. \<exists>s. sem_exec (SPoll b w) (wo_shared W) = Inr s \<and> ss_futs s b = Some Returned \<and> ss_guards s = 1" by blast
  have "b \<in> fst ` set (q_notified q)" if "sem_inv (unat p) (wo_shared W) q" for q
    using that b(2) refines_is_notified [of _ q b] by (auto simp: sem_inv_def)
  with on_queue_notified have "b \<in> po_notified P" if "on_queue (sem_inv (unat p)) (wo_shared W) P" for P
    using that by metis
  from task_world.notified_held [OF world assms(2-4) this] b show ?thesis by blast
qed

theorem sem_tasks_progress_witness:
  "\<exists>W. run (world_enabled sem_client list_crates) (world_exec sem_client list_crates phase_tasks ()) permit_run permit_init =
       Some (Inr W) \<and>
     (\<exists>b r. wo_owner W b = Some r \<and> count (held_tasks (\<lambda>q. q) (wo_exec W)) r = 1 \<and> runner_awake (wo_exec W))"
proof (rule after_reach)
  show "after (world_enabled sem_client list_crates) (world_exec sem_client list_crates phase_tasks ()) permit_run permit_init
      (\<lambda>W. wo_current W = None \<and> \<not> es_lossy (wo_exec W) \<and> ss_guards (wo_shared W) = 0 \<and>
        ss_futs (wo_shared W) 16 = Some Suspended \<and> es_ticks (wo_exec W) 8 \<noteq> None \<and> \<not> es_single (wo_exec W))"
    by (simp add: evals)
  fix W assume r: "reach (world_enabled sem_client list_crates) (world_exec sem_client list_crates phase_tasks ()) permit_init W"
    and p: "wo_current W = None \<and> \<not> es_lossy (wo_exec W) \<and> ss_guards (wo_shared W) = 0 \<and>
        ss_futs (wo_shared W) 16 = Some Suspended \<and> es_ticks (wo_exec W) 8 \<noteq> None \<and> \<not> es_single (wo_exec W)"
  have "es_ticks (wo_exec W) \<noteq> Map.empty" using p by auto
  with p sem_tasks_progress [OF listed_tasks.async_tasks_axioms r [folded world_reach_def], of 16]
  obtain b k where "wo_owner W b = Some k" "count (held_tasks (\<lambda>q. q) (wo_exec W)) k = 1" "runner_awake (wo_exec W)"
    by auto
  then show "\<exists>b r. wo_owner W b = Some r \<and> count (held_tasks (\<lambda>q. q) (wo_exec W)) r = 1 \<and> runner_awake (wo_exec W)"
    by blast
qed

text \<open>
  C28: A barrier that opens releases every task. When the tasks of an executor share a barrier, the generation of a
  suspended future is over and no task runs (and no runner was dropped that had been handed a runnable), then the
  executor holds the task of that future exactly once, polling the future returns, not as the leader, and if
  there is a runner (and none of a single \<open>tick\<close> was dropped after it returned) some runner is awake to run it.
\<close>

theorem barrier_tasks_released:
  assumes "async_tasks X absQ absA absS T phase" and "world_reach barrier_client X T tid th0 (barrier_init n) W"
    and "wo_current W = None" and "\<not> es_lossy (wo_exec W)"
    and "bs_futs (wo_shared W) a = Some f" and "bf_st f = Suspended"
    and "bf_gen f \<noteq> ba_generation (bs_barrier (wo_shared W))"
  shows "\<exists>r. wo_owner W a = Some r \<and> count (held_tasks absQ (wo_exec W)) r = 1 \<and>
    (\<exists>s. barrier_exec (BPoll a (rn_waker X r)) (wo_shared W) = Inr s \<and>
       bs_futs s a = Some (f\<lparr>bf_st := Returned\<rparr>) \<and> bs_leaders s = bs_leaders (wo_shared W)) \<and>
    (es_ticks (wo_exec W) \<noteq> Map.empty \<and> \<not> es_single (wo_exec W) \<longrightarrow> runner_awake (wo_exec W))"
proof -
  note world = task_world.intro [OF assms(1) barrier_shared.client_axioms]
  obtain q where q: "barrier_inv (unat n) (wo_shared W) q" by (rule task_world.world_rep [OF world assms(2)], erule on_queueE)
  have "a \<in> fst ` set (q_notified q)" if "barrier_inv (unat n) (wo_shared W) q" for q
    by (rule barrier_notified [OF that assms(5-7)])
  with on_queue_notified have "a \<in> po_notified P" if "on_queue (barrier_inv (unat n)) (wo_shared W) P" for P
    using that by metis
  moreover have "\<exists>s. barrier_exec (BPoll a w) (wo_shared W) = Inr s \<and> bs_futs s a = Some (f\<lparr>bf_st := Returned\<rparr>) \<and>
      bs_leaders s = bs_leaders (wo_shared W)" for w
    using barrier_next_poll_ok [OF q assms(5,6), of w] assms(7) by auto
  ultimately show ?thesis using task_world.notified_held [OF world assms(2-4)] by blast
qed

theorem barrier_tasks_released_witness:
  "\<exists>W. run (world_enabled barrier_client list_crates) (world_exec barrier_client list_crates phase_tasks ()) gather_run
       gather_init = Some (Inr W) \<and>
     (\<exists>r s. wo_owner W 16 = Some r \<and> count (held_tasks (\<lambda>q. q) (wo_exec W)) r = 1 \<and> runner_awake (wo_exec W) \<and>
        barrier_exec (BPoll 16 (rn_waker list_crates r)) (wo_shared W) = Inr s)"
proof (rule after_reach)
  show "after (world_enabled barrier_client list_crates) (world_exec barrier_client list_crates phase_tasks ()) gather_run
      gather_init
      (\<lambda>W. wo_current W = None \<and> \<not> es_lossy (wo_exec W) \<and> es_ticks (wo_exec W) 8 \<noteq> None \<and> \<not> es_single (wo_exec W) \<and>
        bs_futs (wo_shared W) 16 = Some \<lparr>bf_st = Suspended, bf_gen = 0\<rparr> \<and> ba_generation (bs_barrier (wo_shared W)) = 1)"
    by (simp add: evals)
  fix W assume r: "reach (world_enabled barrier_client list_crates) (world_exec barrier_client list_crates phase_tasks ())
      gather_init W"
    and p: "wo_current W = None \<and> \<not> es_lossy (wo_exec W) \<and> es_ticks (wo_exec W) 8 \<noteq> None \<and> \<not> es_single (wo_exec W) \<and>
        bs_futs (wo_shared W) 16 = Some \<lparr>bf_st = Suspended, bf_gen = 0\<rparr> \<and> ba_generation (bs_barrier (wo_shared W)) = 1"
  have "es_ticks (wo_exec W) \<noteq> Map.empty" using p by auto
  with p barrier_tasks_released [OF listed_tasks.async_tasks_axioms r [folded world_reach_def], of 16]
  show "\<exists>r s. wo_owner W 16 = Some r \<and> count (held_tasks (\<lambda>q. q) (wo_exec W)) r = 1 \<and> runner_awake (wo_exec W) \<and>
        barrier_exec (BPoll 16 (rn_waker list_crates r)) (wo_shared W) = Inr s"
    by (auto simp del: barrier_exec.simps)
qed

end
