(* ===== verification/ChannelTasks.thy ===== *)
theory ChannelTasks
  imports TaskWorld ChannelModel
begin

text \<open>
  Tasks that receive from one channel (\<open>src/channel.rs\<close>), as an instance of theory \<open>TaskWorld\<close>: the channel
  with any number of consumers, and with one.
\<close>

section \<open>What the operations do to waiting receivers\<close>

definition chan_access :: "('v, 'w) chan_op \<Rightarrow> 'w access" where
  "chan_access op =
     (case op of CRecv a \<Rightarrow> Creates a | CPoll a w \<Rightarrow> Polls a w | CCancel a \<Rightarrow> Drops a | _ \<Rightarrow> Uses)"

lemma Sender_send_wakes:
  assumes r: "refines (ch_event c) q" and e: "Sender_send v c = Inr (res, woken, c')" "refines (ch_event c') q'"
  shows "wakes woken q q'"
proof (cases "ch_closed c")
  case True
  with e have "woken = []" "ch_event c' = ch_event c" by (simp_all add: Sender_send_def)
  with refines_unique [OF r] e(2) wakes_refl show ?thesis by fastforce
next
  case False
  let ?ts = "if hands_over q then [Some v] else []"
  from offer_ok [OF r, of v] obtain ev where
    o: "notify_int_with 1 take_item (Some v) (ch_event c) = Inr (if hands_over q then None else Some v,
        if hands_over q then wakers_of (take 1 (q_waiting q)) else [], ev)" "refines ev (q_mark ?ts False q)" by blast
  have "woken = wakers_of (take (length ?ts) (q_waiting q))" "ch_event c' = ev"
    using e(1) o(1) False by (auto simp: Sender_send_def wakers_of_def map_filter_def split: if_splits)
  moreover have "length ?ts \<le> length (q_waiting q)" by (auto simp: hands_over_def Suc_le_eq)
  ultimately show ?thesis using wakes_marks [of ?ts q False] refines_unique [OF o(2)] e(2) by metis
qed

lemma channel_close_wakes:
  assumes r: "refines (ch_event c) q" and e: "channel_close c = Inr (woken, c')" "refines (ch_event c') q'"
  shows "wakes woken q q'"
proof -
  let ?n = "notify_amount (nat (int usize_max)) False q"
  have i: "0 \<le> int usize_max" "int usize_max \<le> int usize_max" by simp_all
  have "call_times (\<lambda>_. (None, ())) k () = (replicate k None, ())" for k
    by (induction k) auto
  from refines_notify_with [OF r i this] obtain ev where
    n: "notify_int_with (int usize_max) (\<lambda>_. (None, ())) () (ch_event c) =
        Inr ((), wakers_of (take ?n (q_waiting q)), ev)" "refines ev (q_mark (replicate ?n None) False q)"
    by blast
  then have "woken = wakers_of (take ?n (q_waiting q))" "ch_event c' = ev"
    using e(1) by (auto simp: channel_close_def Let_def)
  with wakes_mark [OF notify_amount_le, of _ False q None False] refines_unique [OF n(2)] e(2) show ?thesis by metis
qed

lemma chan_drop_wakes:
  assumes r: "refines (ch_event c) q" and e: "Sender_drop c = Inr (woken, c') \<or> Receiver_drop c = Inr (woken, c')"
    and r': "refines (ch_event c') q'"
  shows "wakes woken q q'"
proof -
  have "(\<exists>c1. ch_event c1 = ch_event c \<and> channel_close c1 = Inr (woken, c')) \<or>
      woken = [] \<and> ch_event c' = ch_event c"
    using e
  proof
    assume "Sender_drop c = Inr (woken, c')"
    then show ?thesis
      by (auto simp: Sender_drop_def Let_def andThen_Inr_iff split: if_splits intro!: exI [of _ "c\<lparr>ch_senders := 0\<rparr>"])
  next
    assume "Receiver_drop c = Inr (woken, c')"
    then show ?thesis
      by (auto simp: Receiver_drop_def Let_def andThen_Inr_iff split: if_splits intro!: exI [of _ "c\<lparr>ch_receivers := 0\<rparr>"])
  qed
  with r r' show ?thesis using channel_close_wakes refines_unique wakes_refl by metis
qed

lemma chan_moves:
  assumes inv: "chan_inv s q" and en: "chan_enabled op s" and e: "chan_exec op s = Inr s'" and inv': "chan_inv s' q'"
  shows "\<exists>ws. cs_woken s' = cs_woken s @ ws \<and> moves (chan_access op) ws (pool q) (pool q')"
proof -
  note i = chan_invD(1,2) [OF inv] and r' = chan_invD(1) [OF inv']
  have quiet: "q' = q" if "ch_event (cs_chan s') = ch_event (cs_chan s)"
    using refines_unique i(1) r' that by metis
  show ?thesis
  proof (cases op)
    case (CPoll a w)
    with en obtain st where st: "cs_futs s a = Some st" "st \<noteq> Returned" by auto
    from chan.poll_ok [of "cs_chan s" q, simplified, OF i st, of w] obtain res st' c' ev q1 where
      p: "wait_poll Receiver_recv st a w (cs_chan s) = Inr (res, st', [], c'\<lparr>ch_event := ev\<rparr>)"
        "wait_spec Receiver_recv st a w (cs_chan s) q = (res, st', c', q1)" "refines ev q1" by metis
    have "polled_by a w q q1" by (rule wait_spec_polls [OF p(2) i(1) live_ok_pollable [OF i(2) st]])
    moreover have "cs_woken s' = cs_woken s" "ch_event (cs_chan s') = ev" using e CPoll st(1) p(1) by auto
    ultimately show ?thesis
      using refines_unique [OF p(3)] r' CPoll moves_poll by (fastforce simp: chan_access_def)
  next
    case (CCancel a)
    with en obtain st where st: "cs_futs s a = Some st" by auto
    from chan.drop_ok [of "cs_chan s" q, simplified, OF i st] obtain woken ev q1 where
      p: "wait_drop Receiver_recv st a (cs_chan s) = Inr (woken, (cs_chan s)\<lparr>ch_event := ev\<rparr>)"
        "refines ev q1" "wakes woken q q1" by metis
    have "cs_woken s' = cs_woken s @ woken" "ch_event (cs_chan s') = ev" using e CCancel st p(1) by auto
    then show ?thesis
      using refines_unique [OF p(2)] r' p(3) CCancel moves_other(2) by (fastforce simp: chan_access_def)
  next
    case (CSend v)
    then obtain res woken c where s: "Sender_send v (cs_chan s) = Inr (res, woken, c)" "cs_chan s' = c"
      "cs_woken s' = cs_woken s @ woken" using e by (auto simp: andThen_Inr_iff)
    from Sender_send_wakes [OF i(1) s(1)] r' s(2,3) CSend moves_other(3) show ?thesis by (auto simp: chan_access_def)
  next
    case CDrop_sender
    then obtain woken c where s: "Sender_drop (cs_chan s) = Inr (woken, c)" "cs_chan s' = c"
      "cs_woken s' = cs_woken s @ woken" using e by (auto simp: andThen_Inr_iff)
    from chan_drop_wakes [OF i(1), of woken c] r' s CDrop_sender moves_other(3) show ?thesis by (auto simp: chan_access_def)
  next
    case CDrop_receiver
    then obtain woken c where s: "Receiver_drop (cs_chan s) = Inr (woken, c)" "cs_chan s' = c"
      "cs_woken s' = cs_woken s @ woken" using e by (auto simp: andThen_Inr_iff)
    from chan_drop_wakes [OF i(1), of woken c] r' s CDrop_receiver moves_other(3) show ?thesis by (auto simp: chan_access_def)
  next
    case (CRecv a)
    then have "cs_woken s' = cs_woken s" "q' = q" using e quiet by auto
    with CRecv moves_other(1) [OF wakes_refl] show ?thesis by (simp add: chan_access_def)
  next
    case CTry_recv
    then have "cs_woken s' = cs_woken s" "ch_event (cs_chan s') = ch_event (cs_chan s)"
      using e by (auto simp: Receiver_try_recv_def split: list.splits)
    with CTry_recv moves_other(3) [OF wakes_refl] quiet show ?thesis by (simp add: chan_access_def)
  next
    case CClone_sender
    then have "cs_woken s' = cs_woken s" "ch_event (cs_chan s') = ch_event (cs_chan s)"
      using e by (auto simp: Sender_clone_def andThen_Inr_iff)
    with CClone_sender moves_other(3) [OF wakes_refl] quiet show ?thesis by (simp add: chan_access_def)
  next
    case CClone_receiver
    then have "cs_woken s' = cs_woken s" "ch_event (cs_chan s') = ch_event (cs_chan s)"
      using e by (auto simp: Receiver_clone_def andThen_Inr_iff)
    with CClone_receiver moves_other(3) [OF wakes_refl] quiet show ?thesis by (simp add: chan_access_def)
  qed
qed

section \<open>The channel as a shared object\<close>

definition chan_client ::
  "(('v, 'w) chan_op \<Rightarrow> ('v, 'w) chan_sys \<Rightarrow> bool) \<Rightarrow> (('v, 'w) chan_sys, ('v, 'w) chan_op, 'w) client" where
  "chan_client enabled =
     \<lparr>cl_enabled = enabled, cl_exec = chan_exec, cl_access = chan_access, cl_futs = cs_futs, cl_woken = cs_woken\<rparr>"

declare chan_client_def [evals] chan_access_def [evals]

lemma chan_client_ok:
  fixes inv :: "('v, 'w) chan_sys \<Rightarrow> ('v option, 'w) queue \<Rightarrow> bool"
  assumes start: "inv chan_init q_empty" and inv: "\<And>c q. inv c q \<Longrightarrow> chan_inv c q"
    and en: "\<And>op c. enabled op c \<Longrightarrow> chan_enabled op c"
    and step: "\<And>c q op. inv c q \<Longrightarrow> enabled op c \<Longrightarrow> \<exists>c' q'. chan_exec op c = Inr c' \<and> inv c' q'"
  shows "client (chan_client enabled) (on_queue inv) chan_init"
proof (rule client_queueI)
  show "inv chan_init q_empty" "cl_futs (chan_client enabled) chan_init a = None" for a
    using start by (simp_all add: chan_client_def chan_init_def)
next
  fix c q op assume i: "inv c q" and "cl_enabled (chan_client enabled) op c"
  then have e: "enabled op c" by (simp add: chan_client_def)
  from step [OF i e] obtain c' q' where c': "chan_exec op c = Inr c'" "inv c' q'" by blast
  from chan_moves [OF inv [OF i] en [OF e] c'(1) inv [OF c'(2)]] c'
  show "\<exists>c' q' ws. cl_exec (chan_client enabled) op c = Inr c' \<and> inv c' q' \<and>
      cl_woken (chan_client enabled) c' = cl_woken (chan_client enabled) c @ ws \<and>
      moves (cl_access (chan_client enabled) op) ws (pool q) (pool q')"
    by (auto simp: chan_client_def)
next
  fix c q a assume "inv c q" and "a \<in> set (q_addrs q)"
  with chan_invD(2) [OF inv] show "cl_futs (chan_client enabled) c a = Some Suspended"
    by (auto simp: live_ok_def chan_client_def)
next
  fix op c c' a
  assume "cl_enabled (chan_client enabled) op c" "cl_exec (chan_client enabled) op c = Inr c'"
    "cl_futs (chan_client enabled) c' a \<noteq> None"
  with en [of op c] show "cl_futs (chan_client enabled) c a \<noteq> None \<or> cl_access (chan_client enabled) op = Creates a"
    by (cases op) (auto simp: chan_client_def chan_access_def andThen_Inr_iff split: if_splits option.splits prod.splits)
next
  fix op c a assume "cl_enabled (chan_client enabled) op c" "cl_access (chan_client enabled) op = Creates a"
  with en [of op c] show "cl_futs (chan_client enabled) c a = None"
    by (cases op) (auto simp: chan_client_def chan_access_def)
qed

text \<open>The queue after a step is determined by the event, so the invariants step with it.\<close>

interpretation chan_shared: client "chan_client chan_enabled" "on_queue chan_inv" chan_init
  by (rule chan_client_ok) (use chan_start_ok chan_exec_ok in blast)+

interpretation fifo_shared: client "chan_client chan_single" "on_queue fifo_inv" chan_init
  by (rule chan_client_ok) (use fifo_start_ok fifo_invD(1) chan_single_enabled fifo_exec_ok in blast)+

section \<open>One consumer\<close>

text \<open>The items that are there to be received: in flight and queued.\<close>

abbreviation there :: "('v, 'w) chan_sys \<Rightarrow> 'v list" where
  "there s \<equiv> in_flight (ch_event (cs_chan s)) @ ch_data (cs_chan s)"

text \<open>
  The consumer sleeps un-notified only while there is nothing to receive; and the poll of a consumer that has
  been notified returns, with the oldest item if there is one.
\<close>

lemma fifo_notified:
  assumes inv: "fifo_inv s q" and a: "cs_futs s a = Some Suspended"
    and w: "there s \<noteq> [] \<or> ch_closed (cs_chan s)"
  shows "a \<in> fst ` set (q_notified q)"
proof -
  note i = fifo_invD [OF inv]
  note ci = chan_invD [OF i(1)]
  have "q_waiting q = []"
  proof (cases "ch_closed (cs_chan s)")
    case True
    with ci(4) show ?thesis by simp
  next
    case False
    with w refines_in_flight [OF ci(1)] have "q_items q \<noteq> [] \<or> ch_data (cs_chan s) \<noteq> []" by auto
    then have "q_notified q \<noteq> [] \<or> ch_data (cs_chan s) \<noteq> []" by (auto simp: q_items_def)
    with i(4) single_queue(2) [OF ci(1,2) i(2)] show ?thesis by blast
  qed
  with ci(2) a show ?thesis by (auto simp: live_ok_def q_addrs_def)
qed

lemma fifo_receives:
  assumes inv: "fifo_inv s q" and a: "cs_futs s a = Some Suspended"
    and w: "there s \<noteq> [] \<or> ch_closed (cs_chan s)"
  shows "\<exists>s'. chan_exec (CPoll a w') s = Inr s' \<and> cs_futs s' a = Some Returned \<and>
    (\<forall>v vs. there s = v # vs \<longrightarrow> cs_received s' = cs_received s @ [v])"
proof -
  note i = fifo_invD [OF inv]
  note ci = chan_invD [OF i(1)]
  have nr: "Suspended \<noteq> Returned" by simp
  from chan_poll_ok [OF i(1) a nr, of w'] obtain p st' c' s' q' where
    e: "wait_spec Receiver_recv Suspended a w' (cs_chan s) q = (p, st', c', q')"
      "chan_exec (CPoll a w') s = Inr s'" "cs_futs s' = (cs_futs s)(a \<mapsto> st')"
      "cs_received s' = (case p of Ready r \<Rightarrow> cs_received s @ received r | Pending \<Rightarrow> cs_received s)" by metis
  from fifo_notified [OF inv a w] obtain t where t: "notified_tag a q = Some t"
    by (cases "map_of (q_notified q) a") (auto simp: notified_tag_def map_of_eq_None_iff)
  from single_queue(4) [OF ci(1,2) i(2) t] obtain b where n: "q_notified q = [(a, t, b)]" by blast
  have items: "q_items q = (case t of None \<Rightarrow> [] | Some v \<Rightarrow> [v])" using n by (auto simp: q_items_def split: option.split)
  have "\<exists>r. p = Ready r \<and> st' = Returned \<and>
      (\<forall>v vs. there s = v # vs \<longrightarrow> received r = [v])"
    using e(1) t items w refines_in_flight [OF ci(1)]
    by (auto simp: wait_spec_def wait_attempt_def recv_try_def split: option.splits list.splits if_splits)
  with e(2-4) show ?thesis by auto
qed

abbreviation recv_run :: "(nat, nat + nat, unit, (nat, nat + nat) chan_op) world_op list" where
  "recv_run \<equiv>
     [WExec (ETicker 8), WSpawn 1, WExec (EPoll 8 (Inl 0)), WShared (CRecv 16), WShared (CPoll 16 (Inr 1)),
      WShared (CSend 4), WShared (CCancel 16), WShared (CRecv 16), WShared (CPoll 16 (Inr 1)), WPending,
      WExec (EPoll 8 (Inl 0)), WExec (EPoll 8 (Inl 0)), WShared (CPoll 16 (Inr 1)), WPending,
      WExec (EPoll 8 (Inl 0)), WExec (EPoll 8 (Inl 0)), WShared (CSend 5), WShared (CSend 6)]"

abbreviation recv_init ::
  "(nat list, (nat + nat) option, (nat + nat) option list, nat, nat + nat, unit, (nat, nat + nat) chan_sys, phase) world" where
  "recv_init \<equiv> world_init list_crates (\<lambda>th. Some 8) () chan_init"

section \<open>Properties\<close>

text \<open>
  C13: Channel and executor do not deadlock. The tasks of an executor share a channel with one consumer, which starts a
  \<open>recv\<close> or \<open>try_recv\<close> only when none of its \<open>recv\<close> futures is pending (it may cancel a pending one at any time). When its \<open>recv\<close> is
  suspended although an item is queued or in flight or the channel is closed, and no task runs (and no runner was dropped that
  had been handed a runnable), then the executor holds the task of that future exactly once, polling the future returns,
  with the oldest item that is there if there is one, and if there is a runner (and none of a single \<open>tick\<close> was dropped after
  it returned) some runner is awake to run it.
\<close>

theorem chan_tasks_progress:
  assumes "async_tasks X absQ absA absS T phase"
    and "world_reach (chan_client chan_single) X T tid th0 chan_init W"
    and "wo_current W = None" and "\<not> es_lossy (wo_exec W)" and "cs_futs (wo_shared W) a = Some Suspended"
    and "in_flight (ch_event (cs_chan (wo_shared W))) @ ch_data (cs_chan (wo_shared W)) \<noteq> [] \<or>
      ch_closed (cs_chan (wo_shared W))"
  shows "\<exists>r. wo_owner W a = Some r \<and> count (held_tasks absQ (wo_exec W)) r = 1 \<and>
    (\<exists>s. chan_exec (CPoll a (rn_waker X r)) (wo_shared W) = Inr s \<and> cs_futs s a = Some Returned \<and>
       (\<forall>v vs. in_flight (ch_event (cs_chan (wo_shared W))) @ ch_data (cs_chan (wo_shared W)) = v # vs \<longrightarrow>
          cs_received s = cs_received (wo_shared W) @ [v])) \<and>
    (es_ticks (wo_exec W) \<noteq> Map.empty \<and> \<not> es_single (wo_exec W) \<longrightarrow> runner_awake (wo_exec W))"
proof -
  note world = task_world.intro [OF assms(1) fifo_shared.client_axioms]
  obtain q where q: "fifo_inv (wo_shared W) q" by (rule task_world.world_rep [OF world assms(2)], erule on_queueE)
  have "a \<in> fst ` set (q_notified q)" if "fifo_inv (wo_shared W) q" for q
    by (rule fifo_notified [OF that assms(5,6)])
  with on_queue_notified have "a \<in> po_notified P" if "on_queue fifo_inv (wo_shared W) P" for P
    using that by metis
  from task_world.notified_held [OF world assms(2-4) this] fifo_receives [OF q assms(5,6)] show ?thesis by blast
qed

theorem chan_tasks_progress_witness:
  "\<exists>W. run (world_enabled (chan_client chan_single) list_crates)
       (world_exec (chan_client chan_single) list_crates phase_tasks ()) recv_run recv_init = Some (Inr W) \<and>
     (\<exists>r s. count (held_tasks (\<lambda>q. q) (wo_exec W)) r = 1 \<and> runner_awake (wo_exec W) \<and>
        chan_exec (CPoll 16 (Inr r)) (wo_shared W) = Inr s \<and> cs_received s = [5])"
proof (rule after_reach)
  show "after (world_enabled (chan_client chan_single) list_crates)
      (world_exec (chan_client chan_single) list_crates phase_tasks ()) recv_run recv_init
      (\<lambda>W. wo_current W = None \<and> \<not> es_lossy (wo_exec W) \<and> cs_futs (wo_shared W) 16 = Some Suspended \<and>
        there (wo_shared W) = [5, 6] \<and> cs_received (wo_shared W) = [] \<and>
        es_ticks (wo_exec W) 8 \<noteq> None \<and> \<not> es_single (wo_exec W))"
    by (simp add: evals address_cases)
  fix W assume r: "reach (world_enabled (chan_client chan_single) list_crates)
      (world_exec (chan_client chan_single) list_crates phase_tasks ()) recv_init W"
    and p: "wo_current W = None \<and> \<not> es_lossy (wo_exec W) \<and> cs_futs (wo_shared W) 16 = Some Suspended \<and>
        there (wo_shared W) = [5, 6] \<and> cs_received (wo_shared W) = [] \<and>
        es_ticks (wo_exec W) 8 \<noteq> None \<and> \<not> es_single (wo_exec W)"
  have "es_ticks (wo_exec W) \<noteq> Map.empty" using p by auto
  with p chan_tasks_progress [OF listed_tasks.async_tasks_axioms r [folded world_reach_def], of 16]
  obtain k s where "count (held_tasks (\<lambda>q. q) (wo_exec W)) k = 1" "runner_awake (wo_exec W)"
    "chan_exec (CPoll 16 (rn_waker list_crates k)) (wo_shared W) = Inr s" "cs_received s = [5]" by auto
  moreover have "rn_waker list_crates k = Inr k" by (simp add: list_crates_def)
  ultimately show "\<exists>r s. count (held_tasks (\<lambda>q. q) (wo_exec W)) r = 1 \<and> runner_awake (wo_exec W) \<and>
        chan_exec (CPoll 16 (Inr r)) (wo_shared W) = Inr s \<and> cs_received s = [5]" by auto
qed

end
