(* ===== verification/RwLockTasks.thy ===== *)
theory RwLockTasks
  imports TaskWorld ReadWriteLock
begin

text \<open>
  Tasks of one executor that share a read/write lock (\<open>src/lock/rwlock.rs\<close>), as an instance of theory
  \<open>TaskWorld\<close>: an object with two events, one for the readers that wait and one for the writers.
\<close>

section \<open>The lock as a shared object\<close>

definition rw_client :: "(('d, 'w) rw_sys, ('d, 'w) rw_op, 'w) client" where
  "rw_client =
     \<lparr>cl_enabled = rw_enabled, cl_exec = rw_exec, cl_access = rw_access,
      cl_futs = (\<lambda>s. rs_rfuts s ++ rs_wfuts s), cl_woken = rs_woken\<rparr>"

declare rw_client_def [evals]

definition rw_rep :: "('d, 'w) rw_sys \<Rightarrow> 'w pool \<Rightarrow> bool" where
  "rw_rep s P \<longleftrightarrow> rw_apart s \<and> (\<exists>qr qw. rw_inv s qr qw \<and> P = rw_pool qr qw)"

lemma rw_repE:
  assumes "rw_rep s P"
  obtains qr qw where "rw_apart s" "rw_inv s qr qw" "P = rw_pool qr qw"
  using assms by (auto simp: rw_rep_def)

interpretation rw_shared: client rw_client rw_rep "rw_init data" for data :: 'd
proof
  have "rw_pool q_empty q_empty = no_pool"
    by (simp add: rw_pool_def joint_def pool_def q_empty_def no_pool_def)
  with rw_start_ok show "rw_rep (rw_init data) no_pool" unfolding rw_rep_def by metis
  show "cl_futs rw_client (rw_init data) a = None" for a by (simp add: rw_client_def rw_init_def)
next
  fix c P and op :: "('d, 'w) rw_op"
  assume "rw_rep c P" and "cl_enabled rw_client op c"
  then obtain qr qw where i: "rw_inv c qr qw" "rw_apart c" "rw_enabled op c" and P: "P = rw_pool qr qw"
    by (auto simp: rw_rep_def rw_client_def)
  from rw_step_ok [OF i] obtain c' qr' qw' ws where c': "rw_exec op c = Inr c'" "rw_inv c' qr' qw'"
    "rs_woken c' = rs_woken c @ ws" "moves (rw_access op) ws P (rw_pool qr' qw')" unfolding P by blast
  moreover have "rw_rep c' (rw_pool qr' qw')"
    using rw_apart_step [OF i(2,3) c'(1)] c'(2) by (auto simp: rw_rep_def)
  ultimately show "\<exists>c' P' ws. cl_exec rw_client op c = Inr c' \<and> rw_rep c' P' \<and>
      cl_woken rw_client c' = cl_woken rw_client c @ ws \<and> moves (cl_access rw_client op) ws P P'"
    unfolding rw_client_def by auto
next
  fix c :: "('d, 'w) rw_sys" and P a
  assume "rw_rep c P" and a: "a \<in> fst ` po_waiting P \<union> po_notified P"
  then obtain qr qw where i: "rw_inv c qr qw" "rw_apart c" and P: "P = rw_pool qr qw" by (auto simp: rw_rep_def)
  from a have "a \<in> set (q_addrs qr) \<or> a \<in> set (q_addrs qw)"
    unfolding P rw_pool_def pool_addrs [symmetric] joint_sel by blast
  with rw_listed [OF i, of a] show "cl_futs rw_client c a = Some Suspended"
    by (auto simp: rw_client_def map_add_def)
next
  fix op :: "('d, 'w) rw_op" and c c' a
  assume "cl_enabled rw_client op c" "cl_exec rw_client op c = Inr c'" "cl_futs rw_client c' a \<noteq> None"
  then have "rw_enabled op c" "rw_exec op c = Inr c'" "rs_rfuts c' a \<noteq> None \<or> rs_wfuts c' a \<noteq> None"
    by (auto simp: rw_client_def)
  then have "rs_rfuts c a \<noteq> None \<or> rs_wfuts c a \<noteq> None \<or> rw_access op = Creates a"
    by (cases op) (auto simp: rw_access_def andThen_Inr_iff split: if_splits option.splits prod.splits)
  then show "cl_futs rw_client c a \<noteq> None \<or> cl_access rw_client op = Creates a" by (auto simp: rw_client_def)
next
  show "cl_enabled rw_client op c \<Longrightarrow> cl_access rw_client op = Creates a \<Longrightarrow> cl_futs rw_client c a = None"
    for op :: "('d, 'w) rw_op" and c a
    by (cases op) (auto simp: rw_client_def rw_access_def)
qed

text \<open>Who is notified in one of the events is notified in every pool that stands for the lock.\<close>

lemma rw_rep_notified:
  assumes "rw_rep s P" and "is_notified (rw_no_readers (rs_lock s)) b \<or> is_notified (rw_no_writers (rs_lock s)) b"
  shows "b \<in> po_notified P"
proof -
  from assms(1) obtain qr qw where i: "rw_inv s qr qw" and P: "P = rw_pool qr qw" by (rule rw_repE)
  from i have "refines (rw_no_writers (rs_lock s)) qr" "refines (rw_no_readers (rs_lock s)) qw"
    by (simp_all add: rw_inv_def)
  with assms(2) refines_is_notified show ?thesis unfolding P rw_pool_def joint_sel pool_sel by blast
qed

section \<open>A run\<close>

abbreviation write_run :: "(nat, nat + nat, unit, (nat, nat + nat) rw_op) world_op list" where
  "write_run \<equiv>
     [WExec (ETicker 8), WSpawn 1, WExec (EPoll 8 (Inl 0)), WShared (RWrite 16), WShared RTry_read,
      WShared (RPoll_write 16 (Inr 1)), WPending, WSpawn 2, WExec (EPoll 8 (Inl 0)), WExec (EPoll 8 (Inl 0))]"

abbreviation write_init ::
  "(nat list, (nat + nat) option, (nat + nat) option list, nat, nat + nat, unit, (nat, nat + nat) rw_sys, phase) world" where
  "write_init \<equiv> world_init list_crates (\<lambda>th. Some 8) () (rw_init 0)"

section \<open>Properties\<close>

text \<open>
  C26: Lock and executor hand over together. When a task (or anybody, while no task runs) drops the last read guard
  and a write future is suspended, or drops a write guard and a read future is suspended, then, once that task has
  suspended or completed (and no runner was dropped that had been handed a runnable), the executor holds the task
  of some suspended write, or read, future exactly once, polling that future gives it the guard, and if
  there is a runner (and none of a single \<open>tick\<close> was dropped after it returned) some runner is awake to run it.
\<close>

theorem rw_tasks_handed:
  assumes "async_tasks X absQ absA absS T phase" and "world_reach rw_client X T tid th0 (rw_init data) W"
    and "run (world_enabled rw_client X) (world_exec rw_client X T th0) (WShared d # ops) W = Some (Inr W')"
    and "ops \<in> run_ends" and "wo_current W' = None" and "\<not> es_lossy (wo_exec W')"
    and "d = RDrop_read \<and> rs_readers (wo_shared W) = 1 \<and> rs_wfuts (wo_shared W) a = Some Suspended \<or>
      d = RDrop_write \<and> rs_rfuts (wo_shared W) a = Some Suspended"
  shows "\<exists>b r. wo_owner W' b = Some r \<and> count (held_tasks absQ (wo_exec W')) r = 1 \<and>
    (d = RDrop_read \<and> rs_wfuts (wo_shared W') b = Some Suspended \<and>
       (\<exists>s. rw_exec (RPoll_write b (rn_waker X r)) (wo_shared W') = Inr s \<and> rs_writers s = 1) \<or>
     d = RDrop_write \<and> rs_rfuts (wo_shared W') b = Some Suspended \<and>
       (\<exists>s. rw_exec (RPoll_read b (rn_waker X r)) (wo_shared W') = Inr s \<and> rs_readers s = 1)) \<and>
    (es_ticks (wo_exec W') \<noteq> Map.empty \<and> \<not> es_single (wo_exec W') \<longrightarrow> runner_awake (wo_exec W'))"
proof -
  note world = task_world.intro [OF assms(1) rw_shared.client_axioms]
  have reach: "world_reach rw_client X T tid th0 (rw_init data) W'"
    using reach_run [OF assms(3)] assms(2) unfolding world_reach_def by blast
  obtain qr qw where inv: "rw_inv (wo_shared W) qr qw"
    by (rule task_world.world_rep [OF world assms(2)], erule rw_repE)
  from run_ends_shared [OF assms(3,4)]
  have d: "rw_enabled d (wo_shared W)" "rw_exec d (wo_shared W) = Inr (wo_shared W')" by (simp_all add: rw_client_def)
  obtain b where b: "is_notified (rw_no_readers (rs_lock (wo_shared W'))) b \<or>
      is_notified (rw_no_writers (rs_lock (wo_shared W'))) b"
    "\<And>w. d = RDrop_read \<and> rs_wfuts (wo_shared W') b = Some Suspended \<and>
        (\<exists>s. rw_exec (RPoll_write b w) (wo_shared W') = Inr s \<and> rs_writers s = 1) \<or>
      d = RDrop_write \<and> rs_rfuts (wo_shared W') b = Some Suspended \<and>
        (\<exists>s. rw_exec (RPoll_read b w) (wo_shared W') = Inr s \<and> rs_readers s = 1)"
    using assms(7)
  proof
    assume "d = RDrop_read \<and> rs_readers (wo_shared W) = 1 \<and> rs_wfuts (wo_shared W) a = Some Suspended"
    with last_reader_wakes_writer [OF inv] d(2) that show ?thesis by fastforce
  next
    assume "d = RDrop_write \<and> rs_rfuts (wo_shared W) a = Some Suspended"
    with writer_wakes_reader [OF inv] d that show ?thesis by fastforce
  qed
  have "b \<in> po_notified P" if "rw_rep (wo_shared W') P" for P by (rule rw_rep_notified [OF that b(1)])
  from task_world.notified_held [OF world reach assms(5,6) this] b(2) show ?thesis by blast
qed

theorem rw_tasks_handed_witness:
  "\<exists>W W'. run (world_enabled rw_client list_crates) (world_exec rw_client list_crates phase_tasks ()) write_run write_init =
       Some (Inr W) \<and>
     run (world_enabled rw_client list_crates) (world_exec rw_client list_crates phase_tasks ()) [WShared RDrop_read, WPending] W =
       Some (Inr W') \<and>
     (\<exists>b r. wo_owner W' b = Some r \<and> count (held_tasks (\<lambda>q. q) (wo_exec W')) r = 1 \<and>
        rs_wfuts (wo_shared W') b = Some Suspended \<and> runner_awake (wo_exec W'))"
proof -
  let ?en = "world_enabled rw_client list_crates" and ?ex = "world_exec rw_client list_crates phase_tasks ()"
  let ?ops = "[WShared RDrop_read, WPending] :: (nat, nat + nat, unit, (nat, nat + nat) rw_op) world_op list"
  have "after ?en ?ex write_run write_init (\<lambda>W. rs_readers (wo_shared W) = 1 \<and> rs_wfuts (wo_shared W) 16 = Some Suspended)"
    by (simp add: evals address_cases)
  then obtain W where W: "run ?en ?ex write_run write_init = Some (Inr W)"
    "rs_readers (wo_shared W) = 1" "rs_wfuts (wo_shared W) 16 = Some Suspended" by (rule afterE) (simp del: run.simps)
  have "after ?en ?ex (write_run @ ?ops) write_init (\<lambda>W'. wo_current W' = None \<and> \<not> es_lossy (wo_exec W') \<and>
      es_ticks (wo_exec W') 8 \<noteq> None \<and> \<not> es_single (wo_exec W'))"
    by (simp add: evals address_cases)
  then obtain W' where e: "run ?en ?ex (write_run @ ?ops) write_init = Some (Inr W')" and w: "wo_current W' = None"
    "\<not> es_lossy (wo_exec W')" "es_ticks (wo_exec W') 8 \<noteq> None" "\<not> es_single (wo_exec W')"
    by (rule afterE) (simp del: run.simps)
  have r: "world_reach rw_client list_crates phase_tasks (\<lambda>th. Some 8) () (rw_init 0) W"
    using run_reach [OF W(1)] by (simp add: world_reach_def)
  have o': "run ?en ?ex ?ops W = Some (Inr W')" using e unfolding run_append W(1) by (simp del: run.simps)
  have l: "[WPending] \<in> run_ends" and t: "es_ticks (wo_exec W') \<noteq> Map.empty" using w(3) by (auto simp: run_ends_def)
  from rw_tasks_handed [OF listed_tasks.async_tasks_axioms r o' l w(1,2), of 16] W(2,3) w(4) t
  obtain b k where "wo_owner W' b = Some k" "count (held_tasks (\<lambda>q. q) (wo_exec W')) k = 1"
    "rs_wfuts (wo_shared W') b = Some Suspended" "runner_awake (wo_exec W')" by blast
  with W(1) o' show ?thesis by blast
qed

end
