(* ===== verification/OnceTasks.thy ===== *)
theory OnceTasks
  imports TaskWorld OnceLock
begin

text \<open>
  Tasks of one executor that share a cell (\<open>src/lock/once_cell.rs\<close>), as an instance of theory \<open>TaskWorld\<close>: an
  object with two events, \<open>active\<close> for the futures that want to write and \<open>passive\<close> for those that only wait.
\<close>

section \<open>What the operations do to those who wait\<close>

definition once_pool :: "(unit, 'w) queue \<Rightarrow> (unit, 'w) queue \<Rightarrow> 'w pool" where
  "once_pool q qp = joint (pool q) (pool qp)"

lemma once_pool_wakes:
  "wakes ws q q' \<Longrightarrow> pool_wakes ws (once_pool q qp) (once_pool q' qp)"
  "wakes ws qp qp' \<Longrightarrow> pool_wakes ws (once_pool q qp) (once_pool q qp')"
  unfolding once_pool_def wakes_pool using pool_wakes_joint joint_commute by metis+

definition stands_for :: "(unit, 'w) queue \<Rightarrow> (unit, 'w) queue \<Rightarrow> ('v, 'w) OnceCell \<Rightarrow> bool" where
  "stands_for q qp c \<longleftrightarrow> refines (oc_active c) q \<and> refines (oc_passive c) qp"

lemma stands_for_unique: "stands_for q qp c \<Longrightarrow> stands_for q' qp' c \<Longrightarrow> q' = q \<and> qp' = qp"
  unfolding stands_for_def using refines_unique by metis

text \<open>The parts of a poll, with the listener of the future idle.\<close>

lemma store_wakes:
  assumes "stands_for q qp c" and e: "once_store v c = Inr (ws, c')"
  obtains q' qp' where "stands_for q' qp' c'" "q_idle q' = q_idle q"
    "pool_wakes ws (once_pool q qp) (once_pool q' qp')"
proof -
  from assms(1) have r: "refines (oc_active c) q" "refines (oc_passive c) qp" by (simp_all add: stands_for_def)
  from notify_all_additional [OF r(2)] obtain k1 ws1 e1 qp' where
    p: "notify_int_additional (int usize_max) (oc_passive c) = Inr (k1, ws1, e1)" "refines e1 qp'" "wakes ws1 qp qp'"
    by metis
  from notify_all_additional [OF r(1)] obtain k2 ws2 e2 q' where
    a: "notify_int_additional (int usize_max) (oc_active c) = Inr (k2, ws2, e2)" "refines e2 q'" "wakes ws2 q q'"
      "q_idle q' = q_idle q" by metis
  have c': "ws = ws1 @ ws2" "oc_active c' = e2" "oc_passive c' = e1"
    using e p(1) a(1) by (auto simp: once_store_def Let_def)
  show ?thesis
  proof (rule that)
    show "stands_for q' qp' c'" using c' p(2) a(2) by (simp add: stands_for_def)
    show "pool_wakes ws (once_pool q qp) (once_pool q' qp')"
      unfolding c'(1) by (rule pool_wakes_trans [OF once_pool_wakes(2) [OF p(3)] once_pool_wakes(1) [OF a(3)]])
  qed (rule a(4))
qed

lemma unwrite_wakes:
  assumes "stands_for q qp c" and e: "UnwriteOnDrop_drop c = Inr (ws, c')"
  obtains q' where "stands_for q' qp c'" "q_idle q' = q_idle q"
    "pool_wakes ws (once_pool q qp) (once_pool q' qp)"
proof -
  from assms(1) have "refines (oc_active c) q" by (simp add: stands_for_def)
  from notify_one [OF this] obtain k ws1 e1 q' where
    a: "notify_int 1 (oc_active c) = Inr (k, ws1, e1)" "refines e1 q'" "wakes ws1 q q'" "q_idle q' = q_idle q" by metis
  then have "ws = ws1" "oc_active c' = e1" "oc_passive c' = oc_passive c"
    using e by (auto simp: UnwriteOnDrop_drop_def Let_def)
  with a assms(1) once_pool_wakes(1) [OF a(3), of qp] that show ?thesis by (simp add: stands_for_def)
qed

lemma idle_drop_wakes:
  assumes "stands_for q qp c" and a: "a \<in> q_idle q"
  obtains e q' where "Listener_drop a (oc_active c) = Inr ([], e)" "stands_for q' qp (c\<lparr>oc_active := e\<rparr>)"
    "once_pool q' qp = once_pool q qp"
proof -
  from assms(1) have r: "refines (oc_active c) q" by (simp add: stands_for_def)
  with a have n: "a \<notin> set (q_addrs q)" using refines_wf(2) [OF r] by blast
  from refines_drop_idle [OF r a] obtain e where
    e: "Listener_drop a (oc_active c) = Inr ([], e)" "refines e (q_remove a q)" by blast
  moreover have "once_pool (q_remove a q) qp = once_pool q qp"
    unfolding q_remove_idle [OF n] by (simp add: once_pool_def pool_def)
  ultimately show ?thesis using assms(1) that by (simp add: stands_for_def)
qed

lemma leave_wakes:
  assumes "stands_for q qp c" and "a \<in> q_idle q" and e: "once_leave ws r fut a c = Inr (p, fut', ws', c')"
  obtains q' where "stands_for q' qp c'" "once_pool q' qp = once_pool q qp" "ws' = ws"
proof -
  from idle_drop_wakes [OF assms(1,2)] obtain e1 q' where
    "Listener_drop a (oc_active c) = Inr ([], e1)" "stands_for q' qp (c\<lparr>oc_active := e1\<rparr>)"
    "once_pool q' qp = once_pool q qp" by metis
  with e that show ?thesis by (auto simp: once_leave_def)
qed

lemma setter_wakes:
  assumes st: "stands_for q qp c" and a: "a \<in> q_idle q"
    and e: "once_await_setter sp f fut a w c = Inr (p, fut', ws, c')"
  obtains q' qp' where "stands_for q' qp' c'" "pool_wakes ws (once_pool q qp) (once_pool q' qp')"
proof -
  from e obtain x f' where f: "sp f w = Inr (x, f')" by (auto simp: once_await_setter_def andThen_Inr_iff)
  show ?thesis
  proof (cases x rule: poll_result_cases)
    case pending
    with e f st pool_wakes_refl that show ?thesis by (auto simp: once_await_setter_def Let_def)
  next
    case (ok v)
    with e f obtain ws1 c1 v' ws2 c2 where
      s: "once_store v c = Inr (ws1, c1)" "UnwriteOnDrop_drop c1 = Inr (ws2, c2)"
        "once_leave (ws1 @ ws2) (Inr v') (fut\<lparr>of_running := Some f'\<rparr>) a c2 = Inr (p, fut', ws, c')"
      by (auto simp: once_await_setter_def Let_def andThen_Inr_iff)
    from store_wakes [OF st s(1)] obtain q1 qp' where
      1: "stands_for q1 qp' c1" "q_idle q1 = q_idle q" "pool_wakes ws1 (once_pool q qp) (once_pool q1 qp')" .
    from unwrite_wakes [OF 1(1) s(2)] obtain q2 where
      2: "stands_for q2 qp' c2" "q_idle q2 = q_idle q1" "pool_wakes ws2 (once_pool q1 qp') (once_pool q2 qp')" .
    have "a \<in> q_idle q2" using a 1(2) 2(2) by simp
    from leave_wakes [OF 2(1) this s(3)] obtain q' where
      "stands_for q' qp' c'" "once_pool q' qp' = once_pool q2 qp'" "ws = ws1 @ ws2" .
    with pool_wakes_trans [OF 1(3) 2(3)] that show ?thesis by metis
  next
    case (err x)
    with e f obtain ws1 c1 where
      s: "UnwriteOnDrop_drop c = Inr (ws1, c1)"
        "once_leave ws1 (Inl x) (fut\<lparr>of_running := Some f'\<rparr>) a c1 = Inr (p, fut', ws, c')"
      by (auto simp: once_await_setter_def Let_def andThen_Inr_iff)
    from unwrite_wakes [OF st s(1)] obtain q1 where
      1: "stands_for q1 qp c1" "q_idle q1 = q_idle q" "pool_wakes ws1 (once_pool q qp) (once_pool q1 qp)" .
    have "a \<in> q_idle q1" using a 1(2) by simp
    from leave_wakes [OF 1(1) this s(2)] obtain q' where
      "stands_for q' qp c'" "once_pool q' qp = once_pool q1 qp" "ws = ws1" .
    with 1(3) that show ?thesis by metis
  qed
qed

text \<open>The loop: the setter runs, the value is there, or the future waits with the waker of the poll.\<close>

lemma continue_wakes:
  assumes st: "stands_for q qp c" and a: "a \<in> q_idle q" and qp: "a \<notin> set (q_addrs qp)"
    and e: "andThen (loop_head poll_fuel once_loop a w c) (once_continue sp fut a w) = Inr (p, fut', ws, c')"
  obtains q' qp' where "stands_for q' qp' c'" "moves (Polls a w) ws (once_pool q qp) (once_pool q' qp')"
proof -
  from st have r: "refines (wf_event once_loop c) q" by (simp add: stands_for_def)
  then have n: "a \<notin> set (q_addrs q)" using refines_wf(2) [OF r] a by blast
  then have fresh: "pool_wakes [] (accessed (Polls a w) (once_pool q qp)) (once_pool q qp)"
    using qp by (intro pool_wakes_fresh) (auto simp: once_pool_def q_addrs_def)
  have fin: "moves (Polls a w) ws (once_pool q qp) P" if "pool_wakes ws (once_pool q qp) P" for P
    using pool_wakes_trans [OF fresh that] by (simp add: moves_def)
  consider (got) v where "once_attempt c = (Some (Got v), c)" | (wait) "once_attempt c = (None, c)"
    | (free) "once_attempt c = (Some Writer, c\<lparr>oc_writing := True\<rparr>)"
    using once_attempt_cases [of c] by (cases "oc_data c"; cases "oc_writing c") auto
  then show ?thesis
  proof cases
    case (got v)
    then have "once_leave [] (Inr v) fut a c = Inr (p, fut', ws, c')"
      using e once.loop_head_ready [of c "Got v" c a w] by (simp add: once_continue_def)
    from leave_wakes [OF st a this] obtain q' where
      "stands_for q' qp c'" "once_pool q' qp = once_pool q qp" "ws = []" .
    with fin pool_wakes_refl that show ?thesis by metis
  next
    case wait
    from once.loop_head_pending [OF r a, of c w] wait obtain e1 where
      "loop_head poll_fuel once_loop a w c = Inr (Pending, c\<lparr>oc_active := e1\<rparr>)" "refines e1 (q_insert a (Some w) q)"
      by auto
    then have c': "ws = []" "stands_for (q_insert a (Some w) q) qp c'"
      using e st by (auto simp: once_continue_def stands_for_def)
    have "moves (Polls a w) [] (once_pool q qp) (once_pool (q_insert a (Some w) q) qp)"
      using n qp by (auto simp: moves_def accessed_def pool_wakes_def once_pool_def q_insert_def q_addrs_def image_iff)
    with c' that show ?thesis by metis
  next
    case free
    then obtain f where f: "once_await_setter sp f (fut\<lparr>of_setter := None\<rparr>) a w (c\<lparr>oc_writing := True\<rparr>) = Inr (p, fut', ws, c')"
      using e once.loop_head_ready [of c Writer "c\<lparr>oc_writing := True\<rparr>" a w]
      by (auto simp: once_continue_def andThen_Inr_iff)
    have "stands_for q qp (c\<lparr>oc_writing := True\<rparr>)" using st by (simp add: stands_for_def)
    from setter_wakes [OF this a f] fin that show ?thesis by metis
  qed
qed

text \<open>A poll and a drop of a \<open>get_or_try_init\<close> future.\<close>

lemma init_poll_moves:
  assumes q: "once_q pcs c q" and qp: "refines (oc_passive c) qp" and pc: "pcs a = Some (of_pc fut)"
    and n: "a \<notin> set (q_addrs qp)" and e: "get_or_try_init_poll sp fut a w c = Inr (p, fut', ws, c')"
  obtains q' qp' where "stands_for q' qp' c'" "moves (Polls a w) ws (once_pool q qp) (once_pool q' qp')"
proof -
  from q have r: "refines (oc_active c) q" and a0: "a \<noteq> 0" using pc by (auto simp: once_q_def)
  show ?thesis
  proof (cases "of_pc fut")
    case OUnresumed
    have "a \<notin> q_listeners q" using q pc OUnresumed by (auto simp: once_q_def q_listeners_def)
    from refines_new [OF r this a0] qp have "stands_for (q_new a q) qp (c\<lparr>oc_active := Listener_new a (oc_active c)\<rparr>)"
      by (simp add: stands_for_def)
    from continue_wakes [OF this _ n, of w sp fut p fut' ws c'] e OUnresumed obtain q' qp' where
      "stands_for q' qp' c'" "moves (Polls a w) ws (once_pool (q_new a q) qp) (once_pool q' qp')"
      by (auto simp: get_or_try_init_poll_def q_new_def)
    moreover have "once_pool (q_new a q) qp = once_pool q qp" by (simp add: once_pool_def pool_def q_new_def)
    ultimately show ?thesis using that by simp
  next
    case OAwaiting
    then have "pollable Suspended a q" using q pc by (auto simp: once_q_def pollable_def)
    from r this show ?thesis
    proof (cases rule: pollable_suspended)
      case 1
      from once.loop_resume_waiting [of c q, simplified, OF r 1(1), of w] obtain e1 where
        e1: "loop_resume once_loop a w c = Inr (Pending, c\<lparr>oc_active := e1\<rparr>)" "refines e1 (q_set_waker a w q)"
        by auto
      then have c': "ws = []" "stands_for (q_set_waker a w q) qp c'"
        using e qp by (auto simp: get_or_try_init_poll_def OAwaiting once_continue_def stands_for_def)
      have "a \<notin> fst ` set (q_notified q)"
        using 1(2) by (auto simp: notified_tag_def map_of_eq_None_iff)
      then have "moves (Polls a w) [] (once_pool q qp) (once_pool (q_set_waker a w q) qp)"
        using n by (auto simp: moves_def accessed_def pool_wakes_def once_pool_def q_set_waker_def q_addrs_def
          image_iff split: if_splits)
      with c' that show ?thesis by metis
    next
      case (2 t)
      from once.loop_resume_notified [of c q a t w] r 2 obtain e1 where
        e1: "refines e1 (q_del a q)"
          "loop_resume once_loop a w c = loop_head poll_fuel once_loop a w (c\<lparr>oc_active := e1\<rparr>)" by auto
      then have "stands_for (q_del a q) qp (c\<lparr>oc_active := e1\<rparr>)" using qp by (simp add: stands_for_def)
      from continue_wakes [OF this _ n, of w sp fut p fut' ws c'] e OAwaiting e1(2) obtain q' qp' where
        "stands_for q' qp' c'" "moves (Polls a w) ws (once_pool (q_del a q) qp) (once_pool q' qp')"
        by (auto simp: get_or_try_init_poll_def q_del_def)
      moreover have "accessed (Polls a w) (once_pool (q_del a q) qp) = accessed (Polls a w) (once_pool q qp)"
        by (auto simp: accessed_def once_pool_def q_del_def)
      ultimately show ?thesis using that by (simp add: moves_def)
    qed
  next
    case OSetting
    then have i: "a \<in> q_idle q" using q pc by (auto simp: once_q_def)
    then have "a \<notin> set (q_addrs q)" using refines_wf(2) [OF r] by blast
    then have fresh: "pool_wakes [] (accessed (Polls a w) (once_pool q qp)) (once_pool q qp)"
      using n by (intro pool_wakes_fresh) (auto simp: once_pool_def q_addrs_def)
    from e OSetting obtain f where "once_await_setter sp f fut a w c = Inr (p, fut', ws, c')"
      by (auto simp: get_or_try_init_poll_def andThen_Inr_iff)
    from setter_wakes [OF _ i this] r qp obtain q' qp' where
      "stands_for q' qp' c'" "pool_wakes ws (once_pool q qp) (once_pool q' qp')" by (auto simp: stands_for_def)
    with pool_wakes_trans [OF fresh] that show ?thesis by (simp add: moves_def)
  next
    case OReturned
    with e show ?thesis by (simp add: get_or_try_init_poll_def)
  qed
qed

lemma init_drop_moves:
  assumes q: "once_q pcs c q" and qp: "refines (oc_passive c) qp" and pc: "pcs a = Some (of_pc fut)"
    and e: "get_or_try_init_drop fut a c = Inr (ws, c')"
  obtains q' where "stands_for q' qp c'" "pool_wakes ws (once_pool q qp) (once_pool q' qp)"
proof -
  from q have r: "refines (oc_active c) q" by (simp add: once_q_def)
  with qp have st: "stands_for q qp c" by (simp add: stands_for_def)
  show ?thesis
  proof (cases "of_pc fut")
    case OAwaiting
    then have "a \<in> q_listeners q" using q pc by (auto simp: once_q_def q_listeners_def)
    from refines_drop [OF r this] obtain e1 where
      "Listener_drop a (oc_active c) = Inr (fst (q_drop a q), e1)" "refines e1 (snd (q_drop a q))" by blast
    with e qp OAwaiting have "stands_for (snd (q_drop a q)) qp c'" "ws = fst (q_drop a q)"
      by (auto simp: get_or_try_init_drop_def stands_for_def)
    with once_pool_wakes(1) [OF wakes_drop [of a q], of qp] that show ?thesis by blast
  next
    case OSetting
    with e obtain ws1 c1 ws2 e2 where s: "UnwriteOnDrop_drop c = Inr (ws1, c1)"
        "Listener_drop a (oc_active c1) = Inr (ws2, e2)" "ws = ws1 @ ws2" "c' = c1\<lparr>oc_active := e2\<rparr>"
      by (auto simp: get_or_try_init_drop_def andThen_Inr_iff)
    from unwrite_wakes [OF st s(1)] obtain q1 where
      1: "stands_for q1 qp c1" "q_idle q1 = q_idle q" "pool_wakes ws1 (once_pool q qp) (once_pool q1 qp)" .
    have "a \<in> q_idle q1" using 1(2) q pc OSetting by (auto simp: once_q_def)
    from idle_drop_wakes [OF 1(1) this] obtain e3 q2 where
      "Listener_drop a (oc_active c1) = Inr ([], e3)" "stands_for q2 qp (c1\<lparr>oc_active := e3\<rparr>)"
      "once_pool q2 qp = once_pool q1 qp" by metis
    with s 1(3) that [of q2] show ?thesis by simp
  next
    case OUnresumed
    with e st pool_wakes_refl that show ?thesis by (auto simp: get_or_try_init_drop_def)
  next
    case OReturned
    with e st pool_wakes_refl that show ?thesis by (auto simp: get_or_try_init_drop_def)
  qed
qed

section \<open>The cell as a shared object\<close>

text \<open>
  A future that polls its setter is suspended too: it waits for whatever the setter waits for.
\<close>

fun once_stage :: "once_pc \<Rightarrow> fut" where
  "once_stage OUnresumed = Unresumed"
| "once_stage OAwaiting = Suspended"
| "once_stage OSetting = Suspended"
| "once_stage OReturned = Returned"

definition once_futs :: "('f, 'v, 'w) once_sys \<Rightarrow> addr \<rightharpoonup> fut" where
  "once_futs s = (\<lambda>a. map_option (once_stage \<circ> of_pc) (os_inits s a)) ++ os_waits s"

definition once_access :: "('f, 'w) once_op \<Rightarrow> 'w access" where
  "once_access op =
     (case op of
        OInit a f \<Rightarrow> Creates a
      | OPoll a w \<Rightarrow> Polls a w
      | OCancel a \<Rightarrow> Drops a
      | OWait a \<Rightarrow> Creates a
      | OPoll_wait a w \<Rightarrow> Polls a w
      | OCancel_wait a \<Rightarrow> Drops a
      | OTake \<Rightarrow> Uses)"

definition once_client ::
  "('f, 'w, 'e, 'v) setter \<Rightarrow> ('f \<Rightarrow> bool) \<Rightarrow> (('f, 'v, 'w) once_sys, ('f, 'w) once_op, 'w) client" where
  "once_client sp sok =
     \<lparr>cl_enabled = once_enabled sok, cl_exec = once_exec sp, cl_access = once_access, cl_futs = once_futs,
      cl_woken = os_woken\<rparr>"

declare once_client_def [evals] once_access_def [evals] once_futs_def [evals] once_stage.simps [evals]

definition once_apart :: "('f, 'v, 'w) once_sys \<Rightarrow> bool" where
  "once_apart s \<longleftrightarrow> (\<forall>a. os_inits s a = None \<or> os_waits s a = None)"

lemma once_apart_step:
  assumes "once_apart s" and "once_enabled sok op s" and "once_exec sp op s = Inr s'"
  shows "once_apart s'"
  using assms by (cases op)
    (auto simp: once_apart_def andThen_Inr_iff split: option.splits prod.splits; metis option.distinct(1))+

lemma once_inv_stands: "once_inv sok s q qp \<Longrightarrow> stands_for q qp (os_cell s)"
  by (simp add: once_inv_def once_q_def stands_for_def)

lemma once_listed:
  assumes "once_inv sok s q qp" and "once_apart s"
  shows "a \<in> set (q_addrs q) \<Longrightarrow> \<exists>fut. os_inits s a = Some fut \<and> of_pc fut = OAwaiting \<and> os_waits s a = None"
    and "a \<in> set (q_addrs qp) \<Longrightarrow> os_waits s a = Some Suspended \<and> os_inits s a = None"
proof -
  from assms(1) have "set (q_addrs q) = {a. once_pcs s a = Some OAwaiting}" "live_ok (os_waits s) qp"
    by (simp_all add: once_inv_def once_q_def)
  with assms(2) show "a \<in> set (q_addrs q) \<Longrightarrow> \<exists>fut. os_inits s a = Some fut \<and> of_pc fut = OAwaiting \<and> os_waits s a = None"
    and "a \<in> set (q_addrs qp) \<Longrightarrow> os_waits s a = Some Suspended \<and> os_inits s a = None"
    by (auto simp: once_apart_def once_pcs_def live_ok_def) (metis option.distinct(1))+
qed

lemma once_moves:
  assumes inv: "once_inv sok s q qp" and apart: "once_apart s" and en: "once_enabled sok op s"
    and e: "once_exec sp op s = Inr s'" and inv': "once_inv sok s' q' qp'"
  shows "\<exists>ws. os_woken s' = os_woken s @ ws \<and> moves (once_access op) ws (once_pool q qp) (once_pool q' qp')"
proof -
  from inv have i: "once_q (once_pcs s) (os_cell s) q" "refines (oc_passive (os_cell s)) qp" "live_ok (os_waits s) qp"
    by (simp_all add: once_inv_def)
  note st = once_inv_stands [OF inv] and st' = once_inv_stands [OF inv']
  have pc: "once_pcs s a = Some (of_pc fut)" if "os_inits s a = Some fut" for a fut
    using that by (simp add: once_pcs_def)
  have quiet: ?thesis if "os_woken s' = os_woken s" "oc_active (os_cell s') = oc_active (os_cell s)"
      "oc_passive (os_cell s') = oc_passive (os_cell s)" "accessed (once_access op) (once_pool q qp) = once_pool q qp"
  proof -
    have "q' = q \<and> qp' = qp" using stands_for_unique [OF st] st' that by (simp add: stands_for_def)
    with that show ?thesis by (simp add: moves_def pool_wakes_refl)
  qed
  show ?thesis
  proof (cases op)
    case (OPoll a w)
    with en obtain fut where f: "os_inits s a = Some fut" by (auto split: option.splits)
    then have "a \<notin> set (q_addrs qp)" using once_listed(2) [OF inv apart, of a] by auto
    moreover from e f OPoll obtain p fut' ws c' where
      c': "get_or_try_init_poll sp fut a w (os_cell s) = Inr (p, fut', ws, c')" "os_cell s' = c'"
        "os_woken s' = os_woken s @ ws" by (auto simp: andThen_Inr_iff)
    ultimately obtain q1 qp1 where
      m: "stands_for q1 qp1 c'" "moves (Polls a w) ws (once_pool q qp) (once_pool q1 qp1)"
      using init_poll_moves [OF i(1,2) pc [OF f]] by metis
    have "q' = q1 \<and> qp' = qp1" using stands_for_unique [OF m(1)] st' c'(2) by simp
    with m(2) c'(3) OPoll show ?thesis by (simp add: once_access_def)
  next
    case (OCancel a)
    with en obtain fut where f: "os_inits s a = Some fut" by auto
    with e OCancel obtain ws c' where c': "get_or_try_init_drop fut a (os_cell s) = Inr (ws, c')" "os_cell s' = c'"
      "os_woken s' = os_woken s @ ws" by (auto simp: andThen_Inr_iff)
    from init_drop_moves [OF i(1,2) pc [OF f] c'(1)] obtain q1 where
      m: "stands_for q1 qp c'" "pool_wakes ws (once_pool q qp) (once_pool q1 qp)" .
    have "q' = q1 \<and> qp' = qp" using stands_for_unique [OF m(1)] st' c'(2) by simp
    with m(2) c'(3) OCancel show ?thesis by (simp add: once_access_def moves_def)
  next
    case (OPoll_wait a w)
    with en obtain f where f: "os_waits s a = Some f" "f \<noteq> Returned" by auto
    then have n: "a \<notin> set (q_addrs q)" using once_listed(1) [OF inv apart, of a] by auto
    from once_wait.poll_ok [of "os_cell s" qp, simplified, OF i(2,3) f, of w] obtain res f' c' ev q1 where
      p: "wait_poll OnceCell_wait f a w (os_cell s) = Inr (res, f', [], c'\<lparr>oc_passive := ev\<rparr>)"
        "wait_spec OnceCell_wait f a w (os_cell s) qp = (res, f', c', q1)" "refines ev q1" by metis
    have c': "c' = os_cell s" using p(2) by (auto simp: wait_spec_def wait_attempt_def split: if_splits option.splits)
    have "polled_by a w qp q1"
      by (rule wait_spec_polls [OF p(2) i(2) live_ok_pollable [OF i(3) f]])
    from moves_joint(2) [OF moves_poll [OF this], of "pool q"] n
    have "moves (Polls a w) [] (once_pool q qp) (once_pool q q1)" by (simp add: once_pool_def q_addrs_def image_Un)
    moreover have "os_woken s' = os_woken s" "stands_for q q1 (os_cell s')"
      using e OPoll_wait f p(1,3) st by (auto simp: stands_for_def c')
    moreover have "q' = q \<and> qp' = q1" using stands_for_unique [OF calculation(3) st'] by simp
    ultimately show ?thesis using OPoll_wait by (simp add: once_access_def)
  next
    case (OCancel_wait a)
    with en obtain f where f: "os_waits s a = Some f" by auto
    from once_wait.drop_ok [of "os_cell s" qp, simplified, OF i(2,3) f] obtain ws ev q1 where
      p: "wait_drop OnceCell_wait f a (os_cell s) = Inr (ws, (os_cell s)\<lparr>oc_passive := ev\<rparr>)"
        "refines ev q1" "wakes ws qp q1" by metis
    have "os_woken s' = os_woken s @ ws" "stands_for q q1 (os_cell s')"
      using e OCancel_wait f p(1,2) st by (auto simp: stands_for_def)
    moreover from stands_for_unique [OF this(2) st'] have "q' = q \<and> qp' = q1" by simp
    ultimately show ?thesis
      using once_pool_wakes(2) [OF p(3), of q] OCancel_wait by (simp add: once_access_def moves_def)
  next
    case (OInit a f)
    with e show ?thesis by (intro quiet) (auto simp: once_access_def)
  next
    case (OWait a)
    with e show ?thesis by (intro quiet) (auto simp: once_access_def)
  next
    case OTake
    with e show ?thesis by (intro quiet) (auto simp: once_access_def OnceCell_take_def)
  qed
qed

definition once_rep :: "('f \<Rightarrow> bool) \<Rightarrow> ('f, 'v, 'w) once_sys \<Rightarrow> 'w pool \<Rightarrow> bool" where
  "once_rep sok s P \<longleftrightarrow> once_apart s \<and> (\<exists>q qp. once_inv sok s q qp \<and> P = once_pool q qp)"

lemma once_repE:
  assumes "once_rep sok s P"
  obtains q qp where "once_apart s" "once_inv sok s q qp" "P = once_pool q qp"
  using assms by (auto simp: once_rep_def)

sublocale setter \<subseteq> once_shared: client "once_client sp sok" "once_rep sok" "once_start (once_cell0 v)" for v
proof
  have "once_pool q_empty q_empty = no_pool"
    by (simp add: once_pool_def joint_def pool_def q_empty_def no_pool_def)
  then show "once_rep sok (once_start (once_cell0 v)) no_pool"
    using once_start_ok unfolding once_rep_def by (metis (no_types, lifting) once_apart_def once_start_def once_sys.select_convs(2))
  show "cl_futs (once_client sp sok) (once_start (once_cell0 v)) a = None" for a
    by (simp add: once_client_def once_futs_def once_start_def)
next
  fix c :: "('f, 'v, 'w) once_sys" and P and op :: "('f, 'w) once_op"
  assume "once_rep sok c P" and "cl_enabled (once_client sp sok) op c"
  then obtain q qp where i: "once_inv sok c q qp" "once_apart c" "once_enabled sok op c" and P: "P = once_pool q qp"
    by (auto simp: once_rep_def once_client_def)
  obtain c' q' qp' where c': "once_exec sp op c = Inr c'" "once_inv sok c' q' qp'"
    using once_exec_ok [OF _ i(3) sp_ok] i(1) by metis
  from once_moves [OF i c'] obtain ws where
    "os_woken c' = os_woken c @ ws" "moves (once_access op) ws P (once_pool q' qp')" unfolding P by blast
  moreover have "once_rep sok c' (once_pool q' qp')"
    using once_apart_step [OF i(2,3) c'(1)] c'(2) by (auto simp: once_rep_def)
  ultimately show "\<exists>c' P' ws. cl_exec (once_client sp sok) op c = Inr c' \<and> once_rep sok c' P' \<and>
      cl_woken (once_client sp sok) c' = cl_woken (once_client sp sok) c @ ws \<and>
      moves (cl_access (once_client sp sok) op) ws P P'"
    using c'(1) unfolding once_client_def by auto
next
  fix c :: "('f, 'v, 'w) once_sys" and P a
  assume "once_rep sok c P" and a: "a \<in> fst ` po_waiting P \<union> po_notified P"
  then obtain q qp where i: "once_inv sok c q qp" "once_apart c" and P: "P = once_pool q qp" by (auto simp: once_rep_def)
  from a have "a \<in> set (q_addrs q) \<or> a \<in> set (q_addrs qp)"
    unfolding P once_pool_def pool_addrs [symmetric] joint_sel by blast
  with once_listed [OF i, of a] show "cl_futs (once_client sp sok) c a = Some Suspended"
    by (auto simp: once_client_def once_futs_def map_add_def)
next
  fix op :: "('f, 'w) once_op" and c c' :: "('f, 'v, 'w) once_sys" and a
  assume "cl_enabled (once_client sp sok) op c" "cl_exec (once_client sp sok) op c = Inr c'"
    "cl_futs (once_client sp sok) c' a \<noteq> None"
  then have "once_enabled sok op c" "once_exec sp op c = Inr c'" "os_inits c' a \<noteq> None \<or> os_waits c' a \<noteq> None"
    by (auto simp: once_client_def once_futs_def)
  then have "os_inits c a \<noteq> None \<or> os_waits c a \<noteq> None \<or> once_access op = Creates a"
    by (cases op) (auto simp: once_access_def andThen_Inr_iff split: if_splits option.splits prod.splits)
  then show "cl_futs (once_client sp sok) c a \<noteq> None \<or> cl_access (once_client sp sok) op = Creates a"
    by (auto simp: once_client_def once_futs_def)
next
  show "cl_enabled (once_client sp sok) op c \<Longrightarrow> cl_access (once_client sp sok) op = Creates a \<Longrightarrow>
      cl_futs (once_client sp sok) c a = None" for op :: "('f, 'w) once_op" and c :: "('f, 'v, 'w) once_sys" and a
    by (cases op) (auto simp: once_client_def once_access_def once_futs_def)
qed

context setter
begin

lemma cell_client: "client (once_client sp sok) (once_rep sok) (once_start (once_cell0 v))"
  by (rule once_shared.client_axioms)

end

text \<open>Who is notified in one of the events is notified in every pool that stands for the cell.\<close>

lemma once_rep_notified:
  assumes "once_rep sok s P" and "is_notified (oc_active (os_cell s)) b \<or> is_notified (oc_passive (os_cell s)) b"
  shows "b \<in> po_notified P"
proof -
  from assms(1) obtain q qp where i: "once_inv sok s q qp" and P: "P = once_pool q qp" by (rule once_repE)
  from once_inv_stands [OF i] have "refines (oc_active (os_cell s)) q" "refines (oc_passive (os_cell s)) qp"
    by (simp_all add: stands_for_def)
  with assms(2) refines_is_notified show ?thesis unfolding P once_pool_def joint_sel pool_sel by blast
qed

section \<open>A run\<close>

abbreviation cell_run :: "(nat, nat + nat, unit, (nat option, nat + nat) once_op) world_op list" where
  "cell_run \<equiv>
     [WExec (ETicker 8), WSpawn 1, WExec (EPoll 8 (Inl 0)), WShared (OWait 16), WShared (OPoll_wait 16 (Inr 1)), WPending,
      WSpawn 2, WExec (EPoll 8 (Inl 0)), WExec (EPoll 8 (Inl 0)), WShared (OInit 24 (Some 5)), WShared (OPoll 24 (Inr 2)),
      WPending]"

abbreviation cell_init ::
  "(nat list, (nat + nat) option, (nat + nat) option list, nat, nat + nat, unit, (nat option, nat, nat + nat) once_sys, phase) world" where
  "cell_init \<equiv> world_init list_crates (\<lambda>th. Some 8) () (once_start (once_cell0 None))"

abbreviation cell_client :: "((nat option, nat, nat + nat) once_sys, (nat option, nat + nat) once_op, nat + nat) client" where
  "cell_client \<equiv> once_client (infallible set_setter) set_sok"

section \<open>Properties\<close>

text \<open>
  C30: Cell and executor do not deadlock. When the tasks of an executor share a cell that has a value, a \<open>wait\<close> future is
  suspended or a \<open>get_or_try_init\<close> future waits to write, and no task runs (and no runner was dropped that had
  been handed a runnable), then the executor holds the task of that future exactly once, polling the future
  returns, a \<open>get_or_try_init\<close> future with the value, and if there is a runner (and none of a single
  \<open>tick\<close> was dropped after it returned) some runner is awake to run it.
\<close>

theorem once_tasks_served:
  assumes "async_tasks X absQ absA absS T phase" and "setter_ok sp sok"
    and "world_reach (once_client sp sok) X T tid th0 (once_start (once_cell0 v)) W"
    and "wo_current W = None" and "\<not> es_lossy (wo_exec W)" and "oc_data (os_cell (wo_shared W)) = Some x"
    and "os_waits (wo_shared W) a = Some Suspended \<or>
      (\<exists>fut. os_inits (wo_shared W) a = Some fut \<and> of_pc fut = OAwaiting)"
  shows "\<exists>r. wo_owner W a = Some r \<and> count (held_tasks absQ (wo_exec W)) r = 1 \<and>
    ((\<exists>s. once_exec sp (OPoll_wait a (rn_waker X r)) (wo_shared W) = Inr s \<and> os_waits s a = Some Returned) \<or>
     (\<exists>s. once_exec sp (OPoll a (rn_waker X r)) (wo_shared W) = Inr s \<and> os_results s = os_results (wo_shared W) @ [x])) \<and>
    (es_ticks (wo_exec W) \<noteq> Map.empty \<and> \<not> es_single (wo_exec W) \<longrightarrow> runner_awake (wo_exec W))"
proof -
  note world = task_world.intro [OF assms(1) setter.cell_client [OF setter.intro [OF assms(2)]]]
  obtain q qp where inv: "once_inv sok (wo_shared W) q qp"
    by (rule task_world.world_rep [OF world assms(3)], erule once_repE)
  note served = once_served [OF inv assms(2,6)]
  have n: "is_notified (oc_active (os_cell (wo_shared W))) a \<or> is_notified (oc_passive (os_cell (wo_shared W))) a"
    using assms(7) served by blast
  have polled: "(\<exists>s. once_exec sp (OPoll_wait a w) (wo_shared W) = Inr s \<and> os_waits s a = Some Returned) \<or>
      (\<exists>s. once_exec sp (OPoll a w) (wo_shared W) = Inr s \<and> os_results s = os_results (wo_shared W) @ [x])" for w
    using assms(7)
  proof
    assume "\<exists>fut. os_inits (wo_shared W) a = Some fut \<and> of_pc fut = OAwaiting"
    then obtain fut where f: "os_inits (wo_shared W) a = Some fut" "of_pc fut = OAwaiting" by blast
    from served(2) [OF this] obtain fut' woken c where
      "get_or_try_init_poll sp fut a w (os_cell (wo_shared W)) = Inr (Ready (Inr x), fut', woken, c)" by blast
    with f(1) show ?thesis by simp
  qed (use served(1) in blast)
  have "a \<in> po_notified P" if "once_rep sok (wo_shared W) P" for P by (rule once_rep_notified [OF that n])
  from task_world.notified_held [OF world assms(3-5) this] obtain r where
    "wo_owner W a = Some r" "count (held_tasks absQ (wo_exec W)) r = 1"
    "es_ticks (wo_exec W) \<noteq> Map.empty \<and> \<not> es_single (wo_exec W) \<longrightarrow> runner_awake (wo_exec W)" by blast
  with polled [of "rn_waker X r"] show ?thesis by (intro exI [of _ r] conjI)
qed

theorem once_tasks_served_witness:
  "\<exists>W. run (world_enabled cell_client list_crates) (world_exec cell_client list_crates phase_tasks ()) cell_run cell_init =
       Some (Inr W) \<and>
     (\<exists>r. wo_owner W 16 = Some r \<and> count (held_tasks (\<lambda>q. q) (wo_exec W)) r = 1 \<and> runner_awake (wo_exec W))"
proof (rule after_reach)
  show "after (world_enabled cell_client list_crates) (world_exec cell_client list_crates phase_tasks ()) cell_run cell_init
      (\<lambda>W. wo_current W = None \<and> \<not> es_lossy (wo_exec W) \<and> es_ticks (wo_exec W) 8 \<noteq> None \<and> \<not> es_single (wo_exec W) \<and>
        oc_data (os_cell (wo_shared W)) = Some 5 \<and> os_waits (wo_shared W) 16 = Some Suspended)"
    by (simp add: evals set_sok_def OnceCell_wait_def address_cases)
  fix W assume r: "reach (world_enabled cell_client list_crates) (world_exec cell_client list_crates phase_tasks ()) cell_init W"
    and p: "wo_current W = None \<and> \<not> es_lossy (wo_exec W) \<and> es_ticks (wo_exec W) 8 \<noteq> None \<and> \<not> es_single (wo_exec W) \<and>
        oc_data (os_cell (wo_shared W)) = Some 5 \<and> os_waits (wo_shared W) 16 = Some Suspended"
  have t: "es_ticks (wo_exec W) \<noteq> Map.empty" using p by auto
  from p have "wo_current W = None" "\<not> es_lossy (wo_exec W)" "oc_data (os_cell (wo_shared W)) = Some 5"
    and w: "os_waits (wo_shared W) 16 = Some Suspended" by simp_all
  from once_tasks_served [OF listed_tasks.async_tasks_axioms set_setter.sp_ok r [folded world_reach_def] this(1-3)
      disjI1 [OF w]] t p
  show "\<exists>r. wo_owner W 16 = Some r \<and> count (held_tasks (\<lambda>q. q) (wo_exec W)) r = 1 \<and> runner_awake (wo_exec W)"
    by blast
qed

end
