(* ===== verification/Spec2Isabelle.thy ===== *)
theory Spec2Isabelle
  imports Prelude Notification Event EventQueue Async Machine MutexLock SemaphoreLock
    ReadWriteLock OnceLock BarrierLock Handover ChannelModel EventApi Executor ExecutorLaws
    ExecutorSystem ExecutorDrop MainstreamRace ExecutorTests Tests
    Bytes TcpExample HttpServers HttpLaws HttpAnswers HttpProperties ServerMain TaskWorld MutexTasks
    LockTasks ChannelTasks RwLockTasks OnceTasks
begin

text \<open>
  A verification development for the crate \<open>unsend\<close>: an event for futures of one thread
  (\<open>src/event.rs\<close>), the locks, the cell, the barrier and the channel built on it (\<open>src/lock\<close>,
  \<open>src/channel.rs\<close>), and an executor that combines it with queues other threads can reach
  (\<open>src/executor.rs\<close>). With it, the programs of the repository that use the crate: a TCP server and its client
  (\<open>examples\<close>), and the handlers of ten HTTP servers over three runtimes, with the main functions of the two that
  use this crate (\<open>comparisons\<close>).

  \<^bold>\<open>How the parts interact.\<close> Every waiting future owns a listener, a node of an intrusive list in
  the event it waits on. Notifying an event marks listeners, from the oldest un-notified one on, with
  a tag each and wakes their wakers; the next poll of a marked listener unlinks it and returns
  its tag, and dropping a marked listener passes the mark on. The locks notify when they are
  released, with the unit tag. The channel and the executor use the tag to hand over
  an item, or a task, to the listener directly.

  \<^bold>\<open>Theories.\<close>
    \<^item> \<open>Prelude\<close>: panics and undefined behaviour as values (\<open>outcome\<close>), checked arithmetic,
      the borrow flag of \<open>RefCell\<close>, \<open>Poll\<close>, and the collection \<open>evals\<close> of rules that evaluate the
      model. \<open>Machine\<close>: systems of a component and its clients, reachable states, runs, and the
      locale \<open>machine\<close> by which an invariant gives freedom from faults.
    \<^item> \<open>Notification\<close>: the notification types of \<open>event.rs\<close> as records of operations, the
      conversions of integers, and the contract of the sealed trait as the locale \<open>notification\<close>.
    \<^item> \<open>Event\<close>: \<open>Inner\<close>, \<open>Listener\<close>, \<open>Entry\<close> over an explicit memory (a map from addresses), so that
      a dangling pointer is the fault \<open>UB\<close>. \<open>EventQueue\<close>: the specification (two lists, notified and
      waiting, and the set of listeners not in the list) and the refinement \<open>refines\<close> of every
      operation. \<open>EventApi\<close>: an event under arbitrary clients, and its simulation by the queue.
    \<^item> \<open>Async\<close>: the loop of every \<open>async fn\<close> of the crate (try, listen, wait, try again) as the record
      \<open>wait_fn\<close> and the locales \<open>wait_loop\<close> and \<open>handoff\<close>, in which polls and drops of futures are
      specified once.
    \<^item> \<open>MutexLock\<close>, \<open>SemaphoreLock\<close>, \<open>ReadWriteLock\<close>, \<open>OnceLock\<close>, \<open>BarrierLock\<close>: the files of \<open>src/lock\<close>, one
      system each: a lock, its guards and its futures, with operations in any order.
    \<^item> \<open>Handover\<close>: items as tags, shared by \<open>ChannelModel\<close> (\<open>src/channel.rs\<close>) and the executor.
    \<^item> \<open>Executor\<close>: the operations of \<open>src/executor.rs\<close>; \<open>ExecutorLaws\<close>: what each does to the tasks,
      the tickers and the wakers; \<open>ExecutorSystem\<close>: an executor with any number of tickers;
      \<open>ExecutorDrop\<close>: its drop; \<open>MainstreamRace\<close>: the single operations of several threads on its shared
      queue.
    \<^item> \<open>TaskWorld\<close>: tasks of one executor that share an object: the system of the executor and that of the object
      composed through the wakers of the tasks (\<open>async_task\<close> as the locale \<open>tasks\<close>, the object as the locale
      \<open>client\<close>). \<open>MutexTasks\<close>, \<open>LockTasks\<close> (semaphore and barrier), \<open>RwLockTasks\<close>, \<open>OnceTasks\<close> and
      \<open>ChannelTasks\<close>: its instances, one for every object of the crate.
    \<^item> \<open>Bytes\<close>: what the programs use of Rust's strings and integers: decimal numbers, UTF-8, ASCII case, big-endian
      words. \<open>TcpExample\<close>: \<open>examples/tcp_server.rs\<close> and \<open>tcp_client.rs\<close> as a system over the channel.
    \<^item> \<open>HttpServers\<close>: \<open>handle_connection\<close> of the ten \<open>comparisons\<close>; \<open>HttpLaws\<close>: what the handlers rely on (the locale
      \<open>http_io\<close>: the streams) and how they read a request; \<open>HttpAnswers\<close>: what they answer (the locale \<open>http_parser\<close>:
      \<open>httparse\<close> on well-formed requests); \<open>HttpProperties\<close>: streams of lists that satisfy both, and the properties;
      \<open>ServerMain\<close>: the main functions of \<open>unsend-hello\<close> and \<open>unsend-lock\<close>: the accept loop inside \<open>Executor::run\<close>, the
      tasks of the connections as tasks of \<open>TaskWorld\<close>, the panic of a handler and the end of the process.
    \<^item> \<open>Tests\<close>, \<open>ExecutorTests\<close>: the unit tests of the crate as scripts, run on the model.

  \<^bold>\<open>State and operations.\<close> A struct is a record, an enum a datatype, a method a function that returns the
  updated struct, the wakers it wakes and its result, or a fault. An \<open>async fn\<close> is its state machine: a
  datatype of the points where it is suspended and a function for one poll and one for its drop. A
  system keeps the futures in a map from the address of their listener, and logs (wakers woken, items sent and
  received, guards given out) that the properties speak about; \<open>enabled\<close> says what Rust's types and
  pinning guarantee (no poll after completion, a fresh and non-null address for a new listener). The
  arithmetic of \<open>usize\<close> is on natural numbers with the overflow checks written out.

  \<^bold>\<open>What is shown.\<close> For every component: no operation panics, overflows or touches freed memory in any
  reachable state (\<open>event_no_fault\<close>, \<open>clients_no_fault\<close>, \<open>exec_no_fault\<close>); the event implements its
  queue (\<open>event_refines_queue\<close>); exclusion and conservation for locks, permits, items and tasks; that no wakeup is
  lost where that holds (\<open>mutex_no_lost_wakeup\<close>, \<open>sem_no_deadlock\<close>, \<open>rw_hands_over\<close>, \<open>once_no_lost_wakeup\<close>,
  \<open>exec_no_lost_wakeup\<close>, \<open>race_no_lost_wakeup\<close>), also across an object and the executor, from the operation that
  notifies to the runner that polls the task (\<open>lock_tasks_progress\<close>, \<open>sem_tasks_progress\<close>, \<open>barrier_tasks_released\<close>,
  \<open>rw_tasks_handed\<close>, \<open>once_tasks_served\<close>, \<open>chan_tasks_progress\<close>, \<open>lock_tasks_safe\<close>); for the programs, what they answer and log and when they panic
  (\<open>tcp_exchange\<close>, \<open>tcp_log\<close>, \<open>tcp_panics\<close>, \<open>http_answers\<close>, \<open>http_request\<close>, \<open>http_visitors\<close>, \<open>servers_serve\<close>, \<open>server_stopped\<close>); and what is lost where
  something is: wakeups and items when a notification finds another one pending (\<open>sem_release\<close>, \<open>chan_send\<close>), when a future
  or a runner that has been notified is dropped (\<open>event_drop\<close>, \<open>chan_cancel\<close>, \<open>exec_cancel\<close>), by writers that wait
  for writers (\<open>rw_writers_stuck\<close>), and when an executor is dropped (\<open>executor_drop\<close>, \<open>executor_drop_panics\<close>).

  \<^bold>\<open>Restrictions of the clients.\<close> \<open>chan_fifo\<close> and \<open>chan_tasks_progress\<close> are about a channel with one consumer that does one
  thing at a time (\<open>chan_single\<close>: a \<open>recv\<close> or \<open>try_recv\<close> starts only when no \<open>recv\<close> is pending; any may be
  cancelled at any time); \<open>rw_writers_stuck\<close> about a lock that nobody reads (\<open>rw_write_only\<close>); the executor is run by wakers
  that are not those of its own tasks, and a runner is not dropped in the middle of a poll (\<open>exec_enabled\<close>), but by the panic of
  a handler (\<open>close_down\<close>).

  \<^bold>\<open>Bounds.\<close> A loop of a poll runs at most twice between two suspensions, because a listener that has been unlinked
  is pending at its next poll: \<open>poll_fuel\<close> is 2, and the properties show that no reachable poll
  runs out of it. The loop of \<open>notify\<close> and that of \<open>Executor::drop\<close> over the queues have measures (the count, the
  length of the local queue: \<open>drop_queues_ends\<close>). A waker can call the scheduler from inside the scheduler; \<open>sched_fuel\<close> is 3,
  and in reachable states the depth is 1. The handles of a channel are fewer than \<open>usize::MAX\<close> when one is cloned (\<open>chan_enabled\<close>). The loop that reads the head of a request may not end (\<open>read_head\<close> is a
  \<open>partial_function\<close>); it does on a finite input, since every turn takes a byte from it.

  \<^bold>\<open>Code that is not here.\<close> The crates \<open>concurrent_queue\<close>, \<open>atomic_waker\<close>, \<open>slab\<close> and \<open>async_task\<close> are
  the parameter \<open>externs\<close>; the locale \<open>crates\<close> states their documented behaviour, and the lists of
  \<open>list_crates\<close> satisfy it. \<open>futures_lite\<close>'s \<open>or\<close>, \<open>poll_fn\<close> and \<open>poll_once\<close> are written out at their uses
  (the first future is polled first). The setter future of a cell, the tasks of an executor and the
  functions given to \<open>tag_with\<close> are parameters or steps of the environment. Of the programs, the connections and the parser are
  the parameter \<open>http\<close>; sockets and files of the TCP server give the results of its steps, and \<open>blocking::Unblock\<close>, which
  wraps its file, is the pipe that its documentation describes.

  \<^bold>\<open>Not modelled.\<close> Wakers that call back into the event that wakes them (only the executor's borrow flags
  see that, in \<open>nested_run_panics\<close>); \<open>mem::forget\<close> of a future or guard; reference counts; what a
  task computes, the cancellation of a task by its handle (in \<open>TaskWorld\<close> it is a wakeup and a run that drops the futures and completes), and, outside of \<open>TaskWorld\<close>, wakers of tasks that are
  running or finished; memory orderings weaker than interleaving;
  \<open>Debug\<close> implementations; \<open>src/lib.rs\<close>, which only re-exports; the main functions of the servers on smol and tokio,
  whose executors are not in the repository; the script that times the servers.
\<close>

section \<open>All clients of the event\<close>

text \<open>
  C35: No operation of a lock, a cell, a barrier or a channel panics (no \<open>unwrap\<close> or
  \<open>expect\<close> fails and no counter overflows), touches freed memory or loops, whatever the
  interleaving of calls, polls and cancellations: in every reachable state each enabled operation returns.
  (A barrier before the last value of its generation counter; setters of a cell that do not panic; a channel with
  fewer than \<open>usize::MAX\<close> senders, or receivers, when one is cloned.)
\<close>

theorem clients_no_fault:
  shows "(mutex_reach d s1 \<and> mutex_enabled op1 s1 \<longrightarrow> (\<exists>s'. mutex_exec op1 s1 = Inr s')) \<and>
    (sem_reach p s2 \<and> sem_enabled op2 s2 \<longrightarrow> (\<exists>s'. sem_exec op2 s2 = Inr s')) \<and>
    (rw_reach d s3 \<and> rw_enabled op3 s3 \<longrightarrow> (\<exists>s'. rw_exec op3 s3 = Inr s')) \<and>
    (barrier_reach n s4 \<and> barrier_enabled op4 s4 \<longrightarrow> (\<exists>s'. barrier_exec op4 s4 = Inr s')) \<and>
    (chan_reach s5 \<and> chan_enabled op5 s5 \<longrightarrow> (\<exists>s'. chan_exec op5 s5 = Inr s')) \<and>
    (setter_ok sp sok \<and> once_reach sp sok v s6 \<and> once_enabled sok op6 s6 \<longrightarrow>
       (\<exists>s'. once_exec sp op6 s6 = Inr s'))"
  using mutex_no_fault [of d s1 op1] sem_no_fault [of p s2 op2] rw_no_fault [of d s3 op3]
    barrier_no_fault [of n s4 op4] chan_no_fault [of s5 op5] once_no_fault [of sp sok v s6 op6]
  by blast

theorem clients_no_fault_witness:
  "(\<exists>s. run mutex_enabled mutex_exec [MTry_lock, MLock 8, MPoll 8 (1 :: nat)] (mutex_init (0 :: nat)) = Some (Inr s) \<and>
     (\<exists>s'. mutex_exec MUnlock s = Inr s')) \<and>
   (\<exists>s. run sem_enabled sem_exec [STry True, SAcquire 8 False, SPoll 8 (1 :: nat)] (sem_init 1) = Some (Inr s) \<and>
     (\<exists>s'. sem_exec (SRelease True) s = Inr s')) \<and>
   (\<exists>s. run rw_enabled rw_exec [RTry_read, RRead 8, RPoll_read 8 (1 :: nat)] (rw_init (0 :: nat)) = Some (Inr s) \<and>
     (\<exists>s'. rw_exec RDrop_read s = Inr s')) \<and>
   (\<exists>s. run barrier_enabled barrier_exec [BWait 8, BPoll 8 (1 :: nat), BWait 16] (barrier_init 2) = Some (Inr s) \<and>
     (\<exists>s'. barrier_exec (BPoll 16 2) s = Inr s')) \<and>
   (\<exists>s. run chan_enabled chan_exec [CRecv 8, CPoll 8 (1 :: nat), CSend (5 :: nat)] chan_init = Some (Inr s) \<and>
     (\<exists>s'. chan_exec CDrop_sender s = Inr s')) \<and>
   (\<exists>s. planned_run [OInit 8 (Waits Gives), OInit 16 (Waits Fails), OPoll 8 1, OPoll 16 2] = Some (Inr s) \<and>
     (\<exists>s'. once_exec planned (OCancel 8) s = Inr s'))"
proof (intro conjI)
  show "\<exists>s. run mutex_enabled mutex_exec [MTry_lock, MLock 8, MPoll 8 (1 :: nat)] (mutex_init (0 :: nat)) =
      Some (Inr s) \<and> (\<exists>s'. mutex_exec MUnlock s = Inr s')"
  proof (rule after_reach)
    show "after mutex_enabled mutex_exec [MTry_lock, MLock 8, MPoll 8 (1 :: nat)] (mutex_init (0 :: nat))
        (mutex_enabled MUnlock)"
      by (simp add: evals mutex_init_def)
  qed (use clients_no_fault mutex_reach_def in metis)
  show "\<exists>s. run sem_enabled sem_exec [STry True, SAcquire 8 False, SPoll 8 (1 :: nat)] (sem_init 1) =
      Some (Inr s) \<and> (\<exists>s'. sem_exec (SRelease True) s = Inr s')"
  proof (rule after_reach)
    show "after sem_enabled sem_exec [STry True, SAcquire 8 False, SPoll 8 (1 :: nat)] (sem_init 1)
        (sem_enabled (SRelease True))"
      by (simp add: evals)
  qed (use clients_no_fault sem_reach_def in metis)
  show "\<exists>s. run rw_enabled rw_exec [RTry_read, RRead 8, RPoll_read 8 (1 :: nat)] (rw_init (0 :: nat)) =
      Some (Inr s) \<and> (\<exists>s'. rw_exec RDrop_read s = Inr s')"
  proof (rule after_reach)
    show "after rw_enabled rw_exec [RTry_read, RRead 8, RPoll_read 8 (1 :: nat)] (rw_init (0 :: nat))
        (rw_enabled RDrop_read)"
      by (simp add: evals)
  qed (use clients_no_fault rw_reach_def in metis)
  show "\<exists>s. run barrier_enabled barrier_exec [BWait 8, BPoll 8 (1 :: nat), BWait 16] (barrier_init 2) =
      Some (Inr s) \<and> (\<exists>s'. barrier_exec (BPoll 16 2) s = Inr s')"
  proof (rule after_reach)
    show "after barrier_enabled barrier_exec [BWait 8, BPoll 8 (1 :: nat), BWait 16] (barrier_init 2)
        (barrier_enabled (BPoll 16 2))"
      by (simp add: evals)
  qed (use clients_no_fault barrier_reach_def in metis)
  show "\<exists>s. run chan_enabled chan_exec [CRecv 8, CPoll 8 (1 :: nat), CSend (5 :: nat)] chan_init =
      Some (Inr s) \<and> (\<exists>s'. chan_exec CDrop_sender s = Inr s')"
  proof (rule after_reach)
    show "after chan_enabled chan_exec [CRecv 8, CPoll 8 (1 :: nat), CSend (5 :: nat)] chan_init
        (chan_enabled CDrop_sender)"
      by (simp add: evals)
  qed (use clients_no_fault chan_reach_def in metis)
  show "\<exists>s. planned_run [OInit 8 (Waits Gives), OInit 16 (Waits Fails), OPoll 8 1, OPoll 16 2] =
      Some (Inr s) \<and> (\<exists>s'. once_exec planned (OCancel 8) s = Inr s')"
  proof (rule after_reach)
    show "planned_after [OInit 8 (Waits Gives), OInit 16 (Waits Fails), OPoll 8 1, OPoll 16 2]
        (once_enabled (\<lambda>_. True) (OCancel 8))"
      by (simp add: evals)
  qed (use clients_no_fault planned_ok once_reach_def in metis)
qed

end
